(* ===== verification/Prelude.thy ===== *)
theory Prelude
  imports Complex_Main "HOL-Library.Word"
begin

text \<open>
  Shared vocabulary of the development: the machine integer types of the C++ sources, byte
  buffers with positional writes (the model of \<open>memcpy\<close> and of stores through a pointer into an
  array), little-endian loads and stores, two's-complement reduction for \<open>long long\<close>, and the
  theorem collections used by the component theories.
\<close>

unbundle bit_operations_syntax

section \<open>Types and collections\<close>

type_synonym u8 = "8 word"
type_synonym u16 = "16 word"
type_synonym u32 = "32 word"
type_synonym u64 = "64 word"
type_synonym bytes = "u8 list"

named_theorems ring_simps \<open>index arithmetic of the ring buffer\<close>
named_theorems frame_simps \<open>framing layer of the transport\<close>
named_theorems ft_simps \<open>fault-tolerant operators\<close>
named_theorems backup_simps \<open>backup server and recovery\<close>

section \<open>Positional writes into buffers\<close>

text \<open>\<open>blit buf off xs\<close> is \<open>memcpy (buf + off, xs, length xs)\<close>; bytes that would fall behind the
  end of \<open>buf\<close> are not representable and are dropped, so every lemma that relies on a write
  carries the bound.\<close>

definition blit :: "'a list \<Rightarrow> nat \<Rightarrow> 'a list \<Rightarrow> 'a list" where
  "blit buf off xs = take (length buf) (take off buf @ xs @ drop (off + length xs) buf)"

lemma length_blit [simp]: "off + length xs \<le> length buf \<Longrightarrow> length (blit buf off xs) = length buf"
  by (simp add: blit_def)

lemma blit_eq: "off + length xs \<le> length buf \<Longrightarrow>
    blit buf off xs = take off buf @ xs @ drop (off + length xs) buf"
  by (simp add: blit_def)

lemma blit_Nil [simp]: "blit buf off [] = buf"
  by (simp add: blit_def)

lemma take_drop_blit [simp]:
  "off + length xs \<le> length buf \<Longrightarrow> take (length xs) (drop off (blit buf off xs)) = xs"
  by (simp add: blit_eq)

lemma take_blit_before [simp]:
  "off + length xs \<le> length buf \<Longrightarrow> n \<le> off \<Longrightarrow> take n (blit buf off xs) = take n buf"
  by (simp add: blit_eq min_def)

lemma take_blit_upto:
  "off + length xs \<le> length buf \<Longrightarrow> take (off + length xs) (blit buf off xs) = take off buf @ xs"
  by (simp add: blit_eq)

lemma drop_blit_after [simp]:
  "off + length xs \<le> length buf \<Longrightarrow> off + length xs \<le> n \<Longrightarrow> drop n (blit buf off xs) = drop n buf"
  by (simp add: blit_eq)

lemma blit_append:
  assumes "off + length xs + length ys \<le> length buf"
  shows "blit (blit buf off xs) (off + length xs) ys = blit buf off (xs @ ys)"
  using assms by (simp add: blit_eq ac_simps)

lemma nth_blit:
  assumes "off + length xs \<le> length buf" "i < length buf"
  shows "blit buf off xs ! i =
    (if off \<le> i \<and> i < off + length xs then xs ! (i - off) else buf ! i)"
  using assms by (auto simp: blit_eq nth_append)

section \<open>Little-endian loads and stores\<close>

text \<open>The hosts AF-Stream runs on (x86-64) store \<open>uint32_t\<close> and \<open>uint64_t\<close> little-endian;
  \<open>*(uint32_t* )p = v\<close> is a blit of \<open>le_bytes 4 v\<close>.\<close>

fun le_bytes :: "nat \<Rightarrow> 'a::len word \<Rightarrow> bytes" where
  "le_bytes 0 v = []"
| "le_bytes (Suc n) v = ucast v # le_bytes n (drop_bit 8 v)"

fun le_load :: "bytes \<Rightarrow> 'a::len word" where
  "le_load [] = 0"
| "le_load (b # bs) = ucast b OR push_bit 8 (le_load bs)"

lemma length_le_bytes [simp]: "length (le_bytes n v) = n"
  by (induction n arbitrary: v) auto

lemma le_load_le_bytes_take: "le_load (le_bytes n v) = take_bit (8 * n) (v :: 'a::len word)"
proof (induction n arbitrary: v)
  case (Suc n)
  have "le_load (le_bytes (Suc n) v)
      = (ucast (ucast v :: u8) :: 'a word) OR push_bit 8 (take_bit (8 * n) (drop_bit 8 v))"
    by (simp add: Suc)
  also have "\<dots> = take_bit (8 * Suc n) v"
    by (rule bit_word_eqI) (auto simp: bit_simps)
  finally show ?case .
qed simp

lemma le_load_le_bytes: "LENGTH('a) \<le> 8 * n \<Longrightarrow> le_load (le_bytes n v) = (v :: 'a::len word)"
  by (simp add: le_load_le_bytes_take take_bit_word_eq_self)

lemma bit_le_load: "bit (le_load bs :: 'a::len word) k \<Longrightarrow> k < 8 * length bs"
proof (induction bs arbitrary: k)
  case (Cons b bs)
  show ?case
  proof (cases "k < 8")
    case False
    with Cons.prems have "bit (le_load bs :: 'a word) (k - 8)"
      by (auto simp: bit_simps dest: bit_imp_le_length)
    from Cons.IH [OF this] False show ?thesis by simp
  qed simp
qed simp

lemma le_bytes_le_load: "8 * length bs \<le> LENGTH('a) \<Longrightarrow> le_bytes (length bs) (le_load bs :: 'a::len word) = bs"
proof (induction bs)
  case (Cons b bs)
  have "(ucast (le_load (b # bs) :: 'a word) :: u8) = b"
    using Cons.prems by (intro bit_word_eqI) (auto simp: bit_simps)
  moreover have "drop_bit 8 (le_load (b # bs) :: 'a word) = le_load bs"
    using Cons.prems by (intro bit_word_eqI) (auto simp: bit_simps dest: bit_imp_le_length bit_le_load)
  ultimately show ?case using Cons by simp
qed simp

section \<open>Signed 64-bit values\<close>

text \<open>\<open>long long\<close> values are integers; every C++ operation on them is reduced by \<open>s64\<close>, the
  two's-complement reading of the low 64 bits (what gcc compiles an overflowing operation to).\<close>

definition s64 :: "int \<Rightarrow> int" where
  "s64 x = (x + 2 ^ 63) mod 2 ^ 64 - 2 ^ 63"

definition in_s64 :: "int \<Rightarrow> bool" where
  "in_s64 x \<longleftrightarrow> - (2 ^ 63) \<le> x \<and> x < 2 ^ 63"

lemma s64_id [simp]: "in_s64 x \<Longrightarrow> s64 x = x"
  by (simp add: s64_def in_s64_def)

lemma in_s64_s64 [simp]: "in_s64 (s64 x)"
  unfolding s64_def in_s64_def
  using pos_mod_bound [of "2 ^ 64" "x + 2 ^ 63"] pos_mod_sign [of "2 ^ 64" "x + 2 ^ 63"] by auto

lemma s64_zero [simp]: "s64 0 = 0"
  by (simp add: s64_def)

lemma in_s64_zero [simp]: "in_s64 0"
  by (simp add: in_s64_def)

lemma s64_mod: "s64 x = s64 y \<longleftrightarrow> x mod 2 ^ 64 = y mod 2 ^ 64"
  by (simp add: s64_def mod_eq_dvd_iff)

lemma s64_mod_self: "s64 x mod 2 ^ 64 = x mod 2 ^ 64"
  by (simp add: s64_def mod_diff_left_eq)

lemma s64_add: "s64 (s64 x + y) = s64 (x + y)"
  unfolding s64_mod by (metis mod_add_left_eq s64_mod_self)

lemma s64_diff: "s64 (s64 x - y) = s64 (x - y)"
  unfolding s64_mod by (metis mod_diff_left_eq s64_mod_self)

section \<open>Lists\<close>

lemma take_Suc_drop: "i < length xs \<Longrightarrow> drop i xs = xs ! i # drop (Suc i) xs"
  by (simp add: Cons_nth_drop_Suc)

lemma append_eq_longer:
  "a @ b = c @ d \<Longrightarrow> length c \<le> length a \<Longrightarrow> \<exists>r. a = c @ r \<and> d = r @ b"
  by (auto simp: append_eq_append_conv2)

lemma append_eq_shorter:
  "a @ b = c @ d \<Longrightarrow> length a < length c \<Longrightarrow> \<exists>r. c = a @ r \<and> r \<noteq> [] \<and> b = r @ d"
  by (auto simp: append_eq_append_conv2)

lemma sum_upd:
  fixes g :: "nat \<Rightarrow> int"
  assumes "i < n"
  shows "(\<Sum>j<n. if j = i then a else g j) = (\<Sum>j<n. g j) - g i + a"
proof -
  have "(\<Sum>j<n. if j = i then a else g j) = a + (\<Sum>j\<in>{..<n} - {i}. if j = i then a else g j)"
    using assms by (subst sum.remove [of _ i]) auto
  also have "(\<Sum>j\<in>{..<n} - {i}. if j = i then a else g j) = (\<Sum>j\<in>{..<n} - {i}. g j)"
    by (rule sum.cong) auto
  also have "\<dots> = (\<Sum>j<n. g j) - g i"
    using assms by (subst sum.remove [of "{..<n}" i g]) auto
  finally show ?thesis by simp
qed

lemma unat_of_nat_u32: "n < 2 ^ 32 \<Longrightarrow> unat (of_nat n :: u32) = n"
  by (simp add: unsigned_of_nat take_bit_nat_eq_self)

end
