(* ===== verification/Ft_Operators.thy ===== *)
theory Ft_Operators
  imports Prelude
begin

text \<open>
  The fault-tolerant operators of \<open>src/operator\<close>: arrays of \<open>long long\<close> counters that keep a second
  array with the values last sent to the backup server, and a divergence between the two
  (\<open>array_max.hpp\<close>, \<open>array_l1.hpp\<close>, \<open>array_l2.hpp\<close>). \<open>SerializeState\<close> emits one entry, the one that
  has diverged most, and \<open>RecoveryState\<close> installs an entry in a new instance. An index outside the
  array is undefined behaviour in the code and the value \<open>None\<close> here.

  The locale \<open>ft_array\<close> is the contract of \<open>FTInterface\<close> that backup and recovery rely on. Inside
  it: replaying the latest entry per key into a fresh instance reconstructs the backup array of the
  lost one. It is interpreted on all three operators.
\<close>

section \<open>Backup entries\<close>

definition MAX_BACKUP_ITEM_DATA_LEN :: nat where "MAX_BACKUP_ITEM_DATA_LEN = 256"

record backup_data =
  bd_len :: u32
  bd_key :: u64
  bd_data :: bytes

definition bd_ok :: "backup_data \<Rightarrow> bool" where
  "bd_ok bd \<longleftrightarrow> length (bd_data bd) = MAX_BACKUP_ITEM_DATA_LEN"

text \<open>The stores at the start of every \<open>SerializeState\<close>: length, key, index and value.\<close>

definition put_entry :: "nat \<Rightarrow> int \<Rightarrow> backup_data \<Rightarrow> backup_data" where
  "put_entry i v bd = bd\<lparr>bd_len := 4 + 8, bd_key := of_nat i,
     bd_data := blit (blit (bd_data bd) 0 (le_bytes 4 (of_nat i :: u32)))
                  4 (le_bytes 8 (word_of_int v :: u64))\<rparr>"

text \<open>The loads of every \<open>RecoveryState\<close>: \<open>unsigned int index = key\<close> and the value behind it.\<close>

definition entry_index :: "backup_data \<Rightarrow> nat" where
  "entry_index bd = unat (ucast (bd_key bd) :: u32)"

definition entry_value :: "backup_data \<Rightarrow> int" where
  "entry_value bd = sint (le_load (take 8 (drop 4 (bd_data bd))) :: u64)"

text \<open>Shape of the entries \<open>SerializeState\<close> produces.\<close>

definition entry_ok :: "backup_data \<Rightarrow> bool" where
  "entry_ok bd \<longleftrightarrow> bd_ok bd \<and> bd_len bd = 12 \<and> unat (bd_key bd) = entry_index bd"

lemma sint_word_of_int64: "in_s64 v \<Longrightarrow> sint (word_of_int v :: u64) = v"
  by (simp add: in_s64_def signed_of_int signed_take_bit_int_eq_self)

lemma put_entry_roundtrip:
  assumes "bd_ok bd" "i < 2 ^ 32" "in_s64 v"
  shows "entry_index (put_entry i v bd) = i" "entry_value (put_entry i v bd) = v"
    "entry_ok (put_entry i v bd)"
proof -
  let ?b = "blit (bd_data bd) 0 (le_bytes 4 (of_nat i :: u32))"
  have len: "length ?b = 256" using assms(1) by (simp add: bd_ok_def MAX_BACKUP_ITEM_DATA_LEN_def)
  have "take 8 (drop 4 (blit ?b 4 (le_bytes 8 (word_of_int v :: u64)))) = le_bytes 8 (word_of_int v :: u64)"
    using take_drop_blit [of 4 "le_bytes 8 (word_of_int v :: u64)" ?b] len by simp
  then show "entry_value (put_entry i v bd) = v"
    using assms(3) by (simp add: entry_value_def put_entry_def le_load_le_bytes sint_word_of_int64)
  have "bd_ok (put_entry i v bd)" using len by (simp add: bd_ok_def put_entry_def MAX_BACKUP_ITEM_DATA_LEN_def)
  moreover show ix: "entry_index (put_entry i v bd) = i"
    using assms(2) by (simp add: entry_index_def put_entry_def unsigned_of_nat take_bit_nat_eq_self)
  moreover have "bd_len (put_entry i v bd) = 12" "unat (bd_key (put_entry i v bd)) = i"
    using assms(2) by (simp_all add: put_entry_def unsigned_of_nat take_bit_nat_eq_self)
  ultimately show "entry_ok (put_entry i v bd)" by (simp add: entry_ok_def)
qed

section \<open>Replaying entries\<close>

text \<open>What a list of entries, oldest first, does to an array.\<close>

definition apply_entries :: "backup_data list \<Rightarrow> int list \<Rightarrow> int list" where
  "apply_entries its xs = fold (\<lambda>it xs. xs[entry_index it := entry_value it]) its xs"

definition entry_kv :: "backup_data \<Rightarrow> nat \<times> int" where
  "entry_kv it = (entry_index it, entry_value it)"

text \<open>\<open>latest its' its\<close>: \<open>its'\<close> has one entry per index that occurs in \<open>its\<close>, the last one.\<close>

definition latest :: "backup_data list \<Rightarrow> backup_data list \<Rightarrow> bool" where
  "latest its' its \<longleftrightarrow>
     distinct (map entry_index its') \<and> map_of (map entry_kv its') = map_of (rev (map entry_kv its))"

lemma length_apply [simp]: "length (apply_entries its xs) = length xs"
  by (induction its arbitrary: xs) (auto simp: apply_entries_def)

lemma apply_Cons: "apply_entries (it # its) xs = apply_entries its (xs[entry_index it := entry_value it])"
  by (simp add: apply_entries_def)

lemma apply_nth:
  "k < length xs \<Longrightarrow> apply_entries its xs ! k =
     (case map_of (rev (map entry_kv its)) k of None \<Rightarrow> xs ! k | Some v \<Rightarrow> v)"
proof (induction its arbitrary: xs)
  case (Cons it its)
  then show ?case
    by (auto simp: apply_Cons entry_kv_def map_add_def nth_list_update split: option.splits)
qed (simp add: apply_entries_def)

lemma latest_indices: "latest its' its \<Longrightarrow> entry_index ` set its' = entry_index ` set its"
proof -
  assume "latest its' its"
  then have "dom (map_of (map entry_kv its')) = dom (map_of (rev (map entry_kv its)))"
    by (simp add: latest_def)
  then show ?thesis by (simp add: dom_map_of_conv_image_fst image_image entry_kv_def)
qed

lemma apply_latest:
  assumes "latest its' its"
  shows "apply_entries its' xs = apply_entries its xs"
proof (rule nth_equalityI)
  have "distinct (map fst (map entry_kv its'))"
    using assms by (simp add: latest_def entry_kv_def comp_def)
  then have "map_of (rev (map entry_kv its')) = map_of (map entry_kv its')"
    by (metis map_of_eqI map_of_inject_set distinct_rev rev_map set_map set_rev)
  then show "apply_entries its' xs ! k = apply_entries its xs ! k"
    if "k < length (apply_entries its' xs)" for k
    using that assms by (simp add: apply_nth latest_def)
qed simp

section \<open>The contract\<close>

datatype ft_op = Upd nat int | Ser backup_data

text \<open>A run of an operator and the entries it has sent, oldest first. The argument of \<open>Ser\<close> is the
  buffer the compute thread passes to \<open>SerializeState\<close>, with whatever an earlier backup left in it.\<close>

fun ft_run :: "(nat \<Rightarrow> int \<Rightarrow> 's \<Rightarrow> 's option) \<Rightarrow> (backup_data \<Rightarrow> 's \<Rightarrow> (backup_data \<times> 's) option) \<Rightarrow>
    ft_op list \<Rightarrow> 's \<Rightarrow> ('s \<times> backup_data list) option" where
  "ft_run upd ser [] s = Some (s, [])"
| "ft_run upd ser (Upd i v # os) s =
     (case upd i v s of None \<Rightarrow> None | Some s' \<Rightarrow> ft_run upd ser os s')"
| "ft_run upd ser (Ser bd # os) s =
     (case ser bd s of
        None \<Rightarrow> None
      | Some (it, s') \<Rightarrow>
          (case ft_run upd ser os s' of
             None \<Rightarrow> None
           | Some (s'', its) \<Rightarrow> Some (s'', it # its)))"

text \<open>Counters within \<open>\<plusminus>B\<close> and 64 bits, buffers of the right size.\<close>

fun ops_ok :: "int \<Rightarrow> ft_op list \<Rightarrow> bool" where
  "ops_ok B [] = True"
| "ops_ok B (Upd i v # os) = (in_s64 v \<and> \<bar>v\<bar> \<le> B \<and> ops_ok B os)"
| "ops_ok B (Ser bd # os) = (bd_ok bd \<and> ops_ok B os)"

fun ft_replay :: "(backup_data \<Rightarrow> 's \<Rightarrow> 's option) \<Rightarrow> backup_data list \<Rightarrow> 's \<Rightarrow> 's option" where
  "ft_replay recov [] s = Some s"
| "ft_replay recov (it # its) s =
     (case recov it s of None \<Rightarrow> None | Some s' \<Rightarrow> ft_replay recov its s')"

locale ft_array =
  fixes fresh :: "nat \<Rightarrow> 's"
    and upd :: "nat \<Rightarrow> int \<Rightarrow> 's \<Rightarrow> 's option"
    and ser :: "backup_data \<Rightarrow> 's \<Rightarrow> (backup_data \<times> 's) option"
    and recov :: "backup_data \<Rightarrow> 's \<Rightarrow> 's option"
    and live :: "'s \<Rightarrow> int list"
    and saved :: "'s \<Rightarrow> int list"
    and ok :: "'s \<Rightarrow> bool"
  assumes fresh_ok: "n < 2 ^ 32 \<Longrightarrow> ok (fresh n) \<and> live (fresh n) = replicate n 0 \<and> saved (fresh n) = replicate n 0"
    and upd_step: "ok s \<Longrightarrow> upd i v s = Some s' \<Longrightarrow> in_s64 v \<Longrightarrow>
      ok s' \<and> live s' = (live s)[i := v] \<and> saved s' = saved s"
    and ser_step: "ok s \<Longrightarrow> bd_ok bd \<Longrightarrow> ser bd s = Some (it, s') \<Longrightarrow>
      ok s' \<and> live s' = live s \<and> entry_ok it \<and> entry_index it < length (saved s) \<and>
      saved s' = (saved s)[entry_index it := entry_value it]"
    and recov_step: "ok s \<Longrightarrow> entry_index it < length (saved s) \<Longrightarrow>
      \<exists>s'. recov it s = Some s' \<and> ok s' \<and> saved s' = (saved s)[entry_index it := entry_value it] \<and>
        live s' = (live s)[entry_index it := entry_value it]"
begin

lemma ft_run_induct [case_names 1 2 3]:
  assumes "\<And>s. P [] s"
    "\<And>i v os s. (\<And>s'. upd i v s = Some s' \<Longrightarrow> P os s') \<Longrightarrow> P (Upd i v # os) s"
    "\<And>bd os s. (\<And>it s'. ser bd s = Some (it, s') \<Longrightarrow> P os s') \<Longrightarrow> P (Ser bd # os) s"
  shows "P os s"
proof (induction os arbitrary: s)
  case (Cons a os)
  then show ?case using assms(2,3) by (cases a) auto
qed (rule assms(1))

lemma run_saved:
  assumes "ok s" "ops_ok B os" "ft_run upd ser os s = Some (s', its)"
  shows "ok s' \<and> saved s' = apply_entries its (saved s) \<and>
    (\<forall>it\<in>set its. entry_ok it \<and> entry_index it < length (saved s))"
  using assms
proof (induction os s arbitrary: s' its rule: ft_run_induct)
  case (1 s)
  then show ?case by (simp add: apply_entries_def)
next
  case (2 i v os s)
  then obtain s1 where r: "upd i v s = Some s1" "ft_run upd ser os s1 = Some (s', its)"
    by (auto split: option.splits)
  have v: "in_s64 v" "ops_ok B os" using "2.prems"(2) by auto
  have st: "ok s1" "saved s1 = saved s" using upd_step [OF "2.prems"(1) r(1) v(1)] by auto
  from "2.IH" [OF r(1) st(1) v(2) r(2)] st(2) show ?case by simp
next
  case (3 bd os s)
  then obtain it s1 its1 where r: "ser bd s = Some (it, s1)" "ft_run upd ser os s1 = Some (s', its1)"
    "its = it # its1" by (auto split: option.splits)
  have v: "bd_ok bd" "ops_ok B os" using "3.prems"(2) by auto
  note st = ser_step [OF "3.prems"(1) v(1) r(1)]
  then have "ok s1" by simp
  from "3.IH" [OF r(1) this v(2) r(2)] st r(3) show ?case by (simp add: apply_Cons)
qed

lemma replay_entries:
  assumes "ok s" "\<forall>it\<in>set its. entry_index it < length (saved s)"
  shows "\<exists>s'. ft_replay recov its s = Some s' \<and> ok s' \<and> saved s' = apply_entries its (saved s) \<and>
    live s' = apply_entries its (live s)"
  using assms
proof (induction its arbitrary: s)
  case (Cons it its)
  from recov_step [OF Cons.prems(1), of it] Cons.prems(2) obtain s1 where
    s1: "recov it s = Some s1" "ok s1" "saved s1 = (saved s)[entry_index it := entry_value it]"
    "live s1 = (live s)[entry_index it := entry_value it]" by auto
  from Cons.IH [OF s1(2)] Cons.prems(2) s1 show ?case by (auto simp: apply_Cons)
qed (simp add: apply_entries_def)

lemma recovery:
  assumes "n < 2 ^ 32" "ops_ok B os" "ft_run upd ser os (fresh n) = Some (s, its)" "latest its' its"
  shows "\<exists>r. ft_replay recov its' (fresh n) = Some r \<and> ok r \<and> live r = saved s \<and> saved r = saved s"
proof -
  note f = fresh_ok [OF assms(1)]
  then have rs: "saved s = apply_entries its (replicate n 0)" "\<forall>it\<in>set its. entry_index it < n"
    using run_saved [OF _ assms(2,3)] by auto
  have "\<forall>it\<in>set its'. entry_index it < length (saved (fresh n))"
    using rs(2) f latest_indices [OF assms(4)] by (metis image_iff length_replicate)
  from replay_entries [OF _ this] f rs(1) apply_latest [OF assms(4)] show ?thesis by auto
qed

end

section \<open>NumericArray_MAX\<close>

record max_array =
  marr :: "int list"
  mbak :: "int list"
  mdiff :: int
  mdiff_index :: nat

definition NumericArray_MAX :: "nat \<Rightarrow> max_array" where
  "NumericArray_MAX l =
     \<lparr>marr = replicate l 0, mbak = replicate l 0, mdiff = 0, mdiff_index = 0\<rparr>"

definition max_UpdateValue :: "nat \<Rightarrow> int \<Rightarrow> max_array \<Rightarrow> max_array option" where
  "max_UpdateValue index value s =
     (if index < length (marr s) then
        (let s1 = s\<lparr>marr := (marr s)[index := value]\<rparr>;
             d = s64 (value - mbak s ! index)
         in Some (if d > mdiff s then s1\<lparr>mdiff := d, mdiff_index := index\<rparr> else s1))
      else None)"

definition max_GetValue :: "nat \<Rightarrow> max_array \<Rightarrow> int option" where
  "max_GetValue index s = (if index < length (marr s) then Some (marr s ! index) else None)"

definition max_Clear :: "max_array \<Rightarrow> max_array" where
  "max_Clear s =
     s\<lparr>marr := replicate (length (marr s)) 0, mbak := replicate (length (mbak s)) 0, mdiff := 0\<rparr>"

definition max_CalculateDivergence :: "max_array \<Rightarrow> int" where
  "max_CalculateDivergence s = mdiff s"

definition max_SerializeState :: "backup_data \<Rightarrow> max_array \<Rightarrow> (backup_data \<times> max_array) option" where
  "max_SerializeState bd s =
     (let i = mdiff_index s in
      if i < length (marr s)
      then Some (put_entry i (marr s ! i) bd,
                 s\<lparr>mbak := (mbak s)[i := marr s ! i], mdiff_index := 0, mdiff := 0\<rparr>)
      else None)"

definition max_RecoveryState :: "backup_data \<Rightarrow> max_array \<Rightarrow> max_array option" where
  "max_RecoveryState bd s =
     (let i = entry_index bd in
      if i < length (marr s)
      then Some (s\<lparr>mbak := (mbak s)[i := entry_value bd], marr := (marr s)[i := entry_value bd]\<rparr>)
      else None)"

definition arrays_ok :: "int list \<Rightarrow> int list \<Rightarrow> bool" where
  "arrays_ok a b \<longleftrightarrow> length a = length b \<and> length a < 2 ^ 32 \<and>
     (\<forall>v\<in>set a. in_s64 v) \<and> (\<forall>v\<in>set b. in_s64 v)"

definition max_ok :: "max_array \<Rightarrow> bool" where
  "max_ok s \<longleftrightarrow> arrays_ok (marr s) (mbak s) \<and> mdiff s \<ge> 0 \<and>
     (mdiff_index s < length (marr s) \<or> mdiff_index s = 0)"

lemma in_s64_sint [simp]: "in_s64 (entry_value bd)"
  using sint_greater_eq [of "le_load (take 8 (drop 4 (bd_data bd))) :: u64"]
    sint_less [of "le_load (take 8 (drop 4 (bd_data bd))) :: u64"]
  by (simp add: in_s64_def entry_value_def)

lemma arrays_ok_replicate [ft_simps]: "n < 2 ^ 32 \<Longrightarrow> arrays_ok (replicate n 0) (replicate n 0)"
  by (auto simp: arrays_ok_def)

lemma arrays_ok_update [ft_simps]:
  "arrays_ok a b \<Longrightarrow> in_s64 v \<Longrightarrow> arrays_ok (a[i := v]) b"
  "arrays_ok a b \<Longrightarrow> in_s64 v \<Longrightarrow> arrays_ok a (b[i := v])"
  by (auto simp: arrays_ok_def dest!: set_update_subset_insert [THEN subsetD])

lemma arrays_ok_nth: "arrays_ok a b \<Longrightarrow> i < length a \<Longrightarrow> in_s64 (a ! i) \<and> in_s64 (b ! i) \<and> i < 2 ^ 32"
  by (auto simp: arrays_ok_def)

lemma ser_entry:
  assumes "arrays_ok a b" "i < length a" "bd_ok bd" "it = put_entry i (a ! i) bd"
  shows "entry_index it = i" "entry_value it = a ! i" "i < length b" "entry_ok it"
  using put_entry_roundtrip [OF assms(3)] arrays_ok_nth [OF assms(1,2)] assms by (auto simp: arrays_ok_def)

interpretation maxa: ft_array NumericArray_MAX max_UpdateValue max_SerializeState max_RecoveryState
  marr mbak max_ok
proof unfold_locales
  fix s s' :: max_array and i :: nat and v :: int and bd it :: backup_data
  show "n < 2 ^ 32 \<Longrightarrow> max_ok (NumericArray_MAX n) \<and> marr (NumericArray_MAX n) = replicate n 0 \<and>
      mbak (NumericArray_MAX n) = replicate n 0" for n
    by (simp add: max_ok_def NumericArray_MAX_def arrays_ok_replicate)
  show "max_ok s \<Longrightarrow> max_UpdateValue i v s = Some s' \<Longrightarrow> in_s64 v \<Longrightarrow>
      max_ok s' \<and> marr s' = (marr s)[i := v] \<and> mbak s' = mbak s"
    by (auto simp: max_ok_def max_UpdateValue_def Let_def ft_simps split: if_splits)
  show "max_ok s' \<and> marr s' = marr s \<and> entry_ok it \<and> entry_index it < length (mbak s) \<and>
      mbak s' = (mbak s)[entry_index it := entry_value it]"
    if "max_ok s" "bd_ok bd" "max_SerializeState bd s = Some (it, s')"
  proof -
    let ?i = "mdiff_index s"
    have i: "?i < length (marr s)" "it = put_entry ?i (marr s ! ?i) bd"
      "s' = s\<lparr>mbak := (mbak s)[?i := marr s ! ?i], mdiff_index := 0, mdiff := 0\<rparr>"
      using that(3) by (auto simp: max_SerializeState_def Let_def split: if_splits)
    have a: "arrays_ok (marr s) (mbak s)" using that(1) by (simp add: max_ok_def)
    note e = ser_entry [OF a i(1) that(2) i(2)]
    have "arrays_ok (marr s') (mbak s')"
      using arrays_ok_nth [OF a i(1)] a i(3) by (simp add: arrays_ok_update)
    with e i show ?thesis by (auto simp: max_ok_def)
  qed
  show "\<exists>s'. max_RecoveryState it s = Some s' \<and> max_ok s' \<and>
      mbak s' = (mbak s)[entry_index it := entry_value it] \<and>
      marr s' = (marr s)[entry_index it := entry_value it]"
    if "max_ok s" "entry_index it < length (mbak s)"
    using that by (auto simp: max_RecoveryState_def Let_def max_ok_def ft_simps arrays_ok_def [of "marr s"]
        intro!: arrays_ok_update)
qed

section \<open>NumericArray_L1 and NumericArray_L2\<close>

text \<open>The two classes differ in the distance of two entries only: \<open>df\<close> is \<open>abs (a - b)\<close> in one and
  \<open>sqr (a - b)\<close> in the other.\<close>

record sum_array =
  sarr :: "int list"
  sbak :: "int list"
  tot_diff :: int

definition l1_dist :: "int \<Rightarrow> int \<Rightarrow> int" where
  "l1_dist a b = s64 \<bar>s64 (a - b)\<bar>"

definition l2_dist :: "int \<Rightarrow> int \<Rightarrow> int" where
  "l2_dist a b = s64 (s64 (a - b) * s64 (a - b))"

text \<open>The constructors allocate \<open>length\<close> elements without having initialised \<open>length\<close> (\<open>junk\<close>) from
  the argument \<open>l\<close>.\<close>

definition NumericArray_L1 :: "nat \<Rightarrow> nat \<Rightarrow> sum_array" where
  "NumericArray_L1 junk l = \<lparr>sarr = replicate junk 0, sbak = replicate junk 0, tot_diff = 0\<rparr>"

definition NumericArray_L2 :: "nat \<Rightarrow> nat \<Rightarrow> sum_array" where
  "NumericArray_L2 junk l = \<lparr>sarr = replicate junk 0, sbak = replicate junk 0, tot_diff = 0\<rparr>"

definition sum_UpdateValue :: "(int \<Rightarrow> int \<Rightarrow> int) \<Rightarrow> nat \<Rightarrow> int \<Rightarrow> sum_array \<Rightarrow> sum_array option" where
  "sum_UpdateValue df index value s =
     (if index < length (sarr s) then
        (let old_diff = df (sarr s ! index) (sbak s ! index);
             new_diff = df value (sbak s ! index)
         in Some (s\<lparr>tot_diff := s64 (s64 (tot_diff s - old_diff) + new_diff),
                     sarr := (sarr s)[index := value]\<rparr>))
      else None)"

text \<open>The scan of \<open>SerializeState\<close> over \<open>i = from, from + 1, ...\<close> with the maximum found so far.\<close>

fun max_diff_scan :: "(int \<Rightarrow> int \<Rightarrow> int) \<Rightarrow> int list \<Rightarrow> int list \<Rightarrow> nat list \<Rightarrow> nat \<Rightarrow> nat" where
  "max_diff_scan df a b [] m = m"
| "max_diff_scan df a b (i # is) m =
     max_diff_scan df a b is (if df (a ! i) (b ! i) > df (a ! m) (b ! m) then i else m)"

definition sum_SerializeState ::
  "(int \<Rightarrow> int \<Rightarrow> int) \<Rightarrow> backup_data \<Rightarrow> sum_array \<Rightarrow> (backup_data \<times> sum_array) option" where
  "sum_SerializeState df bd s =
     (let m = max_diff_scan df (sarr s) (sbak s) [0..<length (sarr s)] 0 in
      if m < length (sarr s)
      then Some (put_entry m (sarr s ! m) bd,
                 s\<lparr>tot_diff := s64 (tot_diff s - df (sarr s ! m) (sbak s ! m)),
                   sbak := (sbak s)[m := sarr s ! m]\<rparr>)
      else None)"

definition sum_RecoveryState :: "backup_data \<Rightarrow> sum_array \<Rightarrow> sum_array option" where
  "sum_RecoveryState bd s =
     (let i = entry_index bd in
      if i < length (sarr s)
      then Some (s\<lparr>sbak := (sbak s)[i := entry_value bd], sarr := (sarr s)[i := entry_value bd]\<rparr>)
      else None)"

definition sum_Clear :: "sum_array \<Rightarrow> sum_array" where
  "sum_Clear s =
     s\<lparr>sarr := replicate (length (sarr s)) 0, sbak := replicate (length (sbak s)) 0, tot_diff := 0\<rparr>"

definition sum_CalculateDivergence :: "sum_array \<Rightarrow> int" where
  "sum_CalculateDivergence s = tot_diff s"

definition l1_UpdateValue :: "nat \<Rightarrow> int \<Rightarrow> sum_array \<Rightarrow> sum_array option" where
  "l1_UpdateValue = sum_UpdateValue l1_dist"
definition l2_UpdateValue :: "nat \<Rightarrow> int \<Rightarrow> sum_array \<Rightarrow> sum_array option" where
  "l2_UpdateValue = sum_UpdateValue l2_dist"
definition l1_SerializeState :: "backup_data \<Rightarrow> sum_array \<Rightarrow> (backup_data \<times> sum_array) option" where
  "l1_SerializeState = sum_SerializeState l1_dist"
definition l2_SerializeState :: "backup_data \<Rightarrow> sum_array \<Rightarrow> (backup_data \<times> sum_array) option" where
  "l2_SerializeState = sum_SerializeState l2_dist"
definition l1_RecoveryState :: "backup_data \<Rightarrow> sum_array \<Rightarrow> sum_array option" where
  "l1_RecoveryState = sum_RecoveryState"
definition l2_RecoveryState :: "backup_data \<Rightarrow> sum_array \<Rightarrow> sum_array option" where
  "l2_RecoveryState = sum_RecoveryState"

lemmas l1_defs = l1_UpdateValue_def l1_SerializeState_def l1_RecoveryState_def NumericArray_L1_def
lemmas l2_defs = l2_UpdateValue_def l2_SerializeState_def l2_RecoveryState_def NumericArray_L2_def

lemma scan_in: "\<forall>i\<in>set is. i < n \<Longrightarrow> m < n \<Longrightarrow> max_diff_scan df a b is m < n"
  by (induction "is" arbitrary: m) auto

lemma scan_max:
  "df (a ! m) (b ! m) \<le> df (a ! max_diff_scan df a b is m) (b ! max_diff_scan df a b is m) \<and>
   (\<forall>i\<in>set is. df (a ! i) (b ! i) \<le>
      df (a ! max_diff_scan df a b is m) (b ! max_diff_scan df a b is m))"
proof (induction "is" arbitrary: m)
  case (Cons j js)
  let ?m = "if df (a ! j) (b ! j) > df (a ! m) (b ! m) then j else m"
  from Cons [of ?m] show ?case by (cases "df (a ! j) (b ! j) > df (a ! m) (b ! m)") auto
qed simp

definition sum_ok :: "sum_array \<Rightarrow> bool" where
  "sum_ok s \<longleftrightarrow> arrays_ok (sarr s) (sbak s)"

lemma sum_laws:
  shows "n < 2 ^ 32 \<Longrightarrow> sum_ok \<lparr>sarr = replicate n 0, sbak = replicate n 0, tot_diff = 0\<rparr>"
    and "sum_ok s \<Longrightarrow> sum_UpdateValue df i v s = Some s' \<Longrightarrow> in_s64 v \<Longrightarrow>
      sum_ok s' \<and> sarr s' = (sarr s)[i := v] \<and> sbak s' = sbak s"
    and "sum_ok s \<Longrightarrow> bd_ok bd \<Longrightarrow> sum_SerializeState df bd s = Some (it, s') \<Longrightarrow>
      sum_ok s' \<and> sarr s' = sarr s \<and> entry_ok it \<and> entry_index it < length (sbak s) \<and>
      sbak s' = (sbak s)[entry_index it := entry_value it]"
    and "sum_ok s \<Longrightarrow> entry_index it < length (sbak s) \<Longrightarrow>
      \<exists>s'. sum_RecoveryState it s = Some s' \<and> sum_ok s' \<and>
        sbak s' = (sbak s)[entry_index it := entry_value it] \<and>
        sarr s' = (sarr s)[entry_index it := entry_value it]"
proof -
  show "n < 2 ^ 32 \<Longrightarrow> sum_ok \<lparr>sarr = replicate n 0, sbak = replicate n 0, tot_diff = 0\<rparr>"
    by (simp add: sum_ok_def arrays_ok_replicate)
  show "sum_ok s \<Longrightarrow> sum_UpdateValue df i v s = Some s' \<Longrightarrow> in_s64 v \<Longrightarrow>
      sum_ok s' \<and> sarr s' = (sarr s)[i := v] \<and> sbak s' = sbak s"
    by (auto simp: sum_ok_def sum_UpdateValue_def Let_def ft_simps split: if_splits)
  show "sum_ok s' \<and> sarr s' = sarr s \<and> entry_ok it \<and> entry_index it < length (sbak s) \<and>
      sbak s' = (sbak s)[entry_index it := entry_value it]"
    if "sum_ok s" "bd_ok bd" "sum_SerializeState df bd s = Some (it, s')"
  proof -
    define m where "m = max_diff_scan df (sarr s) (sbak s) [0..<length (sarr s)] 0"
    have i: "m < length (sarr s)" "it = put_entry m (sarr s ! m) bd"
      "s' = s\<lparr>tot_diff := s64 (tot_diff s - df (sarr s ! m) (sbak s ! m)),
              sbak := (sbak s)[m := sarr s ! m]\<rparr>"
      using that(3) by (auto simp: sum_SerializeState_def Let_def m_def split: if_splits)
    have a: "arrays_ok (sarr s) (sbak s)" using that(1) by (simp add: sum_ok_def)
    note e = ser_entry [OF a i(1) that(2) i(2)]
    have "arrays_ok (sarr s') (sbak s')"
      using arrays_ok_nth [OF a i(1)] a i(3) by (simp add: arrays_ok_update)
    with e i show ?thesis by (auto simp: sum_ok_def)
  qed
  show "\<exists>s'. sum_RecoveryState it s = Some s' \<and> sum_ok s' \<and>
      sbak s' = (sbak s)[entry_index it := entry_value it] \<and>
      sarr s' = (sarr s)[entry_index it := entry_value it]"
    if "sum_ok s" "entry_index it < length (sbak s)"
    using that by (auto simp: sum_RecoveryState_def Let_def sum_ok_def ft_simps arrays_ok_def [of "sarr s"]
        intro!: arrays_ok_update)
qed

interpretation l1a: ft_array "\<lambda>n. NumericArray_L1 n n" l1_UpdateValue l1_SerializeState l1_RecoveryState
  sarr sbak sum_ok
  unfolding l1_defs
  by unfold_locales (simp add: sum_laws(1), (rule sum_laws(2-4); assumption)+)

interpretation l2a: ft_array "\<lambda>n. NumericArray_L2 n n" l2_UpdateValue l2_SerializeState l2_RecoveryState
  sarr sbak sum_ok
  unfolding l2_defs
  by unfold_locales (simp add: sum_laws(1), (rule sum_laws(2-4); assumption)+)

section \<open>The divergence of the sum operators is exact\<close>

definition total_dist :: "(int \<Rightarrow> int \<Rightarrow> int) \<Rightarrow> int list \<Rightarrow> int list \<Rightarrow> int" where
  "total_dist df a b = (\<Sum>i<length a. df (a ! i) (b ! i))"

definition sum_exact :: "(int \<Rightarrow> int \<Rightarrow> int) \<Rightarrow> sum_array \<Rightarrow> bool" where
  "sum_exact df s \<longleftrightarrow> tot_diff s = s64 (total_dist df (sarr s) (sbak s))"

lemma total_dist_update:
  assumes "i < length a"
  shows "total_dist df (a[i := v]) b = total_dist df a b - df (a ! i) (b ! i) + df v (b ! i)"
proof -
  have "total_dist df (a[i := v]) b =
      (\<Sum>j<length a. if j = i then df v (b ! i) else df (a ! j) (b ! j))"
    unfolding total_dist_def using assms by (intro sum.cong) (auto simp: nth_list_update)
  then show ?thesis
    using sum_upd [OF assms, of "df v (b ! i)" "\<lambda>j. df (a ! j) (b ! j)"] by (simp add: total_dist_def)
qed

lemma total_dist_save:
  assumes "i < length a" "length a = length b"
  shows "total_dist df a (b[i := a ! i]) = total_dist df a b - df (a ! i) (b ! i) + df (a ! i) (a ! i)"
proof -
  have "total_dist df a (b[i := a ! i]) =
      (\<Sum>j<length a. if j = i then df (a ! i) (a ! i) else df (a ! j) (b ! j))"
    unfolding total_dist_def using assms by (intro sum.cong) (auto simp: nth_list_update)
  then show ?thesis
    using sum_upd [OF assms(1), of "df (a ! i) (a ! i)" "\<lambda>j. df (a ! j) (b ! j)"]
    by (simp add: total_dist_def)
qed

lemma UpdateValue_exact:
  assumes "sum_exact df s" "sum_UpdateValue df i v s = Some s'"
  shows "sum_exact df s'"
  using assms
  by (auto simp: sum_exact_def sum_UpdateValue_def Let_def total_dist_update s64_add s64_diff
      split: if_splits)

lemma SerializeState_exact:
  assumes "sum_exact df s" "length (sarr s) = length (sbak s)" "\<And>x. df x x = 0"
    "sum_SerializeState df bd s = Some (it, s')"
  shows "sum_exact df s'"
  using assms
  by (auto simp: sum_exact_def sum_SerializeState_def Let_def total_dist_save s64_diff
      split: if_splits)

text \<open>The operator backs up an entry of largest divergence, which then drops to zero.\<close>

lemma SerializeState_largest:
  assumes "sum_SerializeState df bd s = Some (it, s')" "bd_ok bd" "sum_ok s"
  shows "\<forall>i<length (sarr s). df (sarr s ! i) (sbak s ! i) \<le>
      df (sarr s ! entry_index it) (sbak s ! entry_index it)"
    "sbak s' ! entry_index it = sarr s ! entry_index it"
proof -
  define m where "m = max_diff_scan df (sarr s) (sbak s) [0..<length (sarr s)] 0"
  have i: "m < length (sarr s)" "it = put_entry m (sarr s ! m) bd" "sbak s' = (sbak s)[m := sarr s ! m]"
    using assms(1) by (auto simp: sum_SerializeState_def Let_def m_def split: if_splits)
  note e = ser_entry [OF _ i(1) assms(2) i(2), of "sbak s"]
  show "\<forall>i<length (sarr s). df (sarr s ! i) (sbak s ! i) \<le>
      df (sarr s ! entry_index it) (sbak s ! entry_index it)"
    using e(1) assms(3) scan_max [of df "sarr s" 0 "sbak s" "[0..<length (sarr s)]"]
    by (simp add: sum_ok_def m_def)
  show "sbak s' ! entry_index it = sarr s ! entry_index it"
    using e(1,3) assms(3) i(3) by (simp add: sum_ok_def)
qed

definition bounded_by :: "int \<Rightarrow> int list \<Rightarrow> bool" where
  "bounded_by B xs \<longleftrightarrow> (\<forall>x\<in>set xs. \<bar>x\<bar> \<le> B)"

lemma bounded_update: "bounded_by B xs \<Longrightarrow> \<bar>v\<bar> \<le> B \<Longrightarrow> bounded_by B (xs[i := v])"
  by (auto simp: bounded_by_def dest!: set_update_subset_insert [THEN subsetD])

lemma sum_run_inv:
  assumes "\<And>x. df x x = 0" "sum_ok s" "sum_exact df s" "bounded_by B (sarr s)" "bounded_by B (sbak s)"
    "ops_ok B os" "ft_run (sum_UpdateValue df) (sum_SerializeState df) os s = Some (s', its)"
  shows "sum_ok s' \<and> sum_exact df s' \<and> bounded_by B (sarr s') \<and> bounded_by B (sbak s') \<and>
    length (sarr s') = length (sarr s)"
  using assms(2-)
proof (induction os arbitrary: s its)
  case (Cons a os)
  show ?case
  proof (cases a)
    case (Upd i v)
    with Cons.prems(6) obtain s1 where r: "sum_UpdateValue df i v s = Some s1"
      "ft_run (sum_UpdateValue df) (sum_SerializeState df) os s1 = Some (s', its)"
      by (auto split: option.splits)
    have v: "in_s64 v" "\<bar>v\<bar> \<le> B" "ops_ok B os" using Cons.prems(5) Upd by auto
    have l: "sum_ok s1" "sarr s1 = (sarr s)[i := v]" "sbak s1 = sbak s"
      using sum_laws(2) [OF Cons.prems(1) r(1) v(1)] by auto
    have "bounded_by B (sarr s1)" using l(2) bounded_update [OF Cons.prems(3) v(2)] by simp
    from Cons.IH [OF l(1) UpdateValue_exact [OF Cons.prems(2) r(1)] this _ v(3) r(2)]
      Cons.prems(4) l(2,3) show ?thesis by simp
  next
    case (Ser bd)
    with Cons.prems(6) obtain it s1 its1 where r: "sum_SerializeState df bd s = Some (it, s1)"
      "ft_run (sum_UpdateValue df) (sum_SerializeState df) os s1 = Some (s', its1)"
      by (auto split: option.splits)
    have b: "bd_ok bd" "ops_ok B os" using Cons.prems(5) Ser by auto
    note l = sum_laws(3) [OF Cons.prems(1) b(1) r(1)]
    have len: "length (sarr s) = length (sbak s)"
      using Cons.prems(1) by (simp add: sum_ok_def arrays_ok_def)
    have "sbak s1 ! entry_index it = sarr s ! entry_index it"
      using SerializeState_largest(2) [OF r(1) b(1) Cons.prems(1)] .
    then have "entry_value it = sarr s ! entry_index it" using l by simp
    then have "\<bar>entry_value it\<bar> \<le> B" using l Cons.prems(3) len by (simp add: bounded_by_def)
    then have "bounded_by B (sbak s1)" using l bounded_update [OF Cons.prems(4)] by simp
    from Cons.IH [OF _ SerializeState_exact [OF Cons.prems(2) len assms(1) r(1)] _ this b(2) r(2)]
      l Cons.prems(3) show ?thesis by simp
  qed
qed simp

lemma l1_dist_self [simp]: "l1_dist x x = 0" and l2_dist_self [simp]: "l2_dist x x = 0"
  by (simp_all add: l1_dist_def l2_dist_def)

lemma l1_dist_exact:
  assumes "\<bar>a\<bar> \<le> B" "\<bar>b\<bar> \<le> B" "2 * B < 2 ^ 63"
  shows "l1_dist a b = \<bar>a - b\<bar>"
proof -
  have "in_s64 (a - b)" "in_s64 \<bar>a - b\<bar>" using assms by (auto simp: in_s64_def)
  then show ?thesis by (simp add: l1_dist_def)
qed

lemma l1_total_exact:
  assumes "bounded_by B a" "bounded_by B b" "length a = length b" "2 * B < 2 ^ 63"
    "2 * B * int (length a) < 2 ^ 63"
  shows "s64 (total_dist l1_dist a b) = (\<Sum>i<length a. \<bar>a ! i - b ! i\<bar>)"
proof -
  have bd: "\<bar>a ! i\<bar> \<le> B" "\<bar>b ! i\<bar> \<le> B" if "i < length a" for i
    using assms(1-3) that by (auto simp: bounded_by_def)
  have eq: "total_dist l1_dist a b = (\<Sum>i<length a. \<bar>a ! i - b ! i\<bar>)"
    unfolding total_dist_def using bd l1_dist_exact [OF _ _ assms(4)] by (intro sum.cong) auto
  have "(\<Sum>i<length a. \<bar>a ! i - b ! i\<bar>) \<le> (\<Sum>i<length a. 2 * B)"
    using bd by (intro sum_mono) fastforce
  then have "(\<Sum>i<length a. \<bar>a ! i - b ! i\<bar>) < 2 ^ 63" using assms(5) by (simp add: ac_simps)
  moreover have "(\<Sum>i<length a. \<bar>a ! i - b ! i\<bar>) \<ge> 0" by (intro sum_nonneg) simp
  ultimately have "in_s64 (\<Sum>i<length a. \<bar>a ! i - b ! i\<bar>)" unfolding in_s64_def by linarith
  then show ?thesis unfolding eq by (rule s64_id)
qed

section \<open>The maximum operator under increments\<close>

text \<open>What the sketch does with a counter: read, add, write back.\<close>

definition max_add :: "nat \<Rightarrow> int \<Rightarrow> max_array \<Rightarrow> max_array option" where
  "max_add i d s =
     (case max_GetValue i s of None \<Rightarrow> None | Some x \<Rightarrow> max_UpdateValue i (s64 (x + d)) s)"

fun max_adds :: "(nat \<times> int) list \<Rightarrow> max_array \<Rightarrow> max_array option" where
  "max_adds [] s = Some s"
| "max_adds ((i, d) # us) s = (case max_add i d s of None \<Rightarrow> None | Some s' \<Rightarrow> max_adds us s')"

definition max_tracks :: "nat set \<Rightarrow> int \<Rightarrow> max_array \<Rightarrow> bool" where
  "max_tracks T C s \<longleftrightarrow>
     length (marr s) = length (mbak s) \<and> mdiff s \<ge> 0 \<and>
     (\<forall>i<length (marr s). 0 \<le> marr s ! i \<and> marr s ! i \<le> C \<and> 0 \<le> mbak s ! i \<and> mbak s ! i \<le> C) \<and>
     (\<forall>i\<in>T. i < length (marr s) \<and> marr s ! i - mbak s ! i \<le> mdiff s) \<and>
     (mdiff s > 0 \<longrightarrow> mdiff_index s < length (marr s) \<and>
        marr s ! mdiff_index s - mbak s ! mdiff_index s = mdiff s)"

lemma max_add_tracks:
  assumes "max_tracks T C s" "i < length (marr s)" "0 \<le> d" "C + d < 2 ^ 63"
  shows "\<exists>s'. max_add i d s = Some s' \<and> max_tracks (insert i T) (C + d) s' \<and>
    mbak s' = mbak s \<and> length (marr s') = length (marr s)"
proof -
  note t = assms(1) [unfolded max_tracks_def]
  let ?v = "marr s ! i + d"
  let ?D = "?v - mbak s ! i"
  have b: "0 \<le> marr s ! i" "marr s ! i \<le> C" "0 \<le> mbak s ! i" "mbak s ! i \<le> C" using t assms(2) by auto
  then have v: "s64 ?v = ?v" "s64 ?D = ?D" using assms(3,4) by (auto intro!: s64_id simp: in_s64_def)
  let ?s = "if ?D > mdiff s then s\<lparr>marr := (marr s)[i := ?v], mdiff := ?D, mdiff_index := i\<rparr>
            else s\<lparr>marr := (marr s)[i := ?v]\<rparr>"
  have r: "max_add i d s = Some ?s"
    using assms(2) v by (simp add: max_add_def max_GetValue_def max_UpdateValue_def Let_def)
  have idx: "mdiff s > 0 \<Longrightarrow> \<not> ?D > mdiff s \<Longrightarrow> mdiff_index s = i \<Longrightarrow> ?D = mdiff s"
    using t assms(3) by auto
  have "max_tracks (insert i T) (C + d) ?s"
  proof (cases "?D > mdiff s")
    case True
    then show ?thesis using t b assms(2,3)
      by (auto simp: max_tracks_def nth_list_update)
  next
    case False
    then show ?thesis using t b assms(2,3) idx
      by (auto simp: max_tracks_def nth_list_update)
  qed
  with r show ?thesis by auto
qed

lemma max_adds_tracks:
  assumes "max_tracks T C s" "\<forall>(i, d)\<in>set us. i < length (marr s) \<and> 0 \<le> d"
    "C + sum_list (map snd us) < 2 ^ 63"
  shows "\<exists>s'. max_adds us s = Some s' \<and>
    max_tracks (T \<union> fst ` set us) (C + sum_list (map snd us)) s' \<and> mbak s' = mbak s"
  using assms
proof (induction us arbitrary: T C s)
  case (Cons u us)
  obtain i d where u: "u = (i, d)" by fastforce
  have nn: "0 \<le> sum_list (map snd us)" using Cons.prems(2) by (intro sum_list_nonneg) auto
  from max_add_tracks [OF Cons.prems(1), of i d] Cons.prems(2,3) nn u obtain s1 where
    s1: "max_add i d s = Some s1" "max_tracks (insert i T) (C + d) s1" "mbak s1 = mbak s"
      "length (marr s1) = length (marr s)" by auto
  from Cons.IH [OF s1(2)] Cons.prems(2,3) u s1 show ?case by (auto simp: ac_simps)
qed simp

section \<open>Properties\<close>


definition demo_buf :: backup_data where
  "demo_buf = \<lparr>bd_len = 0, bd_key = 0, bd_data = replicate 256 0\<rparr>"

lemma demo_buf_ok: "bd_ok demo_buf"
  by (simp add: bd_ok_def demo_buf_def MAX_BACKUP_ITEM_DATA_LEN_def)


text \<open>The divergence the L2 operator reports is the sum of the squared differences between the live
  and the backed-up counters, reduced to 64 bits, after any sequence of updates and backups; and each
  backup sends an entry of largest squared difference and removes exactly that difference.\<close>

theorem l2_divergence_exact:
  assumes "n < 2 ^ 32" "bd_ok bd" "ops_ok (2 ^ 63) os"
    "ft_run l2_UpdateValue l2_SerializeState os (NumericArray_L2 n n) = Some (s, its)"
  shows "sum_CalculateDivergence s = s64 (\<Sum>i<n. l2_dist (sarr s ! i) (sbak s ! i)) \<and>
    (\<forall>it s'. l2_SerializeState bd s = Some (it, s') \<longrightarrow>
      (\<forall>i<n. l2_dist (sarr s ! i) (sbak s ! i) \<le>
        l2_dist (sarr s ! entry_index it) (sbak s ! entry_index it)) \<and>
      sum_CalculateDivergence s' = s64 (\<Sum>i<n. l2_dist (sarr s' ! i) (sbak s' ! i)))"
proof -
  let ?f = "NumericArray_L2 n n"
  have f: "sum_ok ?f" "sum_exact l2_dist ?f" "bounded_by (2 ^ 63) (sarr ?f)"
    "bounded_by (2 ^ 63) (sbak ?f)" "length (sarr ?f) = n"
    using assms(1) by (auto simp: NumericArray_L2_def sum_laws(1) sum_exact_def total_dist_def
        bounded_by_def)
  have s: "sum_ok s" "sum_exact l2_dist s" "length (sarr s) = n" "length (sarr s) = length (sbak s)"
    using sum_run_inv [OF l2_dist_self f(1-4) assms(3) assms(4) [unfolded l2_defs(1,2)]] f(5)
    by (auto simp: sum_ok_def arrays_ok_def)
  have "(\<forall>i<n. l2_dist (sarr s ! i) (sbak s ! i) \<le>
        l2_dist (sarr s ! entry_index it) (sbak s ! entry_index it)) \<and>
      sum_CalculateDivergence s' = s64 (\<Sum>i<n. l2_dist (sarr s' ! i) (sbak s' ! i))"
    if "l2_SerializeState bd s = Some (it, s')" for it s'
    using SerializeState_largest(1) [OF that [unfolded l2_defs] assms(2) s(1)] s
      SerializeState_exact [OF s(2,4) l2_dist_self that [unfolded l2_defs]]
      sum_laws(3) [OF s(1) assms(2) that [unfolded l2_defs]]
    by (simp add: sum_CalculateDivergence_def sum_exact_def total_dist_def)
  with s show ?thesis by (simp add: sum_CalculateDivergence_def sum_exact_def total_dist_def)
qed

theorem l2_divergence_exact_witness:
  "\<exists>s. ft_run l2_UpdateValue l2_SerializeState [Upd 0 3, Upd 1 5] (NumericArray_L2 2 2) =
      Some (s, []) \<and> sum_CalculateDivergence s = s64 (\<Sum>i<2. l2_dist (sarr s ! i) (sbak s ! i))"
proof -
  obtain s where r: "ft_run l2_UpdateValue l2_SerializeState [Upd 0 3, Upd 1 5]
      (NumericArray_L2 2 2) = Some (s, [])"
    by (auto simp: l2_defs sum_UpdateValue_def Let_def eval_nat_numeral)
  from l2_divergence_exact [OF _ demo_buf_ok _ r] r show ?thesis by (auto simp: in_s64_def)
qed

text \<open>The operator used by the sketches backs up the counter that has diverged most: after any
  non-negative increments since the last backup, the reported divergence is at least that of every
  counter touched, the entry emitted next belongs to a counter with exactly that divergence, and the
  backed-up value of that counter becomes its live value.\<close>

theorem max_backs_up_largest:
  assumes "max_tracks {} C s" "mdiff s = 0" "bd_ok bd" "length (marr s) < 2 ^ 32"
    "\<forall>(i, d)\<in>set us. i < length (marr s) \<and> 0 \<le> d" "C + sum_list (map snd us) < 2 ^ 63"
  shows "\<exists>s1. max_adds us s = Some s1 \<and> mbak s1 = mbak s \<and>
    (\<forall>i\<in>fst ` set us. marr s1 ! i - mbak s1 ! i \<le> max_CalculateDivergence s1) \<and>
    (max_CalculateDivergence s1 > 0 \<longrightarrow>
      (\<exists>it s2. max_SerializeState bd s1 = Some (it, s2) \<and>
        marr s1 ! entry_index it - mbak s1 ! entry_index it = max_CalculateDivergence s1 \<and>
        entry_value it = marr s1 ! entry_index it \<and>
        mbak s2 = (mbak s1)[entry_index it := marr s1 ! entry_index it]))"
proof -
  from max_adds_tracks [OF assms(1,5,6)] obtain s1 where s1: "max_adds us s = Some s1"
    "max_tracks (fst ` set us) (C + sum_list (map snd us)) s1" "mbak s1 = mbak s" by auto
  note t = s1(2) [unfolded max_tracks_def]
  have len: "length (marr s1) = length (marr s)" using t s1(3) assms(1) by (simp add: max_tracks_def)
  have "\<exists>it s2. max_SerializeState bd s1 = Some (it, s2) \<and>
        marr s1 ! entry_index it - mbak s1 ! entry_index it = max_CalculateDivergence s1 \<and>
        entry_value it = marr s1 ! entry_index it \<and>
        mbak s2 = (mbak s1)[entry_index it := marr s1 ! entry_index it]"
    if "max_CalculateDivergence s1 > 0"
  proof -
    let ?i = "mdiff_index s1"
    have i: "?i < length (marr s1)" "marr s1 ! ?i - mbak s1 ! ?i = mdiff s1"
      using t that by (auto simp: max_CalculateDivergence_def)
    have "in_s64 (marr s1 ! ?i)" using t i(1) assms(6) by (force simp: in_s64_def)
    with put_entry_roundtrip [OF assms(3), of ?i "marr s1 ! ?i"] i len assms(4) show ?thesis
      by (auto simp: max_SerializeState_def max_CalculateDivergence_def Let_def)
  qed
  with s1 t show ?thesis by (auto simp: max_CalculateDivergence_def)
qed

theorem max_backs_up_largest_witness:
  "\<exists>s1. max_adds [(0, 4), (1, 9), (0, 2)] (NumericArray_MAX 3) = Some s1 \<and>
    max_CalculateDivergence s1 = 9 \<and>
    (\<exists>it s2. max_SerializeState demo_buf s1 = Some (it, s2) \<and> mbak s2 = (mbak s1)[entry_index it := 9])"
proof -
  have t: "max_tracks {} 0 (NumericArray_MAX 3)" "mdiff (NumericArray_MAX 3) = 0"
    "length (marr (NumericArray_MAX 3)) = 3"
    by (auto simp: max_tracks_def NumericArray_MAX_def)
  have "max_adds [(0, 4), (1, 9), (0, 2)] (NumericArray_MAX 3) =
      Some \<lparr>marr = [6, 9, 0], mbak = [0, 0, 0], mdiff = 9, mdiff_index = 1\<rparr>"
    by (simp add: NumericArray_MAX_def max_add_def max_GetValue_def max_UpdateValue_def Let_def
        eval_nat_numeral in_s64_def)
  then obtain s1 where s1: "max_adds [(0, 4), (1, 9), (0, 2)] (NumericArray_MAX 3) = Some s1"
    "mdiff s1 = 9" "marr s1 = [6, 9, 0]" "mdiff_index s1 = 1" by auto
  from max_backs_up_largest [OF t(1,2) demo_buf_ok, of "[(0, 4), (1, 9), (0, 2)]"] t(3) s1
  obtain it s2 where "max_SerializeState demo_buf s1 = Some (it, s2)"
    "entry_value it = marr s1 ! entry_index it"
    "mbak s2 = (mbak s1)[entry_index it := marr s1 ! entry_index it]"
    by (auto simp: max_CalculateDivergence_def)
  moreover from this(1) s1 have "entry_value it = 9"
    using put_entry_roundtrip(2) [OF demo_buf_ok, of 1 9]
    by (auto simp: max_SerializeState_def Let_def in_s64_def)
  ultimately show ?thesis using s1 by (auto simp: max_CalculateDivergence_def)
qed

text \<open>After a backup the maximum operator reports divergence 0 although other counters may still
  differ from their backed-up values: with two counters raised to 10 and one backup the second one is
  10 away from its backup, while \<open>CalculateDivergence\<close> is 0.\<close>

theorem max_divergence_underestimates:
  "\<exists>s it s'. max_adds [(0, 10), (1, 10)] (NumericArray_MAX 2) = Some s \<and>
    max_SerializeState demo_buf s = Some (it, s') \<and> max_CalculateDivergence s' = 0 \<and>
    marr s' ! 1 - mbak s' ! 1 = 10"
  by (simp add: NumericArray_MAX_def max_add_def max_GetValue_def max_UpdateValue_def Let_def
      eval_nat_numeral in_s64_def max_SerializeState_def max_CalculateDivergence_def)

end
