(* ===== verification/Backup.thy ===== *)
theory Backup
  imports Ft_Operators
begin

text \<open>
  The backup server and its client: \<open>src/fault_tolerance/backup_item.hpp\<close>, \<open>recovery_item.hpp\<close>,
  \<open>backup_server.cpp\<close>, \<open>backup_client.cpp\<close>. The server keeps, per operator, one slot per backup key;
  the map from keys to slots and the growing slot array are modelled as in \<open>BackupContent\<close>. The
  two unordered maps of the server hold pointers to the same contents; here the second one holds
  the keys of the first.

  ZeroMQ carries one request and one reply at a time between a client and the server (REQ/REP
  sockets), so a request is a function call on the server state. What is sent are the bytes of the
  packed structures.

  The theory proves that a content always holds the latest entry of every key it has ever received,
  under the same slot, whatever the arrival order and however often the slot array has grown, and
  that the server keeps the operators apart.
\<close>

section \<open>Items and their bytes\<close>

record backup_info =
  backup_op :: u32
  worker_id :: u32
  thread_id :: u16
  op_index :: u16
  seq :: u64

record backup_item =
  info :: backup_info
  data :: backup_data

definition item_size :: "backup_item \<Rightarrow> nat" where
  "item_size it = 20 + 12 + unat (bd_len (data it))"

definition sizeof_BackupItem :: nat where
  "sizeof_BackupItem = 20 + 12 + MAX_BACKUP_ITEM_DATA_LEN"

text \<open>The packed structures in memory.\<close>

definition info_image :: "backup_info \<Rightarrow> bytes" where
  "info_image f = le_bytes 4 (backup_op f) @ le_bytes 4 (worker_id f) @ le_bytes 2 (thread_id f) @
     le_bytes 2 (op_index f) @ le_bytes 8 (seq f)"

definition item_image :: "backup_item \<Rightarrow> bytes" where
  "item_image it = info_image (info it) @ le_bytes 4 (bd_len (data it)) @
     le_bytes 8 (bd_key (data it)) @ bd_data (data it)"

definition item_of_image :: "bytes \<Rightarrow> backup_item" where
  "item_of_image b =
     \<lparr>info = \<lparr>backup_op = le_load (take 4 b), worker_id = le_load (take 4 (drop 4 b)),
              thread_id = le_load (take 2 (drop 8 b)), op_index = le_load (take 2 (drop 10 b)),
              seq = le_load (take 8 (drop 12 b))\<rparr>,
      data = \<lparr>bd_len = le_load (take 4 (drop 20 b)), bd_key = le_load (take 8 (drop 24 b)),
              bd_data = drop 32 b\<rparr>\<rparr>"

text \<open>\<open>zmq_send (&item, item.size ())\<close> and \<open>zmq_recv\<close> into an item of fixed size: what does not fit is
  cut off, what is not sent keeps its old contents.\<close>

definition send_item :: "backup_item \<Rightarrow> bytes" where
  "send_item it = take (item_size it) (item_image it)"

definition recv_item :: "bytes \<Rightarrow> backup_item \<Rightarrow> backup_item" where
  "recv_item msg old = item_of_image (blit (item_image old) 0 (take sizeof_BackupItem msg))"

definition item_ok :: "backup_item \<Rightarrow> bool" where
  "item_ok it \<longleftrightarrow> bd_ok (data it) \<and> unat (bd_len (data it)) \<le> MAX_BACKUP_ITEM_DATA_LEN"

text \<open>Two items that agree on everything but the bytes behind \<open>len\<close>.\<close>

definition same_item :: "backup_item \<Rightarrow> backup_item \<Rightarrow> bool" where
  "same_item a b \<longleftrightarrow> info a = info b \<and> bd_len (data a) = bd_len (data b) \<and>
     bd_key (data a) = bd_key (data b) \<and>
     take (unat (bd_len (data a))) (bd_data (data a)) = take (unat (bd_len (data b))) (bd_data (data b))"

lemma length_info_image [simp]: "length (info_image f) = 20"
  by (simp add: info_image_def)

lemma length_item_image [simp]: "length (item_image it) = 32 + length (bd_data (data it))"
  by (simp add: item_image_def)

lemma item_of_image_parts:
  assumes "length a = 4" "length b = 4" "length c = 2" "length d = 2" "length e = 8"
    "length f = 4" "length g = 8"
  shows "item_of_image (a @ b @ c @ d @ e @ f @ g @ h) =
    \<lparr>info = \<lparr>backup_op = le_load a, worker_id = le_load b, thread_id = le_load c,
             op_index = le_load d, seq = le_load e\<rparr>,
     data = \<lparr>bd_len = le_load f, bd_key = le_load g, bd_data = h\<rparr>\<rparr>"
  using assms by (simp add: item_of_image_def drop_append)

lemma item_image_parse [simp]: "item_of_image (item_image it) = it"
  unfolding item_image_def info_image_def append_assoc
  by (subst item_of_image_parts) (simp_all add: le_load_le_bytes)

lemma same_item_refl [simp]: "same_item a a"
  by (simp add: same_item_def)

lemma same_item_trans: "same_item a b \<Longrightarrow> same_item b c \<Longrightarrow> same_item a c"
  unfolding same_item_def by metis

lemma same_item_sym: "same_item a b \<Longrightarrow> same_item b a"
  unfolding same_item_def by metis

lemma recv_send:
  assumes "item_ok it" "item_ok old"
  shows "same_item (recv_item (send_item it) old) it \<and> item_ok (recv_item (send_item it) old)"
proof -
  let ?n = "unat (bd_len (data it))"
  have n: "?n \<le> 256" "length (bd_data (data it)) = 256" "length (bd_data (data old)) = 256"
    using assms by (auto simp: item_ok_def bd_ok_def MAX_BACKUP_ITEM_DATA_LEN_def)
  let ?h = "info_image (info it) @ le_bytes 4 (bd_len (data it)) @ le_bytes 8 (bd_key (data it))"
  let ?d = "take ?n (bd_data (data it)) @ drop ?n (bd_data (data old))"
  have img: "item_image it = ?h @ bd_data (data it)" by (simp add: item_image_def)
  have sent: "send_item it = ?h @ take ?n (bd_data (data it))"
    unfolding send_item_def img item_size_def by (simp add: take_append)
  have "take sizeof_BackupItem (send_item it) = send_item it"
    unfolding sent using n by (simp add: sizeof_BackupItem_def MAX_BACKUP_ITEM_DATA_LEN_def)
  moreover have "blit (item_image old) 0 (send_item it) = ?h @ ?d"
    unfolding sent using n by (simp add: blit_eq item_image_def drop_append min_def)
  moreover have "?h @ ?d = item_image (it\<lparr>data := (data it)\<lparr>bd_data := ?d\<rparr>\<rparr>)"
    by (simp add: item_image_def)
  ultimately have "recv_item (send_item it) old = it\<lparr>data := (data it)\<lparr>bd_data := ?d\<rparr>\<rparr>"
    unfolding recv_item_def by (metis item_image_parse)
  then show ?thesis using n by (simp add: same_item_def item_ok_def bd_ok_def MAX_BACKUP_ITEM_DATA_LEN_def)
qed

section \<open>BackupContent\<close>

record content =
  cmap :: "u64 \<rightharpoonup> nat"
  slots :: "backup_item list"
  used_slots :: nat
  max_slots :: nat

definition item_key :: "backup_item \<Rightarrow> u64" where
  "item_key it = bd_key (data it)"

definition CopyBackupItem :: "backup_item \<Rightarrow> backup_item \<Rightarrow> backup_item" where
  "CopyBackupItem dst src =
     dst\<lparr>info := info src,
         data := (data dst)\<lparr>bd_len := bd_len (data src), bd_key := bd_key (data src),
           bd_data := blit (bd_data (data dst)) 0
             (take (unat (bd_len (data src))) (bd_data (data src)))\<rparr>\<rparr>"

text \<open>Memory that \<open>calloc\<close> has cleared or \<open>realloc\<close> has left as it was.\<close>

definition blank_item :: backup_item where
  "blank_item =
     \<lparr>info = \<lparr>backup_op = 0, worker_id = 0, thread_id = 0, op_index = 0, seq = 0\<rparr>,
      data = \<lparr>bd_len = 0, bd_key = 0, bd_data = replicate MAX_BACKUP_ITEM_DATA_LEN 0\<rparr>\<rparr>"

definition BackupContent :: content where
  "BackupContent = \<lparr>cmap = Map.empty, slots = [blank_item], used_slots = 0, max_slots = 1\<rparr>"

definition Expand :: "backup_item \<Rightarrow> content \<Rightarrow> content" where
  "Expand junk c =
     (let n = max_slots c * 2
      in c\<lparr>max_slots := n, slots := slots c @ replicate (n - length (slots c)) junk\<rparr>)"

definition SelectSlot :: "backup_item \<Rightarrow> backup_item \<Rightarrow> content \<Rightarrow> content \<times> nat" where
  "SelectSlot junk it c =
     (case cmap c (item_key it) of
        None \<Rightarrow>
          (let ret = used_slots c;
               c1 = c\<lparr>used_slots := ret + 1, cmap := (cmap c)(item_key it \<mapsto> ret)\<rparr>
           in (if ret = max_slots c then Expand junk c1 else c1, ret))
      | Some ret \<Rightarrow> (c, ret))"

definition SaveBackup :: "backup_item \<Rightarrow> backup_item \<Rightarrow> content \<Rightarrow> content" where
  "SaveBackup junk it c =
     (case SelectSlot junk it c of
        (c1, index) \<Rightarrow> c1\<lparr>slots := (slots c1)[index := CopyBackupItem (slots c1 ! index) it]\<rparr>)"

definition GetCount :: "content \<Rightarrow> nat" where
  "GetCount c = used_slots c"

text \<open>The slots of the recovery item that \<open>AppendRecoveryItem\<close> fills, in order.\<close>

definition AppendRecoveryItem :: "backup_item \<Rightarrow> content \<Rightarrow> backup_item list" where
  "AppendRecoveryItem junk c = map (\<lambda>i. CopyBackupItem junk (slots c ! i)) [0..<used_slots c]"

section \<open>A content holds the latest item of every key\<close>

definition log_of :: "u64 \<Rightarrow> backup_item list \<Rightarrow> backup_item list" where
  "log_of k hist = filter (\<lambda>it. item_key it = k) hist"

text \<open>\<open>hist\<close> is everything saved so far, oldest first.\<close>

definition content_inv :: "content \<Rightarrow> backup_item list \<Rightarrow> bool" where
  "content_inv c hist \<longleftrightarrow>
     0 < max_slots c \<and> length (slots c) = max_slots c \<and> used_slots c \<le> max_slots c \<and>
     (\<forall>it\<in>set (slots c). bd_ok (data it)) \<and>
     (\<forall>k. cmap c k = None \<longleftrightarrow> log_of k hist = []) \<and>
     (\<forall>k r. cmap c k = Some r \<longrightarrow> r < used_slots c \<and> same_item (slots c ! r) (last (log_of k hist))) \<and>
     (\<forall>r<used_slots c. \<exists>k. cmap c k = Some r)"

lemma blank_item_ok: "item_ok blank_item"
  by (simp add: item_ok_def bd_ok_def blank_item_def)

lemma CopyBackupItem_same:
  assumes "bd_ok (data dst)" "item_ok src"
  shows "same_item (CopyBackupItem dst src) src" "bd_ok (data (CopyBackupItem dst src))"
  using assms by (auto simp: same_item_def CopyBackupItem_def item_ok_def bd_ok_def blit_eq)

lemma log_of_snoc: "log_of k (hist @ [it]) = log_of k hist @ (if item_key it = k then [it] else [])"
  by (simp add: log_of_def)

lemma content_key:
  "content_inv c hist \<Longrightarrow> cmap c k = Some r \<Longrightarrow> item_key (slots c ! r) = k \<and> last (log_of k hist) \<in> set hist"
proof -
  assume a: "content_inv c hist" "cmap c k = Some r"
  then have "log_of k hist \<noteq> []" by (metis content_inv_def option.distinct(1))
  then have "last (log_of k hist) \<in> set (log_of k hist)" by simp
  moreover have "same_item (slots c ! r) (last (log_of k hist))" using a by (simp add: content_inv_def)
  ultimately show ?thesis by (auto simp: log_of_def same_item_def item_key_def)
qed

lemma BackupContent_inv: "content_inv BackupContent []"
  using blank_item_ok by (simp add: content_inv_def BackupContent_def log_of_def item_ok_def)

text \<open>The slot is selected and, if necessary, the array has been extended.\<close>

lemma SelectSlot_spec:
  assumes "content_inv c hist" "bd_ok (data junk)" "SelectSlot junk it c = (c1, r)"
  shows "0 < max_slots c1" "length (slots c1) = max_slots c1" "used_slots c1 \<le> max_slots c1"
    "\<forall>x\<in>set (slots c1). bd_ok (data x)" "r < used_slots c1"
    "cmap c1 = (cmap c)(item_key it \<mapsto> r)" "used_slots c1 \<ge> used_slots c"
    "\<forall>i<used_slots c. slots c1 ! i = slots c ! i"
    "\<forall>i<used_slots c1. i < used_slots c \<or> i = r"
    "\<forall>k. k \<noteq> item_key it \<longrightarrow> cmap c k \<noteq> Some r"
proof -
  note i = assms(1) [unfolded content_inv_def]
  have other: "cmap c (item_key it) = Some r \<Longrightarrow> k \<noteq> item_key it \<Longrightarrow> cmap c k \<noteq> Some r" for k
    using content_key [OF assms(1)] by metis
  have fresh: "cmap c k \<noteq> Some (used_slots c)" for k using i by fastforce
  show "0 < max_slots c1" "length (slots c1) = max_slots c1" "used_slots c1 \<le> max_slots c1"
    "\<forall>x\<in>set (slots c1). bd_ok (data x)" "r < used_slots c1"
    "cmap c1 = (cmap c)(item_key it \<mapsto> r)" "used_slots c1 \<ge> used_slots c"
    "\<forall>i<used_slots c. slots c1 ! i = slots c ! i" "\<forall>i<used_slots c1. i < used_slots c \<or> i = r"
    using assms(2,3) i
    by (auto simp: SelectSlot_def Expand_def Let_def nth_append fun_upd_idem split: option.splits if_splits)
  show "\<forall>k. k \<noteq> item_key it \<longrightarrow> cmap c k \<noteq> Some r"
    using assms(3) other fresh by (auto simp: SelectSlot_def Let_def split: option.splits)
qed

lemma SaveBackup_inv:
  assumes "content_inv c hist" "bd_ok (data junk)" "item_ok it"
  shows "content_inv (SaveBackup junk it c) (hist @ [it])"
proof -
  obtain c1 r where sel: "SelectSlot junk it c = (c1, r)" by fastforce
  note sp = SelectSlot_spec [OF assms(1,2) sel]
  note i = assms(1) [unfolded content_inv_def]
  let ?it = "CopyBackupItem (slots c1 ! r) it"
  let ?c = "c1\<lparr>slots := (slots c1)[r := ?it]\<rparr>"
  have r: "r < length (slots c1)" using sp(2,3,5) by linarith
  then have cp: "same_item ?it it" "bd_ok (data ?it)"
    using CopyBackupItem_same [OF _ assms(3)] sp(4) by auto
  have save: "SaveBackup junk it c = ?c" using sel by (simp add: SaveBackup_def)
  have none: "cmap ?c k = None \<longleftrightarrow> log_of k (hist @ [it]) = []" for k
    using i sp(6) by (simp add: log_of_snoc)
  have some: "q < used_slots ?c \<and> same_item (slots ?c ! q) (last (log_of k (hist @ [it])))"
    if "cmap ?c k = Some q" for k q
  proof (cases "k = item_key it")
    case True
    with that sp(5,6) r cp show ?thesis by (simp add: log_of_snoc)
  next
    case False
    with that sp(6) have q: "cmap c k = Some q" "q \<noteq> r" using sp(10) by auto
    with i have "q < used_slots c" "same_item (slots c ! q) (last (log_of k hist))" by auto
    with q False sp(7,8) show ?thesis by (simp add: log_of_snoc)
  qed
  have surj: "\<exists>k. cmap ?c k = Some q" if "q < used_slots ?c" for q
  proof (cases "q = r")
    case False
    with that sp(9) have "q < used_slots c" by auto
    then obtain k where "cmap c k = Some q" using i by blast
    moreover have "k \<noteq> item_key it \<or> q = r"
      using sel \<open>cmap c k = Some q\<close> by (auto simp: SelectSlot_def Let_def split: option.splits)
    ultimately show ?thesis using sp(6) False by (intro exI [of _ k]) auto
  qed (use sp(6) in auto)
  have oks: "\<forall>x\<in>set (slots ?c). bd_ok (data x)"
    using sp(4) cp(2) by (auto dest!: set_update_subset_insert [THEN subsetD])
  show ?thesis unfolding save content_inv_def using sp(1,2,3) none some surj oks by simp
qed

lemma AppendRecovery_spec:
  assumes "content_inv c hist" "\<forall>it\<in>set hist. item_ok it" "bd_ok (data junk)"
  shows "distinct (map item_key (AppendRecoveryItem junk c))"
    "\<forall>x\<in>set (AppendRecoveryItem junk c). log_of (item_key x) hist \<noteq> [] \<and>
       same_item x (last (log_of (item_key x) hist))"
    "item_key ` set (AppendRecoveryItem junk c) = item_key ` set hist"
proof -
  note i = assms(1) [unfolded content_inv_def]
  have slot: "\<exists>k. cmap c k = Some r \<and> item_key (slots c ! r) = k \<and> log_of k hist \<noteq> [] \<and>
      same_item (CopyBackupItem junk (slots c ! r)) (last (log_of k hist))" if "r < used_slots c" for r
  proof -
    from i that obtain k where k: "cmap c k = Some r" by blast
    then have s: "same_item (slots c ! r) (last (log_of k hist))" "log_of k hist \<noteq> []"
      using i by (auto, metis option.distinct(1))
    have "item_ok (slots c ! r)"
    proof -
      have "bd_ok (data (slots c ! r))" using i that by auto
      then show ?thesis using s(1) content_key [OF assms(1) k] assms(2)
        by (auto simp: item_ok_def same_item_def)
    qed
    with CopyBackupItem_same(1) [OF assms(3)] s same_item_trans k content_key [OF assms(1) k]
    show ?thesis by blast
  qed
  have key: "item_key (CopyBackupItem junk x) = item_key x" for x
    by (simp add: item_key_def CopyBackupItem_def)
  show "distinct (map item_key (AppendRecoveryItem junk c))"
  proof -
    have "inj_on (\<lambda>r. item_key (slots c ! r)) (set [0..<used_slots c])"
      by (rule inj_onI) (metis atLeastLessThan_iff option.inject set_upt slot)
    then show ?thesis by (simp add: AppendRecoveryItem_def distinct_map comp_def key)
  qed
  show "\<forall>x\<in>set (AppendRecoveryItem junk c). log_of (item_key x) hist \<noteq> [] \<and>
       same_item x (last (log_of (item_key x) hist))"
    using slot by (auto simp: AppendRecoveryItem_def key)
  have "k \<in> item_key ` set hist \<longleftrightarrow> cmap c k \<noteq> None" for k
    using i by (auto simp: log_of_def filter_empty_conv)
  moreover have "cmap c k \<noteq> None \<longleftrightarrow> (\<exists>r<used_slots c. item_key (slots c ! r) = k)" for k
  proof
    assume "cmap c k \<noteq> None"
    then obtain r where r: "cmap c k = Some r" by auto
    with i content_key [OF assms(1) r] show "\<exists>r<used_slots c. item_key (slots c ! r) = k" by blast
  next
    assume "\<exists>r<used_slots c. item_key (slots c ! r) = k"
    with slot show "cmap c k \<noteq> None" by fastforce
  qed
  ultimately show "item_key ` set (AppendRecoveryItem junk c) = item_key ` set hist"
    by (auto simp: AppendRecoveryItem_def image_iff key set_eq_iff)
qed

section \<open>The server\<close>

definition MAKE_OP_KEY :: "u16 \<Rightarrow> u16 \<Rightarrow> u32 \<Rightarrow> u64" where
  "MAKE_OP_KEY worker thread opn = push_bit 32 (ucast worker) OR push_bit 16 (ucast thread) OR ucast opn"

definition op_key :: "backup_item \<Rightarrow> u64" where
  "op_key it = MAKE_OP_KEY (ucast (worker_id (info it))) (thread_id (info it)) (ucast (op_index (info it)))"

definition item_worker :: "backup_item \<Rightarrow> u16" where
  "item_worker it = ucast (worker_id (info it))"

record server =
  ops :: "u64 \<rightharpoonup> content"
  worker_ops :: "u16 \<Rightarrow> u64 list"
  cur_stop :: nat
  save_cnt :: nat

datatype reply = Reply_empty | Reply_count nat | Reply_data nat "backup_item list" | No_reply

definition server_init :: server where
  "server_init = \<lparr>ops = Map.empty, worker_ops = (\<lambda>_. []), cur_stop = 0, save_cnt = 0\<rparr>"

text \<open>\<open>backup_op == 0\<close> with a non-empty entry.\<close>

definition server_save :: "backup_item \<Rightarrow> backup_item \<Rightarrow> server \<Rightarrow> server" where
  "server_save junk it s =
     (let k = op_key it;
          s1 = s\<lparr>save_cnt := save_cnt s + 1\<rparr>;
          s2 = (case ops s1 k of
                  None \<Rightarrow> s1\<lparr>ops := (ops s1)(k \<mapsto> BackupContent),
                             worker_ops := (worker_ops s1)(item_worker it := worker_ops s1 (item_worker it) @ [k])\<rparr>
                | Some c \<Rightarrow> s1)
      in s2\<lparr>ops := (ops s2)(k \<mapsto> SaveBackup junk it (the (ops s2 k)))\<rparr>)"

definition tot_count :: "server \<Rightarrow> u16 \<Rightarrow> nat" where
  "tot_count s w = (\<Sum>k\<leftarrow>worker_ops s w. GetCount (the (ops s k)))"

definition recovery_items :: "backup_item \<Rightarrow> server \<Rightarrow> u16 \<Rightarrow> backup_item list" where
  "recovery_items junk s w = concat (map (\<lambda>k. AppendRecoveryItem junk (the (ops s k))) (worker_ops s w))"

text \<open>One turn of the loop in \<open>main\<close>; the last component says that the loop is left.\<close>

definition server_step :: "nat \<Rightarrow> backup_item \<Rightarrow> backup_item \<Rightarrow> server \<Rightarrow> server \<times> reply \<times> bool" where
  "server_step num_sender junk it s =
     (if backup_op (info it) = 0 then
        if bd_len (data it) = 0 then
          (let s1 = s\<lparr>cur_stop := cur_stop s + 1\<rparr> in (s1, Reply_empty, cur_stop s1 = num_sender))
        else (server_save junk it s, Reply_empty, False)
      else if backup_op (info it) = 1 then (s, Reply_count (tot_count s (item_worker it)), False)
      else if backup_op (info it) = 2 then
        (s, Reply_data (tot_count s (item_worker it)) (recovery_items junk s (item_worker it)), False)
      else (s, No_reply, False))"

definition server_inv :: "server \<Rightarrow> backup_item list \<Rightarrow> bool" where
  "server_inv s L \<longleftrightarrow>
     (\<forall>it\<in>set L. item_ok it) \<and>
     (\<forall>k. ops s k = None \<longleftrightarrow> k \<notin> op_key ` set L) \<and>
     (\<forall>k c. ops s k = Some c \<longrightarrow> content_inv c (filter (\<lambda>it. op_key it = k) L)) \<and>
     (\<forall>w. distinct (worker_ops s w) \<and> set (worker_ops s w) = op_key ` {it \<in> set L. item_worker it = w})"

lemma MAKE_OP_KEY_inj:
  assumes "MAKE_OP_KEY w t (ucast (p :: u16)) = MAKE_OP_KEY w' t' (ucast (p' :: u16))"
  shows "w = w' \<and> t = t' \<and> p = p'"
proof -
  have b: "bit (MAKE_OP_KEY w t (ucast p)) n \<longleftrightarrow> bit (MAKE_OP_KEY w' t' (ucast p')) n" for n
    using assms by simp
  have bits: "bit (MAKE_OP_KEY w t (ucast (p :: u16))) n \<longleftrightarrow>
      32 \<le> n \<and> bit w (n - 32) \<or> 16 \<le> n \<and> n < 32 \<and> bit t (n - 16) \<or> n < 16 \<and> bit p n" for w t p n
    by (auto simp: MAKE_OP_KEY_def bit_simps dest: bit_imp_le_length)
  have "bit p n \<longleftrightarrow> bit p' n" "bit t n \<longleftrightarrow> bit t' n" "bit w n \<longleftrightarrow> bit w' n" if "n < 16" for n
    using b [of n] b [of "n + 16"] b [of "n + 32"] that by (simp_all add: bits)
  then show ?thesis by (auto intro!: bit_word_eqI)
qed

lemma op_key_worker: "op_key a = op_key b \<Longrightarrow> item_worker a = item_worker b"
  using MAKE_OP_KEY_inj by (auto simp: op_key_def item_worker_def)

lemma server_init_inv: "server_inv server_init []"
  by (simp add: server_inv_def server_init_def)

lemma filter_snoc_key:
  "filter (\<lambda>x. op_key x = k) (L @ [it]) = filter (\<lambda>x. op_key x = k) L @ (if op_key it = k then [it] else [])"
  by simp

lemma server_save_inv:
  assumes "server_inv s L" "item_ok it" "bd_ok (data junk)"
  shows "server_inv (server_save junk it s) (L @ [it])"
proof -
  note i = assms(1) [unfolded server_inv_def]
  let ?k = "op_key it"
  let ?c0 = "case ops s ?k of None \<Rightarrow> BackupContent | Some c \<Rightarrow> c"
  let ?s = "server_save junk it s"
  have ops: "ops ?s = (ops s)(?k \<mapsto> SaveBackup junk it ?c0)"
    by (auto simp: server_save_def Let_def split: option.splits)
  have c0: "content_inv ?c0 (filter (\<lambda>x. op_key x = ?k) L)"
  proof (cases "ops s ?k")
    case None
    then have "?k \<notin> op_key ` set L" using i by blast
    then have "filter (\<lambda>x. op_key x = ?k) L = []" by (auto simp: filter_empty_conv intro: rev_image_eqI)
    then show ?thesis using None BackupContent_inv by simp
  next
    case (Some c)
    then show ?thesis using i by simp
  qed
  have "content_inv c (filter (\<lambda>x. op_key x = k) (L @ [it]))" if "ops ?s k = Some c" for k c
    using that SaveBackup_inv [OF c0 assms(3,2)] i unfolding ops filter_snoc_key
    by (auto split: if_splits)
  moreover have "ops ?s k = None \<longleftrightarrow> k \<notin> op_key ` set (L @ [it])" for k
    using i unfolding ops by auto
  moreover have "distinct (worker_ops ?s w) \<and>
      set (worker_ops ?s w) = op_key ` {x \<in> set (L @ [it]). item_worker x = w}" for w
  proof (cases "ops s ?k")
    case None
    then have new: "?k \<notin> op_key ` set L" using i by simp
    have wo: "worker_ops ?s = (worker_ops s)(item_worker it := worker_ops s (item_worker it) @ [?k])"
      using None by (simp add: server_save_def Let_def)
    have "distinct (worker_ops s w)"
      "set (worker_ops s w) = op_key ` {x \<in> set L. item_worker x = w}" using i by auto
    with new show ?thesis unfolding wo by (cases "w = item_worker it") auto
  next
    case (Some c)
    then have old: "?k \<in> op_key ` set L" using i by (metis option.distinct(1))
    then obtain x where x: "x \<in> set L" "op_key x = ?k" by auto
    have wo: "worker_ops ?s = worker_ops s" using Some by (simp add: server_save_def Let_def)
    have "item_worker x = item_worker it" by (rule op_key_worker) (rule x(2))
    with x have "item_worker it = w \<Longrightarrow> ?k \<in> op_key ` {x \<in> set L. item_worker x = w}"
      by (intro rev_image_eqI [of x]) auto
    then have "op_key ` {x \<in> set (L @ [it]). item_worker x = w} = op_key ` {x \<in> set L. item_worker x = w}"
      by auto
    with i wo show ?thesis by simp
  qed
  moreover have "\<forall>x\<in>set (L @ [it]). item_ok x" using i assms(2) by simp
  ultimately show ?thesis unfolding server_inv_def by blast
qed

text \<open>The items a sequence of requests saves.\<close>

definition is_save :: "backup_item \<Rightarrow> bool" where
  "is_save it \<longleftrightarrow> backup_op (info it) = 0 \<and> bd_len (data it) \<noteq> 0"

lemma server_step_inv:
  assumes "server_inv s L" "item_ok it" "bd_ok (data junk)" "server_step n junk it s = (s', r, stop)"
  shows "server_inv s' (L @ (if is_save it then [it] else []))"
proof (cases "is_save it")
  case True
  with assms(4) have "s' = server_save junk it s" by (auto simp: server_step_def is_save_def)
  with True server_save_inv [OF assms(1-3)] show ?thesis by simp
next
  case False
  with assms(4) have "ops s' = ops s" "worker_ops s' = worker_ops s"
    by (auto simp: server_step_def is_save_def Let_def split: if_splits)
  with False assms(1) show ?thesis by (simp add: server_inv_def)
qed

fun server_run :: "nat \<Rightarrow> backup_item \<Rightarrow> backup_item list \<Rightarrow> server \<Rightarrow> server" where
  "server_run n junk [] s = s"
| "server_run n junk (it # its) s = server_run n junk its (fst (server_step n junk it s))"

lemma server_run_inv:
  "server_inv s L \<Longrightarrow> \<forall>it\<in>set its. item_ok it \<Longrightarrow> bd_ok (data junk) \<Longrightarrow>
   server_inv (server_run n junk its s) (L @ filter is_save its)"
proof (induction its arbitrary: s L)
  case (Cons it its)
  obtain s1 r st where s1: "server_step n junk it s = (s1, r, st)" by (metis prod_cases3)
  from server_step_inv [OF Cons.prems(1) _ Cons.prems(3) s1] Cons.prems(2)
  have "server_inv s1 (L @ (if is_save it then [it] else []))" by simp
  from Cons.IH [OF this _ Cons.prems(3)] Cons.prems(2) s1 show ?case by (simp split: if_splits)
qed simp

lemma recovery_spec:
  assumes "server_inv s L" "bd_ok (data junk)" "x \<in> set (recovery_items junk s w)"
  shows "item_worker x = w"
    "\<exists>y\<in>set L. y = last (filter (\<lambda>y. op_key y = op_key x \<and> item_key y = item_key x) L) \<and> same_item x y"
proof -
  note i = assms(1) [unfolded server_inv_def]
  from assms(3) obtain k where k: "k \<in> set (worker_ops s w)"
    "x \<in> set (AppendRecoveryItem junk (the (ops s k)))" by (auto simp: recovery_items_def)
  then obtain y0 where y0: "y0 \<in> set L" "op_key y0 = k" "item_worker y0 = w" using i by auto
  then obtain c where c: "ops s k = Some c" using i by fastforce
  let ?h = "filter (\<lambda>y. op_key y = k) L"
  have ci: "content_inv c ?h" using i c by simp
  note sp = AppendRecovery_spec [OF ci _ assms(2)]
  have x: "log_of (item_key x) ?h \<noteq> []" "same_item x (last (log_of (item_key x) ?h))"
    using sp(2) k(2) c i by auto
  let ?y = "last (log_of (item_key x) ?h)"
  have y: "?y \<in> set L" "op_key ?y = k" using x(1) last_in_set [OF x(1)] by (auto simp: log_of_def)
  have same: "op_key x = k" "item_worker x = item_worker ?y"
    using x(2) y(2) by (auto simp: same_item_def op_key_def item_worker_def)
  show "item_worker x = w" using same(2) op_key_worker [of ?y y0] y(2) y0 by simp
  have "log_of (item_key x) ?h = filter (\<lambda>y. op_key y = op_key x \<and> item_key y = item_key x) L"
    unfolding same(1) by (simp add: log_of_def conj_commute)
  with x(2) y(1) show "\<exists>y\<in>set L.
      y = last (filter (\<lambda>y. op_key y = op_key x \<and> item_key y = item_key x) L) \<and> same_item x y"
    by auto
qed

lemma recovery_complete:
  assumes "server_inv s L" "bd_ok (data junk)" "y \<in> set L"
  shows "\<exists>x\<in>set (recovery_items junk s (item_worker y)). op_key x = op_key y \<and> item_key x = item_key y"
proof -
  note i = assms(1) [unfolded server_inv_def]
  let ?k = "op_key y"
  let ?h = "filter (\<lambda>x. op_key x = ?k) L"
  obtain c where c: "ops s ?k = Some c" using i assms(3) by fastforce
  have ci: "content_inv c ?h" using i c by simp
  note sp = AppendRecovery_spec [OF ci _ assms(2)]
  have "item_key y \<in> item_key ` set ?h" using assms(3) by simp
  then obtain x where x: "x \<in> set (AppendRecoveryItem junk c)" "item_key x = item_key y"
    using sp(3) i by (metis (no_types, lifting) filter_is_subset imageE subset_iff)
  have "log_of (item_key x) ?h \<noteq> []" "same_item x (last (log_of (item_key x) ?h))" using sp(2) x(1) i by auto
  then have "op_key x = ?k"
    using last_in_set by (fastforce simp: log_of_def same_item_def op_key_def)
  moreover have "?k \<in> set (worker_ops s (item_worker y))" using i assms(3) by auto
  ultimately show ?thesis using x c
    by (auto simp: recovery_items_def intro!: bexI [of _ ?k] bexI [of _ x])
qed

lemma distinct_concat_keys:
  assumes "distinct ks" "\<forall>k\<in>set ks. distinct (map g (f k)) \<and> (\<forall>x\<in>set (f k). h x = k)"
  shows "distinct (map (\<lambda>x. (h x, g x)) (concat (map f ks)))"
  using assms
proof (induction ks)
  case (Cons k ks)
  have "distinct (map (\<lambda>x. (h x, g x)) (f k))"
    using Cons.prems(2) by (auto simp: distinct_map inj_on_def)
  moreover have "set (map (\<lambda>x. (h x, g x)) (f k)) \<inter> set (map (\<lambda>x. (h x, g x)) (concat (map f ks))) = {}"
    using Cons.prems by fastforce
  ultimately show ?case using Cons by simp
qed simp

text \<open>The part of a recovery reply that belongs to one operator.\<close>

lemma recovery_part:
  assumes "server_inv s L" "bd_ok (data junk)" "k \<in> set (worker_ops s w)"
  shows "content_inv (the (ops s k)) (filter (\<lambda>y. op_key y = k) L)"
    "\<forall>x\<in>set (AppendRecoveryItem junk (the (ops s k))). op_key x = k"
    "distinct (map item_key (AppendRecoveryItem junk (the (ops s k))))"
proof -
  note i = assms(1) [unfolded server_inv_def]
  obtain c where c: "ops s k = Some c" using i assms(3) by fastforce
  let ?h = "filter (\<lambda>y. op_key y = k) L"
  show ci: "content_inv (the (ops s k)) ?h" using i c by simp
  note sp = AppendRecovery_spec [OF ci _ assms(2)]
  show "distinct (map item_key (AppendRecoveryItem junk (the (ops s k))))" using sp(1) i by simp
  show "\<forall>x\<in>set (AppendRecoveryItem junk (the (ops s k))). op_key x = k"
  proof
    fix x assume "x \<in> set (AppendRecoveryItem junk (the (ops s k)))"
    then have x: "log_of (item_key x) ?h \<noteq> []" "same_item x (last (log_of (item_key x) ?h))"
      using sp(2) i by auto
    from last_in_set [OF x(1)] have "op_key (last (log_of (item_key x) ?h)) = k"
      by (auto simp: log_of_def)
    with x(2) show "op_key x = k" by (simp add: same_item_def op_key_def)
  qed
qed

lemma recovery_distinct:
  assumes "server_inv s L" "bd_ok (data junk)"
  shows "distinct (map (\<lambda>x. (op_key x, item_key x)) (recovery_items junk s w))"
proof -
  have "distinct (worker_ops s w)" using assms(1) by (simp add: server_inv_def)
  then show ?thesis
    unfolding recovery_items_def by (rule distinct_concat_keys) (use recovery_part(2,3) [OF assms] in blast)
qed

section \<open>The client\<close>

text \<open>The requests of \<open>RetriveBackups\<close>: only the operation, the worker and an empty length are set, the
  other fields are whatever the stack held.\<close>

definition retrieve_request :: "u32 \<Rightarrow> u16 \<Rightarrow> backup_item \<Rightarrow> backup_item" where
  "retrieve_request opn wid stack = stack\<lparr>info := (info stack)\<lparr>backup_op := opn, worker_id := ucast wid\<rparr>,
     data := (data stack)\<lparr>bd_len := 0\<rparr>\<rparr>"

definition RetriveBackups ::
  "nat \<Rightarrow> backup_item \<Rightarrow> backup_item \<Rightarrow> u16 \<Rightarrow> server \<Rightarrow> (server \<times> backup_item list) option" where
  "RetriveBackups num_sender junk stack wid s =
     (case server_step num_sender junk (retrieve_request 1 wid stack) s of
        (s1, Reply_count c, _) \<Rightarrow>
          (case server_step num_sender junk (retrieve_request 2 wid stack) s1 of
             (s2, Reply_data tot items, _) \<Rightarrow> Some (s2, take c items)
           | _ \<Rightarrow> None)
      | _ \<Rightarrow> None)"

lemma tot_count_length: "tot_count s w = length (recovery_items junk s w)"
  by (simp add: tot_count_def recovery_items_def length_concat comp_def GetCount_def AppendRecoveryItem_def)

lemma ucast_ucast_16 [simp]: "ucast (ucast (w :: u16) :: u32) = w"
  by (rule bit_word_eqI) (auto simp: bit_simps)

lemma RetriveBackups_eq: "RetriveBackups n junk stack w s = Some (s, recovery_items junk s w)"
  by (simp add: RetriveBackups_def server_step_def retrieve_request_def item_worker_def
      tot_count_length [of s w junk])

section \<open>Properties\<close>

text \<open>C24. What a worker retrieves after any sequence of requests from any number of workers is, for each
  of its operators and each backup key, exactly one item: the last one that was saved under them.
  Nothing is missing and nothing of another worker is included. Requests carry 16-bit worker
  numbers, as the clients send them.\<close>

theorem backup_server_latest:
  assumes "\<forall>it\<in>set reqs. item_ok it" "bd_ok (data junk)" "s = server_run n junk reqs server_init"
  shows "\<exists>items. RetriveBackups n junk stack w s = Some (s, items) \<and>
    distinct (map (\<lambda>x. (op_key x, item_key x)) items) \<and>
    (\<forall>x\<in>set items. item_worker x = w \<and>
      (\<exists>y. y = last (filter (\<lambda>y. is_save y \<and> op_key y = op_key x \<and> item_key y = item_key x) reqs) \<and>
        y \<in> set reqs \<and> same_item x y)) \<and>
    (\<forall>y\<in>set reqs. is_save y \<and> item_worker y = w \<longrightarrow>
      (\<exists>x\<in>set items. op_key x = op_key y \<and> item_key x = item_key y))"
proof -
  have i: "server_inv s (filter is_save reqs)"
    using server_run_inv [OF server_init_inv assms(1,2)] assms(3) by simp
  have latest: "\<exists>y. y = last (filter (\<lambda>y. is_save y \<and> op_key y = op_key x \<and> item_key y = item_key x) reqs) \<and>
        y \<in> set reqs \<and> same_item x y" if x: "x \<in> set (recovery_items junk s w)" for x
  proof -
    let ?P = "\<lambda>y. op_key y = op_key x \<and> item_key y = item_key x"
    have "filter ?P (filter is_save reqs) = filter (\<lambda>y. is_save y \<and> ?P y) reqs"
      by (simp only: filter_filter)
    moreover obtain y where "y \<in> set (filter is_save reqs)" "y = last (filter ?P (filter is_save reqs))"
      "same_item x y" using recovery_spec(2) [OF i assms(2) x] by blast
    ultimately show ?thesis by auto
  qed
  show ?thesis
    unfolding RetriveBackups_eq
    using recovery_distinct [OF i assms(2)] recovery_spec(1) [OF i assms(2)] latest
      recovery_complete [OF i assms(2)] by auto
qed

definition demo_item :: "u64 \<Rightarrow> u8 \<Rightarrow> backup_item" where
  "demo_item k b = blank_item\<lparr>info := (info blank_item)\<lparr>worker_id := 3, op_index := 1\<rparr>,
     data := (data blank_item)\<lparr>bd_len := 12, bd_key := k, bd_data := replicate 256 b\<rparr>\<rparr>"

lemma demo_item_ok: "item_ok (demo_item k b)"
  by (simp add: item_ok_def bd_ok_def demo_item_def MAX_BACKUP_ITEM_DATA_LEN_def)

theorem backup_server_latest_witness:
  "\<exists>s items. RetriveBackups 1 blank_item blank_item 3 s = Some (s, items) \<and>
    (\<exists>x\<in>set items. item_key x = 7) \<and> distinct (map (\<lambda>x. (op_key x, item_key x)) items)"
proof -
  have ok: "\<forall>it\<in>set [demo_item 7 1, demo_item 7 2]. item_ok it" "bd_ok (data blank_item)"
    using demo_item_ok blank_item_ok by (auto simp: item_ok_def)
  have w: "is_save (demo_item 7 2)" "item_worker (demo_item 7 2) = 3" "item_key (demo_item 7 2) = 7"
    by (simp_all add: is_save_def demo_item_def item_worker_def item_key_def blank_item_def)
  from backup_server_latest [OF ok refl, of 1 blank_item 3] w show ?thesis by fastforce
qed

text \<open>A backup item survives the trip from the client to the server: sending \<open>size ()\<close> bytes of the
  packed structure and receiving them over an old item reproduces all fields and the first \<open>len\<close> data
  bytes, whatever the receiving item held before.\<close>

theorem backup_item_transfer:
  assumes "item_ok it" "item_ok old"
  shows "length (send_item it) = item_size it \<and> item_size it \<le> sizeof_BackupItem \<and>
    same_item (recv_item (send_item it) old) it \<and> item_ok (recv_item (send_item it) old)"
  using recv_send [OF assms] assms(1)
  by (auto simp: send_item_def item_size_def sizeof_BackupItem_def item_ok_def bd_ok_def)

theorem backup_item_transfer_witness:
  "same_item (recv_item (send_item (demo_item 9 4)) blank_item) (demo_item 9 4)"
  using backup_item_transfer [OF demo_item_ok blank_item_ok] by blast

text \<open>The 64-bit key under which the server files an operator determines worker, thread and operator
  index: two different operators never share a content.\<close>

theorem op_key_injective:
  "MAKE_OP_KEY w t (ucast (p :: u16)) = MAKE_OP_KEY w' t' (ucast (p' :: u16)) \<longleftrightarrow>
   w = w' \<and> t = t' \<and> p = p'"
  using MAKE_OP_KEY_inj [of w t p w' t' p'] by auto

end
