(* ===== verification/Recovery.thy ===== *)
theory Recovery
  imports Backup
begin

text \<open>
  Backup and recovery of a whole worker: the operator tracker (\<open>src/fault_tolerance/
  operator_tracker.cpp\<close>), the backup pass of the compute threads (\<open>src/thread/compute_thread.hpp\<close>)
  and their composition with the backup server. The operators of a worker are a list per compute
  thread; thread and index identify an operator in a backup item.

  The main lemma is proved in the locale \<open>ft_array\<close>: whatever the threads of a worker do, and
  whatever other workers send to the server meanwhile, retrieving the backups and recovering a
  freshly built set of operators yields, for each operator, the array it had last backed up.
\<close>

section \<open>The operator tracker\<close>

text \<open>\<open>at\<close> throws for an unknown index, \<open>LOG_ERR\<close> exits; the thread number and the entry index are not
  checked by the code.\<close>

datatype recover_error = Worker_unmatch | No_thread | No_operator | Bad_entry

definition RegisterFTOperator :: "nat \<Rightarrow> 'op \<Rightarrow> 'op list list \<Rightarrow> (u32 \<times> 'op list list) option" where
  "RegisterFTOperator thr_id opr operators =
     (if thr_id < length operators
      then Some (0, operators[thr_id := operators ! thr_id @ [opr]]) else None)"

definition GetThreadOps :: "nat \<Rightarrow> 'op list list \<Rightarrow> 'op list option" where
  "GetThreadOps thr_id operators =
     (if thr_id < length operators then Some (operators ! thr_id) else None)"

definition item_thread :: "backup_item \<Rightarrow> nat" where
  "item_thread it = unat (thread_id (info it))"

definition item_op :: "backup_item \<Rightarrow> nat" where
  "item_op it = unat (op_index (info it))"

definition put_op :: "nat \<Rightarrow> nat \<Rightarrow> 'op \<Rightarrow> 'op list list \<Rightarrow> 'op list list" where
  "put_op t p x operators = operators[t := (operators ! t)[p := x]]"

fun RecoverOps ::
  "(backup_data \<Rightarrow> 'op \<Rightarrow> 'op option) \<Rightarrow> u32 \<Rightarrow> backup_item list \<Rightarrow> 'op list list \<Rightarrow>
   recover_error + 'op list list" where
  "RecoverOps recov wid [] operators = Inr operators"
| "RecoverOps recov wid (it # its) operators =
     (if worker_id (info it) \<noteq> wid then Inl Worker_unmatch
      else if \<not> item_thread it < length operators then Inl No_thread
      else if \<not> item_op it < length (operators ! item_thread it) then Inl No_operator
      else (case recov (data it) (operators ! item_thread it ! item_op it) of
              None \<Rightarrow> Inl Bad_entry
            | Some x \<Rightarrow> RecoverOps recov wid its (put_op (item_thread it) (item_op it) x operators)))"

definition same_shape :: "'a list list \<Rightarrow> 'b list list \<Rightarrow> bool" where
  "same_shape xs ys \<longleftrightarrow> map length xs = map length ys"

lemma shape_nth:
  "same_shape xs ys \<Longrightarrow> length xs = length ys"
  "same_shape xs ys \<Longrightarrow> t < length xs \<Longrightarrow> length (xs ! t) = length (ys ! t)"
  by (auto simp: same_shape_def dest: map_eq_imp_length_eq) (metis nth_map length_map)

lemma shape_put [simp]: "t < length xs \<Longrightarrow> same_shape (put_op t p x xs) xs"
  by (auto simp: same_shape_def put_op_def map_update intro!: nth_equalityI simp: nth_list_update)

lemma nth_put_op:
  "t < length xs \<Longrightarrow> p < length (xs ! t) \<Longrightarrow> t' < length xs \<Longrightarrow> p' < length (xs ! t') \<Longrightarrow>
   put_op t p x xs ! t' ! p' = (if t' = t \<and> p' = p then x else xs ! t' ! p')"
  by (auto simp: put_op_def nth_list_update)

lemma same_shape_trans: "same_shape a b \<Longrightarrow> same_shape b c \<Longrightarrow> same_shape a c"
  by (simp add: same_shape_def)

definition items_at :: "nat \<Rightarrow> nat \<Rightarrow> backup_item list \<Rightarrow> backup_item list" where
  "items_at t p its = filter (\<lambda>it. item_thread it = t \<and> item_op it = p) its"

text \<open>Recovery acts on every operator separately.\<close>

lemma RecoverOps_each:
  assumes "\<forall>it\<in>set its. worker_id (info it) = wid \<and> item_thread it < length operators \<and>
      item_op it < length (operators ! item_thread it)"
    and "\<And>t p. t < length operators \<Longrightarrow> p < length (operators ! t) \<Longrightarrow>
      ft_replay recov (map data (items_at t p its)) (operators ! t ! p) = Some (r t p)"
  shows "\<exists>res. RecoverOps recov wid its operators = Inr res \<and> same_shape res operators \<and>
    (\<forall>t<length operators. \<forall>p<length (operators ! t). res ! t ! p = r t p)"
  using assms
proof (induction its arbitrary: operators)
  case Nil
  then show ?case by (auto simp: same_shape_def items_at_def)
next
  case (Cons it its)
  let ?t = "item_thread it" and ?p = "item_op it"
  have tp: "worker_id (info it) = wid" "?t < length operators" "?p < length (operators ! ?t)"
    using Cons.prems(1) by auto
  from Cons.prems(2) [OF tp(2,3)] obtain x where x: "recov (data it) (operators ! ?t ! ?p) = Some x"
    by (auto simp: items_at_def split: option.splits)
  let ?ops = "put_op ?t ?p x operators"
  note sh = shape_put [OF tp(2), of ?p x]
  note len = shape_nth(1) [OF sh] shape_nth(2) [OF sh]
  have rest: "ft_replay recov (map data (items_at t p its)) (?ops ! t ! p) = Some (r t p)"
    if "t < length ?ops" "p < length (?ops ! t)" for t p
  proof -
    have tp': "t < length operators" "p < length (operators ! t)" using that len by auto
    from Cons.prems(2) [OF tp'] x show ?thesis
      using nth_put_op [OF tp(2,3) tp', of x] by (auto simp: items_at_def split: if_splits)
  qed
  have "\<forall>x\<in>set its. worker_id (info x) = wid \<and> item_thread x < length ?ops \<and>
      item_op x < length (?ops ! item_thread x)"
    using Cons.prems(1) len by simp
  from Cons.IH [OF this rest] obtain res where res: "RecoverOps recov wid its ?ops = Inr res"
    "same_shape res ?ops" "\<forall>t<length ?ops. \<forall>p<length (?ops ! t). res ! t ! p = r t p" by blast
  have "RecoverOps recov wid (it # its) operators = Inr res" using tp x res(1) by simp
  moreover have "\<forall>t<length operators. \<forall>p<length (operators ! t). res ! t ! p = r t p"
    using res(3) len by simp
  ultimately show ?case using same_shape_trans [OF res(2) sh] by blast
qed

section \<open>The threads of a worker\<close>

text \<open>\<open>WUpd t p i v\<close>: thread \<open>t\<close> updates counter \<open>i\<close> of its operator \<open>p\<close>. \<open>WSer t p bd n\<close>: it backs the
  operator up, with the buffer \<open>bd\<close> and sequence number \<open>n\<close>.\<close>

datatype wevent = WUpd nat nat nat int | WSer nat nat backup_data u64

definition backup_item_of :: "u16 \<Rightarrow> nat \<Rightarrow> nat \<Rightarrow> u64 \<Rightarrow> backup_data \<Rightarrow> backup_item" where
  "backup_item_of wid t p sq d =
     \<lparr>info = \<lparr>backup_op = 0, worker_id = ucast wid, thread_id = of_nat t, op_index = of_nat p, seq = sq\<rparr>,
      data = d\<rparr>"

fun worker_run ::
  "(nat \<Rightarrow> int \<Rightarrow> 'op \<Rightarrow> 'op option) \<Rightarrow> (backup_data \<Rightarrow> 'op \<Rightarrow> (backup_data \<times> 'op) option) \<Rightarrow> u16 \<Rightarrow>
   wevent list \<Rightarrow> 'op list list \<Rightarrow> ('op list list \<times> backup_item list) option" where
  "worker_run upd ser wid [] operators = Some (operators, [])"
| "worker_run upd ser wid (WUpd t p i v # es) operators =
     (if t < length operators \<and> p < length (operators ! t)
      then (case upd i v (operators ! t ! p) of
              None \<Rightarrow> None
            | Some x \<Rightarrow> worker_run upd ser wid es (put_op t p x operators))
      else None)"
| "worker_run upd ser wid (WSer t p bd sq # es) operators =
     (if t < length operators \<and> p < length (operators ! t)
      then (case ser bd (operators ! t ! p) of
              None \<Rightarrow> None
            | Some (it, x) \<Rightarrow>
                (case worker_run upd ser wid es (put_op t p x operators) of
                   None \<Rightarrow> None
                 | Some (res, sent) \<Rightarrow> Some (res, backup_item_of wid t p sq it # sent)))
      else None)"

fun proj :: "nat \<Rightarrow> nat \<Rightarrow> wevent list \<Rightarrow> ft_op list" where
  "proj t p [] = []"
| "proj t p (WUpd t' p' i v # es) = (if t' = t \<and> p' = p then Upd i v # proj t p es else proj t p es)"
| "proj t p (WSer t' p' bd sq # es) = (if t' = t \<and> p' = p then Ser bd # proj t p es else proj t p es)"

definition small_shape :: "'op list list \<Rightarrow> bool" where
  "small_shape operators \<longleftrightarrow> length operators < 2 ^ 16 \<and> (\<forall>n\<in>set (map length operators). n < 2 ^ 16)"

lemma small_shape_cong: "same_shape a b \<Longrightarrow> small_shape b \<Longrightarrow> small_shape a"
  unfolding small_shape_def same_shape_def by (metis length_map)

lemma item_of_fields:
  assumes "t < 2 ^ 16" "p < 2 ^ 16"
  shows "item_thread (backup_item_of w t p sq d) = t" "item_op (backup_item_of w t p sq d) = p"
  using assms by (simp_all add: item_thread_def item_op_def backup_item_of_def unsigned_of_nat
      take_bit_nat_eq_self)

lemma worker_run_proj:
  assumes "worker_run upd ser wid es operators = Some (res, sent)" "small_shape operators"
  shows "same_shape res operators \<and>
    (\<forall>it\<in>set sent. worker_id (info it) = ucast wid \<and> backup_op (info it) = 0 \<and>
      item_thread it < length operators \<and> item_op it < length (operators ! item_thread it)) \<and>
    (\<forall>t<length operators. \<forall>p<length (operators ! t).
      ft_run upd ser (proj t p es) (operators ! t ! p) = Some (res ! t ! p, map data (items_at t p sent)))"
  using assms
proof (induction es arbitrary: operators sent)
  case Nil
  then show ?case by (simp add: same_shape_def items_at_def)
next
  case (Cons e es)
  show ?case
  proof (cases e)
    case (WUpd t p i v)
    with Cons.prems(1) obtain x where x: "t < length operators" "p < length (operators ! t)"
      "upd i v (operators ! t ! p) = Some x"
      "worker_run upd ser wid es (put_op t p x operators) = Some (res, sent)"
      by (auto split: if_splits option.splits)
    note sh = shape_put [OF x(1), of p x]
    note len = shape_nth(1) [OF sh] shape_nth(2) [OF sh]
    note IH = Cons.IH [OF x(4) small_shape_cong [OF sh Cons.prems(2)]]
    have "ft_run upd ser (proj t' p' (e # es)) (operators ! t' ! p') =
        Some (res ! t' ! p', map data (items_at t' p' sent))"
      if "t' < length operators" "p' < length (operators ! t')" for t' p'
    proof -
      have "ft_run upd ser (proj t' p' es) (put_op t p x operators ! t' ! p') =
          Some (res ! t' ! p', map data (items_at t' p' sent))" using IH that len by simp
      then show ?thesis
        using nth_put_op [OF x(1,2) that, of x] x(3) WUpd by (cases "t' = t \<and> p' = p") auto
    qed
    with IH len same_shape_trans [OF _ sh] show ?thesis by auto
  next
    case (WSer t p bd sq)
    with Cons.prems(1) obtain it x sent' where x: "t < length operators" "p < length (operators ! t)"
      "ser bd (operators ! t ! p) = Some (it, x)"
      "worker_run upd ser wid es (put_op t p x operators) = Some (res, sent')"
      "sent = backup_item_of wid t p sq it # sent'"
      by (auto split: if_splits option.splits)
    note sh = shape_put [OF x(1), of p x]
    note len = shape_nth(1) [OF sh] shape_nth(2) [OF sh]
    note IH = Cons.IH [OF x(4) small_shape_cong [OF sh Cons.prems(2)]]
    have "length (operators ! t) \<in> set (map length operators)" using x(1) by simp
    then have "length (operators ! t) < 2 ^ 16" using Cons.prems(2) unfolding small_shape_def by blast
    then have tp: "t < 2 ^ 16" "p < 2 ^ 16"
      using Cons.prems(2) x(1,2) unfolding small_shape_def by linarith+
    have at: "items_at t' p' sent = (if t' = t \<and> p' = p then backup_item_of wid t p sq it # items_at t' p' sent'
        else items_at t' p' sent')" for t' p'
      using x(5) item_of_fields [OF tp] by (auto simp: items_at_def)
    have "ft_run upd ser (proj t' p' (e # es)) (operators ! t' ! p') =
        Some (res ! t' ! p', map data (items_at t' p' sent))"
      if "t' < length operators" "p' < length (operators ! t')" for t' p'
    proof -
      have "ft_run upd ser (proj t' p' es) (put_op t p x operators ! t' ! p') =
          Some (res ! t' ! p', map data (items_at t' p' sent'))" using IH that len by simp
      then show ?thesis
        using nth_put_op [OF x(1,2) that, of x] x(3) WSer at [of t' p']
        by (cases "t' = t \<and> p' = p") (auto simp: backup_item_of_def)
    qed
    moreover have "\<forall>y\<in>set sent. worker_id (info y) = ucast wid \<and> backup_op (info y) = 0 \<and>
        item_thread y < length operators \<and> item_op y < length (operators ! item_thread y)"
      using IH len x item_of_fields [OF tp] by (auto simp: backup_item_of_def)
    ultimately show ?thesis using IH same_shape_trans [OF _ sh] by blast
  qed
qed

section \<open>A recovery reply holds the latest entries\<close>

lemma map_of_rev_last:
  "map_of (rev (map f xs)) k =
     (case filter (\<lambda>x. fst (f x) = k) xs of [] \<Rightarrow> None | ys \<Rightarrow> Some (snd (f (last ys))))"
proof (induction xs rule: rev_induct)
  case (snoc x xs)
  then show ?case by (cases "f x") (auto split: list.splits)
qed simp

lemma same_item_entry:
  assumes "same_item x y" "entry_ok (data y)"
  shows "entry_kv (data x) = entry_kv (data y)" "entry_index (data x) = unat (item_key x)"
proof -
  have len: "unat (bd_len (data x)) = 12" "unat (bd_len (data y)) = 12"
    using assms by (auto simp: same_item_def entry_ok_def)
  have d: "take 12 (bd_data (data x)) = take 12 (bd_data (data y))" and k: "bd_key (data x) = bd_key (data y)"
    using assms(1) len by (auto simp: same_item_def)
  have "take 8 (drop 4 (bd_data (data x))) = take 8 (drop 4 (bd_data (data y)))"
    using arg_cong [OF d, of "drop 4"] by (simp add: drop_take)
  with k assms(2) show "entry_kv (data x) = entry_kv (data y)" "entry_index (data x) = unat (item_key x)"
    by (simp_all add: entry_kv_def entry_index_def entry_value_def entry_ok_def item_key_def)
qed

lemma content_latest:
  assumes "content_inv c h" "\<forall>it\<in>set h. item_ok it \<and> entry_ok (data it)" "bd_ok (data junk)"
  shows "latest (map data (AppendRecoveryItem junk c)) (map data h)"
proof -
  let ?rl = "AppendRecoveryItem junk c"
  have ok: "\<forall>it\<in>set h. item_ok it" using assms(2) by simp
  note sp = AppendRecovery_spec [OF assms(1) ok assms(3)]
  have in_h: "last (log_of k h) \<in> set h" if "log_of k h \<noteq> []" for k
    using last_in_set [OF that] by (auto simp: log_of_def)
  have x: "entry_kv (data x) = entry_kv (data (last (log_of (item_key x) h)))"
    "entry_index (data x) = unat (item_key x)" if "x \<in> set ?rl" for x
    using same_item_entry sp(2) that assms(2) in_h by blast+
  have y: "entry_index (data y) = unat (item_key y)" if "y \<in> set h" for y
    using same_item_entry(2) [OF same_item_refl] assms(2) that by blast
  have fil: "filter (\<lambda>y. entry_index (data y) = unat k) h = log_of k h" for k
    unfolding log_of_def by (rule filter_cong) (auto simp: y word_unat_eq_iff)
  have dist: "distinct (map entry_index (map data ?rl))"
    using sp(1) x(2) by (auto simp: distinct_map inj_on_def dest: word_unat_eq_iff [THEN iffD2])
  have "map_of (map entry_kv (map data ?rl)) i = map_of (rev (map entry_kv (map data h))) i" for i
  proof (cases "\<exists>x\<in>set ?rl. entry_index (data x) = i")
    case True
    then obtain x0 where x0: "x0 \<in> set ?rl" "entry_index (data x0) = i" by blast
    have "map_of (map entry_kv (map data ?rl)) i = Some (entry_value (data x0))"
      using x0 dist by (intro map_of_is_SomeI) (force simp: comp_def entry_kv_def)+
    moreover have "filter (\<lambda>y. fst (entry_kv (data y)) = i) h = log_of (item_key x0) h"
      using fil [of "item_key x0"] x(2) [OF x0(1)] x0(2) by (simp add: entry_kv_def)
    moreover have "log_of (item_key x0) h \<noteq> []" using sp(2) x0(1) by blast
    moreover have "snd (entry_kv (data (last (log_of (item_key x0) h)))) = entry_value (data x0)"
      using x(1) [OF x0(1)] by (simp add: entry_kv_def)
    ultimately show ?thesis
      using map_of_rev_last [of "entry_kv \<circ> data" h i] by (auto simp: comp_def split: list.splits)
  next
    case False
    then have "i \<notin> entry_index ` data ` set h"
      using sp(3) x(2) y by (auto simp: image_iff set_eq_iff) (metis imageE image_eqI)
    then have "map_of (rev (map entry_kv (map data h))) i = None"
      by (auto simp: map_of_eq_None_iff entry_kv_def image_iff)
    moreover have "map_of (map entry_kv (map data ?rl)) i = None"
      using False by (auto simp: map_of_eq_None_iff entry_kv_def image_iff)
    ultimately show ?thesis by simp
  qed
  with dist show ?thesis by (auto simp: latest_def)
qed

section \<open>A worker recovers what it has backed up\<close>

definition key_of :: "u16 \<Rightarrow> nat \<Rightarrow> nat \<Rightarrow> u64" where
  "key_of w t p = MAKE_OP_KEY w (of_nat t) (ucast (of_nat p :: u16))"

lemma op_key_at:
  assumes "item_worker it = w" "t < 2 ^ 16" "p < 2 ^ 16"
  shows "op_key it = key_of w t p \<longleftrightarrow> item_thread it = t \<and> item_op it = p"
proof -
  have "op_key it = key_of w t p \<longleftrightarrow>
      thread_id (info it) = of_nat t \<and> op_index (info it) = (of_nat p :: u16)"
    using MAKE_OP_KEY_inj assms(1) by (auto simp: op_key_def key_of_def item_worker_def)
  also have "\<dots> \<longleftrightarrow> item_thread it = t \<and> item_op it = p"
    using assms(2,3) by (auto simp: item_thread_def item_op_def word_unat_eq_iff unsigned_of_nat
        take_bit_nat_eq_self)
  finally show ?thesis .
qed

lemma filter_recovery_items:
  assumes "server_inv s L" "bd_ok (data junk)"
  shows "filter (\<lambda>x. op_key x = k) (recovery_items junk s w) =
    (if k \<in> set (worker_ops s w) then AppendRecoveryItem junk (the (ops s k)) else [])"
proof -
  let ?f = "\<lambda>k. AppendRecoveryItem junk (the (ops s k))"
  have "filter (\<lambda>x. op_key x = k) (concat (map ?f ks)) = (if k \<in> set ks then ?f k else [])"
    if "distinct ks" "set ks \<subseteq> set (worker_ops s w)" for ks
    using that
  proof (induction ks)
    case (Cons j ks)
    have "filter (\<lambda>x. op_key x = k) (?f j) = (if j = k then ?f j else [])"
      using recovery_part(2) [OF assms, of j w] Cons.prems(2)
      by (auto simp: filter_empty_conv filter_id_conv)
    with Cons show ?case by auto
  qed simp
  then show ?thesis using assms(1) by (simp add: recovery_items_def server_inv_def)
qed

lemma list_all2_filter:
  "list_all2 R xs ys \<Longrightarrow> (\<And>x y. R x y \<Longrightarrow> P x = Q y) \<Longrightarrow> list_all2 R (filter P xs) (filter Q ys)"
  by (induction rule: list_all2_induct) auto

lemma list_all2_member:
  assumes "list_all2 R xs ys" "x \<in> set xs"
  obtains y where "y \<in> set ys" "R x y"
  using assms by (induction rule: list_all2_induct) auto

lemma same_item_keys: "same_item x y \<Longrightarrow> op_key x = op_key y \<and> item_worker x = item_worker y \<and>
    item_thread x = item_thread y \<and> item_op x = item_op y"
  by (simp add: same_item_def op_key_def item_worker_def item_thread_def item_op_def)

lemma same_items_kv:
  "list_all2 same_item xs ys \<Longrightarrow> \<forall>y\<in>set ys. entry_ok (data y) \<Longrightarrow>
   map entry_kv (map data xs) = map entry_kv (map data ys)"
  by (induction rule: list_all2_induct) (auto simp: same_item_entry(1))

text \<open>The server's history of one operator is what the worker has sent for it.\<close>

lemma replies_latest:
  assumes "server_inv s (filter is_save reqs)" "bd_ok (data junk)" "t < 2 ^ 16" "p < 2 ^ 16"
    "list_all2 same_item (filter (\<lambda>y. is_save y \<and> item_worker y = w) reqs) sent"
    "\<forall>z\<in>set (items_at t p sent). entry_ok (data z)" "\<forall>z\<in>set sent. item_worker z = w"
  shows "latest (map data (items_at t p (recovery_items junk s w))) (map data (items_at t p sent))"
proof -
  let ?k = "key_of w t p"
  let ?L = "filter is_save reqs"
  let ?h = "filter (\<lambda>y. op_key y = ?k) ?L"
  have wk: "item_worker y = w" if "op_key y = ?k" for y
    using that MAKE_OP_KEY_inj by (auto simp: op_key_def key_of_def item_worker_def)
  have h: "?h = filter (\<lambda>y. op_key y = ?k) (filter (\<lambda>y. is_save y \<and> item_worker y = w) reqs)"
    unfolding filter_filter by (rule filter_cong) (auto dest: wk)
  have at: "items_at t p xs = filter (\<lambda>y. op_key y = ?k) xs" if "\<forall>x\<in>set xs. item_worker x = w" for xs
    unfolding items_at_def using that op_key_at [OF _ assms(3,4)] by (intro filter_cong) auto
  have all2: "list_all2 same_item ?h (items_at t p sent)"
    unfolding h at [OF assms(7)] by (rule list_all2_filter [OF assms(5)]) (simp add: same_item_keys)
  have ok: "\<forall>y\<in>set ?h. item_ok y \<and> entry_ok (data y)"
  proof
    fix y assume y: "y \<in> set ?h"
    then obtain z where z: "z \<in> set (items_at t p sent)" "same_item y z"
      by (rule list_all2_member [OF all2])
    have iy: "item_ok y" using y assms(1) by (simp add: server_inv_def)
    have "entry_index (data y) = unat (item_key y)" "bd_len (data y) = 12"
      using same_item_entry(2) [OF z(2)] z assms(6) by (auto simp: same_item_def entry_ok_def)
    with iy show "item_ok y \<and> entry_ok (data y)" by (simp add: entry_ok_def item_ok_def item_key_def)
  qed
  have "latest (map data (items_at t p (recovery_items junk s w))) (map data ?h)"
  proof (cases "?k \<in> set (worker_ops s w)")
    case True
    then show ?thesis
      using at recovery_spec(1) [OF assms(1,2)] filter_recovery_items [OF assms(1,2)]
        content_latest [OF recovery_part(1) [OF assms(1,2) True] ok assms(2)] by simp
  next
    case False
    have "set (worker_ops s w) = op_key ` {it \<in> set ?L. item_worker it = w}"
      using assms(1) unfolding server_inv_def by blast
    moreover have "op_key y \<in> op_key ` {it \<in> set ?L. item_worker it = w}"
      if "y \<in> set ?L" "op_key y = ?k" for y
      using that wk [OF that(2)] by (intro imageI) simp
    ultimately have "?h = []" using False unfolding filter_empty_conv by metis
    moreover have "items_at t p (recovery_items junk s w) = []"
      using False at recovery_spec(1) [OF assms(1,2)] filter_recovery_items [OF assms(1,2), of ?k w] by simp
    ultimately show ?thesis by (simp add: latest_def)
  qed
  then show ?thesis using same_items_kv [OF all2 assms(6)] by (simp add: latest_def)
qed

context ft_array
begin

lemma worker_recovery:
  assumes run: "worker_run upd ser w es operators = Some (res, sent)" and sm: "small_shape operators"
    and fr: "\<forall>t<length operators. \<forall>p<length (operators ! t). \<exists>n<2 ^ 32. operators ! t ! p = fresh n"
    and eo: "\<forall>t p. ops_ok B (proj t p es)"
    and rq: "\<forall>it\<in>set reqs. item_ok it" and jk: "bd_ok (data junk)"
    and al: "list_all2 same_item (filter (\<lambda>y. is_save y \<and> item_worker y = w) reqs) sent"
    and s: "s = server_run k junk reqs server_init"
  shows "\<exists>items rec. RetriveBackups k junk stack w s = Some (s, items) \<and>
    RecoverOps recov (ucast w) items operators = Inr rec \<and> same_shape rec operators \<and>
    (\<forall>t<length operators. \<forall>p<length (operators ! t). live (rec ! t ! p) = saved (res ! t ! p))"
proof -
  have i: "server_inv s (filter is_save reqs)"
    using server_run_inv [OF server_init_inv rq jk] s by simp
  note wr = worker_run_proj [OF run sm]
  have sw: "\<forall>z\<in>set sent. item_worker z = w" using wr by (auto simp: item_worker_def)
  have small: "t < 2 ^ 16" "p < 2 ^ 16" if "t < length operators" "p < length (operators ! t)" for t p
  proof -
    have "length (operators ! t) \<in> set (map length operators)" using that(1) by simp
    then show "t < 2 ^ 16" "p < 2 ^ 16"
      using sm that unfolding small_shape_def by (meson order.strict_trans)+
  qed
  let ?it = "recovery_items junk s w"
  have each: "\<exists>r. ft_replay recov (map data (items_at t p ?it)) (operators ! t ! p) = Some r \<and>
      live r = saved (res ! t ! p)" if tp: "t < length operators" "p < length (operators ! t)" for t p
  proof -
    obtain n where n: "n < 2 ^ 32" "operators ! t ! p = fresh n" using fr tp by blast
    have r: "ft_run upd ser (proj t p es) (fresh n) = Some (res ! t ! p, map data (items_at t p sent))"
      using wr tp n(2) by metis
    have eo': "ops_ok B (proj t p es)" using eo by blast
    have "ok (fresh n)" using fresh_ok [OF n(1)] by simp
    from run_saved [OF this eo' r] have "\<forall>z\<in>set (items_at t p sent). entry_ok (data z)" by simp
    from recovery [OF n(1) eo' r replies_latest [OF i jk small [OF tp] al this sw]] n(2)
    show ?thesis by auto
  qed
  define r where "r t p = (SOME r. ft_replay recov (map data (items_at t p ?it)) (operators ! t ! p) = Some r \<and>
      live r = saved (res ! t ! p))" for t p
  have rtp: "ft_replay recov (map data (items_at t p ?it)) (operators ! t ! p) = Some (r t p)"
    "live (r t p) = saved (res ! t ! p)" if "t < length operators" "p < length (operators ! t)" for t p
    using someI_ex [OF each [OF that]] unfolding r_def by auto
  have "\<forall>x\<in>set ?it. worker_id (info x) = ucast w \<and> item_thread x < length operators \<and>
      item_op x < length (operators ! item_thread x)"
  proof
    fix x assume x: "x \<in> set ?it"
    from recovery_spec(2) [OF i jk x] obtain y where y: "y \<in> set reqs" "is_save y" "same_item x y"
      by auto
    have "item_worker y = w" using recovery_spec(1) [OF i jk x] same_item_keys [OF y(3)] by simp
    with y have "y \<in> set (filter (\<lambda>y. is_save y \<and> item_worker y = w) reqs)" by simp
    then obtain z where z: "z \<in> set sent" "same_item y z"
      by (rule list_all2_member [OF al])
    have "worker_id (info x) = worker_id (info z)" using y(3) z(2) by (simp add: same_item_def)
    with wr z(1) same_item_keys [OF y(3)] same_item_keys [OF z(2)]
    show "worker_id (info x) = ucast w \<and> item_thread x < length operators \<and>
      item_op x < length (operators ! item_thread x)" by auto
  qed
  from RecoverOps_each [OF this, of recov r] rtp obtain rec where
    "RecoverOps recov (ucast w) ?it operators = Inr rec" "same_shape rec operators"
    "\<forall>t<length operators. \<forall>p<length (operators ! t). rec ! t ! p = r t p" by blast
  with rtp show ?thesis unfolding RetriveBackups_eq by auto
qed

end

section \<open>The backup pass of a compute thread\<close>

text \<open>The loop over the operators at the end of each turn of \<open>ThreadMainHandler\<close>: an operator whose
  divergence exceeds its threshold is serialised into the command's buffer and the item is handed to
  the worker, which forwards it and answers before the loop goes on. \<open>tuple\<close> is the sequence number of
  the record just extracted, \<open>None\<close> if the input queue was empty: the code dereferences it without a
  check.\<close>

datatype pass_error = Null_tuple | Bad_array

fun backup_pass ::
  "('op \<Rightarrow> int) \<Rightarrow> (backup_data \<Rightarrow> 'op \<Rightarrow> (backup_data \<times> 'op) option) \<Rightarrow> u16 \<Rightarrow> nat \<Rightarrow> u64 option \<Rightarrow>
   nat \<Rightarrow> backup_data \<Rightarrow> ('op \<times> real) list \<Rightarrow> pass_error + ('op \<times> real) list \<times> backup_item list" where
  "backup_pass dv ser wid t tuple i bd [] = Inr ([], [])"
| "backup_pass dv ser wid t tuple i bd ((x, th) # xs) =
     (if real_of_int (dv x) > th then
        (case ser bd x of
           None \<Rightarrow> Inl Bad_array
         | Some (it, x') \<Rightarrow>
             if bd_len it \<noteq> 0 then
               (case tuple of
                  None \<Rightarrow> Inl Null_tuple
                | Some sq \<Rightarrow>
                    (case backup_pass dv ser wid t tuple (Suc i) (it\<lparr>bd_len := 0\<rparr>) xs of
                       Inl e \<Rightarrow> Inl e
                     | Inr (ys, its) \<Rightarrow> Inr ((x', th) # ys, backup_item_of wid t i sq it # its)))
             else
               (case backup_pass dv ser wid t tuple (Suc i) it xs of
                  Inl e \<Rightarrow> Inl e
                | Inr (ys, its) \<Rightarrow> Inr ((x', th) # ys, its)))
      else
        (case backup_pass dv ser wid t tuple (Suc i) bd xs of
           Inl e \<Rightarrow> Inl e
         | Inr (ys, its) \<Rightarrow> Inr ((x, th) # ys, its)))"

lemma max_serialize_pass:
  assumes "max_ok x" "bd_ok bd" "0 < length (marr x)"
  shows "\<exists>it x'. max_SerializeState bd x = Some (it, x') \<and> bd_len it = 12 \<and> bd_ok it \<and>
    max_CalculateDivergence x' = 0 \<and> marr x' = marr x"
proof -
  have "mdiff_index x < length (marr x)" using assms(1,3) by (auto simp: max_ok_def)
  then obtain it x' where s: "max_SerializeState bd x = Some (it, x')"
    by (simp add: max_SerializeState_def Let_def)
  moreover have "entry_ok it" "marr x' = marr x" using maxa.ser_step [OF assms(1,2) s] by auto
  moreover have "max_CalculateDivergence x' = 0"
    using s by (auto simp: max_SerializeState_def Let_def max_CalculateDivergence_def split: if_splits)
  ultimately show ?thesis by (auto simp: entry_ok_def)
qed

lemma max_pass:
  assumes "\<forall>(x, th)\<in>set xs. max_ok x \<and> 0 < length (marr x) \<and> 0 \<le> th" "bd_ok bd"
  shows "\<exists>ys its. backup_pass max_CalculateDivergence max_SerializeState wid t (Some sq) i bd xs =
      Inr (ys, its) \<and> length ys = length xs \<and> map snd ys = map snd xs \<and>
    map (marr \<circ> fst) ys = map (marr \<circ> fst) xs \<and>
    (\<forall>(y, th)\<in>set ys. real_of_int (max_CalculateDivergence y) \<le> th) \<and>
    length its = length (filter (\<lambda>(x, th). real_of_int (max_CalculateDivergence x) > th) xs)"
  using assms
proof (induction xs arbitrary: i bd)
  case (Cons a xs)
  obtain x th where a: "a = (x, th)" by fastforce
  have x: "max_ok x" "0 < length (marr x)" "0 \<le> th" using Cons.prems(1) a by auto
  show ?case
  proof (cases "real_of_int (max_CalculateDivergence x) > th")
    case True
    from max_serialize_pass [OF x(1) Cons.prems(2) x(2)] obtain it x' where
      s: "max_SerializeState bd x = Some (it, x')" "bd_len it = 12" "bd_ok it"
      "max_CalculateDivergence x' = 0" "marr x' = marr x" by blast
    have "bd_ok (it\<lparr>bd_len := 0\<rparr>)" using s(3) by (simp add: bd_ok_def)
    from Cons.IH [OF _ this, of "Suc i"] Cons.prems(1) a True s x(3) show ?thesis by auto
  next
    case False
    from Cons.IH [OF _ Cons.prems(2), of "Suc i"] Cons.prems(1) a False show ?thesis by auto
  qed
qed simp

section \<open>Properties\<close>





text \<open>With a negative threshold, such as the default -1 of \<open>max_state_err\<close>, the pass dereferences a null
  pointer as soon as it runs while the input queue is empty.\<close>

theorem backup_pass_null_tuple:
  "backup_pass max_CalculateDivergence max_SerializeState wid t None i demo_buf
     [(NumericArray_MAX 1, - 1)] = Inl Null_tuple"
  by (simp add: max_CalculateDivergence_def NumericArray_MAX_def max_SerializeState_def put_entry_def)

end
