(* ===== verification/Cm_App.thy ===== *)
theory Cm_App
  imports Count_Min
begin

text \<open>
  The Count-Min application around the sketch: the packed record \<open>CMItem\<close> (\<open>apps/count_min/
  cm_item.hpp\<close>), the window logic of the counting thread (\<open>cm_thread.hpp\<close>) and the merging
  thread (\<open>merge_thread.hpp\<close>). A write or read behind the end of the record's buffer, which the
  code does not prevent, is the value \<open>None\<close>. The handler of the counting thread
  starts here from key and value; the input line is parsed in theory \<open>Cm_Input\<close>.
\<close>

section \<open>CMItem\<close>

definition SK_SIZE :: nat where "SK_SIZE = 8000"
definition MAX_HH :: nat where "MAX_HH = 100"

definition cm_raw_size :: nat where
  "cm_raw_size = SK_SIZE * (4 + 8) + MAX_HH * 8"

record cm_item =
  num_counter :: nat
  num_hh :: nat
  cm_raw :: bytes
  cm_start :: nat

definition CMItem :: "bytes \<Rightarrow> cm_item" where
  "CMItem junk = \<lparr>num_counter = 0, num_hh = 0, cm_raw = junk, cm_start = 0\<rparr>"

definition AppendCounter :: "u32 \<Rightarrow> int \<Rightarrow> cm_item \<Rightarrow> cm_item option" where
  "AppendCounter index v it =
     (if cm_start it + 12 \<le> length (cm_raw it)
      then Some (it\<lparr>num_counter := num_counter it + 1,
             cm_raw := blit (blit (cm_raw it) (cm_start it) (le_bytes 4 index))
                         (cm_start it + 4) (le_bytes 8 (word_of_int v :: u64)),
             cm_start := cm_start it + (4 + 8)\<rparr>)
      else None)"

definition AppendHH :: "u64 \<Rightarrow> cm_item \<Rightarrow> cm_item option" where
  "AppendHH key it =
     (if cm_start it + 8 \<le> length (cm_raw it)
      then Some (it\<lparr>num_hh := num_hh it + 1, cm_raw := blit (cm_raw it) (cm_start it) (le_bytes 8 key),
             cm_start := cm_start it + 8\<rparr>)
      else None)"

definition GetCounter :: "nat \<Rightarrow> cm_item \<Rightarrow> (u32 \<times> int) option" where
  "GetCounter n it =
     (let start = n * (4 + 8) in
      if start + 12 \<le> length (cm_raw it)
      then Some (le_load (take 4 (drop start (cm_raw it))),
                 sint (le_load (take 8 (drop (start + 4) (cm_raw it))) :: u64))
      else None)"

definition GetKey :: "nat \<Rightarrow> cm_item \<Rightarrow> u64 option" where
  "GetKey n it =
     (let start = num_counter it * (4 + 8) + n * 8 in
      if start + 8 \<le> length (cm_raw it) then Some (le_load (take 8 (drop start (cm_raw it)))) else None)"

definition cm_size :: "cm_item \<Rightarrow> nat" where
  "cm_size it = 4 + 4 + num_counter it * (4 + 8) + num_hh it * 8"

section \<open>What a record holds\<close>

definition counter_bytes :: "u32 \<times> int \<Rightarrow> bytes" where
  "counter_bytes c = le_bytes 4 (fst c) @ le_bytes 8 (word_of_int (snd c) :: u64)"

definition item_holds :: "cm_item \<Rightarrow> (u32 \<times> int) list \<Rightarrow> u64 list \<Rightarrow> bool" where
  "item_holds it cs ks \<longleftrightarrow> num_counter it = length cs \<and> num_hh it = length ks \<and>
     cm_start it = 12 * length cs + 8 * length ks \<and> cm_start it \<le> length (cm_raw it) \<and>
     take (cm_start it) (cm_raw it) = concat (map counter_bytes cs) @ concat (map (le_bytes 8) ks)"

lemma length_counter_bytes [simp]: "length (counter_bytes c) = 12"
  by (simp add: counter_bytes_def)

lemma chunk_nth:
  "(\<And>x. length (f x) = m) \<Longrightarrow> i < length xs \<Longrightarrow>
   take m (drop (m * i) (concat (map f xs) @ rest)) = f (xs ! i)"
proof (induction xs arbitrary: i)
  case (Cons x xs)
  then show ?case by (cases i) simp_all
qed simp

lemma length_chunks: "(\<And>x. length (f x) = m) \<Longrightarrow> length (concat (map f xs)) = m * length xs"
  by (induction xs) simp_all

lemma AppendCounter_holds:
  assumes "item_holds it cs []" "12 * length cs + 12 \<le> length (cm_raw it)"
  shows "\<exists>it'. AppendCounter i v it = Some it' \<and> item_holds it' (cs @ [(i, v)]) [] \<and>
    length (cm_raw it') = length (cm_raw it)"
proof -
  let ?n = "cm_start it"
  have n: "?n = 12 * length cs" using assms(1) by (simp add: item_holds_def)
  have "blit (blit (cm_raw it) ?n (le_bytes 4 i)) (?n + 4) (le_bytes 8 (word_of_int v :: u64)) =
      blit (cm_raw it) ?n (counter_bytes (i, v))"
    using blit_append [of ?n "le_bytes 4 i" "le_bytes 8 (word_of_int v :: u64)" "cm_raw it"] assms(2) n
    by (simp add: counter_bytes_def)
  moreover have "take (?n + 12) (blit (cm_raw it) ?n (counter_bytes (i, v))) =
      take ?n (cm_raw it) @ counter_bytes (i, v)"
    using take_blit_upto [of ?n "counter_bytes (i, v)" "cm_raw it"] assms(2) n by simp
  ultimately show ?thesis using assms n by (simp add: AppendCounter_def item_holds_def)
qed

lemma AppendHH_holds:
  assumes "item_holds it cs ks" "12 * length cs + 8 * length ks + 8 \<le> length (cm_raw it)"
  shows "\<exists>it'. AppendHH k it = Some it' \<and> item_holds it' cs (ks @ [k]) \<and>
    length (cm_raw it') = length (cm_raw it)"
proof -
  let ?n = "cm_start it"
  have n: "?n = 12 * length cs + 8 * length ks" using assms(1) by (simp add: item_holds_def)
  have "take (?n + 8) (blit (cm_raw it) ?n (le_bytes 8 k)) = take ?n (cm_raw it) @ le_bytes 8 k"
    using take_blit_upto [of ?n "le_bytes 8 k" "cm_raw it"] assms(2) n by simp
  then show ?thesis using assms n by (simp add: AppendHH_def item_holds_def)
qed

lemma holds_split:
  assumes "item_holds it cs ks"
  shows "cm_raw it = concat (map counter_bytes cs) @ concat (map (le_bytes 8) ks) @ drop (cm_start it) (cm_raw it)"
    "12 * length cs + 8 * length ks \<le> length (cm_raw it)"
proof -
  show "cm_raw it = concat (map counter_bytes cs) @ concat (map (le_bytes 8) ks) @ drop (cm_start it) (cm_raw it)"
    using assms unfolding item_holds_def by (metis append_assoc append_take_drop_id)
  show "12 * length cs + 8 * length ks \<le> length (cm_raw it)" using assms by (simp add: item_holds_def)
qed

lemma GetCounter_holds:
  assumes "item_holds it cs ks" "i < length cs" "in_s64 (snd (cs ! i))"
  shows "GetCounter i it = Some (cs ! i)"
proof -
  note h = holds_split [OF assms(1)]
  have c: "take 12 (drop (12 * i) (cm_raw it)) = counter_bytes (cs ! i)"
    by (subst h(1)) (rule chunk_nth [OF length_counter_bytes assms(2)])
  have "take 4 (drop (12 * i) (cm_raw it)) = take 4 (take 12 (drop (12 * i) (cm_raw it)))" by simp
  moreover have "take 8 (drop (12 * i + 4) (cm_raw it)) = drop 4 (take 12 (drop (12 * i) (cm_raw it)))"
    by (simp add: drop_take add.commute)
  moreover have "12 * i + 12 \<le> length (cm_raw it)" using h(2) assms(2) by linarith
  ultimately show ?thesis
    using assms(3) unfolding c
    by (simp add: GetCounter_def Let_def mult.commute counter_bytes_def le_load_le_bytes sint_word_of_int64)
qed

lemma GetKey_holds:
  assumes "item_holds it cs ks" "i < length ks"
  shows "GetKey i it = Some (ks ! i)"
proof -
  note h = holds_split [OF assms(1)]
  have n: "num_counter it = length cs" using assms(1) by (simp add: item_holds_def)
  have "drop (12 * length cs + 8 * i) (cm_raw it) =
      drop (8 * i) (concat (map (le_bytes 8) ks) @ drop (cm_start it) (cm_raw it))"
    by (subst h(1)) (simp add: length_chunks [OF length_counter_bytes] drop_append)
  then have "take 8 (drop (12 * length cs + 8 * i) (cm_raw it)) = le_bytes 8 (ks ! i)"
    using chunk_nth [of "le_bytes 8" 8 i ks] assms(2) by (metis length_le_bytes)
  moreover have "12 * length cs + 8 * i + 8 \<le> length (cm_raw it)" using h(2) assms(2) by linarith
  ultimately show ?thesis by (simp add: GetKey_def Let_def n mult.commute le_load_le_bytes)
qed

section \<open>The counting thread\<close>

record cm_state =
  cs_sketch :: cm_sketch
  cs_cand :: "u64 set"
  cs_byte :: u64
  cs_window :: u64
  cs_thresh :: u64
  cs_row :: nat
  cs_width :: nat

text \<open>The two loops over the cells and the loop over the candidates, which \<open>std::set\<close> yields in
  ascending order.\<close>

fun append_cells :: "nat \<Rightarrow> cm_sketch \<Rightarrow> (nat \<times> nat) list \<Rightarrow> cm_item \<Rightarrow> cm_item option" where
  "append_cells w s [] it = Some it"
| "append_cells w s ((i, j) # ijs) it =
     (case cm_GetValue i j s of
        None \<Rightarrow> None
      | Some v \<Rightarrow>
          if v > 0
          then (case AppendCounter (of_nat (i * w + j)) v it of
                  None \<Rightarrow> None
                | Some it' \<Rightarrow> append_cells w s ijs it')
          else append_cells w s ijs it)"

fun append_keys :: "u64 list \<Rightarrow> cm_item \<Rightarrow> cm_item option" where
  "append_keys [] it = Some it"
| "append_keys (k # ks) it = (case AppendHH k it of None \<Rightarrow> None | Some it' \<Rightarrow> append_keys ks it')"

definition cells :: "nat \<Rightarrow> nat \<Rightarrow> (nat \<times> nat) list" where
  "cells r w = concat (map (\<lambda>i. map (Pair i) [0..<w]) [0..<r])"

text \<open>\<open>TerminateWindow\<close>: the record emitted, and the state after the reset.\<close>

definition TerminateWindow :: "bytes \<Rightarrow> cm_state \<Rightarrow> (cm_item \<times> cm_state) option" where
  "TerminateWindow junk st =
     (case append_cells (cs_width st) (cs_sketch st) (cells (cs_row st) (cs_width st)) (CMItem junk) of
        None \<Rightarrow> None
      | Some it \<Rightarrow>
          (case append_keys (sorted_list_of_set (cs_cand st)) it of
             None \<Rightarrow> None
           | Some it' \<Rightarrow>
               Some (it', st\<lparr>cs_byte := 0, cs_sketch := cm_Clear (cs_sketch st), cs_cand := {}\<rparr>)))"

definition cm_ProcessData :: "bytes \<Rightarrow> u64 \<Rightarrow> int \<Rightarrow> cm_state \<Rightarrow> (cm_item option \<times> cm_state) option" where
  "cm_ProcessData junk key v st =
     (case UpdateSketch key v (cs_sketch st) of
        None \<Rightarrow> None
      | Some (sk, ret) \<Rightarrow>
          (let sum = (word_of_int ret :: u64);
               st1 = st\<lparr>cs_sketch := sk,
                        cs_cand := (if sum > cs_thresh st \<and> key \<notin> cs_cand st
                                    then insert key (cs_cand st) else cs_cand st),
                        cs_byte := cs_byte st + word_of_int v\<rparr>
           in if cs_byte st1 > cs_window st1
              then map_option (\<lambda>(it, st2). (Some it, st2)) (TerminateWindow junk st1)
              else Some (None, st1)))"

section \<open>The merging thread\<close>

fun merge_counters :: "nat \<Rightarrow> cm_item \<Rightarrow> nat list \<Rightarrow> cm_sketch \<Rightarrow> cm_sketch option" where
  "merge_counters w it [] s = Some s"
| "merge_counters w it (i # is) s =
     (case GetCounter i it of
        None \<Rightarrow> None
      | Some (index, v) \<Rightarrow>
          (let k = unat index div w; j = unat index mod w in
           case cm_GetValue k j s of
             None \<Rightarrow> None
           | Some old_v \<Rightarrow>
               (case cm_SetValue k j (s64 (old_v + v)) s of
                  None \<Rightarrow> None
                | Some s' \<Rightarrow> merge_counters w it is s')))"

text \<open>The second loop reports the keys whose merged estimate exceeds the threshold, once each.\<close>

fun merge_keys :: "u64 \<Rightarrow> cm_item \<Rightarrow> nat list \<Rightarrow> cm_sketch \<Rightarrow> u64 set \<Rightarrow> (u64 set \<times> (u64 \<times> u64) list) option" where
  "merge_keys thresh it [] s cand = Some (cand, [])"
| "merge_keys thresh it (i # is) s cand =
     (case GetKey i it of
        None \<Rightarrow> None
      | Some key \<Rightarrow>
          (case GetEstimate key s of
             None \<Rightarrow> None
           | Some est \<Rightarrow>
               (let e = (word_of_int est :: u64) in
                if e > thresh \<and> key \<notin> cand
                then map_option (\<lambda>(c, out). (c, (key, e) # out)) (merge_keys thresh it is s (insert key cand))
                else merge_keys thresh it is s cand)))"

definition merge_ProcessData ::
  "nat \<Rightarrow> u64 \<Rightarrow> cm_item \<Rightarrow> cm_sketch \<times> u64 set \<Rightarrow> ((cm_sketch \<times> u64 set) \<times> (u64 \<times> u64) list) option" where
  "merge_ProcessData w thresh it st =
     (case merge_counters w it [0..<num_counter it] (fst st) of
        None \<Rightarrow> None
      | Some s' \<Rightarrow>
          map_option (\<lambda>(c, out). ((s', c), out)) (merge_keys thresh it [0..<num_hh it] s' (snd st)))"

section \<open>The record of a window\<close>

definition live_cells :: "nat \<Rightarrow> cm_sketch \<Rightarrow> (nat \<times> nat) list \<Rightarrow> (u32 \<times> int) list" where
  "live_cells w s ijs =
     map (\<lambda>(i, j). (of_nat (i * w + j), marr (cm_arrays s ! i) ! j))
       (filter (\<lambda>(i, j). marr (cm_arrays s ! i) ! j > 0) ijs)"

lemma append_cells_holds:
  assumes "shape_ok s" "\<forall>(i, j)\<in>set ijs. i < cm_row s \<and> j < cm_width s" "item_holds it cs []"
    "12 * (length cs + length (live_cells w s ijs)) \<le> length (cm_raw it)"
  shows "\<exists>it'. append_cells w s ijs it = Some it' \<and> item_holds it' (cs @ live_cells w s ijs) [] \<and>
    length (cm_raw it') = length (cm_raw it)"
  using assms(2-)
proof (induction ijs arbitrary: it cs)
  case (Cons ij ijs)
  obtain i j where ij: "ij = (i, j)" by fastforce
  let ?v = "marr (cm_arrays s ! i) ! j"
  have g: "cm_GetValue i j s = Some ?v"
    using Cons.prems(1) ij by (intro cm_GetValue_eq [OF assms(1)]) auto
  show ?case
  proof (cases "?v > 0")
    case True
    let ?c = "(of_nat (i * w + j) :: u32, ?v)"
    have lc: "live_cells w s (ij # ijs) = ?c # live_cells w s ijs" using True ij by (simp add: live_cells_def)
    from AppendCounter_holds [OF Cons.prems(2), of "fst ?c" ?v] Cons.prems(3) lc obtain it1 where
      it1: "AppendCounter (of_nat (i * w + j)) ?v it = Some it1" "item_holds it1 (cs @ [?c]) []"
      "length (cm_raw it1) = length (cm_raw it)" by auto
    from Cons.IH [OF _ it1(2)] Cons.prems(1,3) it1(3) lc obtain it' where
      "append_cells w s ijs it1 = Some it'" "item_holds it' ((cs @ [?c]) @ live_cells w s ijs) []"
      "length (cm_raw it') = length (cm_raw it1)" by auto
    with g True ij it1 lc show ?thesis by simp
  next
    case False
    then have "live_cells w s (ij # ijs) = live_cells w s ijs" using ij by (simp add: live_cells_def)
    with Cons g False ij show ?thesis by auto
  qed
qed (simp add: live_cells_def)

lemma append_keys_holds:
  assumes "item_holds it cs ks" "12 * length cs + 8 * (length ks + length ls) \<le> length (cm_raw it)"
  shows "\<exists>it'. append_keys ls it = Some it' \<and> item_holds it' cs (ks @ ls)"
  using assms
proof (induction ls arbitrary: it ks)
  case (Cons l ls)
  from AppendHH_holds [OF Cons.prems(1), of l] Cons.prems(2) obtain it1 where
    it1: "AppendHH l it = Some it1" "item_holds it1 cs (ks @ [l])"
    "length (cm_raw it1) = length (cm_raw it)" by auto
  from Cons.IH [OF it1(2)] Cons.prems(2) it1 show ?case by auto
qed simp

section \<open>Merging adds the cells\<close>

definition hits :: "nat \<Rightarrow> nat \<Rightarrow> nat \<Rightarrow> (u32 \<times> int) list \<Rightarrow> int" where
  "hits w i j cs = (\<Sum>(x, v)\<leftarrow>cs. if unat x = i * w + j then v else 0)"

lemma hits_nonneg: "\<forall>(x, v)\<in>set cs. 0 \<le> v \<Longrightarrow> 0 \<le> hits w i j cs"
  unfolding hits_def by (intro sum_list_nonneg) auto

lemma index_split:
  fixes w :: nat
  assumes "j < w"
  shows "n = i * w + j \<longleftrightarrow> n div w = i \<and> n mod w = j"
proof
  assume "n = i * w + j"
  with assms show "n div w = i \<and> n mod w = j" by simp
next
  assume "n div w = i \<and> n mod w = j"
  then show "n = i * w + j" by (metis div_mult_mod_eq)
qed

lemma merge_counters_spec:
  assumes "item_holds it cs ks" "\<forall>n\<in>set is. n < length cs" "shape_ok s" "w = cm_width s"
    "\<forall>(x, v)\<in>set cs. 0 \<le> v \<and> v < 2 ^ 63 \<and> unat x < cm_row s * w"
    "\<forall>i<cm_row s. \<forall>j<w. 0 \<le> marr (cm_arrays s ! i) ! j \<and>
       marr (cm_arrays s ! i) ! j + hits w i j (map ((!) cs) is) < 2 ^ 63"
  shows "\<exists>s'. merge_counters w it is s = Some s' \<and> shape_ok s' \<and> cm_row s' = cm_row s \<and> cm_width s' = w \<and>
    cm_hash s' = cm_hash s \<and>
    (\<forall>i<cm_row s. \<forall>j<w. marr (cm_arrays s' ! i) ! j =
       marr (cm_arrays s ! i) ! j + hits w i j (map ((!) cs) is))"
  using assms(2-)
proof (induction "is" arbitrary: s)
  case Nil
  then show ?case by (simp add: hits_def)
next
  case (Cons n "is")
  obtain x v where xv: "cs ! n = (x, v)" by fastforce
  have n: "n < length cs" using Cons.prems(1) by simp
  then have "cs ! n \<in> set cs" by simp
  then have v: "0 \<le> v" "v < 2 ^ 63" "unat x < cm_row s * w" using Cons.prems(4) xv by auto
  have gc: "GetCounter n it = Some (x, v)"
    using GetCounter_holds [OF assms(1) n] v xv by (simp add: in_s64_def)
  let ?k = "unat x div w" and ?j = "unat x mod w"
  have w: "0 < w" using Cons.prems(2,3) by (simp add: shape_ok_def)
  have kj: "?k < cm_row s" "?j < w" using v(3) w by (simp_all add: less_mult_imp_div_less)
  let ?old = "marr (cm_arrays s ! ?k) ! ?j"
  have sub: "\<forall>(x, v)\<in>set (map ((!) cs) is). 0 \<le> v"
    using Cons.prems(1,4) by (fastforce dest: nth_mem)
  have hc: "hits w i j (map ((!) cs) (n # is)) = (if i = ?k \<and> j = ?j then v else 0) + hits w i j (map ((!) cs) is)"
    if "j < w" for i j using index_split [OF that, of "unat x" i] xv by (auto simp: hits_def)
  have bnd: "0 \<le> ?old" "?old + v < 2 ^ 63"
    using Cons.prems(5) kj hc [OF kj(2), of ?k] hits_nonneg [OF sub, of w ?k ?j] by fastforce+
  then have s64: "s64 (?old + v) = ?old + v" using v(1) by (intro s64_id) (simp add: in_s64_def)
  note cw = kj(2) [unfolded Cons.prems(3)]
  from cm_SetValue_eq [OF Cons.prems(2) kj(1) cw, of "?old + v"] obtain a where
    a: "cm_SetValue ?k ?j (?old + v) s = Some (s\<lparr>cm_arrays := (cm_arrays s)[?k := a]\<rparr>)"
    "marr a = (marr (cm_arrays s ! ?k))[?j := ?old + v]"
    "shape_ok (s\<lparr>cm_arrays := (cm_arrays s)[?k := a]\<rparr>)" using Cons.prems(3) by auto
  let ?s = "s\<lparr>cm_arrays := (cm_arrays s)[?k := a]\<rparr>"
  have len: "length (cm_arrays s) = cm_row s" "length (marr (cm_arrays s ! ?k)) = w"
    using Cons.prems(2,3) kj by (auto simp: shape_ok_def)
  have cell: "marr (cm_arrays ?s ! i) ! j = marr (cm_arrays s ! i) ! j + (if i = ?k \<and> j = ?j then v else 0)"
    if "i < cm_row s" "j < w" for i j using a(2) len that kj by (auto simp: nth_list_update)
  have "\<forall>i<cm_row ?s. \<forall>j<w. 0 \<le> marr (cm_arrays ?s ! i) ! j \<and>
      marr (cm_arrays ?s ! i) ! j + hits w i j (map ((!) cs) is) < 2 ^ 63"
    using Cons.prems(5) cell hc v(1) by (auto simp: add.assoc)
  from Cons.IH [OF _ a(3) _ _ this] Cons.prems(1,3,4) obtain s' where
    s': "merge_counters w it is ?s = Some s'" "shape_ok s'" "cm_row s' = cm_row s" "cm_width s' = w"
    "cm_hash s' = cm_hash s"
    "\<forall>i<cm_row s. \<forall>j<w. marr (cm_arrays s' ! i) ! j =
       marr (cm_arrays ?s ! i) ! j + hits w i j (map ((!) cs) is)" by auto
  have "merge_counters w it (n # is) s = Some s'"
    using gc cm_GetValue_eq [OF Cons.prems(2) kj(1) cw] Cons.prems(3) s64 a(1) s'(1) by (simp add: Let_def)
  moreover have "\<forall>i<cm_row s. \<forall>j<w. marr (cm_arrays s' ! i) ! j =
       marr (cm_arrays s ! i) ! j + hits w i j (map ((!) cs) (n # is))"
    using s'(6) cell hc by (simp add: add.assoc)
  ultimately show ?case using s' by blast
qed

lemma set_cells: "set (cells r w) = {0..<r} \<times> {0..<w}"
  by (auto simp: cells_def)

lemma distinct_cells: "distinct (cells r w)"
proof (induction r)
  case (Suc r)
  have "cells (Suc r) w = cells r w @ map (Pair r) [0..<w]" by (simp add: cells_def)
  moreover have "distinct (map (Pair r) [0..<w])" by (simp add: distinct_map inj_on_def)
  ultimately show ?case using Suc by (auto simp: set_cells)
qed (simp add: cells_def)

lemma hits_live:
  assumes "i < r" "j < w" "r * w < 2 ^ 32" "\<forall>i<r. \<forall>j<w. 0 \<le> marr (cm_arrays a ! i) ! j"
  shows "hits w i j (live_cells w a (cells r w)) = marr (cm_arrays a ! i) ! j"
proof -
  let ?A = "\<lambda>(i, j). marr (cm_arrays a ! i) ! j"
  have un: "unat (of_nat (i' * w + j') :: u32) = i * w + j \<longleftrightarrow> (i', j') = (i, j)" if "i' < r" "j' < w" for i' j'
  proof -
    have "i' * w + j' < Suc i' * w" using that by simp
    also have "\<dots> \<le> r * w" using that by (intro mult_le_mono1) simp
    finally have "i' * w + j' < r * w" .
    then have "unat (of_nat (i' * w + j') :: u32) = i' * w + j'"
      using assms(3) by (intro unat_of_nat_u32) linarith
    then show ?thesis using index_split [OF assms(2), of "i' * w + j'" i] that(2) by auto
  qed
  have "hits w i j (live_cells w a (cells r w)) =
      (\<Sum>p\<leftarrow>cells r w. if p = (i, j) then ?A p else 0)"
  proof -
    have "hits w i j (live_cells w a ps) = (\<Sum>p\<leftarrow>ps. if p = (i, j) then ?A p else 0)"
      if "set ps \<subseteq> {0..<r} \<times> {0..<w}" for ps
      using that
    proof (induction ps)
      case (Cons q ps)
      obtain i' j' where q: "q = (i', j')" "i' < r" "j' < w" using Cons.prems by auto
      have "\<not> ?A q > 0 \<Longrightarrow> ?A q = 0" using q assms(4) by fastforce
      then have "hits w i j (live_cells w a (q # ps)) =
          (if q = (i, j) then ?A q else 0) + hits w i j (live_cells w a ps)"
        using q(1) un [OF q(2,3)] by (auto simp: live_cells_def hits_def)
      with Cons show ?case by simp
    qed (simp add: live_cells_def hits_def)
    then show ?thesis by (simp add: set_cells)
  qed
  also have "\<dots> = (\<Sum>p\<in>{0..<r} \<times> {0..<w}. if p = (i, j) then ?A p else 0)"
    unfolding sum_list_distinct_conv_sum_set [OF distinct_cells] set_cells by (rule refl)
  also have "\<dots> = ?A (i, j)" using assms(1,2) by simp
  finally show ?thesis by simp
qed

section \<open>Properties of the application\<close>

text \<open>C30. What a counting thread writes at the end of a window is what the merging thread reads: the
  record holds the positive counters of the sketch in row order followed by the candidate keys in
  ascending order, \<open>GetCounter\<close> and \<open>GetKey\<close> return them, and the sketch and the candidates are reset.
  The live counters and candidates must fit the record, which the code does not check.\<close>

theorem window_record_roundtrip:
  assumes "shape_ok (cs_sketch st)" "cs_row st = cm_row (cs_sketch st)" "cs_width st = cm_width (cs_sketch st)"
    "\<forall>i<cs_row st. \<forall>j<cs_width st. in_s64 (marr (cm_arrays (cs_sketch st) ! i) ! j)"
    "cs = live_cells (cs_width st) (cs_sketch st) (cells (cs_row st) (cs_width st))"
    "ks = sorted_list_of_set (cs_cand st)" "12 * length cs + 8 * length ks \<le> length junk"
  shows "\<exists>it st'. TerminateWindow junk st = Some (it, st') \<and> num_counter it = length cs \<and>
    num_hh it = length ks \<and> (\<forall>n<length cs. GetCounter n it = Some (cs ! n)) \<and>
    (\<forall>n<length ks. GetKey n it = Some (ks ! n)) \<and> cs_cand st' = {} \<and> cs_byte st' = 0 \<and>
    cs_sketch st' = cm_Clear (cs_sketch st)"
proof -
  let ?s = "cs_sketch st" and ?w = "cs_width st"
  have h0: "item_holds (CMItem junk) [] []" by (simp add: item_holds_def CMItem_def)
  have rng: "\<forall>(i, j)\<in>set (cells (cs_row st) ?w). i < cm_row ?s \<and> j < cm_width ?s"
    using assms(2,3) by (auto simp: set_cells)
  have "12 * (length [] + length (live_cells ?w ?s (cells (cs_row st) ?w))) \<le> length (cm_raw (CMItem junk))"
    using assms(5,7) by (simp add: CMItem_def)
  from append_cells_holds [OF assms(1) rng h0 this] obtain it1 where
    it1: "append_cells ?w ?s (cells (cs_row st) ?w) (CMItem junk) = Some it1" "item_holds it1 cs []"
    "length (cm_raw it1) = length junk" using assms(5) by (auto simp: CMItem_def)
  from append_keys_holds [OF it1(2), of ks] assms(7) it1(3) obtain it where
    it: "append_keys ks it1 = Some it" "item_holds it cs ks" by auto
  have "in_s64 (snd (cs ! n))" if "n < length cs" for n
  proof -
    have "cs ! n \<in> set cs" using that by simp
    then obtain i j where "i < cs_row st" "j < ?w" "snd (cs ! n) = marr (cm_arrays ?s ! i) ! j"
      unfolding assms(5) by (auto simp: live_cells_def set_cells)
    with assms(4) show ?thesis by simp
  qed
  with it1(1) it assms(6) GetCounter_holds [OF it(2)] GetKey_holds [OF it(2)] show ?thesis
    by (auto simp: TerminateWindow_def item_holds_def)
qed

definition demo_state :: cm_state where
  "demo_state = \<lparr>cs_sketch = CountMin 1 2 0, cs_cand = {4}, cs_byte = 9, cs_window = 5, cs_thresh = 0,
     cs_row = 1, cs_width = 2\<rparr>"

theorem window_record_roundtrip_witness:
  "\<exists>it st'. TerminateWindow (replicate 100 0) demo_state = Some (it, st') \<and> GetKey 0 it = Some 4"
proof -
  let ?cs = "live_cells 2 (CountMin 1 2 0) (cells 1 2)"
  have sh: "shape_ok (CountMin 1 2 0)" using CountMin_sketch [of 2 1 0] by (simp add: sketch_of_def)
  have z: "marr (cm_arrays (CountMin 1 2 0) ! 0) ! j = 0" if "j < 2" for j
    using that by (simp add: CountMin_def NumericArray_MAX_def)
  then have "?cs = []" by (auto simp: live_cells_def cells_def eval_nat_numeral CountMin_def NumericArray_MAX_def)
  then show ?thesis
    using window_record_roundtrip [of demo_state ?cs "[4]" "replicate 100 0"] sh z
    by (fastforce simp: demo_state_def CountMin_def)
qed



end
