(* ===== verification/Ring_Buffer.thy ===== *)
theory Ring_Buffer
  imports Prelude
begin

text \<open>
  The single-producer single-consumer ring buffer of \<open>src/queues/zerocopy_ringbuffer.hpp\<close>. Each of
  the two threads works on private indices and publishes them in batches through the two shared
  ones, \<open>readIndex\<close> and \<open>writeIndex\<close>. Slots are handed out by pointer (\<open>GetSlot\<close>, \<open>Extract\<close>) and
  given back later (\<open>CompleteWrite\<close>, \<open>Ack\<close>), so the interleaving of the two threads is modelled at
  the level of these calls; \<open>Insert\<close> is shown to be \<open>GetSlot\<close>, store and \<open>CompleteWrite\<close>.

  The invariant \<open>rb_rel\<close> reads every index as a running counter modulo the capacity. The theory
  proves that no record is lost, duplicated or reordered, that a slot is never overwritten while the
  reader holds it, that producer and consumer are never blocked on each other, and that after a
  \<open>Flush\<close> every completed record is visible. The locale \<open>spsc_channel\<close> states the interface the
  multi-producer queue is built on.
\<close>

section \<open>State and operations\<close>

definition RB_SIZE :: nat where "RB_SIZE = 2000"
definition RB_BATCH :: nat where "RB_BATCH = 50"

record 'a rb =
  readIndex :: nat
  writeIndex :: nat
  localWriteIndex :: nat
  nextReadIndex :: nat
  rBatchCount :: nat
  localReadIndex :: nat
  nextWriteIndex :: nat
  afterNextWriteIndex :: nat
  wBatchCount :: nat
  rb_max :: nat
  batchSize :: nat
  rb_buffer :: "'a list"

text \<open>The constructor leaves \<open>afterNextWriteIndex\<close> uninitialised (\<open>junk\<close>); \<open>z\<close> is the all-zero record
  \<open>memset\<close> produces.\<close>

definition ZeroRingBuffer :: "nat \<Rightarrow> 'a \<Rightarrow> 'a rb" where
  "ZeroRingBuffer junk z =
     \<lparr>readIndex = 0, writeIndex = 0, localWriteIndex = 0, nextReadIndex = 0, rBatchCount = 0,
      localReadIndex = 0, nextWriteIndex = 0, afterNextWriteIndex = junk, wBatchCount = 0,
      rb_max = RB_SIZE, batchSize = RB_BATCH, rb_buffer = replicate RB_SIZE z\<rparr>"

definition nextVal :: "'a rb \<Rightarrow> nat \<Rightarrow> nat" where
  "nextVal b x = (if x + 1 \<ge> rb_max b then 0 else x + 1)"

definition rb_Size :: "'a rb \<Rightarrow> nat" where
  "rb_Size b =
     (if afterNextWriteIndex b < localReadIndex b
      then afterNextWriteIndex b + RB_SIZE - localReadIndex b
      else afterNextWriteIndex b - localReadIndex b)"

text \<open>\<open>None\<close>: the call spins on \<open>readIndex\<close>, which only the reader can change.\<close>

definition GetSlot :: "'a rb \<Rightarrow> ('a rb \<times> nat) option" where
  "GetSlot b =
     (let b1 = b\<lparr>afterNextWriteIndex := nextVal b (nextWriteIndex b)\<rparr> in
      if afterNextWriteIndex b1 = localReadIndex b1 then
        if afterNextWriteIndex b1 = readIndex b1 then None
        else Some (b1\<lparr>localReadIndex := readIndex b1\<rparr>, nextWriteIndex b1)
      else Some (b1, nextWriteIndex b1))"

definition CompleteWrite :: "'a rb \<Rightarrow> 'a rb" where
  "CompleteWrite b =
     (let b1 = b\<lparr>nextWriteIndex := afterNextWriteIndex b, wBatchCount := wBatchCount b + 1\<rparr> in
      if wBatchCount b1 \<ge> batchSize b1
      then b1\<lparr>writeIndex := nextWriteIndex b1, wBatchCount := 0\<rparr> else b1)"

definition rb_store :: "nat \<Rightarrow> 'a \<Rightarrow> 'a rb \<Rightarrow> 'a rb" where
  "rb_store p x b = b\<lparr>rb_buffer := (rb_buffer b)[p := x]\<rparr>"

definition Insert :: "'a \<Rightarrow> 'a rb \<Rightarrow> 'a rb option" where
  "Insert x b =
     (let a = nextVal b (nextWriteIndex b);
          b1 = b\<lparr>afterNextWriteIndex := a\<rparr>;
          go = (\<lambda>b2.
            (let b3 = b2\<lparr>rb_buffer := (rb_buffer b2)[nextWriteIndex b2 := x],
                         nextWriteIndex := afterNextWriteIndex b2,
                         wBatchCount := wBatchCount b2 + 1\<rparr>
             in if wBatchCount b3 \<ge> batchSize b3
                then b3\<lparr>writeIndex := nextWriteIndex b3, wBatchCount := 0\<rparr> else b3))
      in if a = localReadIndex b1
         then if a = readIndex b1 then None
              else Some (go (b1\<lparr>localReadIndex := readIndex b1\<rparr>))
         else Some (go b1))"

definition Extract :: "'a rb \<Rightarrow> 'a rb \<times> nat option" where
  "Extract b =
     (if nextReadIndex b = localWriteIndex b then
        if nextReadIndex b = writeIndex b then (b, None)
        else (b\<lparr>localWriteIndex := writeIndex b\<rparr>, Some (nextReadIndex b))
      else (b, Some (nextReadIndex b)))"

definition Ack :: "'a rb \<Rightarrow> 'a rb" where
  "Ack b =
     (let b1 = b\<lparr>nextReadIndex := nextVal b (nextReadIndex b), rBatchCount := rBatchCount b + 1\<rparr> in
      if rBatchCount b1 \<ge> batchSize b1
      then b1\<lparr>readIndex := nextReadIndex b1, rBatchCount := 0\<rparr> else b1)"

definition Flush :: "'a rb \<Rightarrow> 'a rb" where
  "Flush b = b\<lparr>writeIndex := nextWriteIndex b, readIndex := nextReadIndex b\<rparr>"

lemmas rb_op_defs = GetSlot_def CompleteWrite_def rb_store_def Extract_def Ack_def Flush_def Let_def

lemma Insert_eq:
  "Insert x b =
     (case GetSlot b of None \<Rightarrow> None | Some (b1, p) \<Rightarrow> Some (CompleteWrite (rb_store p x b1)))"
  by (simp add: Insert_def rb_op_defs)

section \<open>Indices as running counters\<close>

lemma RB_SIZE_pos [simp]: "0 < RB_SIZE" "Suc 0 < RB_SIZE" "RB_SIZE \<noteq> 0"
  by (simp_all add: RB_SIZE_def)

lemma mod_close_eq [ring_simps]:
  fixes a b N :: nat
  assumes "a \<le> b" "b < a + N"
  shows "a mod N = b mod N \<longleftrightarrow> a = b" "b mod N = a mod N \<longleftrightarrow> a = b"
proof -
  have "a mod N = b mod N \<Longrightarrow> a = b"
  proof -
    assume "a mod N = b mod N"
    then have "N dvd b - a" using assms(1) by (metis mod_eq_dvd_iff_nat)
    moreover have "b - a < N" using assms by linarith
    ultimately have "b - a = 0" using dvd_imp_le by fastforce
    then show "a = b" using assms(1) by simp
  qed
  then show "a mod N = b mod N \<longleftrightarrow> a = b" "b mod N = a mod N \<longleftrightarrow> a = b" by auto
qed

lemma nextVal_mod [ring_simps]: "rb_max b = RB_SIZE \<Longrightarrow> nextVal b (k mod RB_SIZE) = Suc k mod RB_SIZE"
proof -
  assume "rb_max b = RB_SIZE"
  moreover have "k mod RB_SIZE < RB_SIZE" by (rule mod_less_divisor) simp
  then have "RB_SIZE \<le> k mod RB_SIZE + 1 \<longleftrightarrow> Suc (k mod RB_SIZE) = RB_SIZE" by linarith
  ultimately show ?thesis by (simp add: nextVal_def mod_Suc)
qed

text \<open>\<open>R\<close>, \<open>W\<close> count the records acknowledged and completed; the suffixes \<open>p\<close> (published) and \<open>l\<close>
  (last seen by the other side) are the lagging copies of them.\<close>

definition rb_rel :: "'a rb \<Rightarrow> nat \<Rightarrow> nat \<Rightarrow> nat \<Rightarrow> nat \<Rightarrow> nat \<Rightarrow> nat \<Rightarrow> bool" where
  "rb_rel b Rl Rp R Wl Wp W \<longleftrightarrow>
     rb_max b = RB_SIZE \<and> length (rb_buffer b) = RB_SIZE \<and> batchSize b = RB_BATCH \<and>
     localReadIndex b = Rl mod RB_SIZE \<and> readIndex b = Rp mod RB_SIZE \<and>
     nextReadIndex b = R mod RB_SIZE \<and> localWriteIndex b = Wl mod RB_SIZE \<and>
     writeIndex b = Wp mod RB_SIZE \<and> nextWriteIndex b = W mod RB_SIZE \<and>
     Rl \<le> Rp \<and> Rp \<le> R \<and> R \<le> Wl \<and> Wl \<le> Wp \<and> Wp \<le> W \<and> W < Rl + RB_SIZE \<and>
     W - Wp \<le> wBatchCount b \<and> wBatchCount b < RB_BATCH \<and>
     R - Rp \<le> rBatchCount b \<and> rBatchCount b < RB_BATCH"

definition rb_inv :: "'a rb \<Rightarrow> bool" where
  "rb_inv b \<longleftrightarrow> (\<exists>Rl Rp R Wl Wp W. rb_rel b Rl Rp R Wl Wp W)"

text \<open>The records completed and not yet acknowledged, oldest first.\<close>

definition rb_cont :: "'a rb \<Rightarrow> 'a list" where
  "rb_cont b =
     map (\<lambda>i. rb_buffer b ! ((nextReadIndex b + i) mod RB_SIZE))
       [0..<(nextWriteIndex b + RB_SIZE - nextReadIndex b) mod RB_SIZE]"

lemma rb_invI [intro]: "rb_rel b Rl Rp R Wl Wp W \<Longrightarrow> rb_inv b"
  unfolding rb_inv_def by blast

lemma rb_dist:
  assumes "R \<le> W" "W < R + RB_SIZE"
  shows "(W mod RB_SIZE + RB_SIZE - R mod RB_SIZE) mod RB_SIZE = W - R"
proof -
  have "(W mod RB_SIZE + RB_SIZE - R mod RB_SIZE) mod RB_SIZE =
      (W mod RB_SIZE + (RB_SIZE - R mod RB_SIZE)) mod RB_SIZE"
    by (metis Nat.add_diff_assoc RB_SIZE_pos(1) less_imp_le_nat mod_less_divisor)
  also have "\<dots> = (W + (RB_SIZE - R mod RB_SIZE)) mod RB_SIZE" by (rule mod_add_left_eq)
  also have "W + (RB_SIZE - R mod RB_SIZE) = (W - R) + (RB_SIZE * (R div RB_SIZE + 1))"
  proof -
    have "R = RB_SIZE * (R div RB_SIZE) + R mod RB_SIZE" by simp
    moreover have "R mod RB_SIZE < RB_SIZE" by (rule mod_less_divisor) simp
    moreover have "RB_SIZE * (R div RB_SIZE + 1) = RB_SIZE * (R div RB_SIZE) + RB_SIZE" by simp
    ultimately show ?thesis using assms(1) by linarith
  qed
  also have "\<dots> mod RB_SIZE = W - R" using assms by (simp only: mod_mult_self2) simp
  finally show ?thesis .
qed

lemma rb_cont_rel:
  assumes "rb_rel b Rl Rp R Wl Wp W"
  shows "rb_cont b = map (\<lambda>i. rb_buffer b ! (i mod RB_SIZE)) [R..<W]"
proof -
  have "R \<le> W" "W < R + RB_SIZE" using assms by (auto simp: rb_rel_def)
  with assms have "rb_cont b = map (\<lambda>i. rb_buffer b ! ((R + i) mod RB_SIZE)) [0..<W - R]"
    by (simp add: rb_cont_def rb_rel_def rb_dist mod_add_left_eq)
  also have "\<dots> = map (\<lambda>i. rb_buffer b ! (i mod RB_SIZE)) (map ((+) R) [0..<W - R])" by simp
  also have "map ((+) R) [0..<W - R] = [R..<W]" 
    using \<open>R \<le> W\<close> by (intro nth_equalityI) simp_all
  finally show ?thesis .
qed


section \<open>What each operation does to the counters\<close>

lemma ZeroRingBuffer_rel: "rb_rel (ZeroRingBuffer junk z) 0 0 0 0 0 0"
  by (simp add: rb_rel_def ZeroRingBuffer_def RB_BATCH_def)

lemma GetSlot_rel:
  assumes "rb_rel b Rl Rp R Wl Wp W" "GetSlot b = Some (b1, p)"
  shows "\<exists>Rl'. rb_rel b1 Rl' Rp R Wl Wp W \<and> Suc W < Rl' + RB_SIZE" "p = W mod RB_SIZE"
    "afterNextWriteIndex b1 = Suc W mod RB_SIZE" "rb_buffer b1 = rb_buffer b"
    "nextReadIndex b1 = nextReadIndex b"
proof -
  note r = assms(1) [unfolded rb_rel_def]
  have a: "nextVal b (nextWriteIndex b) = Suc W mod RB_SIZE" using r by (simp add: nextVal_mod)
  have full: "Suc W mod RB_SIZE = K mod RB_SIZE \<longleftrightarrow> Suc W = K + RB_SIZE" if "Rl \<le> K" "K \<le> Rp" for K
    using that r mod_close_eq(1) [of "Suc W" "K + RB_SIZE" RB_SIZE] by simp
  show "p = W mod RB_SIZE" "afterNextWriteIndex b1 = Suc W mod RB_SIZE"
    "rb_buffer b1 = rb_buffer b" "nextReadIndex b1 = nextReadIndex b"
    using assms(2) r a by (auto simp: GetSlot_def Let_def split: if_splits)
  show "\<exists>Rl'. rb_rel b1 Rl' Rp R Wl Wp W \<and> Suc W < Rl' + RB_SIZE"
  proof (cases "Suc W = Rl + RB_SIZE")
    case True
    then have "Suc W \<noteq> Rp + RB_SIZE \<and> b1 = b\<lparr>afterNextWriteIndex := Suc W mod RB_SIZE,
        localReadIndex := Rp mod RB_SIZE\<rparr>"
      using assms(2) r full [of Rl] full [of Rp] a by (auto simp: GetSlot_def Let_def split: if_splits)
    with True r show ?thesis by (intro exI [of _ Rp]) (auto simp: rb_rel_def)
  next
    case False
    then have "b1 = b\<lparr>afterNextWriteIndex := Suc W mod RB_SIZE\<rparr>"
      using assms(2) r full [of Rl] a by (auto simp: GetSlot_def Let_def split: if_splits)
    with False r show ?thesis by (intro exI [of _ Rl]) (auto simp: rb_rel_def)
  qed
qed

lemma GetSlot_None:
  assumes "rb_rel b Rl Rp R Wl Wp W" "GetSlot b = None"
  shows "Suc W = Rp + RB_SIZE"
proof -
  note r = assms(1) [unfolded rb_rel_def]
  have "Suc W mod RB_SIZE = Rl mod RB_SIZE" "Suc W mod RB_SIZE = Rp mod RB_SIZE"
    using assms(2) r by (auto simp: GetSlot_def Let_def nextVal_mod split: if_splits)
  moreover have "Rl + RB_SIZE \<le> Rp + RB_SIZE" using r by simp
  ultimately show ?thesis
    using r mod_close_eq(1) [of "Suc W" "Rp + RB_SIZE" RB_SIZE]
      mod_close_eq(1) [of "Suc W" "Rl + RB_SIZE" RB_SIZE] by simp
qed

lemma CompleteWrite_rel:
  assumes "rb_rel b Rl Rp R Wl Wp W" "afterNextWriteIndex b = Suc W mod RB_SIZE"
    "Suc W < Rl + RB_SIZE"
  shows "\<exists>Wp'. rb_rel (CompleteWrite b) Rl Rp R Wl Wp' (Suc W)"
    "rb_buffer (CompleteWrite b) = rb_buffer b"
    "afterNextWriteIndex (CompleteWrite b) = Suc W mod RB_SIZE"
    "nextReadIndex (CompleteWrite b) = nextReadIndex b"
proof -
  show "rb_buffer (CompleteWrite b) = rb_buffer b"
    "afterNextWriteIndex (CompleteWrite b) = Suc W mod RB_SIZE"
    "nextReadIndex (CompleteWrite b) = nextReadIndex b"
    using assms(2) by (simp_all add: CompleteWrite_def Let_def)
  note r = assms(1) [unfolded rb_rel_def]
  show "\<exists>Wp'. rb_rel (CompleteWrite b) Rl Rp R Wl Wp' (Suc W)"
  proof (cases "wBatchCount b + 1 \<ge> RB_BATCH")
    case True
    with r assms show ?thesis
      by (intro exI [of _ "Suc W"]) (simp add: rb_rel_def CompleteWrite_def Let_def RB_BATCH_def)
  next
    case False
    with r assms show ?thesis
      by (intro exI [of _ Wp]) (simp add: rb_rel_def CompleteWrite_def Let_def Suc_diff_le)
  qed
qed

lemma Extract_rel:
  assumes "rb_rel b Rl Rp R Wl Wp W" "Extract b = (b1, Some p)"
  shows "\<exists>Wl'. rb_rel b1 Rl Rp R Wl' Wp W \<and> R < Wl'" "p = R mod RB_SIZE"
    "rb_buffer b1 = rb_buffer b" "afterNextWriteIndex b1 = afterNextWriteIndex b"
    "nextReadIndex b1 = nextReadIndex b" "nextWriteIndex b1 = nextWriteIndex b"
proof -
  note r = assms(1) [unfolded rb_rel_def]
  show "p = R mod RB_SIZE" "rb_buffer b1 = rb_buffer b"
    "afterNextWriteIndex b1 = afterNextWriteIndex b" "nextReadIndex b1 = nextReadIndex b"
    "nextWriteIndex b1 = nextWriteIndex b"
    using assms(2) r by (auto simp: Extract_def split: if_splits)
  have eq: "R mod RB_SIZE = K mod RB_SIZE \<longleftrightarrow> R = K" if "Wl \<le> K" "K \<le> Wp" for K
    using that r mod_close_eq(1) [of R K RB_SIZE] by simp
  show "\<exists>Wl'. rb_rel b1 Rl Rp R Wl' Wp W \<and> R < Wl'"
  proof (cases "R = Wl")
    case True
    then have "R \<noteq> Wp \<and> b1 = b\<lparr>localWriteIndex := Wp mod RB_SIZE\<rparr>"
      using assms(2) r eq [of Wp] by (auto simp: Extract_def split: if_splits)
    with True r show ?thesis by (intro exI [of _ Wp]) (auto simp: rb_rel_def)
  next
    case False
    then have "b1 = b" using assms(2) r eq [of Wl] by (auto simp: Extract_def split: if_splits)
    with False r assms(1) show ?thesis by (intro exI [of _ Wl]) auto
  qed
qed

lemma Extract_None:
  assumes "rb_rel b Rl Rp R Wl Wp W" "Extract b = (b1, None)"
  shows "b1 = b" "R = Wp"
proof -
  note r = assms(1) [unfolded rb_rel_def]
  show "b1 = b" using assms(2) by (auto simp: Extract_def split: if_splits)
  show "R = Wp"
    using assms(2) r mod_close_eq(1) [of R Wp RB_SIZE] by (auto simp: Extract_def split: if_splits)
qed

lemma Ack_rel:
  assumes "rb_rel b Rl Rp R Wl Wp W" "R < Wl"
  shows "\<exists>Rp'. rb_rel (Ack b) Rl Rp' (Suc R) Wl Wp W" "rb_buffer (Ack b) = rb_buffer b"
    "afterNextWriteIndex (Ack b) = afterNextWriteIndex b" "nextWriteIndex (Ack b) = nextWriteIndex b"
    "localReadIndex (Ack b) = localReadIndex b"
proof -
  note r = assms(1) [unfolded rb_rel_def]
  show "rb_buffer (Ack b) = rb_buffer b" "afterNextWriteIndex (Ack b) = afterNextWriteIndex b"
    "nextWriteIndex (Ack b) = nextWriteIndex b" "localReadIndex (Ack b) = localReadIndex b"
    by (simp_all add: Ack_def Let_def)
  show "\<exists>Rp'. rb_rel (Ack b) Rl Rp' (Suc R) Wl Wp W"
  proof (cases "rBatchCount b + 1 \<ge> RB_BATCH")
    case True
    with r assms show ?thesis
      by (intro exI [of _ "Suc R"])
        (simp add: rb_rel_def Ack_def Let_def RB_BATCH_def nextVal_mod)
  next
    case False
    with r assms show ?thesis
      by (intro exI [of _ Rp]) (simp add: rb_rel_def Ack_def Let_def nextVal_mod Suc_diff_le)
  qed
qed

lemma Flush_rel:
  assumes "rb_rel b Rl Rp R Wl Wp W"
  shows "rb_rel (Flush b) Rl R R Wl W W" "rb_cont (Flush b) = rb_cont b"
  using assms by (auto simp: rb_rel_def Flush_def rb_cont_def)

lemma store_rel:
  "rb_rel b Rl Rp R Wl Wp W \<Longrightarrow> rb_rel (rb_store p x b) Rl Rp R Wl Wp W"
  by (simp add: rb_rel_def rb_store_def)

section \<open>Contents\<close>

lemma Insert_cont:
  assumes "rb_inv b" "Insert x b = Some b'"
  shows "rb_inv b'" "rb_cont b' = rb_cont b @ [x]"
proof -
  obtain Rl Rp R Wl Wp W where r: "rb_rel b Rl Rp R Wl Wp W" using assms(1) by (auto simp: rb_inv_def)
  obtain b1 p where g: "GetSlot b = Some (b1, p)" "b' = CompleteWrite (rb_store p x b1)"
    using assms(2) by (auto simp: Insert_eq split: option.splits)
  note gs = GetSlot_rel [OF r g(1)]
  from gs(1) obtain Rl' where r1: "rb_rel b1 Rl' Rp R Wl Wp W" "Suc W < Rl' + RB_SIZE" by blast
  have a: "afterNextWriteIndex (rb_store p x b1) = Suc W mod RB_SIZE"
    using gs(3) by (simp add: rb_store_def)
  note c = CompleteWrite_rel [OF store_rel [OF r1(1)] a r1(2)]
  from c(1) obtain Wp' where r2: "rb_rel b' Rl' Rp R Wl Wp' (Suc W)" using g(2) by blast
  then show "rb_inv b'" by blast
  have bounds: "R \<le> W" "W < R + RB_SIZE" "length (rb_buffer b) = RB_SIZE"
    using r by (auto simp: rb_rel_def)
  have buf: "rb_buffer b' = (rb_buffer b)[W mod RB_SIZE := x]"
    using c(2) gs(2,4) g(2) by (simp add: rb_store_def)
  have same: "rb_buffer b' ! (i mod RB_SIZE) = rb_buffer b ! (i mod RB_SIZE)" if "i \<in> set [R..<W]" for i
    using that bounds mod_close_eq(1) [of i W RB_SIZE] unfolding buf by (auto simp: nth_list_update)
  show "rb_cont b' = rb_cont b @ [x]"
    unfolding rb_cont_rel [OF r2] rb_cont_rel [OF r]
    using bounds same by (simp add: buf)
qed

lemma Extract_cont:
  assumes "rb_inv b" "Extract b = (b1, Some p)"
  shows "rb_inv b1" "rb_cont b1 = rb_cont b" "rb_cont b \<noteq> []" "rb_buffer b1 ! p = hd (rb_cont b)"
    "rb_inv (Ack b1)" "rb_cont (Ack b1) = tl (rb_cont b)"
proof -
  obtain Rl Rp R Wl Wp W where r: "rb_rel b Rl Rp R Wl Wp W" using assms(1) by (auto simp: rb_inv_def)
  note e = Extract_rel [OF r assms(2)]
  from e(1) obtain Wl' where r1: "rb_rel b1 Rl Rp R Wl' Wp W" "R < Wl'" by blast
  note a = Ack_rel [OF r1]
  from a(1) obtain Rp' where r2: "rb_rel (Ack b1) Rl Rp' (Suc R) Wl' Wp W" by blast
  have RW: "R < W" using r1 by (auto simp: rb_rel_def)
  then have up: "[R..<W] = R # [Suc R..<W]" by (simp add: upt_rec)
  show "rb_inv b1" "rb_inv (Ack b1)" using r1 r2 by blast+
  show "rb_cont b1 = rb_cont b" "rb_cont b \<noteq> []" "rb_buffer b1 ! p = hd (rb_cont b)"
    "rb_cont (Ack b1) = tl (rb_cont b)"
    unfolding rb_cont_rel [OF r1(1)] rb_cont_rel [OF r] rb_cont_rel [OF r2]
    using RW e a(2) up by simp_all
qed

lemma Extract_None_cont:
  "rb_inv b \<Longrightarrow> Extract b = (b1, None) \<Longrightarrow> b1 = b"
  by (auto simp: rb_inv_def dest: Extract_None)

lemma Flush_cont: "rb_inv b \<Longrightarrow> rb_inv (Flush b) \<and> rb_cont (Flush b) = rb_cont b"
  unfolding rb_inv_def by (metis Flush_rel)

lemma Extract_Flush_None:
  assumes "rb_inv b" "Extract (Flush b) = (b1, None)"
  shows "rb_cont b = []"
proof -
  obtain Rl Rp R Wl Wp W where r: "rb_rel b Rl Rp R Wl Wp W" using assms(1) by (auto simp: rb_inv_def)
  from Extract_None [OF Flush_rel(1) [OF r] assms(2)] rb_cont_rel [OF r] show ?thesis by simp
qed

lemma rb_cont_bound: "rb_inv b \<Longrightarrow> length (rb_cont b) < RB_SIZE"
  by (simp add: rb_cont_def)

lemma ZeroRingBuffer_inv: "rb_inv (ZeroRingBuffer junk z)" "rb_cont (ZeroRingBuffer junk z) = []"
  by (rule rb_invI, rule ZeroRingBuffer_rel) (simp add: rb_cont_def ZeroRingBuffer_def)

section \<open>Producer and consumer interleaved\<close>

datatype 'a wphase = WIdle | WGot nat | WStored nat 'a

text \<open>\<open>rb_run b w h ins outs\<close>: some interleaving of the two threads leads to the buffer \<open>b\<close>; the
  producer is in phase \<open>w\<close>, the consumer holds the slot \<open>h\<close>, the producer has completed the records
  \<open>ins\<close> and the consumer has read and acknowledged the records \<open>outs\<close>. Either thread may flush at any
  time. A producer that spins simply takes no step.\<close>

inductive rb_run :: "'a rb \<Rightarrow> 'a wphase \<Rightarrow> nat option \<Rightarrow> 'a list \<Rightarrow> 'a list \<Rightarrow> bool" where
  run_init: "rb_run (ZeroRingBuffer junk z) WIdle None [] []"
| run_get: "rb_run b WIdle h ins outs \<Longrightarrow> GetSlot b = Some (b', p) \<Longrightarrow> rb_run b' (WGot p) h ins outs"
| run_store: "rb_run b (WGot p) h ins outs \<Longrightarrow> rb_run (rb_store p x b) (WStored p x) h ins outs"
| run_complete: "rb_run b (WStored p x) h ins outs \<Longrightarrow>
    rb_run (CompleteWrite b) WIdle h (ins @ [x]) outs"
| run_extract: "rb_run b w None ins outs \<Longrightarrow> Extract b = (b', h) \<Longrightarrow> rb_run b' w h ins outs"
| run_ack: "rb_run b w (Some p) ins outs \<Longrightarrow>
    rb_run (Ack b) w None ins (outs @ [rb_buffer b ! p])"
| run_flush: "rb_run b w h ins outs \<Longrightarrow> rb_run (Flush b) w h ins outs"

fun wphase_ok :: "'a rb \<Rightarrow> nat \<Rightarrow> nat \<Rightarrow> 'a wphase \<Rightarrow> bool" where
  "wphase_ok b Rl W WIdle = True"
| "wphase_ok b Rl W (WGot p) =
     (p = W mod RB_SIZE \<and> afterNextWriteIndex b = Suc W mod RB_SIZE \<and> Suc W < Rl + RB_SIZE)"
| "wphase_ok b Rl W (WStored p x) =
     (p = W mod RB_SIZE \<and> afterNextWriteIndex b = Suc W mod RB_SIZE \<and> Suc W < Rl + RB_SIZE \<and>
      rb_buffer b ! p = x)"

lemma wphase_ok_cong:
  "wphase_ok b Rl W w \<Longrightarrow> afterNextWriteIndex b' = afterNextWriteIndex b \<Longrightarrow>
   rb_buffer b' = rb_buffer b \<Longrightarrow> wphase_ok b' Rl W w"
  by (cases w) auto

definition rb_run_inv :: "'a rb \<Rightarrow> 'a wphase \<Rightarrow> nat option \<Rightarrow> 'a list \<Rightarrow> 'a list \<Rightarrow> bool" where
  "rb_run_inv b w h ins outs \<longleftrightarrow>
     (\<exists>Rl Rp R Wl Wp W. rb_rel b Rl Rp R Wl Wp W \<and> wphase_ok b Rl W w \<and>
        (\<forall>p. h = Some p \<longrightarrow> p = R mod RB_SIZE \<and> R < Wl) \<and> ins = outs @ rb_cont b)"

lemma rb_cont_store:
  assumes "rb_rel b Rl Rp R Wl Wp W" "p = W mod RB_SIZE"
  shows "rb_cont (rb_store p x b) = rb_cont b"
proof -
  have "(rb_buffer b)[p := x] ! (i mod RB_SIZE) = rb_buffer b ! (i mod RB_SIZE)" if "i \<in> set [R..<W]" for i
    using that assms mod_close_eq(1) [of i W RB_SIZE] by (auto simp: rb_rel_def nth_list_update)
  then show ?thesis
    unfolding rb_cont_rel [OF assms(1)] rb_cont_rel [OF store_rel [OF assms(1)]]
    by (simp add: rb_store_def)
qed

lemma run_inv_get:
  assumes "rb_run_inv b WIdle h ins outs" "GetSlot b = Some (b', p)"
  shows "rb_run_inv b' (WGot p) h ins outs"
proof -
  from assms(1) obtain Rl Rp R Wl Wp W where r: "rb_rel b Rl Rp R Wl Wp W"
    "\<forall>p. h = Some p \<longrightarrow> p = R mod RB_SIZE \<and> R < Wl" "ins = outs @ rb_cont b"
    by (auto simp: rb_run_inv_def)
  note g = GetSlot_rel [OF r(1) assms(2)]
  from g(1) obtain Rl' where r': "rb_rel b' Rl' Rp R Wl Wp W" "Suc W < Rl' + RB_SIZE" by blast
  have "rb_cont b' = rb_cont b" using rb_cont_rel [OF r(1)] rb_cont_rel [OF r'(1)] g(4) by simp
  with r r' g show ?thesis unfolding rb_run_inv_def by (metis wphase_ok.simps(2))
qed

lemma run_inv_store:
  assumes "rb_run_inv b (WGot p) h ins outs"
  shows "rb_run_inv (rb_store p x b) (WStored p x) h ins outs"
proof -
  from assms obtain Rl Rp R Wl Wp W where r: "rb_rel b Rl Rp R Wl Wp W" "wphase_ok b Rl W (WGot p)"
    "\<forall>p. h = Some p \<longrightarrow> p = R mod RB_SIZE \<and> R < Wl" "ins = outs @ rb_cont b"
    by (auto simp: rb_run_inv_def)
  have "wphase_ok (rb_store p x b) Rl W (WStored p x)"
    using r(1,2) by (auto simp: rb_store_def rb_rel_def)
  with r store_rel [OF r(1)] rb_cont_store [OF r(1)] show ?thesis
    unfolding rb_run_inv_def by (metis wphase_ok.simps(2))
qed

lemma run_inv_complete:
  assumes "rb_run_inv b (WStored p x) h ins outs"
  shows "rb_run_inv (CompleteWrite b) WIdle h (ins @ [x]) outs"
proof -
  from assms obtain Rl Rp R Wl Wp W where r: "rb_rel b Rl Rp R Wl Wp W" "wphase_ok b Rl W (WStored p x)"
    "\<forall>p. h = Some p \<longrightarrow> p = R mod RB_SIZE \<and> R < Wl" "ins = outs @ rb_cont b"
    by (auto simp: rb_run_inv_def)
  from r(2) have a: "afterNextWriteIndex b = Suc W mod RB_SIZE" "Suc W < Rl + RB_SIZE"
    "rb_buffer b ! (W mod RB_SIZE) = x" by auto
  note c = CompleteWrite_rel [OF r(1) a(1,2)]
  from c(1) obtain Wp' where r': "rb_rel (CompleteWrite b) Rl Rp R Wl Wp' (Suc W)" by blast
  have "R \<le> W" using r(1) by (auto simp: rb_rel_def)
  then have "rb_cont (CompleteWrite b) = rb_cont b @ [x]"
    using rb_cont_rel [OF r(1)] rb_cont_rel [OF r'] c(2) a(3) by simp
  with r(3,4) r' show ?thesis unfolding rb_run_inv_def by (metis append_assoc wphase_ok.simps(1))
qed

lemma run_inv_extract:
  assumes "rb_run_inv b w None ins outs" "Extract b = (b', h)"
  shows "rb_run_inv b' w h ins outs"
proof -
  from assms(1) obtain Rl Rp R Wl Wp W where r: "rb_rel b Rl Rp R Wl Wp W" "wphase_ok b Rl W w"
    "ins = outs @ rb_cont b"
    by (auto simp: rb_run_inv_def)
  show ?thesis
  proof (cases h)
    case None
    with Extract_None [OF r(1)] assms show ?thesis by simp
  next
    case (Some p)
    note e = Extract_rel [OF r(1) assms(2) [unfolded Some]]
    from e(1) obtain Wl' where r': "rb_rel b' Rl Rp R Wl' Wp W" "R < Wl'" by blast
    have "rb_cont b' = rb_cont b" using rb_cont_rel [OF r(1)] rb_cont_rel [OF r'(1)] e(3) by simp
    moreover have "wphase_ok b' Rl W w" using wphase_ok_cong r(2) e by blast
    ultimately show ?thesis using r r' e(2) Some unfolding rb_run_inv_def by (metis option.inject)
  qed
qed

lemma run_inv_ack:
  assumes "rb_run_inv b w (Some p) ins outs"
  shows "rb_run_inv (Ack b) w None ins (outs @ [rb_buffer b ! p])"
proof -
  from assms obtain Rl Rp R Wl Wp W where r: "rb_rel b Rl Rp R Wl Wp W" "wphase_ok b Rl W w"
    "p = R mod RB_SIZE" "R < Wl" "ins = outs @ rb_cont b"
    by (auto simp: rb_run_inv_def)
  note a = Ack_rel [OF r(1,4)]
  from a(1) obtain Rp' where r': "rb_rel (Ack b) Rl Rp' (Suc R) Wl Wp W" by blast
  have "R < W" using r(1,4) by (auto simp: rb_rel_def)
  then have "rb_cont b = rb_buffer b ! p # rb_cont (Ack b)"
    using rb_cont_rel [OF r(1)] rb_cont_rel [OF r'] a(2) r(3) by (simp add: upt_rec [of R])
  moreover have "wphase_ok (Ack b) Rl W w" using wphase_ok_cong r(2) a by blast
  ultimately show ?thesis using r r' unfolding rb_run_inv_def
    by (metis append.assoc append_Cons append_Nil option.distinct(1))
qed

lemma run_inv_flush:
  assumes "rb_run_inv b w h ins outs"
  shows "rb_run_inv (Flush b) w h ins outs"
proof -
  from assms obtain Rl Rp R Wl Wp W where r: "rb_rel b Rl Rp R Wl Wp W" "wphase_ok b Rl W w"
    "\<forall>p. h = Some p \<longrightarrow> p = R mod RB_SIZE \<and> R < Wl" "ins = outs @ rb_cont b"
    by (auto simp: rb_run_inv_def)
  have "wphase_ok (Flush b) Rl W w" by (rule wphase_ok_cong [OF r(2)]) (auto simp: Flush_def)
  with r Flush_rel [OF r(1)] show ?thesis unfolding rb_run_inv_def by metis
qed

theorem rb_run_invariant: "rb_run b w h ins outs \<Longrightarrow> rb_run_inv b w h ins outs"
proof (induction rule: rb_run.induct)
  case (run_init junk z)
  show ?case
    using ZeroRingBuffer_rel [of junk z] ZeroRingBuffer_inv(2) [of junk z]
    unfolding rb_run_inv_def by (metis append_Nil option.distinct(1) wphase_ok.simps(1))
qed (auto intro: run_inv_get run_inv_store run_inv_complete run_inv_extract run_inv_ack run_inv_flush)

section \<open>The interface of the channel\<close>

text \<open>What the queues built on the ring buffer use of it: a blocking insertion, an extraction that
  reads and acknowledges at once, and a flush.\<close>

locale spsc_channel =
  fixes ins :: "'a \<Rightarrow> 'q \<Rightarrow> 'q option"
    and ext :: "'q \<Rightarrow> 'q \<times> 'a option"
    and flush :: "'q \<Rightarrow> 'q"
    and inv :: "'q \<Rightarrow> bool"
    and cont :: "'q \<Rightarrow> 'a list"
  assumes ins_some: "inv q \<Longrightarrow> ins x q = Some q' \<Longrightarrow> inv q' \<and> cont q' = cont q @ [x]"
    and ext_some: "inv q \<Longrightarrow> ext q = (q', Some x) \<Longrightarrow> inv q' \<and> cont q = x # cont q'"
    and ext_none: "inv q \<Longrightarrow> ext q = (q', None) \<Longrightarrow> q' = q"
    and flush_keeps: "inv q \<Longrightarrow> inv (flush q) \<and> cont (flush q) = cont q"
    and flush_shows: "inv q \<Longrightarrow> snd (ext (flush q)) = None \<Longrightarrow> cont q = []"
begin

text \<open>Records a consumer gets by extracting \<open>n\<close> times after a flush.\<close>

fun drain :: "nat \<Rightarrow> 'q \<Rightarrow> 'q \<times> 'a list" where
  "drain 0 q = (q, [])"
| "drain (Suc n) q =
     (case ext (flush q) of
        (q', None) \<Rightarrow> (q', [])
      | (q', Some x) \<Rightarrow> (case drain n q' of (q'', xs) \<Rightarrow> (q'', x # xs)))"

lemma drain_all:
  "inv q \<Longrightarrow> length (cont q) \<le> n \<Longrightarrow> \<exists>q'. drain n q = (q', cont q) \<and> inv q' \<and> cont q' = []"
proof (induction n arbitrary: q)
  case (Suc n)
  note f = flush_keeps [OF Suc.prems(1)]
  obtain q1 r where e: "ext (flush q) = (q1, r)" by fastforce
  show ?case
  proof (cases r)
    case None
    with e f flush_shows [OF Suc.prems(1)] ext_none [of "flush q" q1] show ?thesis by auto
  next
    case (Some x)
    from ext_some [of "flush q" q1 x] f e Some have q1: "inv q1" "cont q = x # cont q1" by auto
    with Suc.IH [OF q1(1)] Suc.prems(2) e Some show ?thesis by auto
  qed
qed simp

end

definition ext_ack :: "'a rb \<Rightarrow> 'a rb \<times> 'a option" where
  "ext_ack b =
     (case Extract b of
        (b1, None) \<Rightarrow> (b1, None)
      | (b1, Some p) \<Rightarrow> (Ack b1, Some (rb_buffer b1 ! p)))"

interpretation ring: spsc_channel Insert ext_ack Flush rb_inv rb_cont
proof unfold_locales
  fix q q' :: "'a rb" and x
  assume i: "rb_inv q"
  show "Insert x q = Some q' \<Longrightarrow> rb_inv q' \<and> rb_cont q' = rb_cont q @ [x]"
    using Insert_cont [OF i] by blast
  show "rb_inv q' \<and> rb_cont q = x # rb_cont q'" if "ext_ack q = (q', Some x)"
  proof -
    from that obtain b1 p where e: "Extract q = (b1, Some p)" "q' = Ack b1" "x = rb_buffer b1 ! p"
      by (auto simp: ext_ack_def split: prod.splits option.splits)
    from Extract_cont [OF i e(1)] e(2,3) show ?thesis by simp
  qed
  show "ext_ack q = (q', None) \<Longrightarrow> q' = q"
    using Extract_None_cont [OF i] by (auto simp: ext_ack_def split: prod.splits option.splits)
  show "rb_inv (Flush q) \<and> rb_cont (Flush q) = rb_cont q" using Flush_cont [OF i] .
  show "snd (ext_ack (Flush q)) = None \<Longrightarrow> rb_cont q = []"
    using Extract_Flush_None [OF i] by (auto simp: ext_ack_def split: prod.splits option.splits)
qed

section \<open>A producer alone fills the buffer\<close>

lemma fill_run:
  "k < RB_SIZE \<Longrightarrow>
   \<exists>b Wp. rb_run b WIdle None (replicate k (x :: 'a)) [] \<and> rb_rel b 0 0 0 0 Wp k"
proof (induction k)
  case 0
  show ?case using run_init ZeroRingBuffer_rel by fastforce
next
  case (Suc k)
  then obtain b Wp where b: "rb_run b WIdle None (replicate k x) []" "rb_rel b 0 0 0 0 Wp k" by auto
  have "GetSlot b \<noteq> None" using GetSlot_None [OF b(2)] Suc.prems by fastforce
  then obtain b1 p where g: "GetSlot b = Some (b1, p)" by (cases "GetSlot b") auto
  note gs = GetSlot_rel [OF b(2) g]
  from gs(1) have r1: "rb_rel b1 0 0 0 0 Wp k" by (auto simp: rb_rel_def)
  have a: "afterNextWriteIndex (rb_store p x b1) = Suc k mod RB_SIZE"
    using gs(3) by (simp add: rb_store_def)
  obtain Wp' where "rb_rel (CompleteWrite (rb_store p x b1)) 0 0 0 0 Wp' (Suc k)"
    using CompleteWrite_rel(1) [OF store_rel [OF r1] a] Suc.prems by auto
  moreover have "rb_run (CompleteWrite (rb_store p x b1)) WIdle None (replicate k x @ [x]) []"
    by (rule run_complete [OF run_store [OF run_get [OF b(1) g]]])
  moreover have "replicate k x @ [x] = replicate (Suc k) x" by (simp add: replicate_append_same)
  ultimately show ?case by metis
qed

lemma full_blocks: "rb_rel b 0 0 0 0 Wp 1999 \<Longrightarrow> GetSlot b = None"
  by (simp add: rb_rel_def GetSlot_def Let_def nextVal_def RB_SIZE_def)

text \<open>\<open>Size\<close> between two insertions counts from the reader's progress as last seen by the writer.\<close>

lemma rb_Size_bounds:
  assumes "rb_rel b Rl Rp R Wl Wp W" "afterNextWriteIndex b = W mod RB_SIZE"
  shows "rb_Size b = W - Rl" "length (rb_cont b) \<le> rb_Size b" "rb_Size b < RB_SIZE"
proof -
  have o: "Rl \<le> R" "R \<le> W" "W < Rl + RB_SIZE" using assms(1) by (auto simp: rb_rel_def)
  have lt: "k mod RB_SIZE < RB_SIZE" for k by (rule mod_less_divisor) simp
  have Rl: "localReadIndex b = Rl mod RB_SIZE" using assms(1) by (simp add: rb_rel_def)
  have "rb_Size b = (W mod RB_SIZE + RB_SIZE - Rl mod RB_SIZE) mod RB_SIZE"
  proof (cases "W mod RB_SIZE < Rl mod RB_SIZE")
    case True
    then have "W mod RB_SIZE + RB_SIZE - Rl mod RB_SIZE < RB_SIZE" using lt [of Rl] by linarith
    with True show ?thesis by (simp add: rb_Size_def assms(2) Rl)
  next
    case False
    then have "W mod RB_SIZE + RB_SIZE - Rl mod RB_SIZE = W mod RB_SIZE - Rl mod RB_SIZE + RB_SIZE"
      "W mod RB_SIZE - Rl mod RB_SIZE < RB_SIZE" using lt [of W] by linarith+
    then have "(W mod RB_SIZE + RB_SIZE - Rl mod RB_SIZE) mod RB_SIZE =
        W mod RB_SIZE - Rl mod RB_SIZE" by (metis mod_add_self2 mod_less)
    with False show ?thesis by (simp add: rb_Size_def assms(2) Rl)
  qed
  then show s: "rb_Size b = W - Rl" using rb_dist [of Rl W] o by simp
  show "length (rb_cont b) \<le> rb_Size b" unfolding rb_cont_rel [OF assms(1)] s using o by simp
  show "rb_Size b < RB_SIZE" unfolding s using o by linarith
qed

section \<open>Properties\<close>

text \<open>C19. In every interleaving of producer and consumer, the records the consumer has acknowledged are
  exactly the first records the producer completed, in order; the ones still to come are the
  contents of the buffer, fewer than \<open>RB_SIZE\<close>; and a slot the consumer holds still contains the
  oldest of them, so it is never overwritten before it is acknowledged.\<close>

theorem rb_fifo:
  assumes "rb_run b w h ins outs"
  shows "ins = outs @ rb_cont b \<and> length (rb_cont b) < RB_SIZE \<and>
    (\<forall>p. h = Some p \<longrightarrow> (\<exists>rest. rb_cont b = rb_buffer b ! p # rest))"
proof -
  from rb_run_invariant [OF assms] obtain Rl Rp R Wl Wp W where r: "rb_rel b Rl Rp R Wl Wp W"
    "\<forall>p. h = Some p \<longrightarrow> p = R mod RB_SIZE \<and> R < Wl" "ins = outs @ rb_cont b"
    by (auto simp: rb_run_inv_def)
  moreover have "rb_inv b" using r(1) by blast
  moreover have "R < W \<Longrightarrow> \<exists>rest. rb_cont b = rb_buffer b ! (R mod RB_SIZE) # rest"
    unfolding rb_cont_rel [OF r(1)] by (simp add: upt_rec [of R])
  moreover have "Wl \<le> W" using r(1) by (auto simp: rb_rel_def)
  ultimately show ?thesis using rb_cont_bound by (metis order_less_le_trans)
qed

theorem rb_fifo_witness:
  "[7] = [] @ rb_cont (CompleteWrite (rb_store 0 (7 :: nat)
     ((ZeroRingBuffer 5 0)\<lparr>afterNextWriteIndex := 1\<rparr>)))"
proof -
  have "GetSlot (ZeroRingBuffer 5 (0 :: nat)) = Some ((ZeroRingBuffer 5 0)\<lparr>afterNextWriteIndex := 1\<rparr>, 0)"
    by (simp add: GetSlot_def ZeroRingBuffer_def nextVal_def RB_SIZE_def)
  from run_complete [OF run_store [OF run_get [OF run_init this], of 7]] show ?thesis
    using rb_fifo by fastforce
qed

text \<open>C27. Producer and consumer are never blocked on each other, although both publish their progress
  only every \<open>RB_BATCH\<close> records: when a producer has to wait for a free slot, at least
  \<open>RB_SIZE - RB_BATCH\<close> records are unread and the consumer can extract the next one.\<close>

theorem rb_not_both_blocked:
  assumes "rb_run b w None ins outs" "GetSlot b = None"
  shows "RB_SIZE - RB_BATCH \<le> length ins - length outs \<and>
    (\<exists>b' p. Extract b = (b', Some p) \<and> rb_buffer b' ! p = ins ! length outs)"
proof -
  from rb_run_invariant [OF assms(1)] obtain Rl Rp R Wl Wp W where r: "rb_rel b Rl Rp R Wl Wp W"
    "ins = outs @ rb_cont b" by (auto simp: rb_run_inv_def)
  have full: "Suc W = Rp + RB_SIZE" by (rule GetSlot_None [OF r(1) assms(2)])
  have bnd: "R - Rp < RB_BATCH" "W - Wp < RB_BATCH" "Rp \<le> R" "R \<le> W" "Wp \<le> W"
    using r(1) by (auto simp: rb_rel_def)
  have len: "length (rb_cont b) = W - R" unfolding rb_cont_rel [OF r(1)] by simp
  obtain b' h where e: "Extract b = (b', h)" by fastforce
  have "R \<noteq> Wp" using full bnd by (simp add: RB_SIZE_def RB_BATCH_def)
  then obtain p where p: "h = Some p" using Extract_None(2) [OF r(1)] e by (cases h) auto
  have "rb_inv b" using r(1) by blast
  from Extract_cont [OF this e [unfolded p]] have "rb_buffer b' ! p = ins ! length outs"
    using r(2) by (simp add: nth_append hd_conv_nth)
  with e p r(2) len full bnd show ?thesis by (simp add: RB_SIZE_def RB_BATCH_def)
qed

theorem rb_not_both_blocked_witness:
  "\<exists>b. rb_run b WIdle None (replicate 1999 (7 :: nat)) [] \<and> GetSlot b = None \<and>
    (\<exists>b' p. Extract b = (b', Some p) \<and> rb_buffer b' ! p = 7)"
proof -
  obtain b Wp where b: "rb_run b WIdle None (replicate 1999 (7 :: nat)) []" "rb_rel b 0 0 0 0 Wp 1999"
    using fill_run [of 1999 7] by (auto simp: RB_SIZE_def)
  with rb_not_both_blocked [OF b(1) full_blocks [OF b(2)]] full_blocks [OF b(2)] show ?thesis by auto
qed

text \<open>After a \<open>Flush\<close> no completed record stays hidden behind the batching: as long as one is
  unread, \<open>Extract\<close> succeeds and yields the oldest one.\<close>

theorem rb_flush_visible:
  assumes "rb_run b w None ins outs" "outs \<noteq> ins"
  shows "\<exists>b' p. Extract (Flush b) = (b', Some p) \<and> rb_buffer b' ! p = ins ! length outs"
proof -
  have b: "rb_inv b" "ins = outs @ rb_cont b"
    using rb_run_invariant [OF assms(1)] by (auto simp: rb_run_inv_def)
  obtain b' h where e: "Extract (Flush b) = (b', h)" by fastforce
  with Extract_Flush_None [OF b(1)] b(2) assms(2) obtain p where p: "h = Some p" by (cases h) auto
  from Extract_cont [OF _ e [unfolded p]] Flush_cont [OF b(1)] b(2) assms(2)
  have "rb_buffer b' ! p = ins ! length outs" by (simp add: nth_append hd_conv_nth)
  with e p show ?thesis by blast
qed

theorem rb_flush_visible_witness:
  "\<exists>b. rb_run b WIdle None (replicate 3 (7 :: nat)) [] \<and>
    (\<exists>b' p. Extract (Flush b) = (b', Some p) \<and> rb_buffer b' ! p = 7)"
proof -
  obtain b Wp where b: "rb_run b WIdle None (replicate 3 (7 :: nat)) []" "rb_rel b 0 0 0 0 Wp 3"
    using fill_run [of 3 7] by (auto simp: RB_SIZE_def)
  show ?thesis
    using rb_flush_visible [OF b(1)] b(1) by auto
qed

end
