(* ===== verification/Mesh.thy ===== *)
theory Mesh
  imports Ring_Buffer "HOL-Library.Multiset"
begin

text \<open>
  The multi-producer queue \<open>LockFreeQueue\<close> (\<open>src/queues/mpsc_queue_mesh_zerocopy.hpp\<close>: one ring
  buffer per producer, polled round robin) and the zero-copy channel of \<open>mpsc_object_indirect_mesh\<close>,
  \<open>mpsc_writer_indirect_mesh\<close> and \<open>mpsc_reader_indirect_mesh\<close>, in which writers and readers pass the
  addresses of record slots to each other: free slots from readers to writers, filled ones back.

  The queue operations take the operations of the ring buffer as arguments, so that their lemmas are
  proved in the locale \<open>spsc_channel\<close> from its laws alone; the interpretation \<open>ring\<close> instantiates
  them. The mesh is an explicit store of objects that refer to each other by index.
\<close>

section \<open>LockFreeQueue\<close>

text \<open>A call returns, spins for ever unless another thread acts, or indexes outside a vector.\<close>

datatype 'a call = Returned 'a | Blocks | Out_of_range

record 'q lfq =
  lq :: "'q list"
  num_queue :: nat
  cur :: nat

definition LockFreeQueue :: "'q lfq" where
  "LockFreeQueue = \<lparr>lq = [], num_queue = 0, cur = 0\<rparr>"

definition AddQueue :: "'q \<Rightarrow> 'q lfq \<Rightarrow> 'q lfq" where
  "AddQueue fresh q = q\<lparr>num_queue := num_queue q + 1, lq := lq q @ [fresh]\<rparr>"

definition lfq_push :: "('a \<Rightarrow> 'q \<Rightarrow> 'q option) \<Rightarrow> nat \<Rightarrow> 'a \<Rightarrow> 'q lfq \<Rightarrow> 'q lfq call" where
  "lfq_push put writer_index x q =
     (if writer_index < length (lq q)
      then (case put x (lq q ! writer_index) of
              None \<Rightarrow> Blocks
            | Some b \<Rightarrow> Returned (q\<lparr>lq := (lq q)[writer_index := b]\<rparr>))
      else Out_of_range)"

definition wrap_cur :: "'q lfq \<Rightarrow> nat" where
  "wrap_cur q = (if cur q \<ge> num_queue q then 0 else cur q)"

fun pop_loop :: "('q \<Rightarrow> 'q \<times> 'a option) \<Rightarrow> nat \<Rightarrow> 'q lfq \<Rightarrow> 'q lfq \<times> 'a option" where
  "pop_loop extract 0 q = (q, None)"
| "pop_loop extract (Suc n) q =
     (let c = wrap_cur q in
      case extract (lq q ! c) of
        (b, slot) \<Rightarrow>
          (let q' = q\<lparr>lq := (lq q)[c := b], cur := c + 1\<rparr> in
           case slot of Some x \<Rightarrow> (q', Some x) | None \<Rightarrow> pop_loop extract n q'))"

definition lfq_pop :: "('q \<Rightarrow> 'q \<times> 'a option) \<Rightarrow> 'q lfq \<Rightarrow> 'q lfq \<times> 'a option" where
  "lfq_pop extract q = pop_loop extract (num_queue q) q"

definition lfq_flush :: "('q \<Rightarrow> 'q) \<Rightarrow> 'q lfq \<Rightarrow> 'q lfq" where
  "lfq_flush flush q = q\<lparr>lq := map flush (lq q)\<rparr>"

definition lfq_inv :: "('q \<Rightarrow> bool) \<Rightarrow> 'q lfq \<Rightarrow> bool" where
  "lfq_inv ok q \<longleftrightarrow> length (lq q) = num_queue q \<and> cur q \<le> num_queue q \<and> (\<forall>b\<in>set (lq q). ok b)"

lemma wrap_cur_less: "0 < num_queue q \<Longrightarrow> wrap_cur q < num_queue q"
  by (simp add: wrap_cur_def)

text \<open>How many steps of the cursor lead to queue \<open>k\<close>.\<close>

definition turns :: "'q lfq \<Rightarrow> nat \<Rightarrow> nat" where
  "turns q k = (if wrap_cur q \<le> k then k - wrap_cur q else k + num_queue q - wrap_cur q)"

lemma turns_less: "k < num_queue q \<Longrightarrow> turns q k < num_queue q"
  by (auto simp: turns_def)

lemma turns_step:
  assumes "k < num_queue q" "k \<noteq> wrap_cur q" "cur q' = wrap_cur q + 1" "num_queue q' = num_queue q"
  shows "turns q k = Suc (turns q' k)"
proof -
  have c: "wrap_cur q < num_queue q" by (rule wrap_cur_less) (use assms(1) in linarith)
  have w: "wrap_cur q' = (if wrap_cur q + 1 \<ge> num_queue q then 0 else wrap_cur q + 1)"
    using assms by (simp add: wrap_cur_def [of q'])
  show ?thesis using assms(1,2,4) c unfolding turns_def w by auto
qed

fun lfq_pops :: "('q \<Rightarrow> 'q \<times> 'a option) \<Rightarrow> nat \<Rightarrow> 'q lfq \<Rightarrow> 'q lfq \<times> 'a list" where
  "lfq_pops extract 0 q = (q, [])"
| "lfq_pops extract (Suc n) q =
     (case lfq_pop extract q of
        (q', None) \<Rightarrow> (q', [])
      | (q', Some x) \<Rightarrow> (case lfq_pops extract n q' of (q'', xs) \<Rightarrow> (q'', x # xs)))"

context spsc_channel
begin

text \<open>One poll of the ring under the cursor.\<close>

lemma poll_none:
  assumes "lfq_inv inv q" "0 < num_queue q" "ext (lq q ! wrap_cur q) = (b, None)"
  shows "(lq q)[wrap_cur q := b] = lq q"
  using assms wrap_cur_less [of q] ext_none [of "lq q ! wrap_cur q" b]
  by (auto simp: lfq_inv_def)

lemma poll_some:
  assumes "lfq_inv inv q" "0 < num_queue q" "ext (lq q ! wrap_cur q) = (b, Some x)"
  shows "inv b" "cont (lq q ! wrap_cur q) = x # cont b"
  using assms wrap_cur_less [of q] ext_some [of "lq q ! wrap_cur q" b x]
  by (auto simp: lfq_inv_def)

lemma lfq_inv_update:
  "lfq_inv inv q \<Longrightarrow> inv b \<Longrightarrow> c < num_queue q \<Longrightarrow> lfq_inv inv (q\<lparr>lq := (lq q)[c := b], cur := Suc c\<rparr>)"
  by (auto simp: lfq_inv_def dest: set_update_subset_insert [THEN subsetD])

lemma lfq_inv_cur: "lfq_inv inv q \<Longrightarrow> c < num_queue q \<Longrightarrow> lfq_inv inv (q\<lparr>cur := Suc c\<rparr>)"
  by (simp add: lfq_inv_def)

lemma pop_loop_some:
  assumes "lfq_inv inv q" "0 < num_queue q" "pop_loop ext n q = (q', Some x)"
  shows "lfq_inv inv q' \<and> num_queue q' = num_queue q \<and>
    (\<exists>c b. c < num_queue q \<and> cont (lq q ! c) = x # cont b \<and> lq q' = (lq q)[c := b])"
  using assms
proof (induction n arbitrary: q)
  case (Suc n)
  let ?c = "wrap_cur q"
  obtain b r where e: "ext (lq q ! ?c) = (b, r)" by fastforce
  note c = wrap_cur_less [OF Suc.prems(2)]
  show ?case
  proof (cases r)
    case None
    note same = poll_none [OF Suc.prems(1,2) e [unfolded None]]
    with Suc.prems(3) e None have "pop_loop ext n (q\<lparr>cur := Suc ?c\<rparr>) = (q', Some x)"
      by (simp add: Let_def)
    from Suc.IH [OF lfq_inv_cur [OF Suc.prems(1) c] _ this] Suc.prems(2) show ?thesis by simp
  next
    case (Some y)
    with Suc.prems(3) e have q': "q' = q\<lparr>lq := (lq q)[?c := b], cur := Suc ?c\<rparr>" "y = x"
      by (auto simp: Let_def)
    note p = poll_some [OF Suc.prems(1,2) e [unfolded Some]]
    with q' c lfq_inv_update [OF Suc.prems(1) p(1) c] show ?thesis by auto
  qed
qed simp

lemma pop_loop_none:
  assumes "lfq_inv inv q" "0 < num_queue q" "pop_loop ext n q = (q', None)"
  shows "lfq_inv inv q' \<and> num_queue q' = num_queue q \<and> lq q' = lq q"
  using assms
proof (induction n arbitrary: q)
  case (Suc n)
  let ?c = "wrap_cur q"
  obtain b r where e: "ext (lq q ! ?c) = (b, r)" by fastforce
  with Suc.prems(3) have r: "r = None" by (auto simp: Let_def split: option.splits)
  note same = poll_none [OF Suc.prems(1,2) e [unfolded r]]
  with Suc.prems(3) e r have "pop_loop ext n (q\<lparr>cur := Suc ?c\<rparr>) = (q', None)"
    by (simp add: Let_def)
  from Suc.IH [OF lfq_inv_cur [OF Suc.prems(1) wrap_cur_less [OF Suc.prems(2)]] _ this] Suc.prems(2)
  show ?case by simp
qed simp

lemma pop_loop_progress:
  assumes "lfq_inv inv q" "k < num_queue q" "snd (ext (lq q ! k)) \<noteq> None" "turns q k < n"
  shows "\<exists>q' x. pop_loop ext n q = (q', Some x) \<and>
    (cont (lq q ! k) = x # cont (lq q' ! k) \<or> lq q' ! k = lq q ! k \<and> turns q' k < turns q k)"
  using assms
proof (induction n arbitrary: q)
  case (Suc n)
  let ?c = "wrap_cur q"
  have n0: "0 < num_queue q" using Suc.prems(2) by simp
  note c = wrap_cur_less [OF n0]
  obtain b r where e: "ext (lq q ! ?c) = (b, r)" by fastforce
  show ?case
  proof (cases r)
    case None
    note same = poll_none [OF Suc.prems(1) n0 e [unfolded None]]
    let ?q = "q\<lparr>cur := Suc ?c\<rparr>"
    have k: "k \<noteq> ?c" using e None Suc.prems(3) by auto
    have t: "turns q k = Suc (turns ?q k)" by (rule turns_step) (use k Suc.prems(2) in auto)
    have "pop_loop ext (Suc n) q = pop_loop ext n ?q" using e None same by (simp add: Let_def)
    with Suc.IH [OF lfq_inv_cur [OF Suc.prems(1) c]] Suc.prems(2-4) t show ?thesis by fastforce
  next
    case (Some y)
    let ?q = "q\<lparr>lq := (lq q)[?c := b], cur := Suc ?c\<rparr>"
    have r: "pop_loop ext (Suc n) q = (?q, Some y)" using e Some by (simp add: Let_def)
    have len: "length (lq q) = num_queue q" using Suc.prems(1) by (simp add: lfq_inv_def)
    show ?thesis
    proof (cases "k = ?c")
      case True
      with r len c poll_some [OF Suc.prems(1) n0 e [unfolded Some]] show ?thesis by simp
    next
      case False
      have "turns q k = Suc (turns ?q k)" by (rule turns_step) (use False Suc.prems(2) in auto)
      with r False show ?thesis by simp
    qed
  qed
qed simp

lemma pop_cases:
  assumes "lfq_inv inv q" "lfq_pop ext q = (q', r)"
  shows "lfq_inv inv q'" "num_queue q' = num_queue q"
    "r = None \<Longrightarrow> lq q' = lq q"
    "r = Some x \<Longrightarrow>
      \<exists>c b. c < num_queue q \<and> cont (lq q ! c) = x # cont b \<and> lq q' = (lq q)[c := b]"
proof -
  have "lfq_inv inv q' \<and> num_queue q' = num_queue q \<and> (r = None \<longrightarrow> lq q' = lq q) \<and>
    (\<forall>x. r = Some x \<longrightarrow>
      (\<exists>c b. c < num_queue q \<and> cont (lq q ! c) = x # cont b \<and> lq q' = (lq q)[c := b]))"
  proof (cases "num_queue q = 0")
    case True
    with assms show ?thesis by (auto simp: lfq_pop_def)
  next
    case False
    then show ?thesis
      using pop_loop_none [OF assms(1), of "num_queue q" q'] pop_loop_some [OF assms(1), of "num_queue q" q']
        assms(2) by (cases r) (simp_all add: lfq_pop_def)
  qed
  then show "lfq_inv inv q'" "num_queue q' = num_queue q" "r = None \<Longrightarrow> lq q' = lq q"
    "r = Some x \<Longrightarrow>
      \<exists>c b. c < num_queue q \<and> cont (lq q ! c) = x # cont b \<and> lq q' = (lq q)[c := b]"
    by blast+
qed

lemma pop_none:
  assumes "lfq_inv inv q" "lfq_pop ext q = (q', None)" "k < num_queue q"
  shows "snd (ext (lq q ! k)) = None"
proof (rule ccontr)
  assume "snd (ext (lq q ! k)) \<noteq> None"
  from pop_loop_progress [OF assms(1,3) this turns_less [OF assms(3)]] assms(2,3) show False
    by (auto simp: lfq_pop_def)
qed

lemma flush_inv: "lfq_inv inv q \<Longrightarrow> lfq_inv inv (lfq_flush flush q)"
  by (auto simp: lfq_inv_def lfq_flush_def flush_keeps)

lemma flush_cont: "lfq_inv inv q \<Longrightarrow> map cont (lq (lfq_flush flush q)) = map cont (lq q)"
  by (auto simp: lfq_inv_def lfq_flush_def flush_keeps)

lemma push_inv:
  assumes "lfq_inv inv q" "lfq_push ins w x q = Returned q'"
  shows "lfq_inv inv q'" "num_queue q' = num_queue q"
    "\<exists>b. w < num_queue q \<and> lq q' = (lq q)[w := b] \<and> cont b = cont (lq q ! w) @ [x]"
proof -
  from assms obtain b where b: "w < num_queue q" "ins x (lq q ! w) = Some b"
    "q' = q\<lparr>lq := (lq q)[w := b]\<rparr>"
    by (auto simp: lfq_push_def lfq_inv_def split: if_splits option.splits)
  moreover have "inv (lq q ! w)" using assms(1) b(1) by (auto simp: lfq_inv_def)
  ultimately show "lfq_inv inv q'" "num_queue q' = num_queue q"
    "\<exists>b. w < num_queue q \<and> lq q' = (lq q)[w := b] \<and> cont b = cont (lq q ! w) @ [x]"
    using assms(1) ins_some [of "lq q ! w" x b]
    by (auto simp: lfq_inv_def dest: set_update_subset_insert [THEN subsetD])
qed

lemma pops_serve:
  assumes "lfq_inv inv q" "k < num_queue q" "snd (ext (lq q ! k)) \<noteq> None" "turns q k < n"
  shows "\<exists>q' xs. lfq_pops ext n q = (q', xs) \<and> hd (cont (lq q ! k)) \<in> set xs"
  using assms
proof (induction n arbitrary: q)
  case (Suc n)
  have n0: "0 < num_queue q" using Suc.prems(2) by simp
  from pop_loop_progress [OF Suc.prems(1-3) turns_less [OF Suc.prems(2)]] obtain q1 x where
    p: "lfq_pop ext q = (q1, Some x)"
    "cont (lq q ! k) = x # cont (lq q1 ! k) \<or> lq q1 ! k = lq q ! k \<and> turns q1 k < turns q k"
    by (auto simp: lfq_pop_def)
  from pop_loop_some [OF Suc.prems(1) n0] p(1) have i: "lfq_inv inv q1" "num_queue q1 = num_queue q"
    by (auto simp: lfq_pop_def)
  show ?case
  proof (cases "cont (lq q ! k) = x # cont (lq q1 ! k)")
    case True
    then show ?thesis using p(1) by (auto split: prod.splits)
  next
    case False
    with p(2) have "lq q1 ! k = lq q ! k" "turns q1 k < n" using Suc.prems(4) by auto
    with Suc.IH [OF i(1)] i(2) Suc.prems(2,3) p(1) show ?thesis by fastforce
  qed
qed simp

end

section \<open>The zero-copy channel between writers and readers\<close>

text \<open>An \<open>MPSCObject\<close> owns a queue and refers to the objects of its peers; writers and readers differ
  in what they call the operations. \<open>held\<close> are the slots the thread has obtained and not passed on.\<close>

record 's mpsc =
  own :: "'s rb lfq"
  peers :: "nat list"
  own_id :: nat
  held :: "'s list"

definition MPSCObject :: "'s mpsc" where
  "MPSCObject = \<lparr>own = LockFreeQueue, peers = [], own_id = 0, held = []\<rparr>"

definition ConnectPeer :: "'s rb \<Rightarrow> nat \<Rightarrow> 's mpsc \<Rightarrow> 's mpsc" where
  "ConnectPeer fresh peer ob = ob\<lparr>own := AddQueue fresh (own ob), peers := peers ob @ [peer]\<rparr>"

definition SetId :: "nat \<Rightarrow> 's mpsc \<Rightarrow> 's mpsc" where
  "SetId w ob = ob\<lparr>own_id := w\<rparr>"

text \<open>\<open>push\<close> and \<open>pop\<close> on rings; the store of all objects is a list.\<close>

definition push :: "nat \<Rightarrow> 's \<Rightarrow> 's rb lfq \<Rightarrow> 's rb lfq call" where
  "push = lfq_push Insert"

definition pop :: "'s rb lfq \<Rightarrow> 's rb lfq \<times> 's option" where
  "pop = lfq_pop ext_ack"

definition mpsc_take :: "nat \<Rightarrow> 's mpsc list \<Rightarrow> 's mpsc list \<times> 's option" where
  "mpsc_take i m =
     (case pop (own (m ! i)) of
        (q, None) \<Rightarrow> (m[i := (m ! i)\<lparr>own := q\<rparr>], None)
      | (q, Some s) \<Rightarrow> (m[i := (m ! i)\<lparr>own := q, held := held (m ! i) @ [s]\<rparr>], Some s))"

definition mpsc_give :: "nat \<Rightarrow> nat \<Rightarrow> 's \<Rightarrow> 's mpsc list \<Rightarrow> 's mpsc list call" where
  "mpsc_give i k s m =
     (if k < length (peers (m ! i)) then
        (let j = peers (m ! i) ! k in
         case push (own_id (m ! i)) s (own (m ! j)) of
           Returned q \<Rightarrow>
             (let m1 = m[i := (m ! i)\<lparr>held := remove1 s (held (m ! i))\<rparr>]
              in Returned (m1[j := (m1 ! j)\<lparr>own := q\<rparr>]))
         | Blocks \<Rightarrow> Blocks
         | Out_of_range \<Rightarrow> Out_of_range)
      else Out_of_range)"

text \<open>\<open>MPSCWriter::GetSlot\<close> spins until \<open>pop\<close> succeeds; \<open>MPSCReader::Read\<close> returns NULL instead.\<close>

definition writer_GetSlot :: "nat \<Rightarrow> 's mpsc list \<Rightarrow> ('s mpsc list \<times> 's) call" where
  "writer_GetSlot i m =
     (case mpsc_take i m of (m', None) \<Rightarrow> Blocks | (m', Some s) \<Rightarrow> Returned (m', s))"

definition reader_Read :: "nat \<Rightarrow> 's mpsc list \<Rightarrow> 's mpsc list \<times> 's option" where
  "reader_Read i m = mpsc_take i m"

definition writer_Write :: "nat \<Rightarrow> nat \<Rightarrow> 's \<Rightarrow> 's mpsc list \<Rightarrow> 's mpsc list call" where
  "writer_Write i reader s m = mpsc_give i reader s m"

definition reader_Ack :: "nat \<Rightarrow> nat \<Rightarrow> 's \<Rightarrow> 's mpsc list \<Rightarrow> 's mpsc list call" where
  "reader_Ack i writer s m = mpsc_give i writer s m"

fun flush_peers :: "nat list \<Rightarrow> 's mpsc list \<Rightarrow> 's mpsc list" where
  "flush_peers [] m = m"
| "flush_peers (j # js) m = flush_peers js (m[j := (m ! j)\<lparr>own := lfq_flush Flush (own (m ! j))\<rparr>])"

definition mpsc_Flush :: "nat \<Rightarrow> 's mpsc list \<Rightarrow> 's mpsc list" where
  "mpsc_Flush i m = flush_peers (peers (m ! i)) m"

text \<open>\<open>MPSCWriter::Init\<close> hands all but one of the writer's slots to its own first ring.\<close>

fun push_all :: "'s list \<Rightarrow> 's rb lfq \<Rightarrow> 's rb lfq call" where
  "push_all [] q = Returned q"
| "push_all (s # ss) q = (case push 0 s q of Returned q' \<Rightarrow> push_all ss q' | r \<Rightarrow> r)"

definition writer_Init :: "'s list \<Rightarrow> 's mpsc \<Rightarrow> 's mpsc call" where
  "writer_Init slots ob =
     (case push_all (take (RB_SIZE - 1) slots) (own ob) of
        Returned q \<Rightarrow> Returned (ob\<lparr>own := q\<rparr>)
      | Blocks \<Rightarrow> Blocks
      | Out_of_range \<Rightarrow> Out_of_range)"

section \<open>Slots are neither lost nor shared\<close>

definition queue_slots :: "'s rb lfq \<Rightarrow> 's multiset" where
  "queue_slots q = (\<Sum>b\<leftarrow>lq q. mset (rb_cont b))"

definition obj_slots :: "'s mpsc \<Rightarrow> 's multiset" where
  "obj_slots ob = mset (held ob) + queue_slots (own ob)"

definition mesh_slots :: "'s mpsc list \<Rightarrow> 's multiset" where
  "mesh_slots m = (\<Sum>ob\<leftarrow>m. obj_slots ob)"

definition mesh_inv :: "'s mpsc list \<Rightarrow> bool" where
  "mesh_inv m \<longleftrightarrow> (\<forall>ob\<in>set m. lfq_inv rb_inv (own ob) \<and> (\<forall>j\<in>set (peers ob). j < length m))"

lemma sum_list_update_add:
  fixes y :: "'b::comm_monoid_add"
  assumes "k < length xs"
  shows "sum_list (xs[k := y]) + xs ! k = sum_list xs + y"
proof -
  have "sum_list (xs[k := y]) = sum_list (take k xs) + (y + sum_list (drop (Suc k) xs))"
    using assms by (simp add: upd_conv_take_nth_drop)
  moreover have "sum_list xs = sum_list (take k xs) + (xs ! k + sum_list (drop (Suc k) xs))"
    using assms by (metis id_take_nth_drop sum_list.Cons sum_list_append)
  ultimately show ?thesis by (simp add: ac_simps)
qed

lemma queue_slots_update:
  assumes "c < length (lq q)" "lq q' = (lq q)[c := b]"
  shows "queue_slots q' + mset (rb_cont (lq q ! c)) = queue_slots q + mset (rb_cont b)"
  using sum_list_update_add [of c "map (mset \<circ> rb_cont) (lq q)" "mset (rb_cont b)"] assms
  by (simp add: queue_slots_def map_update comp_def)

lemma mesh_slots_update:
  assumes "i < length m"
  shows "mesh_slots (m[i := ob]) + obj_slots (m ! i) = mesh_slots m + obj_slots ob"
  using sum_list_update_add [of i "map obj_slots m" "obj_slots ob"] assms
  by (simp add: mesh_slots_def map_update)

lemma pop_slots:
  assumes "lfq_inv rb_inv q" "pop q = (q', r)"
  shows "lfq_inv rb_inv q'" "queue_slots q = queue_slots q' + mset (case r of None \<Rightarrow> [] | Some s \<Rightarrow> [s])"
proof -
  note p = ring.pop_cases [OF assms(1), of q' r, folded pop_def, OF assms(2)]
  show "lfq_inv rb_inv q'" by (rule p(1))
  show "queue_slots q = queue_slots q' + mset (case r of None \<Rightarrow> [] | Some s \<Rightarrow> [s])"
  proof (cases r)
    case None
    with p(3) show ?thesis by (simp add: queue_slots_def)
  next
    case (Some s)
    from p(4) [OF this] obtain c b where c: "c < length (lq q)" "rb_cont (lq q ! c) = s # rb_cont b"
      "lq q' = (lq q)[c := b]" using assms(1) by (auto simp: lfq_inv_def)
    from queue_slots_update [OF c(1,3)] c(2) Some show ?thesis by simp
  qed
qed

lemma push_slots:
  assumes "lfq_inv rb_inv q" "push w s q = Returned q'"
  shows "lfq_inv rb_inv q'" "queue_slots q' = queue_slots q + {#s#}"
proof -
  note p = ring.push_inv [OF assms(1), of w s q', folded push_def, OF assms(2)]
  show "lfq_inv rb_inv q'" by (rule p(1))
  from p(3) obtain b where b: "w < length (lq q)" "rb_cont b = rb_cont (lq q ! w) @ [s]"
    "lq q' = (lq q)[w := b]" using assms(1) by (auto simp: lfq_inv_def)
  from queue_slots_update [OF b(1,3)] b(2) show "queue_slots q' = queue_slots q + {#s#}" by simp
qed

lemma flush_slots:
  assumes "lfq_inv rb_inv q"
  shows "lfq_inv rb_inv (lfq_flush Flush q)" "queue_slots (lfq_flush Flush q) = queue_slots q"
  using ring.flush_inv [OF assms] ring.flush_cont [OF assms]
  by (simp_all add: queue_slots_def) (metis (no_types, lifting) comp_apply list.map_comp map_eq_conv)

lemma mesh_peer: "mesh_inv m \<Longrightarrow> i < length m \<Longrightarrow> j \<in> set (peers (m ! i)) \<Longrightarrow> j < length m"
  unfolding mesh_inv_def by (meson nth_mem)

lemma mesh_inv_update:
  "mesh_inv m \<Longrightarrow> lfq_inv rb_inv (own ob) \<Longrightarrow> peers ob = peers (m ! i) \<Longrightarrow> i < length m \<Longrightarrow>
   mesh_inv (m[i := ob])"
  using mesh_peer [of m i]
  by (auto simp: mesh_inv_def dest!: set_update_subset_insert [THEN subsetD])

lemma mesh_own: "mesh_inv m \<Longrightarrow> i < length m \<Longrightarrow> lfq_inv rb_inv (own (m ! i))"
  by (simp add: mesh_inv_def)

lemma mesh_upd_same:
  assumes "mesh_inv m" "i < length m" "lfq_inv rb_inv (own ob)" "peers ob = peers (m ! i)"
    "obj_slots ob = obj_slots (m ! i)"
  shows "mesh_inv (m[i := ob])" "mesh_slots (m[i := ob]) = mesh_slots m"
  using mesh_inv_update [OF assms(1,3,4,2)] mesh_slots_update [OF assms(2), of ob] assms(5) by auto

lemma mpsc_take_slots:
  assumes "mesh_inv m" "i < length m" "mpsc_take i m = (m', r)"
  shows "mesh_inv m'" "mesh_slots m' = mesh_slots m" "length m' = length m"
proof -
  obtain q r' where p: "pop (own (m ! i)) = (q, r')" by fastforce
  note ps = pop_slots [OF mesh_own [OF assms(1,2)] p]
  define ob where "ob = (m ! i)\<lparr>own := q, held := held (m ! i) @ (case r' of None \<Rightarrow> [] | Some s \<Rightarrow> [s])\<rparr>"
  have m': "m' = m[i := ob]"
    using assms(3) p by (auto simp: mpsc_take_def ob_def split: option.splits)
  have "obj_slots ob = obj_slots (m ! i)" using ps(2) by (simp add: obj_slots_def ob_def)
  from mesh_upd_same [OF assms(1,2) _ _ this] ps(1)
  show "mesh_inv m'" "mesh_slots m' = mesh_slots m" "length m' = length m"
    by (auto simp: m') (auto simp: ob_def)
qed

lemma mpsc_give_slots:
  assumes "mesh_inv m" "i < length m" "s \<in> set (held (m ! i))" "mpsc_give i k s m = Returned m'"
  shows "mesh_inv m'" "mesh_slots m' = mesh_slots m" "length m' = length m"
proof -
  define j where "j = peers (m ! i) ! k"
  define m1 where "m1 = m[i := (m ! i)\<lparr>held := remove1 s (held (m ! i))\<rparr>]"
  from assms(4) obtain q where q: "k < length (peers (m ! i))"
    "push (own_id (m ! i)) s (own (m ! j)) = Returned q" "m' = m1[j := (m1 ! j)\<lparr>own := q\<rparr>]"
    by (auto simp: mpsc_give_def Let_def j_def m1_def split: if_splits call.splits)
  have j: "j < length m" using mesh_peer [OF assms(1,2)] q(1) by (simp add: j_def)
  note ps = push_slots [OF mesh_own [OF assms(1) j] q(2)]
  have m1: "mesh_inv m1" "length m1 = length m" "own (m1 ! j) = own (m ! j)"
    using mesh_inv_update [OF assms(1) _ _ assms(2)] mesh_own [OF assms(1,2)] assms(2)
    by (auto simp: m1_def nth_list_update)
  have "{#s#} + mesh_slots m1 + obj_slots (m ! i) =
      mesh_slots m + ({#s#} + obj_slots ((m ! i)\<lparr>held := remove1 s (held (m ! i))\<rparr>))"
    using mesh_slots_update [OF assms(2)] by (simp add: m1_def ac_simps)
  also have "{#s#} + obj_slots ((m ! i)\<lparr>held := remove1 s (held (m ! i))\<rparr>) = obj_slots (m ! i)"
    using assms(3) by (simp add: obj_slots_def)
  finally have a: "{#s#} + mesh_slots m1 = mesh_slots m" by simp
  have "mesh_slots m' + obj_slots (m1 ! j) = mesh_slots m1 + (obj_slots (m1 ! j) + {#s#})"
    using mesh_slots_update [of j m1 "(m1 ! j)\<lparr>own := q\<rparr>"] j m1(2,3) ps(2) q(3)
    by (simp add: obj_slots_def)
  with a show "mesh_slots m' = mesh_slots m" by (simp add: ac_simps)
  show "mesh_inv m'" "length m' = length m"
    using mesh_inv_update [OF m1(1)] ps(1) j m1(2) q(3) by auto
qed

lemma flush_peers_slots:
  "mesh_inv m \<Longrightarrow> \<forall>j\<in>set js. j < length m \<Longrightarrow>
   mesh_inv (flush_peers js m) \<and> mesh_slots (flush_peers js m) = mesh_slots m \<and>
   length (flush_peers js m) = length m"
proof (induction js arbitrary: m)
  case (Cons j js)
  let ?ob = "(m ! j)\<lparr>own := lfq_flush Flush (own (m ! j))\<rparr>"
  have j: "j < length m" using Cons.prems(2) by simp
  note f = flush_slots [OF mesh_own [OF Cons.prems(1) j]]
  have "obj_slots ?ob = obj_slots (m ! j)" using f(2) by (simp add: obj_slots_def)
  from mesh_upd_same [OF Cons.prems(1) j _ _ this] f(1)
  have "mesh_inv (m[j := ?ob])" "mesh_slots (m[j := ?ob]) = mesh_slots m" by simp_all
  with Cons.IH [of "m[j := ?ob]"] Cons.prems(2) show ?case by simp
qed simp

text \<open>Any interleaving of the calls of the writer and reader threads.\<close>

inductive mesh_run :: "'s mpsc list \<Rightarrow> 's mpsc list \<Rightarrow> bool" for m0 where
  mesh_start: "mesh_run m0 m0"
| mesh_getslot: "mesh_run m0 m \<Longrightarrow> i < length m \<Longrightarrow> writer_GetSlot i m = Returned (m', s) \<Longrightarrow>
    mesh_run m0 m'"
| mesh_read: "mesh_run m0 m \<Longrightarrow> i < length m \<Longrightarrow> reader_Read i m = (m', r) \<Longrightarrow> mesh_run m0 m'"
| mesh_write: "mesh_run m0 m \<Longrightarrow> i < length m \<Longrightarrow> s \<in> set (held (m ! i)) \<Longrightarrow>
    writer_Write i k s m = Returned m' \<Longrightarrow> mesh_run m0 m'"
| mesh_ack: "mesh_run m0 m \<Longrightarrow> i < length m \<Longrightarrow> s \<in> set (held (m ! i)) \<Longrightarrow>
    reader_Ack i k s m = Returned m' \<Longrightarrow> mesh_run m0 m'"
| mesh_flush: "mesh_run m0 m \<Longrightarrow> i < length m \<Longrightarrow> mesh_run m0 (mpsc_Flush i m)"

lemma mesh_run_conserves:
  assumes "mesh_run m0 m" "mesh_inv m0"
  shows "mesh_inv m \<and> mesh_slots m = mesh_slots m0 \<and> length m = length m0"
  using assms
proof (induction rule: mesh_run.induct)
  case (mesh_getslot m i m' s)
  then have "mpsc_take i m = (m', Some s)"
    by (auto simp: writer_GetSlot_def split: prod.splits option.splits)
  with mesh_getslot mpsc_take_slots [of m i m'] show ?case by auto
next
  case (mesh_read m i m' r)
  with mpsc_take_slots [of m i m' r] show ?case by (auto simp: reader_Read_def)
next
  case (mesh_write m i s k m')
  with mpsc_give_slots [of m i s k m'] show ?case by (auto simp: writer_Write_def)
next
  case (mesh_ack m i s k m')
  with mpsc_give_slots [of m i s k m'] show ?case by (auto simp: reader_Ack_def)
next
  case (mesh_flush m i)
  moreover have "\<forall>j\<in>set (peers (m ! i)). j < length m"
    using mesh_flush mesh_peer [of m i] by blast
  ultimately show ?case using flush_peers_slots [of m] by (auto simp: mpsc_Flush_def)
qed simp

lemma no_slots: "obj_slots MPSCObject = {#}"
  by (simp add: obj_slots_def queue_slots_def MPSCObject_def LockFreeQueue_def)

lemma count_mesh_two:
  assumes "i < length m" "j < length m" "i \<noteq> j"
  shows "count (obj_slots (m ! i)) s + count (obj_slots (m ! j)) s \<le> count (mesh_slots m) s"
proof -
  have "mesh_slots m = obj_slots (m ! i) + obj_slots (m ! j) +
      mesh_slots (m[i := MPSCObject, j := MPSCObject])"
    using mesh_slots_update [OF assms(1), of MPSCObject]
      mesh_slots_update [of j "m[i := MPSCObject]" MPSCObject] assms
    by (simp add: no_slots ac_simps)
  then show ?thesis by simp
qed

section \<open>Taking the slots back at the end\<close>

text \<open>A ring all of whose records are visible to its consumer.\<close>

definition published :: "'a rb \<Rightarrow> bool" where
  "published q \<longleftrightarrow> writeIndex q = nextWriteIndex q"

lemma published_flush: "published (Flush q)"
  by (simp add: published_def Flush_def)

lemma published_ext:
  assumes "published q" shows "published (fst (ext_ack q))"
  using assms by (auto simp: published_def ext_ack_def Extract_def Ack_def Let_def)

lemma published_ext_None:
  assumes "rb_inv q" "published q" "ext_ack q = (q', None)" shows "rb_cont q = []"
proof -
  have "snd (Extract (Flush q)) = snd (Extract q)" using assms(2) by (simp add: published_def Extract_def Flush_def)
  moreover have "snd (Extract q) = None" using assms(3) by (auto simp: ext_ack_def split: prod.splits option.splits)
  ultimately obtain b where "Extract (Flush q) = (b, None)" by (cases "Extract (Flush q)") auto
  from Extract_Flush_None [OF assms(1) this] show ?thesis .
qed

text \<open>\<open>MPSCWriter::AttemptClean\<close> takes back what has been returned; \<open>MPSCWriter::Clean\<close> waits until \<open>RB_SIZE - 1\<close> slots have come back, those
  counted in \<open>clean_cnt\<close> included.\<close>

partial_function (option) AttemptClean :: "nat \<Rightarrow> 's mpsc list \<times> int \<Rightarrow> ('s mpsc list \<times> int) option" where
  "AttemptClean i mc =
     (case mpsc_take i (fst mc) of
        (m', None) \<Rightarrow> Some (m', snd mc)
      | (m', Some s) \<Rightarrow> AttemptClean i (m', snd mc + 1))"

fun clean_loop :: "nat \<Rightarrow> nat \<Rightarrow> 's mpsc list \<Rightarrow> 's mpsc list call" where
  "clean_loop i 0 m = Returned m"
| "clean_loop i (Suc n) m = (case mpsc_take i m of (m', None) \<Rightarrow> Blocks | (m', Some s) \<Rightarrow> clean_loop i n m')"

definition writer_Clean :: "nat \<Rightarrow> int \<Rightarrow> 's mpsc list \<Rightarrow> 's mpsc list call" where
  "writer_Clean i clean_cnt m = clean_loop i (nat (int RB_SIZE - 1 - clean_cnt)) m"

definition all_published :: "'s rb lfq \<Rightarrow> bool" where
  "all_published q \<longleftrightarrow> (\<forall>b\<in>set (lq q). published b)"

lemma pop_loop_published:
  "all_published q \<Longrightarrow> pop_loop ext_ack n q = (q', r) \<Longrightarrow> all_published q'"
proof (induction n arbitrary: q)
  case (Suc n)
  let ?c = "wrap_cur q"
  obtain b x where e: "ext_ack (lq q ! ?c) = (b, x)" by fastforce
  let ?q = "q\<lparr>lq := (lq q)[?c := b], cur := ?c + 1\<rparr>"
  have "published b" if "?c < length (lq q)"
    using published_ext [of "lq q ! ?c"] Suc.prems(1) that e by (simp add: all_published_def)
  then have "all_published ?q" using Suc.prems(1)
    by (cases "?c < length (lq q)") (auto simp: all_published_def list_update_beyond dest!: set_update_subset_insert [THEN subsetD])
  then show ?case using Suc.IH [of ?q] Suc.prems(2) e by (auto simp: Let_def split: option.splits)
qed simp

lemma pop_none_empty:
  assumes "lfq_inv rb_inv q" "all_published q" "pop q = (q', None)"
  shows "queue_slots q = {#}"
proof -
  have "rb_cont b = []" if b: "b \<in> set (lq q)" for b
  proof -
    from b obtain k where k: "k < num_queue q" "b = lq q ! k" using assms(1) by (auto simp: lfq_inv_def in_set_conv_nth)
    from ring.pop_none [OF assms(1) _ k(1)] assms(3) have "snd (ext_ack b) = None" by (simp add: pop_def k(2))
    then obtain b' where "ext_ack b = (b', None)" by (cases "ext_ack b") auto
    from published_ext_None [OF _ _ this] assms(1,2) b show ?thesis by (simp add: lfq_inv_def all_published_def)
  qed
  then show ?thesis by (simp add: queue_slots_def cong: map_cong)
qed

text \<open>One slot taken back.\<close>

lemma take_back:
  assumes "mesh_inv m" "i < length m" "all_published (own (m ! i))" "mpsc_take i m = (m', r)"
  shows "mesh_inv m'" "length m' = length m" "mesh_slots m' = mesh_slots m" "all_published (own (m' ! i))"
    "queue_slots (own (m ! i)) = queue_slots (own (m' ! i)) + mset (case r of None \<Rightarrow> [] | Some s \<Rightarrow> [s])"
    "held (m' ! i) = held (m ! i) @ (case r of None \<Rightarrow> [] | Some s \<Rightarrow> [s])" "r = None \<Longrightarrow> queue_slots (own (m ! i)) = {#}"
proof -
  obtain q r' where p: "pop (own (m ! i)) = (q, r')" by fastforce
  note inv = mesh_own [OF assms(1,2)]
  have m': "r' = r" "own (m' ! i) = q" "held (m' ! i) = held (m ! i) @ (case r of None \<Rightarrow> [] | Some s \<Rightarrow> [s])"
    using assms(2,4) p by (auto simp: mpsc_take_def split: option.splits)
  show "mesh_inv m'" "length m' = length m" "mesh_slots m' = mesh_slots m" using mpsc_take_slots [OF assms(1,2,4)] by simp_all
  show "all_published (own (m' ! i))" using pop_loop_published [OF assms(3)] p m'(2) by (simp add: pop_def lfq_pop_def)
  show "queue_slots (own (m ! i)) = queue_slots (own (m' ! i)) + mset (case r of None \<Rightarrow> [] | Some s \<Rightarrow> [s])"
    using pop_slots(2) [OF inv p] m'(1,2) by simp
  show "held (m' ! i) = held (m ! i) @ (case r of None \<Rightarrow> [] | Some s \<Rightarrow> [s])" by (rule m'(3))
  show "queue_slots (own (m ! i)) = {#}" if "r = None" using pop_none_empty [OF inv assms(3)] p m'(1) that by simp
qed

lemma attempt_clean_all:
  assumes "mesh_inv m" "i < length m" "all_published (own (m ! i))"
  shows "\<exists>m'. AttemptClean i (m, c) = Some (m', c + int (size (queue_slots (own (m ! i))))) \<and> mesh_inv m' \<and> length m' = length m \<and>
    mesh_slots m' = mesh_slots m \<and> queue_slots (own (m' ! i)) = {#} \<and> mset (held (m' ! i)) = mset (held (m ! i)) + queue_slots (own (m ! i))"
  using assms
proof (induction "size (queue_slots (own (m ! i)))" arbitrary: m c)
  case 0
  obtain m' r where t: "mpsc_take i m = (m', r)" by fastforce
  note tb = take_back [OF 0(2-4) t]
  have "r = None" using 0(1) tb(5) by (cases r) auto
  then show ?case using t tb 0(1) by (simp add: AttemptClean.simps [of i "(m, c)"])
next
  case (Suc n)
  obtain m' r where t: "mpsc_take i m = (m', r)" by fastforce
  note tb = take_back [OF Suc.prems t]
  obtain s where s: "r = Some s" using Suc(2) tb(7) by (cases r) auto
  have n: "n = size (queue_slots (own (m' ! i)))" using Suc(2) tb(5) s by simp
  from Suc.hyps(1) [OF n tb(1) _ tb(4), of "c + 1"] Suc.prems(2) tb(2) obtain m'' where
    "AttemptClean i (m', c + 1) = Some (m'', c + 1 + int (size (queue_slots (own (m' ! i)))))" "mesh_inv m''" "length m'' = length m'"
    "mesh_slots m'' = mesh_slots m'" "queue_slots (own (m'' ! i)) = {#}" "mset (held (m'' ! i)) = mset (held (m' ! i)) + queue_slots (own (m' ! i))" by auto
  moreover have "AttemptClean i (m, c) = AttemptClean i (m', c + 1)" using t s by (simp add: AttemptClean.simps [of i "(m, c)"])
  ultimately show ?case using s tb(2,3,5,6) by (intro exI [of _ m'']) simp
qed

lemma clean_loop_returns:
  assumes "mesh_inv m" "i < length m" "all_published (own (m ! i))"
  shows "(\<exists>m'. clean_loop i n m = Returned m') \<longleftrightarrow> n \<le> size (queue_slots (own (m ! i)))"
  using assms
proof (induction n arbitrary: m)
  case (Suc n)
  obtain m' r where t: "mpsc_take i m = (m', r)" by fastforce
  note tb = take_back [OF Suc.prems t]
  show ?case
  proof (cases r)
    case None
    then show ?thesis using t tb(7) by simp
  next
    case (Some s)
    then show ?thesis using t tb(5) Suc.IH [OF tb(1) _ tb(4)] Suc.prems(2) tb(2) by simp
  qed
qed simp

section \<open>Handing out the slots at start\<close>

lemma Insert_fresh:
  assumes "rb_rel b 0 0 0 0 Wp k" "Suc k < RB_SIZE"
  shows "\<exists>b' Wp'. Insert x b = Some b' \<and> rb_rel b' 0 0 0 0 Wp' (Suc k)"
proof -
  have "GetSlot b \<noteq> None" using GetSlot_None [OF assms(1)] assms(2) by fastforce
  then obtain b1 p where g: "GetSlot b = Some (b1, p)" by (cases "GetSlot b") auto
  note gs = GetSlot_rel [OF assms(1) g]
  from gs(1) have r1: "rb_rel b1 0 0 0 0 Wp k" by (auto simp: rb_rel_def)
  have a: "afterNextWriteIndex (rb_store p x b1) = Suc k mod RB_SIZE"
    using gs(3) by (simp add: rb_store_def)
  from CompleteWrite_rel(1) [OF store_rel [OF r1] a] assms(2) g show ?thesis
    by (auto simp: Insert_eq)
qed

lemma push_all_fresh:
  assumes "0 < length (lq q)" "rb_rel (lq q ! 0) 0 0 0 0 Wp k" "k + length ss < RB_SIZE"
  shows "\<exists>b Wp'. push_all ss q = Returned (q\<lparr>lq := (lq q)[0 := b]\<rparr>) \<and>
    rb_rel b 0 0 0 0 Wp' (k + length ss) \<and> rb_cont b = rb_cont (lq q ! 0) @ ss"
  using assms
proof (induction ss arbitrary: q k Wp)
  case Nil
  then show ?case by (auto intro!: exI [of _ "lq q ! 0"])
next
  case (Cons s ss)
  from Insert_fresh [OF Cons.prems(2), of s] Cons.prems(3) obtain b Wp1 where
    b: "Insert s (lq q ! 0) = Some b" "rb_rel b 0 0 0 0 Wp1 (Suc k)" by auto
  have c: "rb_cont b = rb_cont (lq q ! 0) @ [s]" using Insert_cont [OF _ b(1)] Cons.prems(2) by blast
  let ?q = "q\<lparr>lq := (lq q)[0 := b]\<rparr>"
  have "push 0 s q = Returned ?q" using Cons.prems(1) b(1) by (simp add: push_def lfq_push_def)
  with Cons.IH [of ?q Wp1 "Suc k"] Cons.prems b(2) c show ?case by auto
qed

section \<open>Properties\<close>

text \<open>C25. Record slots are never lost, duplicated or shared: in every interleaving of writers and
  readers the multiset of slots in the mesh is the initial one, and a slot that one thread holds is
  held by no other thread and lies in no queue, so a writer never fills a slot a reader still
  reads.\<close>

theorem slot_exclusive:
  assumes "mesh_run m0 m" "mesh_inv m0" "count (mesh_slots m0) s = 1"
    "i < length m" "s \<in> set (held (m ! i))"
  shows "mesh_slots m = mesh_slots m0 \<and> count (mset (held (m ! i))) s = 1 \<and>
    s \<notin># queue_slots (own (m ! i)) \<and>
    (\<forall>j<length m. j \<noteq> i \<longrightarrow> s \<notin> set (held (m ! j)) \<and> s \<notin># queue_slots (own (m ! j)))"
proof -
  have c: "mesh_slots m = mesh_slots m0" using mesh_run_conserves [OF assms(1,2)] by simp
  have one: "count (mset (held (m ! i))) s \<ge> 1" using assms(5)
    by (metis One_nat_def Suc_leI count_greater_zero_iff set_mset_mset)
  have "count (obj_slots (m ! i)) s \<le> count (mesh_slots m) s"
    using arg_cong [OF mesh_slots_update [OF assms(4), of MPSCObject], of "\<lambda>M. count M s"]
    by (simp add: no_slots)
  then have "count (mset (held (m ! i))) s + count (queue_slots (own (m ! i))) s \<le> 1"
    using assms(3) c by (simp add: obj_slots_def)
  then have "count (mset (held (m ! i))) s = 1" "count (queue_slots (own (m ! i))) s = 0"
    using one by linarith+
  then have own: "count (mset (held (m ! i))) s = 1 \<and> s \<notin># queue_slots (own (m ! i))"
    by (simp add: not_in_iff)
  have "s \<notin> set (held (m ! j)) \<and> s \<notin># queue_slots (own (m ! j))" if "j < length m" "j \<noteq> i" for j
  proof -
    have "count (obj_slots (m ! i)) s + count (obj_slots (m ! j)) s \<le> 1"
      using count_mesh_two [OF assms(4) that(1), of s] that(2) assms(3) c by simp
    moreover have "count (obj_slots (m ! i)) s \<ge> count (mset (held (m ! i))) s"
      by (simp add: obj_slots_def)
    ultimately have "count (obj_slots (m ! j)) s = 0" using one by linarith
    then show ?thesis by (simp add: obj_slots_def not_in_iff count_mset_0_iff)
  qed
  with c own show ?thesis by blast
qed

definition demo_mesh :: "nat mpsc list" where
  "demo_mesh =
     [(ConnectPeer (ZeroRingBuffer 0 0) 1 MPSCObject)\<lparr>held := [5, 6]\<rparr>,
      ConnectPeer (ZeroRingBuffer 0 0) 0 MPSCObject]"

theorem slot_exclusive_witness:
  "count (mesh_slots demo_mesh) 5 = 1 \<and> 5 \<in> set (held (demo_mesh ! 0)) \<and>
    5 \<notin> set (held (demo_mesh ! 1)) \<and> 5 \<notin># queue_slots (own (demo_mesh ! 1))"
proof -
  have i: "mesh_inv demo_mesh"
    by (simp add: mesh_inv_def demo_mesh_def ConnectPeer_def MPSCObject_def AddQueue_def
        LockFreeQueue_def lfq_inv_def ZeroRingBuffer_inv)
  have c: "count (mesh_slots demo_mesh) 5 = 1"
    by (simp add: mesh_slots_def demo_mesh_def ConnectPeer_def MPSCObject_def AddQueue_def
        LockFreeQueue_def obj_slots_def queue_slots_def ZeroRingBuffer_inv)
  have h: "5 \<in> set (held (demo_mesh ! 0))" "0 < length demo_mesh" "1 < length demo_mesh"
    by (simp_all add: demo_mesh_def)
  from slot_exclusive [OF mesh_start i c h(2,1)] c h show ?thesis by auto
qed

text \<open>At start every writer can hand out its \<open>RB_SIZE - 1\<close> slots without waiting: \<open>Init\<close> returns, and
  the writer's first ring then contains exactly these slots in order. The capacity of a ring is one
  less than its size, so this is the largest number that fits.\<close>

theorem writer_Init_fits:
  assumes "length slots = RB_SIZE" "own ob = AddQueue (ZeroRingBuffer junk z) q" "lq q = []"
  shows "\<exists>q'. writer_Init slots ob = Returned (ob\<lparr>own := q'\<rparr>) \<and>
    rb_cont (lq q' ! 0) = take (RB_SIZE - 1) slots \<and> rb_inv (lq q' ! 0) \<and>
    length (rb_cont (lq q' ! 0)) = RB_SIZE - 1 \<and> Insert x (lq q' ! 0) = None"
proof -
  have own: "lq (own ob) = [ZeroRingBuffer junk z]" using assms(2,3) by (simp add: AddQueue_def)
  have len: "length (take (RB_SIZE - 1) slots) = RB_SIZE - 1" using assms(1) by simp
  have "rb_rel (lq (own ob) ! 0) 0 0 0 0 0 0" by (simp add: own ZeroRingBuffer_rel)
  from push_all_fresh [OF _ this, of "take (RB_SIZE - 1) slots"] obtain b Wp where
    b: "push_all (take (RB_SIZE - 1) slots) (own ob) = Returned ((own ob)\<lparr>lq := [b]\<rparr>)"
    "rb_rel b 0 0 0 0 Wp (RB_SIZE - 1)" "rb_cont b = take (RB_SIZE - 1) slots"
    using own len by (auto simp: ZeroRingBuffer_inv RB_SIZE_def)
  have "GetSlot b = None" using b(2) full_blocks [of b Wp] by (simp add: RB_SIZE_def)
  then have "Insert x b = None" by (simp add: Insert_eq)
  with b len show ?thesis
    by (intro exI [of _ "(own ob)\<lparr>lq := [b]\<rparr>"]) (auto simp: writer_Init_def)
qed

theorem writer_Init_fits_witness:
  "\<exists>q'. writer_Init [0..<2000] (ConnectPeer (ZeroRingBuffer 0 0) 1 MPSCObject) =
      Returned ((ConnectPeer (ZeroRingBuffer 0 0) 1 MPSCObject)\<lparr>own := q'\<rparr>) \<and>
    length (rb_cont (lq q' ! 0)) = 1999"
  using writer_Init_fits [of "[0..<2000]" "ConnectPeer (ZeroRingBuffer 0 0) 1 MPSCObject" 0 0
      LockFreeQueue]
  by (auto simp: RB_SIZE_def ConnectPeer_def MPSCObject_def LockFreeQueue_def)

text \<open>The round-robin scan of \<open>pop\<close> starves no producer: if the ring of producer \<open>k\<close> has a visible
  record, its oldest record is among the records the next \<open>num_queue\<close> calls return, whatever the
  other rings contain.\<close>

theorem pop_serves_every_producer:
  assumes "lfq_inv rb_inv q" "k < num_queue q" "snd (Extract (lq q ! k)) \<noteq> None"
  shows "\<exists>q' xs. lfq_pops ext_ack (num_queue q) q = (q', xs) \<and> hd (rb_cont (lq q ! k)) \<in> set xs"
proof -
  have "snd (ext_ack (lq q ! k)) \<noteq> None"
    using assms(3) by (auto simp: ext_ack_def split: prod.splits option.splits)
  from ring.pops_serve [OF assms(1,2) this turns_less [OF assms(2)]] show ?thesis .
qed

theorem pop_serves_every_producer_witness:
  "\<exists>q' xs b. lfq_pops ext_ack 1 \<lparr>lq = [b], num_queue = 1, cur = 1\<rparr> = (q', xs) \<and> (7 :: nat) \<in> set xs"
proof -
  obtain b Wp where b: "rb_rel b 0 0 0 0 Wp 1" "rb_cont b = [7 :: nat]"
    using push_all_fresh [of "AddQueue (ZeroRingBuffer 0 0) LockFreeQueue" 0 0 "[7]"]
    by (auto simp: AddQueue_def LockFreeQueue_def ZeroRingBuffer_inv ZeroRingBuffer_rel RB_SIZE_def)
  let ?b = "Flush b"
  have i: "rb_inv b" using b(1) by blast
  have "snd (Extract ?b) \<noteq> None" using Extract_Flush_None [OF i] b(2)
    by (cases "Extract ?b") auto
  moreover have "lfq_inv rb_inv \<lparr>lq = [?b], num_queue = 1, cur = 1\<rparr>"
    using Flush_cont [OF i] by (simp add: lfq_inv_def)
  ultimately show ?thesis
    using pop_serves_every_producer [of "\<lparr>lq = [?b], num_queue = 1, cur = 1\<rparr>" 0] Flush_cont [OF i] b(2)
    by fastforce
qed



end
