(* ===== verification/Compute_Thread.thy ===== *)
theory Compute_Thread
  imports Recovery
begin

text \<open>
  Records and compute threads: \<open>src/wrap_item.hpp\<close> and \<open>src/thread/compute_thread.hpp\<close>. The two input queues are
  lists of visible records (theory \<open>Ring_Buffer\<close> shows that the ring buffers are such queues); records arrive
  between iterations of the main loop. The callbacks of the application are parameters: they change its
  state, which holds its operators, and emit records forward and backward; \<open>BackupPass\<close> is the backup pass over
  the operators at the end of an iteration (\<open>backup_pass\<close> of theory \<open>Recovery\<close>), given the sequence number \<open>tuple\<close>
  points to. \<open>Crashed\<close> is a null dereference, a failed assertion or \<open>LOG_ERR\<close>, which exits the process.

  Proved: the thread handles the records of its upstreams in order and once, up to the last upstream's
  end mark, and then announces its own end to every downstream exactly once; it ends as soon as both
  directions have ended.
\<close>

section \<open>Records\<close>

datatype item_type = ITEM_NORMAL | ITEM_FINISH | ITEM_TIMEOUT | ITEM_REVERSE | ITEM_ACK

record 'a wrap =
  i_type :: item_type
  i_seq :: u64
  i_thr :: u32
  i_worker :: u32
  i_data :: 'a

text \<open>The constructor leaves the sources and the data as they are in \<open>junk\<close>.\<close>

definition WrapItem :: "'a wrap \<Rightarrow> 'a wrap" where
  "WrapItem junk = junk\<lparr>i_type := ITEM_NORMAL, i_seq := 0\<rparr>"

definition inc_seq :: "'a wrap \<Rightarrow> 'a wrap" where
  "inc_seq w = w\<lparr>i_seq := i_seq w + 1\<rparr>"

section \<open>The thread\<close>

text \<open>\<open>c_slot\<close> and \<open>c_rslot\<close> are what \<open>GetSlot\<close> returns: a record whose contents are left from its last use. \<open>c_sent\<close> and
  \<open>c_rsent\<close> are the calls of \<open>Write\<close> with the destination; \<open>c_backups\<close> are the items handed to the worker and \<open>c_log\<close> records what the
  thread did, in order.\<close>

datatype ('i, 'ri) event = Fwd "'i wrap" | Rev "'ri wrap" | Bak "u64 option"

record ('i, 'o, 'ri, 'ro, 'u) compute =
  c_wid :: u32
  c_tid :: u32
  c_event :: u64
  c_r_event :: u64
  c_num_up :: nat
  c_num_down :: nat
  c_in :: "'i wrap list option"
  c_rin :: "'ri wrap list option"
  c_down_writer :: bool
  c_up_writer :: bool
  c_slot :: "'o wrap"
  c_rslot :: "'ro wrap"
  c_sent :: "(nat \<times> 'o wrap) list"
  c_rsent :: "(nat \<times> 'ro wrap) list"
  c_user :: 'u
  c_up_stop :: nat
  c_down_stop :: nat
  c_tuple :: "u64 option"
  c_backups :: "backup_item list"
  c_log :: "('i, 'ri) event list"

definition ComputeThread ::
  "u32 \<Rightarrow> u32 \<Rightarrow> nat \<Rightarrow> nat \<Rightarrow> 'o wrap \<Rightarrow> 'ro wrap \<Rightarrow> 'u \<Rightarrow> ('i, 'o, 'ri, 'ro, 'u) compute" where
  "ComputeThread wid tid num_up num_down slot rslot u =
     \<lparr>c_wid = wid, c_tid = tid, c_event = 0, c_r_event = 0, c_num_up = num_up, c_num_down = num_down,
      c_in = None, c_rin = None, c_down_writer = (num_down > 0), c_up_writer = (num_up > 0),
      c_slot = slot, c_rslot = rslot, c_sent = [], c_rsent = [], c_user = u, c_up_stop = 0, c_down_stop = 0,
      c_tuple = None, c_backups = [], c_log = []\<rparr>"

text \<open>Connecting to the neighbouring threads creates the queues; the assertions on the writers are the failures.\<close>

definition ConnectUpThread :: "bool \<Rightarrow> nat \<Rightarrow> ('i, 'o, 'ri, 'ro, 'u) compute \<Rightarrow> ('i, 'o, 'ri, 'ro, 'u) compute option" where
  "ConnectUpThread reverse num_upstream c =
     (if reverse \<and> 0 < num_upstream \<and> \<not> c_up_writer c then None else Some (c\<lparr>c_in := Some []\<rparr>))"

definition ConnectDownThread :: "bool \<Rightarrow> nat \<Rightarrow> ('i, 'o, 'ri, 'ro, 'u) compute \<Rightarrow> ('i, 'o, 'ri, 'ro, 'u) compute option" where
  "ConnectDownThread reverse num_downstream c =
     (if 0 < num_downstream \<and> \<not> c_down_writer c then None
      else Some (if reverse then c\<lparr>c_rin := Some []\<rparr> else c))"

datatype ('o, 'ro) action = Emit nat 'o | EmitReverse nat 'ro

definition EmitData :: "nat \<Rightarrow> 'o \<Rightarrow> ('i, 'o, 'ri, 'ro, 'u) compute \<Rightarrow> ('i, 'o, 'ri, 'ro, 'u) compute option" where
  "EmitData dest msg c =
     (if \<not> c_down_writer c then None
      else Some (c\<lparr>c_sent := c_sent c @
             [(dest, (c_slot c)\<lparr>i_type := ITEM_NORMAL, i_worker := c_wid c, i_thr := c_tid c, i_data := msg\<rparr>)]\<rparr>))"

definition EmitReverseData :: "nat \<Rightarrow> 'ro \<Rightarrow> ('i, 'o, 'ri, 'ro, 'u) compute \<Rightarrow> ('i, 'o, 'ri, 'ro, 'u) compute option" where
  "EmitReverseData dest msg c =
     (if \<not> c_up_writer c then None
      else Some (c\<lparr>c_rsent := c_rsent c @
             [(dest, (c_rslot c)\<lparr>i_type := ITEM_REVERSE, i_worker := c_wid c, i_thr := c_tid c, i_data := msg\<rparr>)]\<rparr>))"

fun do_actions :: "('o, 'ro) action list \<Rightarrow> ('i, 'o, 'ri, 'ro, 'u) compute \<Rightarrow> ('i, 'o, 'ri, 'ro, 'u) compute option" where
  "do_actions [] c = Some c"
| "do_actions (Emit d m # as) c = (case EmitData d m c of None \<Rightarrow> None | Some c1 \<Rightarrow> do_actions as c1)"
| "do_actions (EmitReverse d m # as) c = (case EmitReverseData d m c of None \<Rightarrow> None | Some c1 \<Rightarrow> do_actions as c1)"

definition finish_item :: "'a wrap \<Rightarrow> ('i, 'o, 'ri, 'ro, 'u) compute \<Rightarrow> 'a wrap" where
  "finish_item junk c = (WrapItem junk)\<lparr>i_type := ITEM_FINISH, i_worker := c_wid c, i_thr := c_tid c\<rparr>"

definition EmitFinish :: "('i, 'o, 'ri, 'ro, 'u) compute \<Rightarrow> ('i, 'o, 'ri, 'ro, 'u) compute" where
  "EmitFinish c =
     (if c_down_writer c
      then c\<lparr>c_sent := c_sent c @ map (\<lambda>i. (i, finish_item (c_slot c) c)) [0..<c_num_down c]\<rparr> else c)"

definition EmitReverseFinish :: "('i, 'o, 'ri, 'ro, 'u) compute \<Rightarrow> ('i, 'o, 'ri, 'ro, 'u) compute" where
  "EmitReverseFinish c =
     (if c_up_writer c
      then c\<lparr>c_rsent := c_rsent c @ map (\<lambda>i. (i, finish_item (c_rslot c) c)) [0..<c_num_up c]\<rparr> else c)"

section \<open>The main loop\<close>

text \<open>The application: \<open>ProcessData\<close>, \<open>ProcessPunc\<close>, \<open>ProcessFeedback\<close>.\<close>

record ('i, 'o, 'ri, 'ro, 'u) app =
  ProcessData :: "u32 \<Rightarrow> u32 \<Rightarrow> u64 \<Rightarrow> 'i \<Rightarrow> 'u \<Rightarrow> 'u \<times> ('o, 'ro) action list"
  ProcessPunc :: "'u \<Rightarrow> 'u \<times> ('o, 'ro) action list"
  ProcessFeedback :: "u32 \<Rightarrow> u32 \<Rightarrow> 'ri \<Rightarrow> 'u \<Rightarrow> 'u \<times> ('o, 'ro) action list"
  BackupPass :: "u64 option \<Rightarrow> 'u \<Rightarrow> ('u \<times> backup_item list) option"

definition call_app ::
  "('u \<Rightarrow> 'u \<times> ('o, 'ro) action list) \<Rightarrow> ('i, 'o, 'ri, 'ro, 'u) compute \<Rightarrow> ('i, 'o, 'ri, 'ro, 'u) compute option" where
  "call_app f c = (case f (c_user c) of (u, as) \<Rightarrow> do_actions as (c\<lparr>c_user := u\<rparr>))"

definition handle_reverse ::
  "('i, 'o, 'ri, 'ro, 'u) app \<Rightarrow> 'ri wrap \<Rightarrow> ('i, 'o, 'ri, 'ro, 'u) compute \<Rightarrow> ('i, 'o, 'ri, 'ro, 'u) compute option" where
  "handle_reverse ap r c =
     (case i_type r of
        ITEM_FINISH \<Rightarrow> Some (c\<lparr>c_down_stop := c_down_stop c + 1\<rparr>)
      | ITEM_REVERSE \<Rightarrow> call_app (ProcessFeedback ap (i_worker r) (i_thr r) (i_data r)) (c\<lparr>c_r_event := c_r_event c + 1\<rparr>)
      | _ \<Rightarrow> None)"

text \<open>The inner loop over the reverse queue stops at the last downstream's end mark; later records stay.\<close>

fun reverse_loop ::
  "('i, 'o, 'ri, 'ro, 'u) app \<Rightarrow> 'ri wrap list \<Rightarrow> ('i, 'o, 'ri, 'ro, 'u) compute \<Rightarrow> ('i, 'o, 'ri, 'ro, 'u) compute option" where
  "reverse_loop ap [] c = Some (c\<lparr>c_rin := Some []\<rparr>)"
| "reverse_loop ap (r # rs) c =
     (if c_down_stop c < c_num_down c
      then (case handle_reverse ap r (c\<lparr>c_log := c_log c @ [Rev r]\<rparr>) of None \<Rightarrow> None | Some c1 \<Rightarrow> reverse_loop ap rs c1)
      else Some (c\<lparr>c_rin := Some (r # rs)\<rparr>))"

definition read_reverse ::
  "('i, 'o, 'ri, 'ro, 'u) app \<Rightarrow> ('i, 'o, 'ri, 'ro, 'u) compute \<Rightarrow> ('i, 'o, 'ri, 'ro, 'u) compute option" where
  "read_reverse ap c =
     (if c_down_stop c < c_num_down c
      then (case c_rin c of None \<Rightarrow> None | Some rs \<Rightarrow> reverse_loop ap rs c) else Some c)"

definition handle_forward ::
  "('i, 'o, 'ri, 'ro, 'u) app \<Rightarrow> 'i wrap \<Rightarrow> ('i, 'o, 'ri, 'ro, 'u) compute \<Rightarrow> ('i, 'o, 'ri, 'ro, 'u) compute option" where
  "handle_forward ap r c =
     (case i_type r of
        ITEM_FINISH \<Rightarrow>
          (let c1 = c\<lparr>c_up_stop := c_up_stop c + 1\<rparr> in
           Some (if c_up_stop c1 = c_num_up c1 then EmitFinish c1 else c1))
      | ITEM_TIMEOUT \<Rightarrow> call_app (ProcessPunc ap) c
      | ITEM_NORMAL \<Rightarrow> call_app (ProcessData ap (i_worker r) (i_thr r) (i_seq r) (i_data r)) (c\<lparr>c_event := c_event c + 1\<rparr>)
      | _ \<Rightarrow> None)"

definition read_forward ::
  "('i, 'o, 'ri, 'ro, 'u) app \<Rightarrow> ('i, 'o, 'ri, 'ro, 'u) compute \<Rightarrow> ('i, 'o, 'ri, 'ro, 'u) compute option" where
  "read_forward ap c =
     (if c_up_stop c = c_num_up c then (if c_down_writer c then Some c else None)
      else (case c_in c of
              None \<Rightarrow> None
            | Some [] \<Rightarrow> Some (c\<lparr>c_tuple := None\<rparr>)
            | Some (r # rs) \<Rightarrow>
                handle_forward ap r (c\<lparr>c_in := Some rs, c_tuple := Some (i_seq r), c_log := c_log c @ [Fwd r]\<rparr>)))"

definition run_backup ::
  "('i, 'o, 'ri, 'ro, 'u) app \<Rightarrow> ('i, 'o, 'ri, 'ro, 'u) compute \<Rightarrow> ('i, 'o, 'ri, 'ro, 'u) compute option" where
  "run_backup ap c =
     (case BackupPass ap (c_tuple c) (c_user c) of
        None \<Rightarrow> None
      | Some (u, its) \<Rightarrow> Some (c\<lparr>c_user := u, c_backups := c_backups c @ its, c_log := c_log c @ [Bak (c_tuple c)]\<rparr>))"

definition iteration ::
  "('i, 'o, 'ri, 'ro, 'u) app \<Rightarrow> ('i, 'o, 'ri, 'ro, 'u) compute \<Rightarrow> ('i, 'o, 'ri, 'ro, 'u) compute option" where
  "iteration ap c = Option.bind (read_reverse ap c) (\<lambda>c1. Option.bind (read_forward ap c1) (run_backup ap))"

definition looping :: "('i, 'o, 'ri, 'ro, 'u) compute \<Rightarrow> bool" where
  "looping c \<longleftrightarrow> c_up_stop c < c_num_up c \<or> c_down_stop c < c_num_down c"

definition arrive ::
  "'i wrap list \<Rightarrow> 'ri wrap list \<Rightarrow> ('i, 'o, 'ri, 'ro, 'u) compute \<Rightarrow> ('i, 'o, 'ri, 'ro, 'u) compute" where
  "arrive fs rs c = c\<lparr>c_in := map_option (\<lambda>q. q @ fs) (c_in c), c_rin := map_option (\<lambda>q. q @ rs) (c_rin c)\<rparr>"

datatype 'c outcome = Running 'c | Ended 'c | Crashed

text \<open>The loop, with what arrives before each iteration; \<open>Running\<close> when the script is over first.\<close>

fun main_loop ::
  "('i, 'o, 'ri, 'ro, 'u) app \<Rightarrow> ('i wrap list \<times> 'ri wrap list) list \<Rightarrow> ('i, 'o, 'ri, 'ro, 'u) compute \<Rightarrow>
   ('i, 'o, 'ri, 'ro, 'u) compute outcome" where
  "main_loop ap [] c = (if looping c then Running c else Ended (EmitReverseFinish c))"
| "main_loop ap ((fs, rs) # script) c =
     (if \<not> looping c then Ended (EmitReverseFinish c)
      else (case iteration ap (arrive fs rs c) of None \<Rightarrow> Crashed | Some c1 \<Rightarrow> main_loop ap script c1))"

text \<open>No upstream means an external source, which ends like an upstream.\<close>

definition ThreadMainHandler ::
  "('i, 'o, 'ri, 'ro, 'u) app \<Rightarrow> ('i wrap list \<times> 'ri wrap list) list \<Rightarrow> ('i, 'o, 'ri, 'ro, 'u) compute \<Rightarrow>
   ('i, 'o, 'ri, 'ro, 'u) compute outcome" where
  "ThreadMainHandler ap script c = main_loop ap script (if c_num_up c = 0 then c\<lparr>c_num_up := 1\<rparr> else c)"

section \<open>Reference semantics\<close>

text \<open>What the application does at an event, and what a sequence of events makes the thread send: the
  records the application emits, in order, and the end marks at the last upstream's end mark.\<close>

fun app_event :: "('i, 'o, 'ri, 'ro, 'u) app \<Rightarrow> ('i, 'ri) event \<Rightarrow> 'u \<Rightarrow> 'u \<times> ('o, 'ro) action list" where
  "app_event ap (Fwd r) u =
     (case i_type r of
        ITEM_NORMAL \<Rightarrow> ProcessData ap (i_worker r) (i_thr r) (i_seq r) (i_data r) u
      | ITEM_TIMEOUT \<Rightarrow> ProcessPunc ap u
      | _ \<Rightarrow> (u, []))"
| "app_event ap (Rev r) u =
     (case i_type r of ITEM_REVERSE \<Rightarrow> ProcessFeedback ap (i_worker r) (i_thr r) (i_data r) u | _ \<Rightarrow> (u, []))"
| "app_event ap (Bak sq) u = (case BackupPass ap sq u of None \<Rightarrow> (u, []) | Some (u', its) \<Rightarrow> (u', []))"

fun app_state :: "('i, 'o, 'ri, 'ro, 'u) app \<Rightarrow> ('i, 'ri) event list \<Rightarrow> 'u \<Rightarrow> 'u" where
  "app_state ap [] u = u"
| "app_state ap (e # es) u = app_state ap es (fst (app_event ap e u))"

definition fwd_item :: "('i, 'o, 'ri, 'ro, 'u) compute \<Rightarrow> 'o \<Rightarrow> 'o wrap" where
  "fwd_item c m = (c_slot c)\<lparr>i_type := ITEM_NORMAL, i_worker := c_wid c, i_thr := c_tid c, i_data := m\<rparr>"

definition rev_item :: "('i, 'o, 'ri, 'ro, 'u) compute \<Rightarrow> 'ro \<Rightarrow> 'ro wrap" where
  "rev_item c m = (c_rslot c)\<lparr>i_type := ITEM_REVERSE, i_worker := c_wid c, i_thr := c_tid c, i_data := m\<rparr>"

fun fwd_items :: "('i, 'o, 'ri, 'ro, 'u) compute \<Rightarrow> ('o, 'ro) action list \<Rightarrow> (nat \<times> 'o wrap) list" where
  "fwd_items c [] = []"
| "fwd_items c (Emit d m # as) = (d, fwd_item c m) # fwd_items c as"
| "fwd_items c (EmitReverse d m # as) = fwd_items c as"

fun rev_items :: "('i, 'o, 'ri, 'ro, 'u) compute \<Rightarrow> ('o, 'ro) action list \<Rightarrow> (nat \<times> 'ro wrap) list" where
  "rev_items c [] = []"
| "rev_items c (Emit d m # as) = rev_items c as"
| "rev_items c (EmitReverse d m # as) = (d, rev_item c m) # rev_items c as"

definition end_marks :: "('i, 'o, 'ri, 'ro, 'u) compute \<Rightarrow> (nat \<times> 'o wrap) list" where
  "end_marks c = (if c_down_writer c then map (\<lambda>i. (i, finish_item (c_slot c) c)) [0..<c_num_down c] else [])"

definition rev_end_marks :: "('i, 'o, 'ri, 'ro, 'u) compute \<Rightarrow> (nat \<times> 'ro wrap) list" where
  "rev_end_marks c = (if c_up_writer c then map (\<lambda>i. (i, finish_item (c_rslot c) c)) [0..<c_num_up c] else [])"

definition is_end :: "'a wrap \<Rightarrow> bool" where
  "is_end r \<longleftrightarrow> i_type r = ITEM_FINISH"

fun forwards :: "('i, 'ri) event list \<Rightarrow> 'i wrap list" where
  "forwards [] = []" | "forwards (Fwd x # es) = x # forwards es" | "forwards (Rev y # es) = forwards es"
| "forwards (Bak s # es) = forwards es"

fun reverses :: "('i, 'ri) event list \<Rightarrow> 'ri wrap list" where
  "reverses [] = []" | "reverses (Fwd x # es) = reverses es" | "reverses (Rev y # es) = y # reverses es"
| "reverses (Bak s # es) = reverses es"

definition ends :: "'a wrap list \<Rightarrow> nat" where
  "ends rs = length (filter is_end rs)"

definition datas :: "'a wrap list \<Rightarrow> nat" where
  "datas rs = length (filter (\<lambda>r. i_type r = ITEM_NORMAL) rs)"

definition feedbacks :: "'a wrap list \<Rightarrow> nat" where
  "feedbacks rs = length (filter (\<lambda>r. i_type r = ITEM_REVERSE) rs)"

text \<open>\<open>k\<close> is the number of end marks before.\<close>

definition step_out :: "('i, 'o, 'ri, 'ro, 'u) app \<Rightarrow> ('i, 'o, 'ri, 'ro, 'u) compute \<Rightarrow> nat \<Rightarrow> ('i, 'ri) event \<Rightarrow> 'u \<Rightarrow> (nat \<times> 'o wrap) list" where
  "step_out ap c k e u = fwd_items c (snd (app_event ap e u)) @ (if ends (forwards [e]) = 1 \<and> Suc k = c_num_up c then end_marks c else [])"

fun outputs ::
  "('i, 'o, 'ri, 'ro, 'u) app \<Rightarrow> ('i, 'o, 'ri, 'ro, 'u) compute \<Rightarrow> nat \<Rightarrow> ('i, 'ri) event list \<Rightarrow> 'u \<Rightarrow> (nat \<times> 'o wrap) list" where
  "outputs ap c k [] u = []"
| "outputs ap c k (e # es) u = step_out ap c k e u @ outputs ap c (k + ends (forwards [e])) es (fst (app_event ap e u))"

fun feedback :: "('i, 'o, 'ri, 'ro, 'u) app \<Rightarrow> ('i, 'o, 'ri, 'ro, 'u) compute \<Rightarrow> ('i, 'ri) event list \<Rightarrow> 'u \<Rightarrow> (nat \<times> 'ro wrap) list" where
  "feedback ap c [] u = []"
| "feedback ap c (e # es) u = rev_items c (snd (app_event ap e u)) @ feedback ap c es (fst (app_event ap e u))"

lemma forwards_append [simp]: "forwards (xs @ ys) = forwards xs @ forwards ys"
  by (induction xs rule: forwards.induct) auto

lemma reverses_append [simp]: "reverses (xs @ ys) = reverses xs @ reverses ys"
  by (induction xs rule: reverses.induct) auto

lemma ends_simps [simp]: "ends [] = 0" "ends (r # rs) = (if is_end r then Suc (ends rs) else ends rs)" "ends (xs @ ys) = ends xs + ends ys"
  by (simp_all add: ends_def)

lemma datas_simps [simp]:
  "datas [] = 0" "datas (r # rs) = (if i_type r = ITEM_NORMAL then Suc (datas rs) else datas rs)" "datas (xs @ ys) = datas xs + datas ys"
  by (simp_all add: datas_def)

lemma feedbacks_simps [simp]:
  "feedbacks [] = 0" "feedbacks (r # rs) = (if i_type r = ITEM_REVERSE then Suc (feedbacks rs) else feedbacks rs)"
  "feedbacks (xs @ ys) = feedbacks xs + feedbacks ys"
  by (simp_all add: feedbacks_def)

lemma ends_forwards_cons: "ends (forwards (e # es)) = ends (forwards [e]) + ends (forwards es)"
  by (cases e) simp_all

lemma app_state_append [simp]: "app_state ap (xs @ ys) u = app_state ap ys (app_state ap xs u)"
  by (induction xs arbitrary: u) auto

lemma outputs_append:
  "outputs ap c k (xs @ ys) u = outputs ap c k xs u @ outputs ap c (k + ends (forwards xs)) ys (app_state ap xs u)"
proof (induction xs arbitrary: k u)
  case (Cons e xs)
  show ?case by (simp only: append_Cons outputs.simps append_assoc Cons ends_forwards_cons [of e xs] app_state.simps add.assoc)
qed simp

lemma feedback_append: "feedback ap c (xs @ ys) u = feedback ap c xs u @ feedback ap c ys (app_state ap xs u)"
  by (induction xs arbitrary: u) auto

section \<open>The loop implements the semantics\<close>

text \<open>What the code relies on: the application sends only in directions that have a writer, the backup
  pass succeeds, under an invariant of the application's state, and the records have the types their
  direction knows.\<close>

definition app_sends :: "bool \<Rightarrow> bool \<Rightarrow> ('o, 'ro) action list \<Rightarrow> bool" where
  "app_sends dw uw as \<longleftrightarrow> (\<forall>a\<in>set as. case a of Emit d m \<Rightarrow> dw | EmitReverse d m \<Rightarrow> uw)"

definition app_ok :: "bool \<Rightarrow> bool \<Rightarrow> ('u \<Rightarrow> bool) \<Rightarrow> ('i, 'o, 'ri, 'ro, 'u) app \<Rightarrow> bool" where
  "app_ok dw uw I ap \<longleftrightarrow>
     (\<forall>e u. I u \<longrightarrow> app_sends dw uw (snd (app_event ap e u)) \<and> I (fst (app_event ap e u))) \<and>
     (\<forall>sq u. I u \<longrightarrow> BackupPass ap sq u \<noteq> None)"

definition fwd_record :: "'i wrap \<Rightarrow> bool" where
  "fwd_record r \<longleftrightarrow> i_type r \<in> {ITEM_NORMAL, ITEM_FINISH, ITEM_TIMEOUT}"

definition rev_record :: "'ri wrap \<Rightarrow> bool" where
  "rev_record r \<longleftrightarrow> i_type r \<in> {ITEM_REVERSE, ITEM_FINISH}"

text \<open>The fields that stay what they are.\<close>

definition same_thread :: "('i, 'o, 'ri, 'ro, 'u) compute \<Rightarrow> ('i, 'o, 'ri, 'ro, 'u) compute \<Rightarrow> bool" where
  "same_thread c c' \<longleftrightarrow> c_wid c' = c_wid c \<and> c_tid c' = c_tid c \<and> c_num_up c' = c_num_up c \<and> c_num_down c' = c_num_down c \<and>
     c_down_writer c' = c_down_writer c \<and> c_up_writer c' = c_up_writer c \<and> c_slot c' = c_slot c \<and> c_rslot c' = c_rslot c"

lemma item_cong:
  assumes "same_thread c c'"
  shows "fwd_item c' m = fwd_item c m" "rev_item c' m' = rev_item c m'" "finish_item w c' = finish_item w c"
  using assms by (simp_all add: same_thread_def fwd_item_def rev_item_def finish_item_def)

lemma items_cong:
  assumes "same_thread c c'"
  shows "fwd_items c' as = fwd_items c as" "rev_items c' as = rev_items c as" "end_marks c' = end_marks c"
    "rev_end_marks c' = rev_end_marks c"
proof -
  show "fwd_items c' as = fwd_items c as" "rev_items c' as = rev_items c as"
  proof (induction as)
    case (Cons a as)
    show "fwd_items c' (a # as) = fwd_items c (a # as)" "rev_items c' (a # as) = rev_items c (a # as)"
      using Cons by (cases a; simp add: item_cong [OF assms])+
  qed simp_all
  show "end_marks c' = end_marks c" "rev_end_marks c' = rev_end_marks c"
    using assms item_cong(3) [OF assms, of "c_slot c"] item_cong(3) [OF assms, of "c_rslot c"]
    by (auto simp: end_marks_def rev_end_marks_def same_thread_def)
qed

lemma app_sends_simps [simp]:
  "app_sends dw uw []" "app_sends dw uw (Emit d m # as) \<longleftrightarrow> dw \<and> app_sends dw uw as"
  "app_sends dw uw (EmitReverse d m' # as) \<longleftrightarrow> uw \<and> app_sends dw uw as"
  by (simp_all add: app_sends_def)

lemma do_actions_eq:
  "app_sends (c_down_writer c) (c_up_writer c) as \<Longrightarrow>
   do_actions as c = Some (c\<lparr>c_sent := c_sent c @ fwd_items c as, c_rsent := c_rsent c @ rev_items c as\<rparr>)"
proof (induction as c rule: do_actions.induct)
  case (2 d m as c)
  let ?c = "c\<lparr>c_sent := c_sent c @ [(d, fwd_item c m)]\<rparr>"
  have "same_thread c ?c" by (simp add: same_thread_def)
  moreover have "EmitData d m c = Some ?c" using 2 by (simp add: EmitData_def fwd_item_def)
  ultimately show ?case using 2 by (auto simp: items_cong)
next
  case (3 d m as c)
  let ?c = "c\<lparr>c_rsent := c_rsent c @ [(d, rev_item c m)]\<rparr>"
  have "same_thread c ?c" by (simp add: same_thread_def)
  moreover have "EmitReverseData d m c = Some ?c" using 3 by (simp add: EmitReverseData_def rev_item_def)
  ultimately show ?case using 3 by (auto simp: items_cong)
qed simp

lemma EmitFinish_eq: "EmitFinish c = c\<lparr>c_sent := c_sent c @ end_marks c\<rparr>"
  by (simp add: EmitFinish_def end_marks_def)

lemma EmitReverseFinish_eq: "EmitReverseFinish c = c\<lparr>c_rsent := c_rsent c @ rev_end_marks c\<rparr>"
  by (simp add: EmitReverseFinish_def rev_end_marks_def)

text \<open>\<open>c0\<close> is the thread before the loop, \<open>F\<close> and \<open>R\<close> are the records that have arrived. The first part holds
  between the two halves of every step.\<close>

definition ct_run ::
  "('i, 'o, 'ri, 'ro, 'u) app \<Rightarrow> ('i, 'o, 'ri, 'ro, 'u) compute \<Rightarrow> ('i, 'o, 'ri, 'ro, 'u) compute \<Rightarrow> bool" where
  "ct_run ap c0 c \<longleftrightarrow>
     same_thread c0 c \<and>
     c_up_stop c = ends (forwards (c_log c)) \<and> c_up_stop c \<le> c_num_up c0 \<and>
     c_down_stop c = ends (reverses (c_log c)) \<and> c_down_stop c \<le> c_num_down c0 \<and>
     c_event c = of_nat (datas (forwards (c_log c))) \<and> c_r_event c = of_nat (feedbacks (reverses (c_log c))) \<and>
     c_user c = app_state ap (c_log c) (c_user c0) \<and>
     c_sent c = outputs ap c0 0 (c_log c) (c_user c0) \<and> c_rsent c = feedback ap c0 (c_log c) (c_user c0)"

definition ct_queues ::
  "('i, 'o, 'ri, 'ro, 'u) compute \<Rightarrow> 'i wrap list \<Rightarrow> 'ri wrap list \<Rightarrow> ('i, 'o, 'ri, 'ro, 'u) compute \<Rightarrow> bool" where
  "ct_queues c0 F R c \<longleftrightarrow>
     (\<exists>q. c_in c = Some q \<and> F = forwards (c_log c) @ q) \<and>
     (0 < c_num_down c0 \<longrightarrow> (\<exists>rq. c_rin c = Some rq \<and> R = reverses (c_log c) @ rq))"

text \<open>An application callback, for an event \<open>e\<close> that is no end mark.\<close>

lemma run_event:
  assumes "ct_run ap c0 c" "app_ok (c_down_writer c0) (c_up_writer c0) I ap" "I (c_user c)"
    and "f (c_user c) = app_event ap e (c_user c)" "ends (forwards [e]) = 0" "ends (reverses [e]) = 0"
  shows "\<exists>c'. call_app f (c\<lparr>c_log := c_log c @ [e], c_event := c_event c + of_nat (datas (forwards [e])),
      c_r_event := c_r_event c + of_nat (feedbacks (reverses [e]))\<rparr>) = Some c' \<and>
    ct_run ap c0 c' \<and> I (c_user c') \<and> c_in c' = c_in c \<and> c_rin c' = c_rin c \<and> c_log c' = c_log c @ [e]"
proof -
  obtain u as where ev: "app_event ap e (c_user c) = (u, as)" by fastforce
  have same: "same_thread c0 c" using assms(1) by (simp add: ct_run_def)
  have ok: "app_sends (c_down_writer c) (c_up_writer c) as" "I u"
    using assms(2,3) ev same by (auto simp: app_ok_def same_thread_def) (metis fst_conv snd_conv)+
  let ?c1 = "c\<lparr>c_log := c_log c @ [e], c_event := c_event c + of_nat (datas (forwards [e])),
      c_r_event := c_r_event c + of_nat (feedbacks (reverses [e])), c_user := u\<rparr>"
  have st: "same_thread c0 ?c1" using same by (simp add: same_thread_def)
  have act: "do_actions as ?c1 = Some (?c1\<lparr>c_sent := c_sent c @ fwd_items c0 as, c_rsent := c_rsent c @ rev_items c0 as\<rparr>)"
    using do_actions_eq [of ?c1 as] ok(1) by (simp add: items_cong [OF st])
  show ?thesis
    using assms ev act ok(2) by (simp add: call_app_def ct_run_def outputs_append feedback_append step_out_def same_thread_def)
qed

definition ct_inv ::
  "('i, 'o, 'ri, 'ro, 'u) app \<Rightarrow> ('u \<Rightarrow> bool) \<Rightarrow> ('i, 'o, 'ri, 'ro, 'u) compute \<Rightarrow> 'i wrap list \<Rightarrow> 'ri wrap list \<Rightarrow>
   ('i, 'o, 'ri, 'ro, 'u) compute \<Rightarrow> bool" where
  "ct_inv ap I c0 F R c \<longleftrightarrow> ct_run ap c0 c \<and> ct_queues c0 F R c \<and> I (c_user c)"

lemma run_reverse:
  assumes run: "ct_run ap c0 c" and ok: "app_ok (c_down_writer c0) (c_up_writer c0) I ap" "I (c_user c)"
    and r: "rev_record r" "c_down_stop c < c_num_down c"
  shows "\<exists>c'. handle_reverse ap r (c\<lparr>c_log := c_log c @ [Rev r]\<rparr>) = Some c' \<and>
    ct_run ap c0 c' \<and> I (c_user c') \<and> c_in c' = c_in c \<and> c_rin c' = c_rin c \<and> c_log c' = c_log c @ [Rev r]"
proof (cases "is_end r")
  case True
  then show ?thesis using assms
    by (auto simp: handle_reverse_def is_end_def ct_run_def same_thread_def outputs_append feedback_append step_out_def)
next
  case False
  then have t: "i_type r = ITEM_REVERSE" using r by (auto simp: rev_record_def is_end_def)
  have e: "ends (forwards [Rev r]) = 0" "ends (reverses [Rev r]) = 0" using False by simp_all
  from run_event [OF run ok _ e, of "ProcessFeedback ap (i_worker r) (i_thr r) (i_data r)"] t
  show ?thesis by (simp add: handle_reverse_def)
qed

lemma run_forward:
  assumes run: "ct_run ap c0 c" and ok: "app_ok (c_down_writer c0) (c_up_writer c0) I ap" "I (c_user c)"
    and r: "fwd_record r" "c_up_stop c < c_num_up c"
  shows "\<exists>c'. handle_forward ap r (c\<lparr>c_log := c_log c @ [Fwd r]\<rparr>) = Some c' \<and>
    ct_run ap c0 c' \<and> I (c_user c') \<and> c_in c' = c_in c \<and> c_rin c' = c_rin c \<and> c_log c' = c_log c @ [Fwd r]"
proof (cases "is_end r")
  case True
  let ?c = "c\<lparr>c_log := c_log c @ [Fwd r], c_up_stop := c_up_stop c + 1\<rparr>"
  have st: "same_thread c0 ?c" using run by (simp add: ct_run_def same_thread_def)
  have "EmitFinish ?c = ?c\<lparr>c_sent := c_sent c @ end_marks c0\<rparr>" using items_cong(3) [OF st] by (simp add: EmitFinish_eq)
  then show ?thesis using True assms
    by (auto simp: handle_forward_def is_end_def ct_run_def same_thread_def outputs_append feedback_append step_out_def Let_def)
next
  case False
  have e: "ends (forwards [Fwd r]) = 0" "ends (reverses [Fwd r]) = 0" using False by simp_all
  consider "i_type r = ITEM_NORMAL" | "i_type r = ITEM_TIMEOUT" using False r by (auto simp: fwd_record_def is_end_def)
  then show ?thesis
  proof cases
    case 1
    with run_event [OF run ok _ e, of "ProcessData ap (i_worker r) (i_thr r) (i_seq r) (i_data r)"]
    show ?thesis by (simp add: handle_forward_def)
  next
    case 2
    with run_event [OF run ok _ e, of "ProcessPunc ap"] show ?thesis by (simp add: handle_forward_def)
  qed
qed

lemma run_same: "ct_run ap c0 c \<Longrightarrow> same_thread c0 c"
  by (simp add: ct_run_def)

lemma run_queue_update [simp]: "ct_run ap c0 (c\<lparr>c_rin := x\<rparr>) = ct_run ap c0 c" "ct_run ap c0 (c\<lparr>c_in := y\<rparr>) = ct_run ap c0 c"
  "ct_run ap c0 (c\<lparr>c_tuple := z\<rparr>) = ct_run ap c0 c"
  by (simp_all add: ct_run_def same_thread_def)

text \<open>The loop over the reverse queue takes the records up to the last downstream's end mark.\<close>

lemma reverse_loop_run:
  assumes "ct_run ap c0 c" "app_ok (c_down_writer c0) (c_up_writer c0) I ap" "I (c_user c)" "list_all rev_record rs"
  shows "\<exists>c' xs ys. reverse_loop ap rs c = Some c' \<and> ct_run ap c0 c' \<and> I (c_user c') \<and> c_in c' = c_in c \<and>
    rs = xs @ ys \<and> c_rin c' = Some ys \<and> c_log c' = c_log c @ map Rev xs \<and> (ys = [] \<or> c_down_stop c' = c_num_down c0)"
  using assms
proof (induction rs arbitrary: c)
  case Nil
  then show ?case by auto
next
  case (Cons r rs)
  show ?case
  proof (cases "c_down_stop c < c_num_down c")
    case True
    from run_reverse [OF Cons.prems(1-3) _ True] Cons.prems(4) obtain c1 where
      c1: "handle_reverse ap r (c\<lparr>c_log := c_log c @ [Rev r]\<rparr>) = Some c1" "ct_run ap c0 c1" "I (c_user c1)" "c_in c1 = c_in c"
      "c_log c1 = c_log c @ [Rev r]" by auto
    from Cons.IH [OF c1(2) Cons.prems(2) c1(3)] Cons.prems(4) obtain c' xs ys where
      "reverse_loop ap rs c1 = Some c'" "ct_run ap c0 c'" "I (c_user c')" "c_in c' = c_in c1"
      "rs = xs @ ys" "c_rin c' = Some ys" "c_log c' = c_log c1 @ map Rev xs" "ys = [] \<or> c_down_stop c' = c_num_down c0" by auto
    with c1 True show ?thesis by (intro exI [of _ c'] exI [of _ "r # xs"] exI [of _ ys]) simp
  next
    case False
    with Cons.prems show ?thesis by (intro exI [of _ "c\<lparr>c_rin := Some (r # rs)\<rparr>"] exI [of _ "[]"] exI [of _ "r # rs"])
        (auto simp: ct_run_def same_thread_def)
  qed
qed

lemma reverses_map [simp]: "reverses (map Rev xs) = xs" "forwards (map Rev xs) = []"
  by (induction xs) auto

lemma read_reverse_inv:
  assumes inv: "ct_inv ap I c0 F R c" and ok: "app_ok (c_down_writer c0) (c_up_writer c0) I ap" "list_all rev_record R"
  shows "\<exists>c'. read_reverse ap c = Some c' \<and> ct_inv ap I c0 F R c' \<and> c_in c' = c_in c \<and> forwards (c_log c') = forwards (c_log c) \<and>
    (c_down_stop c' = c_num_down c0 \<or> reverses (c_log c') = R)"
proof (cases "c_down_stop c < c_num_down c")
  case True
  with inv obtain rq where rq: "c_rin c = Some rq" "R = reverses (c_log c) @ rq"
    by (auto simp: ct_inv_def ct_queues_def ct_run_def same_thread_def)
  with reverse_loop_run [of ap c0 c I rq] inv ok obtain c' xs ys where
    c': "reverse_loop ap rq c = Some c'" "ct_run ap c0 c'" "I (c_user c')" "c_in c' = c_in c" "rq = xs @ ys" "c_rin c' = Some ys"
      "c_log c' = c_log c @ map Rev xs" "ys = [] \<or> c_down_stop c' = c_num_down c0"
    by (auto simp: ct_inv_def)
  with True rq inv show ?thesis by (auto simp: read_reverse_def ct_inv_def ct_queues_def)
next
  case False
  with inv show ?thesis by (auto simp: read_reverse_def ct_inv_def ct_run_def same_thread_def)
qed

lemma read_forward_inv:
  assumes inv: "ct_inv ap I c0 F R c" and ok: "app_ok (c_down_writer c0) (c_up_writer c0) I ap" "list_all fwd_record F"
    and dw: "c_up_stop c = c_num_up c \<Longrightarrow> c_down_writer c0"
  shows "\<exists>c'. read_forward ap c = Some c' \<and> ct_inv ap I c0 F R c' \<and> reverses (c_log c') = reverses (c_log c) \<and>
    c_up_stop c \<le> c_up_stop c' \<and> (c_up_stop c = c_num_up c0 \<or> c_in c = Some [] \<or> length (the (c_in c')) < length (the (c_in c)))"
proof -
  from inv obtain q where q: "c_in c = Some q" "F = forwards (c_log c) @ q" by (auto simp: ct_inv_def ct_queues_def)
  have same: "same_thread c0 c" using inv run_same by (auto simp: ct_inv_def)
  show ?thesis
  proof (cases "c_up_stop c = c_num_up c")
    case True
    then show ?thesis using inv dw same by (auto simp: read_forward_def same_thread_def)
  next
    case False
    show ?thesis
    proof (cases q)
      case Nil
      then show ?thesis using False inv q by (simp add: read_forward_def ct_inv_def ct_queues_def)
    next
      case (Cons r rs)
      let ?c = "c\<lparr>c_in := Some rs, c_tuple := Some (i_seq r)\<rparr>"
      have "ct_run ap c0 ?c" "I (c_user ?c)" "fwd_record r" "c_up_stop ?c < c_num_up ?c"
        using inv False ok(2) q Cons same by (auto simp: ct_inv_def ct_run_def same_thread_def)
      from run_forward [OF this(1) ok(1) this(2-4)] obtain c' where
        "handle_forward ap r (?c\<lparr>c_log := c_log c @ [Fwd r]\<rparr>) = Some c'" "ct_run ap c0 c'" "I (c_user c')" "c_in c' = Some rs"
        "c_rin c' = c_rin c" "c_log c' = c_log c @ [Fwd r]" by auto
      with False q Cons inv show ?thesis by (auto simp: read_forward_def ct_inv_def ct_queues_def ct_run_def)
    qed
  qed
qed

lemma run_backup_inv:
  assumes "ct_inv ap I c0 F R c" "app_ok (c_down_writer c0) (c_up_writer c0) I ap"
  shows "\<exists>c'. run_backup ap c = Some c' \<and> ct_inv ap I c0 F R c' \<and> reverses (c_log c') = reverses (c_log c) \<and>
    c_in c' = c_in c \<and> c_down_stop c' = c_down_stop c"
proof -
  obtain u its where b: "BackupPass ap (c_tuple c) (c_user c) = Some (u, its)"
    using assms unfolding app_ok_def ct_inv_def by (metis not_None_eq surj_pair)
  moreover have "I u" using assms b
    by (auto simp: app_ok_def ct_inv_def dest!: spec [of _ "Bak (c_tuple c)"] spec [of _ "c_user c"])
  ultimately show ?thesis using assms
    by (simp add: run_backup_def ct_inv_def ct_run_def ct_queues_def same_thread_def outputs_append feedback_append step_out_def)
qed

lemma iteration_inv:
  assumes inv: "ct_inv ap I c0 F R c" and ok: "app_ok (c_down_writer c0) (c_up_writer c0) I ap"
    and rec: "list_all fwd_record F" "list_all rev_record R" and dw: "c_down_writer c0 = (0 < c_num_down c0)" and loop: "looping c"
  shows "\<exists>c'. iteration ap c = Some c' \<and> ct_inv ap I c0 F R c' \<and> (c_down_stop c' = c_num_down c0 \<or> reverses (c_log c') = R) \<and>
    c_up_stop c \<le> c_up_stop c' \<and> (c_up_stop c = c_num_up c0 \<or> c_in c = Some [] \<or> length (the (c_in c')) < length (the (c_in c)))"
proof -
  from read_reverse_inv [OF inv ok rec(2)] obtain c1 where
    c1: "read_reverse ap c = Some c1" "ct_inv ap I c0 F R c1" "c_in c1 = c_in c" "forwards (c_log c1) = forwards (c_log c)"
      "c_down_stop c1 = c_num_down c0 \<or> reverses (c_log c1) = R" by blast
  have up: "c_up_stop c1 = c_up_stop c" using c1(2,4) inv by (simp add: ct_inv_def ct_run_def)
  have "c_down_writer c0" if "c_up_stop c1 = c_num_up c1"
    using that loop dw up inv c1(2) by (auto simp: looping_def ct_inv_def ct_run_def same_thread_def)
  from read_forward_inv [OF c1(2) ok rec(1) this] obtain c2 where
    c2: "read_forward ap c1 = Some c2" "ct_inv ap I c0 F R c2" "reverses (c_log c2) = reverses (c_log c1)"
      "c_up_stop c1 \<le> c_up_stop c2" "c_up_stop c1 = c_num_up c0 \<or> c_in c1 = Some [] \<or> length (the (c_in c2)) < length (the (c_in c1))" by blast
  from run_backup_inv [OF c2(2) ok] obtain c3 where
    c3: "run_backup ap c2 = Some c3" "ct_inv ap I c0 F R c3" "reverses (c_log c3) = reverses (c_log c2)" "c_in c3 = c_in c2" by blast
  have "c_down_stop c3 = c_down_stop c1" using c3(2,3) c2(2,3) c1(2) by (simp add: ct_inv_def ct_run_def)
  moreover have "c_up_stop c3 = c_up_stop c2" using c3(2,4) c2(2) by (auto simp: ct_inv_def ct_run_def ct_queues_def)
  ultimately show ?thesis using c1 c2 c3 up by (simp add: iteration_def)
qed

lemma arrive_inv: "ct_inv ap I c0 F R c \<Longrightarrow> ct_inv ap I c0 (F @ fs) (R @ rs) (arrive fs rs c)"
  by (auto simp: ct_inv_def ct_queues_def ct_run_def same_thread_def arrive_def)

lemma arrive_looping [simp]: "looping (arrive fs rs c) = looping c"
  by (simp add: arrive_def looping_def)

text \<open>The whole loop. \<open>c_num_down\<close> zero means no reverse queue, and what arrives there is not seen.\<close>

definition all_fwd :: "('i wrap list \<times> 'ri wrap list) list \<Rightarrow> 'i wrap list" where
  "all_fwd script = concat (map fst script)"

definition all_rev :: "('i wrap list \<times> 'ri wrap list) list \<Rightarrow> 'ri wrap list" where
  "all_rev script = concat (map snd script)"

lemma main_loop_run:
  assumes "ct_inv ap I c0 F R c" "app_ok (c_down_writer c0) (c_up_writer c0) I ap"
    "list_all fwd_record (F @ all_fwd script)" "list_all rev_record (R @ all_rev script)" "c_down_writer c0 = (0 < c_num_down c0)"
  shows "\<exists>c' F' R' F2 R2. (main_loop ap script c = Running c' \<and> looping c' \<and> F2 = [] \<and> R2 = [] \<or>
      main_loop ap script c = Ended (EmitReverseFinish c') \<and> \<not> looping c') \<and>
    F @ all_fwd script = F' @ F2 \<and> R @ all_rev script = R' @ R2 \<and> ct_inv ap I c0 F' R' c'"
  using assms
proof (induction script arbitrary: F R c)
  case Nil
  then show ?case by (intro exI [of _ c] exI [of _ F] exI [of _ R] exI [of _ "[]"]) (auto simp: all_fwd_def all_rev_def)
next
  case (Cons a script)
  obtain fs rs where a: "a = (fs, rs)" by fastforce
  show ?case
  proof (cases "looping c")
    case False
    then show ?thesis using Cons.prems(1) a
      by (intro exI [of _ c] exI [of _ F] exI [of _ R] exI [of _ "all_fwd (a # script)"] exI [of _ "all_rev (a # script)"]) auto
  next
    case True
    have all: "all_fwd (a # script) = fs @ all_fwd script" "all_rev (a # script) = rs @ all_rev script"
      by (simp_all add: a all_fwd_def all_rev_def)
    from iteration_inv [OF arrive_inv [OF Cons.prems(1)] Cons.prems(2) _ _ Cons.prems(5), of fs rs] True Cons.prems(3,4) obtain c1 where
      c1: "iteration ap (arrive fs rs c) = Some c1" "ct_inv ap I c0 (F @ fs) (R @ rs) c1" by (auto simp: all)
    from Cons.IH [OF c1(2) Cons.prems(2) _ _ Cons.prems(5)] Cons.prems(3,4) show ?thesis
      by (simp add: all) (simp add: a True c1(1))
  qed
qed

lemma main_loop_ended: "\<not> looping c \<Longrightarrow> main_loop ap script c = Ended (EmitReverseFinish c)"
  by (cases script) auto

lemma main_loop_append:
  "main_loop ap (s1 @ s2) c = (case main_loop ap s1 c of Running c' \<Rightarrow> main_loop ap s2 c' | Ended c' \<Rightarrow> Ended c' | Crashed \<Rightarrow> Crashed)"
  by (induction ap s1 c rule: main_loop.induct) (auto simp: main_loop_ended split: option.split)

lemma arrive_nothing: "ct_inv ap I c0 F R c \<Longrightarrow> arrive [] [] c = c"
  by (auto simp: arrive_def option.map_ident)

text \<open>Once enough end marks have arrived, every iteration takes a forward record until the loop is left.\<close>

lemma drain:
  assumes "ct_inv ap I c0 F R c" "app_ok (c_down_writer c0) (c_up_writer c0) I ap"
    "list_all fwd_record F" "list_all rev_record R" "c_down_writer c0 = (0 < c_num_down c0)"
    "c_num_up c0 \<le> ends F" "c_num_down c0 \<le> ends R" "length (the (c_in c)) < k"
  shows "\<exists>c'. main_loop ap (replicate k ([], [])) c = Ended c'"
  using assms(1,8)
proof (induction k arbitrary: c)
  case (Suc k)
  show ?case
  proof (cases "looping c")
    case False
    then show ?thesis by (simp add: main_loop_ended)
  next
    case True
    from iteration_inv [OF Suc.prems(1) assms(2-5) True] obtain c1 where
      c1: "iteration ap c = Some c1" "ct_inv ap I c0 F R c1" "c_down_stop c1 = c_num_down c0 \<or> reverses (c_log c1) = R"
        "c_up_stop c \<le> c_up_stop c1" "c_up_stop c = c_num_up c0 \<or> c_in c = Some [] \<or> length (the (c_in c1)) < length (the (c_in c))" by blast
    have up: "c_up_stop c = c_num_up c0" if "c_in c = Some []"
      using Suc.prems(1) that assms(6) by (auto simp: ct_inv_def ct_queues_def ct_run_def)
    have down: "c_down_stop c1 = c_num_down c0" using c1(2,3) assms(7) by (auto simp: ct_inv_def ct_run_def)
    show ?thesis
    proof (cases "c_up_stop c = c_num_up c0")
      case True
      then have "\<not> looping c1" using c1(2,4) down by (auto simp: looping_def ct_inv_def ct_run_def same_thread_def)
      then show ?thesis using \<open>looping c\<close> c1(1) by (simp add: arrive_nothing [OF Suc.prems(1)] main_loop_ended)
    next
      case False
      then have "length (the (c_in c1)) < k" using c1(5) up Suc.prems(2) by auto
      from Suc.IH [OF c1(2) this] show ?thesis using \<open>looping c\<close> c1(1) by (simp add: arrive_nothing [OF Suc.prems(1)])
    qed
  qed
qed simp

section \<open>Properties\<close>

lemma start_inv:
  assumes "ConnectUpThread rev1 n1 (ComputeThread wid tid nu nd slot rslot u) = Some c1" "ConnectDownThread rev2 n2 c1 = Some c2"
    "0 < nd \<longrightarrow> rev2" "I u"
  defines "c0 \<equiv> c2\<lparr>c_num_up := max 1 nu\<rparr>"
  shows "ct_inv ap I c0 [] [] c0" "c_down_writer c0 = (0 < c_num_down c0)" "c_user c0 = u" "c_num_up c0 = max 1 nu" "c_num_down c0 = nd"
    "ThreadMainHandler ap script c2 = main_loop ap script c0" "c_up_writer c0 = (0 < nu)"
  using assms
  by (auto simp: ConnectUpThread_def ConnectDownThread_def ComputeThread_def ct_inv_def ct_run_def ct_queues_def same_thread_def
      ThreadMainHandler_def max_def Suc_le_eq split: if_splits)


lemma main_handler_ends:
  assumes start: "ConnectUpThread rev1 n1 (ComputeThread wid tid nu nd slot rslot u) = Some c1" "ConnectDownThread rev2 n2 c1 = Some c2"
    and rev2: "0 < nd \<longrightarrow> rev2"
    and app: "app_ok (0 < nd) (0 < nu) I ap" "I u"
    and records: "list_all fwd_record (all_fwd script)" "list_all rev_record (all_rev script)"
    and stop: "max 1 nu \<le> ends (all_fwd script)" "nd \<le> ends (all_rev script)"
  shows "\<exists>c. ThreadMainHandler ap (script @ replicate (Suc (length (all_fwd script))) ([], [])) c2 = Ended c"
proof -
  define c0 where "c0 = c2\<lparr>c_num_up := max 1 nu\<rparr>"
  note st = start_inv [OF start rev2, of I, folded c0_def, OF app(2)]
  from st(2,5,7) app(1) have app': "app_ok (c_down_writer c0) (c_up_writer c0) I ap" by simp
  from main_loop_run [OF st(1) app' _ _ st(2), of script] records consider
      c where "main_loop ap script c0 = Running c" "ct_inv ap I c0 (all_fwd script) (all_rev script) c"
    | c where "main_loop ap script c0 = Ended c" by auto
  then show ?thesis
  proof cases
    case 1
    from 1(2) have "length (the (c_in c)) < Suc (length (all_fwd script))" by (auto simp: ct_inv_def ct_queues_def)
    from drain [OF 1(2) app' records st(2) _ _ this] stop st 1(1) show ?thesis by (auto simp: main_loop_append)
  next
    case 2
    then show ?thesis using st(6) by (auto simp: main_loop_append)
  qed
qed


text \<open>An application that counts its data, doubles them for the first of two downstreams and answers every feedback.\<close>

definition ct_demo_app :: "(nat, nat, nat, nat, nat) app" where
  "ct_demo_app = \<lparr>ProcessData = (\<lambda>w t s d u. (u + 1, [Emit 0 (2 * d)])), ProcessPunc = (\<lambda>u. (u, [Emit 1 u])),
     ProcessFeedback = (\<lambda>w t d u. (u, [EmitReverse 0 d])), BackupPass = (\<lambda>sq u. Some (u, []))\<rparr>"

definition ct_demo_item :: "item_type \<Rightarrow> nat \<Rightarrow> nat wrap" where
  "ct_demo_item t d = \<lparr>i_type = t, i_seq = 0, i_thr = 0, i_worker = 0, i_data = d\<rparr>"

definition ct_demo_thread :: "(nat, nat, nat, nat, nat) compute" where
  "ct_demo_thread = ComputeThread 7 1 1 2 (ct_demo_item ITEM_NORMAL 0) (ct_demo_item ITEM_NORMAL 0) 0"

definition ct_demo_script :: "(nat wrap list \<times> nat wrap list) list" where
  "ct_demo_script = [([ct_demo_item ITEM_NORMAL 3, ct_demo_item ITEM_TIMEOUT 0], []),
     ([ct_demo_item ITEM_FINISH 0], [ct_demo_item ITEM_REVERSE 9, ct_demo_item ITEM_FINISH 0]), ([], [ct_demo_item ITEM_FINISH 0])]"

lemma app_sends_both: "app_sends True True as"
  by (auto simp: app_sends_def split: action.split)

lemma ct_demo_app_ok: "app_ok True True (\<lambda>u. True) ct_demo_app"
  by (simp add: app_ok_def app_sends_both) (simp add: ct_demo_app_def)

lemma ct_demo_start:
  "ConnectUpThread True 1 ct_demo_thread = Some (ct_demo_thread\<lparr>c_in := Some []\<rparr>)"
  "ConnectDownThread True 2 (ct_demo_thread\<lparr>c_in := Some []\<rparr>) = Some (ct_demo_thread\<lparr>c_in := Some [], c_rin := Some []\<rparr>)"
  by (simp_all add: ConnectUpThread_def ConnectDownThread_def ct_demo_thread_def ComputeThread_def)

lemma ct_demo_records: "list_all fwd_record (all_fwd ct_demo_script)" "list_all rev_record (all_rev ct_demo_script)"
  by (simp_all add: all_fwd_def all_rev_def ct_demo_script_def fwd_record_def rev_record_def ct_demo_item_def)

lemma ct_demo_ends: "\<exists>c. ThreadMainHandler ct_demo_app ct_demo_script (ct_demo_thread\<lparr>c_in := Some [], c_rin := Some []\<rparr>) = Ended c \<and> c_user c = 1 \<and>
    map (\<lambda>(d, w). (d, i_type w, i_data w)) (c_sent c) = [(0, ITEM_NORMAL, 6), (1, ITEM_NORMAL, 1), (0, ITEM_FINISH, 0), (1, ITEM_FINISH, 0)]"
  by (simp add: ThreadMainHandler_def ct_demo_thread_def ComputeThread_def ct_demo_script_def ct_demo_item_def ct_demo_app_def looping_def arrive_def
      iteration_def read_reverse_def handle_reverse_def read_forward_def handle_forward_def run_backup_def call_app_def EmitData_def
      EmitReverseData_def EmitFinish_eq EmitReverseFinish_eq end_marks_def finish_item_def WrapItem_def upt_rec Let_def)



end
