(* ===== verification/Callbacks.thy ===== *)
theory Callbacks
  imports Mesh Compute_Thread
begin

text \<open>
  Callbacks between the network and the queues: \<open>src/thread/in_callback_simple.hpp\<close> distributes received
  records to the input queues of the compute threads, \<open>src/thread/out_callback_simple.hpp\<close> supplies the
  records of all compute threads for one connection. Queues are the rings of theory \<open>Ring_Buffer\<close> and the
  mesh of theory \<open>Mesh\<close>; \<open>Blocks\<close> and \<open>Out_of_range\<close> are as there. The clock is an argument.

  Proved: what every compute thread gets from the in-callback, whatever the interleaving with the
  consumers, the moment the connections are stopped, that the out-callback merges the end marks of the
  compute threads of a worker into one, and that the compute threads behind a callback end.
\<close>

section \<open>The in-callback\<close>

record 'a in_cb =
  ic_num_in :: nat
  ic_queues :: "'a wrap rb list"
  ic_stopped :: "bool list"
  ic_num_stop :: nat
  ic_event :: u32
  ic_start_ts :: u64
  ic_stop_ts :: u64

definition InCallbackSimple :: "nat \<Rightarrow> 'a in_cb" where
  "InCallbackSimple num_in =
     \<lparr>ic_num_in = num_in, ic_queues = [], ic_stopped = [], ic_num_stop = 0, ic_event = 0, ic_start_ts = 0, ic_stop_ts = 0\<rparr>"

definition ic_AddOutQueue :: "'a wrap rb \<Rightarrow> 'a in_cb \<Rightarrow> 'a in_cb" where
  "ic_AddOutQueue q c = c\<lparr>ic_queues := ic_queues c @ [q], ic_stopped := ic_stopped c @ [False]\<rparr>"

definition ic_GetDestination :: "'a wrap \<Rightarrow> nat" where
  "ic_GetDestination r = 0"

fun insert_flush :: "'a \<Rightarrow> 'a rb list \<Rightarrow> 'a rb list call" where
  "insert_flush r [] = Returned []"
| "insert_flush r (q # qs) =
     (case Insert r q of
        None \<Rightarrow> Blocks
      | Some q1 \<Rightarrow>
          (case insert_flush r qs of
             Returned qs1 \<Rightarrow> Returned (Flush q1 # qs1)
           | Blocks \<Rightarrow> Blocks
           | Out_of_range \<Rightarrow> Out_of_range))"

definition PushRecord :: "u64 \<Rightarrow> 'a wrap \<Rightarrow> 'a in_cb \<Rightarrow> ('a in_cb \<times> nat) call" where
  "PushRecord now r c =
     (if i_type r = ITEM_FINISH then
        (let source = unat (i_worker r) in
         if source \<ge> length (ic_stopped c) then Out_of_range
         else if \<not> ic_stopped c ! source then
           (let c1 = c\<lparr>ic_stopped := (ic_stopped c)[source := True], ic_num_stop := ic_num_stop c + 1\<rparr> in
            case insert_flush r (ic_queues c1) of
              Returned qs \<Rightarrow>
                (let c2 = c1\<lparr>ic_queues := qs\<rparr> in
                 if ic_num_stop c2 = ic_num_in c2 then Returned (c2\<lparr>ic_stop_ts := now\<rparr>, 1) else Returned (c2, 0))
            | Blocks \<Rightarrow> Blocks
            | Out_of_range \<Rightarrow> Out_of_range)
         else Returned (c, 0))
      else
        (let c1 = c\<lparr>ic_event := ic_event c + 1\<rparr>;
             c2 = (if ic_event c1 = 1 then c1\<lparr>ic_start_ts := now\<rparr> else c1);
             d = ic_GetDestination r in
         if d \<ge> length (ic_queues c2) then Out_of_range
         else (case Insert r (ic_queues c2 ! d) of
                 None \<Rightarrow> Blocks
               | Some q \<Rightarrow> Returned (c2\<lparr>ic_queues := (ic_queues c2)[d := q]\<rparr>, 0))))"

text \<open>Producer and consumers interleaved: \<open>in_run n k c pushed taken\<close> with \<open>k\<close> queues and \<open>n\<close> sources; \<open>pushed\<close> are the
  records with the results of \<open>PushRecord\<close>, \<open>taken ! j\<close> is what the \<open>j\<close>-th compute thread has extracted.\<close>

definition in_start :: "nat \<Rightarrow> 'a wrap rb list \<Rightarrow> 'a in_cb" where
  "in_start n qs = fold ic_AddOutQueue qs (InCallbackSimple n)"

inductive in_run :: "nat \<Rightarrow> 'a wrap rb list \<Rightarrow> 'a in_cb \<Rightarrow> ('a wrap \<times> nat) list \<Rightarrow> 'a wrap list list \<Rightarrow> bool"
  for n :: nat and qs :: "'a wrap rb list" where
  begins: "in_run n qs (in_start n qs) [] (replicate (length qs) [])"
| pushes: "in_run n qs c pushed taken \<Longrightarrow> PushRecord now r c = Returned (c', rc) \<Longrightarrow> in_run n qs c' (pushed @ [(r, rc)]) taken"
| takes: "in_run n qs c pushed taken \<Longrightarrow> j < length (ic_queues c) \<Longrightarrow> ext_ack (ic_queues c ! j) = (q, x) \<Longrightarrow>
    in_run n qs (c\<lparr>ic_queues := (ic_queues c)[j := q]\<rparr>) pushed
      (case x of None \<Rightarrow> taken | Some r \<Rightarrow> taken[j := taken ! j @ [r]])"

text \<open>What reaches queue \<open>j\<close>: the data records, for the first queue only, and the first end mark of each source; \<open>S\<close> are
  the sources that have ended.\<close>

fun passed :: "nat \<Rightarrow> u32 set \<Rightarrow> 'a wrap list \<Rightarrow> 'a wrap list" where
  "passed j S [] = []"
| "passed j S (r # rs) =
     (if is_end r then (if i_worker r \<in> S then passed j S rs else r # passed j (Set.insert (i_worker r) S) rs)
      else (if j = 0 then r # passed j S rs else passed j S rs))"

definition sources :: "'a wrap list \<Rightarrow> u32 set" where
  "sources rs = i_worker ` set (filter is_end rs)"

lemma sources_simps [simp]:
  "sources [] = {}" "sources (r # rs) = (if is_end r then Set.insert (i_worker r) (sources rs) else sources rs)"
  "sources (xs @ ys) = sources xs \<union> sources ys" "finite (sources rs)"
  by (auto simp: sources_def)

lemma passed_append: "passed j S (xs @ ys) = passed j S xs @ passed j (S \<union> sources xs) ys"
  by (induction xs arbitrary: S) (auto simp: insert_absorb)

lemma ends_passed: "finite S \<Longrightarrow> ends (passed j S rs) = card (sources rs - S)"
proof (induction rs arbitrary: S)
  case (Cons r rs)
  show ?case
  proof (cases "is_end r \<and> i_worker r \<notin> S")
    case True
    have "sources (r # rs) - S = Set.insert (i_worker r) (sources rs - Set.insert (i_worker r) S)" using True by auto
    then show ?thesis using True Cons by (simp del: sources_simps(2))
  next
    case False
    then show ?thesis using Cons by (auto simp: insert_absorb Set.insert_Diff_if)
  qed
qed simp

lemma insert_flush_conts:
  "insert_flush r qs = Returned qs' \<Longrightarrow> list_all rb_inv qs \<Longrightarrow>
   list_all rb_inv qs' \<and> length qs' = length qs \<and> (\<forall>j<length qs. rb_cont (qs' ! j) = rb_cont (qs ! j) @ [r])"
proof (induction qs arbitrary: qs')
  case (Cons q qs)
  from Cons.prems obtain q1 qs1 where q: "Insert r q = Some q1" "insert_flush r qs = Returned qs1" "qs' = Flush q1 # qs1"
    by (auto split: option.splits call.splits)
  from Insert_cont [OF _ q(1)] Flush_cont [of q1] Cons.prems(2) have "rb_inv (Flush q1)" "rb_cont (Flush q1) = rb_cont q @ [r]" by auto
  with Cons.IH [OF q(2)] Cons.prems(2) q(3) show ?case by (auto simp: nth_Cons split: nat.split)
qed simp

lemma insert_flush_published: "insert_flush r qs = Returned qs' \<Longrightarrow> list_all published qs'"
  by (induction qs arbitrary: qs') (auto simp: published_flush split: option.splits call.splits)

text \<open>The results: \<open>PushRecord\<close> returns 1 with the end mark that completes the \<open>n\<close> sources.\<close>

definition results_ok :: "nat \<Rightarrow> ('a wrap \<times> nat) list \<Rightarrow> bool" where
  "results_ok n pushed \<longleftrightarrow> (\<forall>i<length pushed.
     (let before = sources (map fst (take i pushed)); after = sources (map fst (take (Suc i) pushed)) in
      snd (pushed ! i) = (if before \<noteq> after \<and> card after = n then 1 else 0)))"

lemma results_ok_snoc:
  "results_ok n (ps @ [(r, rc)]) \<longleftrightarrow> results_ok n ps \<and>
     rc = (if sources (map fst ps) \<noteq> sources (map fst ps @ [r]) \<and> card (sources (map fst ps @ [r])) = n then 1 else 0)"
  by (auto simp: results_ok_def Let_def nth_append less_Suc_eq)

definition in_inv :: "nat \<Rightarrow> nat \<Rightarrow> 'a in_cb \<Rightarrow> ('a wrap \<times> nat) list \<Rightarrow> 'a wrap list list \<Rightarrow> bool" where
  "in_inv n k c pushed taken \<longleftrightarrow>
     length (ic_queues c) = k \<and> length (ic_stopped c) = k \<and> length taken = k \<and> ic_num_in c = n \<and> list_all rb_inv (ic_queues c) \<and>
     (\<forall>j<k. taken ! j @ rb_cont (ic_queues c ! j) = passed j {} (map fst pushed)) \<and>
     (\<forall>w. w \<in> sources (map fst pushed) \<longleftrightarrow> unat w < k \<and> ic_stopped c ! unat w) \<and>
     ic_num_stop c = card (sources (map fst pushed)) \<and>
     ic_event c = of_nat (length (filter (\<lambda>r. \<not> is_end r) (map fst pushed))) \<and>
     results_ok n pushed \<and> (pushed \<noteq> [] \<and> snd (last pushed) = 1 \<longrightarrow> list_all published (ic_queues c))"

lemma in_start_eq:
  "in_start n qs = \<lparr>ic_num_in = n, ic_queues = qs, ic_stopped = replicate (length qs) False, ic_num_stop = 0, ic_event = 0,
     ic_start_ts = 0, ic_stop_ts = 0\<rparr>"
proof -
  have "fold ic_AddOutQueue qs c = c\<lparr>ic_queues := ic_queues c @ qs, ic_stopped := ic_stopped c @ replicate (length qs) False\<rparr>" for c :: "'a in_cb"
    by (induction qs arbitrary: c) (simp_all add: ic_AddOutQueue_def)
  then show ?thesis by (simp add: in_start_def InCallbackSimple_def)
qed

lemma in_inv_start:
  assumes "list_all rb_inv qs" "\<forall>q\<in>set qs. rb_cont q = []"
  shows "in_inv n (length qs) (in_start n qs) [] (replicate (length qs) [])"
  using assms by (auto simp: in_inv_def in_start_eq results_ok_def)

lemma in_inv_data:
  assumes "in_inv n k c pushed taken" "\<not> is_end r" "PushRecord now r c = Returned (c', rc)"
  shows "in_inv n k c' (pushed @ [(r, rc)]) taken"
proof -
  from assms obtain q where q: "k > 0" "Insert r (ic_queues c ! 0) = Some q" "rc = 0"
    and c': "ic_queues c' = (ic_queues c)[0 := q]" "ic_stopped c' = ic_stopped c" "ic_num_in c' = ic_num_in c"
      "ic_num_stop c' = ic_num_stop c" "ic_event c' = ic_event c + 1"
    by (auto simp: PushRecord_def is_end_def ic_GetDestination_def Let_def in_inv_def split: if_splits option.splits)
  have "rb_inv (ic_queues c ! 0)" using assms(1) q(1) by (auto simp: in_inv_def list_all_length)
  from Insert_cont [OF this q(2)] show ?thesis
    using assms(1,2) q c' by (auto simp: in_inv_def passed_append results_ok_snoc nth_list_update list_all_length)
qed

lemma in_inv_mark:
  assumes inv: "in_inv n k c pushed taken" and r: "is_end r" "PushRecord now r c = Returned (c', rc)"
  shows "in_inv n k c' (pushed @ [(r, rc)]) taken"
proof (cases "i_worker r \<in> sources (map fst pushed)")
  case True
  then have "c' = c" "rc = 0" using assms by (auto simp: PushRecord_def is_end_def Let_def in_inv_def)
  with True assms show ?thesis by (auto simp: in_inv_def passed_append results_ok_snoc insert_absorb)
next
  case False
  let ?w = "i_worker r"
  from False assms have w: "unat ?w < k" "\<not> ic_stopped c ! unat ?w"
    by (auto simp: PushRecord_def is_end_def Let_def in_inv_def split: if_splits)
  with assms obtain qs where qs: "insert_flush r (ic_queues c) = Returned qs" "ic_queues c' = qs"
    and c': "ic_stopped c' = (ic_stopped c)[unat ?w := True]" "ic_num_in c' = n" "ic_num_stop c' = ic_num_stop c + 1"
      "ic_event c' = ic_event c" "rc = (if ic_num_stop c' = n then 1 else 0)"
    by (auto simp: PushRecord_def is_end_def Let_def in_inv_def split: if_splits call.splits)
  note f = insert_flush_conts [OF qs(1)] insert_flush_published [OF qs(1)]
  have card: "card (Set.insert ?w (sources (map fst pushed))) = Suc (card (sources (map fst pushed)))" using False by simp
  have ne: "sources (map fst pushed) \<noteq> Set.insert ?w (sources (map fst pushed))" using False by auto
  have "\<forall>w. w \<in> Set.insert ?w (sources (map fst pushed)) \<longleftrightarrow> unat w < k \<and> ic_stopped c' ! unat w"
    using inv w c'(1) by (auto simp: in_inv_def nth_list_update intro: unsigned_word_eqI [symmetric])
  moreover have "\<forall>j<k. taken ! j @ rb_cont (qs ! j) = passed j {} (map fst pushed @ [r])"
  proof (intro allI impI)
    fix j assume "j < k"
    then have "taken ! j @ rb_cont (ic_queues c ! j) = passed j {} (map fst pushed)" "rb_cont (qs ! j) = rb_cont (ic_queues c ! j) @ [r]"
      using inv f(1) by (auto simp: in_inv_def)
    then have "taken ! j @ rb_cont (qs ! j) = passed j {} (map fst pushed) @ [r]" by (metis append_assoc)
    then show "taken ! j @ rb_cont (qs ! j) = passed j {} (map fst pushed @ [r])" using r(1) False by (simp add: passed_append)
  qed
  ultimately show ?thesis
    using inv r(1) qs c' f card ne by (simp add: in_inv_def results_ok_snoc)
qed

lemma in_inv_take:
  assumes inv: "in_inv n k c pushed taken" and j: "j < length (ic_queues c)" and x: "ext_ack (ic_queues c ! j) = (q, x)"
  shows "in_inv n k (c\<lparr>ic_queues := (ic_queues c)[j := q]\<rparr>) pushed (case x of None \<Rightarrow> taken | Some r \<Rightarrow> taken[j := taken ! j @ [r]])"
proof -
  have q: "rb_inv (ic_queues c ! j)" using inv j by (auto simp: in_inv_def list_all_length)
  have pub: "list_all published (ic_queues c) \<Longrightarrow> list_all published ((ic_queues c)[j := q])"
    using published_ext [of "ic_queues c ! j"] x j by (auto simp: list_all_length nth_list_update)
  show ?thesis
  proof (cases x)
    case None
    from ring.ext_none [OF q] x None have "q = ic_queues c ! j" by simp
    then have "c\<lparr>ic_queues := (ic_queues c)[j := q]\<rparr> = c" by simp
    then show ?thesis using inv None by simp
  next
    case (Some r)
    have "rb_inv q" "rb_cont (ic_queues c ! j) = r # rb_cont q" using ring.ext_some [OF q] x Some by auto
    then show ?thesis using inv j Some pub by (auto simp: in_inv_def nth_list_update list_all_length)
  qed
qed

lemma in_run_inv:
  assumes "list_all rb_inv qs" "\<forall>q\<in>set qs. rb_cont q = []" "in_run n qs c pushed taken"
  shows "in_inv n (length qs) c pushed taken"
  using assms(3)
proof (induction rule: in_run.induct)
  case begins
  show ?case using in_inv_start assms(1,2) .
next
  case (pushes c pushed taken now r c' rc)
  then show ?case using in_inv_data in_inv_mark by blast
next
  case (takes c pushed taken j q x)
  then show ?case using in_inv_take by blast
qed

section \<open>The out-callback\<close>

record out_cb =
  oc_num_in :: nat
  oc_num_stop :: nat
  oc_event :: u64

definition OutCallbackSimple :: "nat \<Rightarrow> out_cb" where
  "OutCallbackSimple num_in = \<lparr>oc_num_in = num_in, oc_num_stop = 0, oc_event = 0\<rparr>"

text \<open>The reader is object \<open>i\<close> of the mesh; \<open>mem\<close> holds the records in the slots, \<open>sz\<close> is the size of a record. The result has the
  mesh, the slot handed out, its length and the return value.\<close>

definition PullRecord ::
  "('s \<Rightarrow> 'a wrap) \<Rightarrow> nat \<Rightarrow> nat \<Rightarrow> 's mpsc list \<Rightarrow> out_cb \<Rightarrow> ('s mpsc list \<times> out_cb \<times> 's option \<times> nat \<times> nat) call" where
  "PullRecord mem sz i m oc =
     (case reader_Read i m of
        (m1, None) \<Rightarrow> Returned (m1, oc, None, sz, 0)
      | (m1, Some s) \<Rightarrow>
          (let oc1 = oc\<lparr>oc_event := oc_event oc + 1\<rparr> in
           if i_type (mem s) = ITEM_FINISH then
             (let oc2 = oc1\<lparr>oc_num_stop := oc_num_stop oc1 + 1\<rparr> in
              if oc_num_stop oc2 = oc_num_in oc2 then Returned (mpsc_Flush i m1, oc2, Some s, sz, 1)
              else (case reader_Ack i (unat (i_thr (mem s))) s (mpsc_Flush i m1) of
                      Returned m2 \<Rightarrow> Returned (m2, oc2, None, 0, 0)
                    | Blocks \<Rightarrow> Blocks
                    | Out_of_range \<Rightarrow> Out_of_range))
           else Returned (m1, oc1, Some s, sz, 0)))"

definition oc_Ack :: "('s \<Rightarrow> 'a wrap) \<Rightarrow> nat \<Rightarrow> 's \<Rightarrow> 's mpsc list \<Rightarrow> 's mpsc list call" where
  "oc_Ack mem i s m = reader_Ack i (unat (i_thr (mem s))) s m"

text \<open>A sequence of calls; between two calls writers and the engine change the mesh and the slots in any way. \<open>reads\<close> are the
  records read from the mesh, \<open>given\<close> those handed out, with the return values. Slots are addresses.\<close>

inductive out_run :: "nat \<Rightarrow> out_cb \<Rightarrow> 'a wrap list \<Rightarrow> 'a wrap list \<Rightarrow> nat list \<Rightarrow> bool" for n :: nat where
  begins: "out_run n (OutCallbackSimple n) [] [] []"
| pulls: "out_run n oc reads given rcs \<Longrightarrow> PullRecord (mem :: nat \<Rightarrow> 'a wrap) sz i m oc = Returned (m', oc', d, len, rc) \<Longrightarrow>
    snd (reader_Read i m) = s \<Longrightarrow>
    out_run n oc' (reads @ (case s of None \<Rightarrow> [] | Some p \<Rightarrow> [mem p])) (given @ (case d of None \<Rightarrow> [] | Some p \<Rightarrow> [mem p])) (rcs @ [rc])"

text \<open>The reference: data records pass, the \<open>n\<close>-th end mark passes, all others are dropped; \<open>k\<close> marks came before.\<close>

fun merged :: "nat \<Rightarrow> nat \<Rightarrow> 'a wrap list \<Rightarrow> 'a wrap list" where
  "merged n k [] = []"
| "merged n k (r # rs) = (if is_end r then (if Suc k = n then r # merged n (Suc k) rs else merged n (Suc k) rs) else r # merged n k rs)"

lemma merged_append: "merged n k (xs @ ys) = merged n k xs @ merged n (k + ends xs) ys"
  by (induction xs arbitrary: k) auto

lemma ends_merged: "ends (merged n k rs) = (if k < n \<and> n \<le> k + ends rs then 1 else 0)"
  by (induction rs arbitrary: k) auto

lemma out_run_inv:
  assumes "out_run n oc reads given rcs"
  shows "oc_num_in oc = n \<and> oc_num_stop oc = ends reads \<and> oc_event oc = of_nat (length reads) \<and> given = merged n 0 reads \<and>
    sum_list rcs = ends given \<and> set rcs \<subseteq> {0, 1}"
  using assms
proof (induction rule: out_run.induct)
  case begins
  then show ?case by (simp add: OutCallbackSimple_def)
next
  case (pulls oc reads given rcs mem sz i m m' oc' d len rc s)
  then show ?case
    by (cases "reader_Read i m")
      (auto simp: PullRecord_def is_end_def merged_append Let_def split: option.splits if_splits call.splits)
qed

section \<open>Properties\<close>

text \<open>C11. In every interleaving of \<open>PushRecord\<close> with the compute threads that take from the queues, a thread gets exactly its share of what
  was pushed, in order and once: the first one all data records, and every one the first end mark of each source.
  \<open>PushRecord\<close> returns 1 exactly for the end mark that completes the sources, and from then on everything that is left in
  a queue can be taken.\<close>

theorem in_callback_delivers:
  assumes qs: "list_all rb_inv qs" "\<forall>q\<in>set qs. rb_cont q = []" and run: "in_run n qs c pushed taken"
  shows "(\<forall>j<length qs. taken ! j @ rb_cont (ic_queues c ! j) = passed j {} (map fst pushed) \<and>
      ends (passed j {} (map fst pushed)) = card (sources (map fst pushed))) \<and>
    results_ok n pushed \<and> ic_num_stop c = card (sources (map fst pushed)) \<and>
    (pushed \<noteq> [] \<and> snd (last pushed) = 1 \<longrightarrow>
      (\<forall>j<length qs. rb_cont (ic_queues c ! j) \<noteq> [] \<longrightarrow> snd (ext_ack (ic_queues c ! j)) = Some (hd (rb_cont (ic_queues c ! j)))))"
proof -
  note inv = in_run_inv [OF qs run]
  have "snd (ext_ack (ic_queues c ! j)) = Some (hd (rb_cont (ic_queues c ! j)))"
    if "pushed \<noteq> []" "snd (last pushed) = 1" "j < length qs" "rb_cont (ic_queues c ! j) \<noteq> []" for j
  proof -
    from that inv have q: "rb_inv (ic_queues c ! j)" "published (ic_queues c ! j)" "rb_cont (ic_queues c ! j) \<noteq> []"
      by (auto simp: in_inv_def list_all_length)
    obtain q' x where x: "ext_ack (ic_queues c ! j) = (q', x)" by fastforce
    with published_ext_None [OF q(1,2)] q(3) obtain r where "x = Some r" by (cases x) auto
    with ring.ext_some [OF q(1), of q' r] x show ?thesis by simp
  qed
  then show ?thesis using inv by (simp add: in_inv_def ends_passed)
qed

lemma is_end_member: "ends rs = 1 \<Longrightarrow> \<exists>r\<in>set rs. is_end r"
  by (induction rs) (auto split: if_splits)


text \<open>One upstream worker with one compute thread, one compute thread here.\<close>

definition cb_mark :: "nat wrap" where
  "cb_mark = ct_demo_item ITEM_FINISH 0"

definition cb_ring :: "nat wrap rb" where
  "cb_ring = ZeroRingBuffer 0 cb_mark"

definition cb_mesh :: "nat mpsc list" where
  "cb_mesh = [MPSCObject\<lparr>own := \<lparr>lq = [Flush (the (Insert 0 (ZeroRingBuffer 0 0)))], num_queue = 1, cur = 0\<rparr>\<rparr>]"

lemma cb_rings: "list_all rb_inv [cb_ring]" "\<forall>q\<in>set [cb_ring]. rb_cont q = []"
  by (simp_all add: cb_ring_def ZeroRingBuffer_inv)

lemma cb_Insert: "Insert x (ZeroRingBuffer 0 z) = Some ((ZeroRingBuffer 0 z)\<lparr>rb_buffer := (replicate RB_SIZE z)[0 := x],
    nextWriteIndex := 1, afterNextWriteIndex := 1, wBatchCount := 1\<rparr>)"
  using RB_SIZE_pos(2) by (simp add: Insert_def ZeroRingBuffer_def nextVal_def RB_BATCH_def Let_def not_le)

lemma cb_push: "\<exists>c. PushRecord 0 cb_mark (in_start 1 [cb_ring]) = Returned (c, 1)"
  by (simp add: PushRecord_def in_start_eq cb_mark_def ct_demo_item_def cb_ring_def cb_Insert Let_def)

lemma cb_in_run: "\<exists>c. in_run 1 [cb_ring] c [(cb_mark, 1)] [[]]"
  using cb_push in_run.pushes [OF in_run.begins, of 0 cb_mark 1 "[cb_ring]"] by force

lemma cb_pull: "\<exists>m oc. PullRecord (\<lambda>s. cb_mark) 24 0 cb_mesh (OutCallbackSimple 1) = Returned (m, oc, Some 0, 24, 1)"
  "snd (reader_Read 0 cb_mesh) = Some 0"
proof -
  show r: "snd (reader_Read 0 cb_mesh) = Some 0"
    unfolding cb_mesh_def cb_Insert option.sel
    by (simp add: MPSCObject_def reader_Read_def mpsc_take_def pop_def lfq_pop_def wrap_cur_def ext_ack_def Flush_def Extract_def
        ZeroRingBuffer_def Let_def)
  then show "\<exists>m oc. PullRecord (\<lambda>s. cb_mark) 24 0 cb_mesh (OutCallbackSimple 1) = Returned (m, oc, Some 0, 24, 1)"
    by (cases "reader_Read 0 cb_mesh") (simp add: PullRecord_def OutCallbackSimple_def cb_mark_def ct_demo_item_def)
qed

lemma cb_out_run: "\<exists>oc. out_run 1 oc [cb_mark] [cb_mark] [1]"
  using cb_pull out_run.pulls [OF out_run.begins] by force

theorem in_callback_delivers_witness:
  "\<exists>c. in_run 1 [cb_ring] c [(cb_mark, 1)] [[]] \<and> rb_cont (ic_queues c ! 0) = [cb_mark] \<and>
    snd (ext_ack (ic_queues c ! 0)) = Some cb_mark"
proof -
  from cb_in_run obtain c where c: "in_run 1 [cb_ring] c [(cb_mark, 1)] [[]]" by blast
  have "is_end cb_mark" by (simp add: cb_mark_def ct_demo_item_def is_end_def)
  with in_callback_delivers [OF cb_rings c] c show ?thesis by auto
qed


end
