(* ===== verification/C_Text.thy ===== *)
theory C_Text
  imports Prelude
begin

text \<open>
  The C library functions on strings that the program uses, on byte lists: the string that starts at an address, the conversions
  \<open>strtoull\<close>, \<open>strtoll\<close> and \<open>atoi\<close>, and numbers printed with \<open>%d\<close>. Printing and reading a number is a round trip.
\<close>

section \<open>Strings in memory\<close>

definition ascii :: "string \<Rightarrow> bytes" where
  "ascii s = map of_char s"

lemma length_ascii [simp]: "length (ascii s) = length s"
  by (simp add: ascii_def)

text \<open>\<open>strlen\<close> reads until a zero byte.\<close>

definition cstr :: "bytes \<Rightarrow> bytes" where
  "cstr m = takeWhile (\<lambda>b. b \<noteq> 0) m"

lemma cstr_prefix: "m = cstr m @ dropWhile (\<lambda>b. b \<noteq> 0) m"
  by (simp add: cstr_def)

lemma cstr_terminated [simp]: "0 \<notin> set a \<Longrightarrow> cstr (a @ 0 # b) = a"
  by (auto simp: cstr_def takeWhile_append)

lemma cstr_split: "0 \<in> set m \<Longrightarrow> \<exists>r. m = cstr m @ 0 # r"
  by (induction m) (auto simp: cstr_def)

lemma cstr_no_zero [simp]: "0 \<notin> set (cstr m)"
  unfolding cstr_def by (auto dest: set_takeWhileD)

section \<open>Conversions\<close>

definition is_space_byte :: "u8 \<Rightarrow> bool" where
  "is_space_byte b \<longleftrightarrow> b = 32 \<or> (9 \<le> b \<and> b \<le> 13)"

definition is_digit_byte :: "u8 \<Rightarrow> bool" where
  "is_digit_byte b \<longleftrightarrow> 48 \<le> b \<and> b \<le> 57"

definition number :: "bytes \<Rightarrow> int" where
  "number ds = foldl (\<lambda>a b. a * 10 + (uint b - 48)) 0 ds"

text \<open>Sign and digits, after white space.\<close>

definition scan_int :: "bytes \<Rightarrow> bool \<times> int" where
  "scan_int t =
     (let t1 = dropWhile is_space_byte t;
          neg = (t1 \<noteq> [] \<and> hd t1 = 45);
          t2 = (if t1 \<noteq> [] \<and> (hd t1 = 45 \<or> hd t1 = 43) then tl t1 else t1)
      in (neg, number (takeWhile is_digit_byte t2)))"

definition strtoull :: "bytes \<Rightarrow> u64" where
  "strtoull t = (case scan_int t of (neg, v) \<Rightarrow> if 2 ^ 64 \<le> v then -1 else if neg then - word_of_int v else word_of_int v)"

definition strtoll :: "bytes \<Rightarrow> int" where
  "strtoll t =
     (case scan_int t of (neg, v) \<Rightarrow>
        let i = (if neg then - v else v) in if i < - (2 ^ 63) then - (2 ^ 63) else if 2 ^ 63 \<le> i then 2 ^ 63 - 1 else i)"

text \<open>\<open>(int) strtol (t, NULL, 10)\<close>\<close>

definition atoi :: "bytes \<Rightarrow> int" where
  "atoi t = sint (word_of_int (strtoll t) :: u32)"

section \<open>Printed numbers\<close>

fun decimal :: "nat \<Rightarrow> bytes" where
  "decimal n = (if n < 10 then [48 + of_nat n] else decimal (n div 10) @ [48 + of_nat (n mod 10)])"

declare decimal.simps [simp del]

lemma digit_byte:
  assumes "d < 10"
  shows "is_digit_byte (48 + of_nat d)" "uint (48 + of_nat d :: u8) = 48 + int d"
proof -
  have "uint (of_nat d :: u8) = int d" using assms by (simp add: uint_nat unat_of_nat)
  then show u: "uint (48 + of_nat d :: u8) = 48 + int d" using assms by (simp add: uint_word_ariths)
  then show "is_digit_byte (48 + of_nat d)" using assms by (simp add: is_digit_byte_def word_le_def)
qed

lemma decimal_digits: "list_all is_digit_byte (decimal n) \<and> decimal n \<noteq> [] \<and> number (decimal n) = int n"
proof (induction n rule: decimal.induct)
  case (1 n)
  show ?case
  proof (cases "n < 10")
    case True
    then show ?thesis using digit_byte [of n] by (simp add: decimal.simps [of n] number_def)
  next
    case False
    have "int (n div 10) * 10 + int (n mod 10) = int n" by (metis div_mult_mod_eq of_nat_add of_nat_mult of_nat_numeral)
    with False 1 digit_byte [of "n mod 10"] show ?thesis by (simp add: decimal.simps [of n] number_def)
  qed
qed

lemma digit_no_delim: "is_digit_byte b \<Longrightarrow> b \<noteq> 32 \<and> b \<noteq> 0 \<and> b \<noteq> 10 \<and> b \<noteq> 45 \<and> b \<noteq> 43 \<and> \<not> is_space_byte b"
  by (auto simp: is_digit_byte_def is_space_byte_def word_le_def)

lemma decimal_no_delim: "b \<in> set (decimal n) \<Longrightarrow> b \<noteq> 32 \<and> b \<noteq> 0 \<and> b \<noteq> 10"
  using decimal_digits [of n] digit_no_delim by (auto simp: list_all_iff)

lemma scan_int_decimal: "scan_int (decimal n @ 10 # r) = (False, int n)" "scan_int (decimal n) = (False, int n)"
proof -
  obtain c cs where c: "decimal n = c # cs" using decimal_digits [of n] by (cases "decimal n") auto
  have d: "is_digit_byte c" "list_all is_digit_byte cs" "number (c # cs) = int n" using decimal_digits [of n] by (simp_all add: c)
  have s: "scan_int (decimal n @ x) = (False, number (takeWhile is_digit_byte (decimal n @ x)))" for x
    using digit_no_delim [OF d(1)] by (simp add: scan_int_def c Let_def)
  have "\<not> is_digit_byte 10" by (simp add: is_digit_byte_def)
  then have t: "takeWhile is_digit_byte (decimal n @ 10 # r) = decimal n" "takeWhile is_digit_byte (decimal n) = decimal n"
    using decimal_digits [of n] by (auto simp: list_all_iff takeWhile_append takeWhile_eq_all_conv)
  show "scan_int (decimal n @ 10 # r) = (False, int n)" using s [of "10 # r"] decimal_digits [of n] by (simp only: t)
  show "scan_int (decimal n) = (False, int n)" using s [of "[]"] decimal_digits [of n] by (simp only: t append_Nil2)
qed

lemma sint_small: "0 \<le> i \<Longrightarrow> i < 2 ^ 31 \<Longrightarrow> sint (word_of_int i :: u32) = i"
  by transfer (simp add: signed_take_bit_int_eq_self)

lemma atoi_decimal:
  assumes "n < 2 ^ 31"
  shows "atoi (decimal n @ 10 # r) = int n" "atoi (decimal n) = int n"
proof -
  have n: "int n < 2 ^ 31" using assms by simp
  have "strtoll (decimal n @ 10 # r) = int n" "strtoll (decimal n) = int n" using n by (simp_all add: strtoll_def Let_def scan_int_decimal)
  moreover have "sint (word_of_int (int n) :: u32) = int n" using n by (intro sint_small) simp_all
  ultimately show "atoi (decimal n @ 10 # r) = int n" "atoi (decimal n) = int n" by (simp_all only: atoi_def)
qed

end
