(* ===== verification/Adapters.thy ===== *)
theory Adapters
  imports C_Text "HOL-Library.Monad_Syntax"
begin

text \<open>
  Sources of records: \<open>src/thread/adapter_base.hpp\<close>, \<open>adapter_ram.hpp\<close>, \<open>adapter_disk.hpp\<close>,
  \<open>src/fault_tolerance/adapter_recovery.hpp\<close>, and the round-robin router (\<open>router_rr.hpp\<close>). Files are byte strings, read with \<open>fgets\<close>.
  \<open>ReadRecord\<close> gives a pointer, in the model the bytes from there to the end of the allocated memory, with the length the code
  reports. \<open>None\<close> is an access behind the end of a buffer or a failed assertion. The throughput messages are left out.

  The interface \<open>AdapterBase\<close> is the locale \<open>record_source\<close>; the three adapters are interpretations. Proved: the RAM adapter gives the
  lines of the file, as many as fit; the recovery adapter starts at the last gap of the sequence numbers; the disk adapter does
  not end without a limit.
\<close>

section \<open>Files and records in memory\<close>

definition MAX_RECORD_LENGTH :: nat where "MAX_RECORD_LENGTH = 8192"

definition first_line :: "bytes \<Rightarrow> bytes" where
  "first_line f = takeWhile (\<lambda>b. b \<noteq> 10) f @ (if 10 \<in> set f then [10] else [])"

definition fgets :: "nat \<Rightarrow> bytes \<Rightarrow> (bytes \<times> bytes) option" where
  "fgets n f = (if f = [] then None else let l = take (n - 1) (first_line f) in Some (l, drop (length l) f))"

text \<open>Records with their lengths, as the adapters keep them in memory, and reading one of them.\<close>

definition record_image :: "bytes list \<Rightarrow> bytes" where
  "record_image rs = concat (map (\<lambda>r. le_bytes 4 (of_nat (length r) :: u32) @ r) rs)"

definition read_at :: "bytes \<Rightarrow> nat \<Rightarrow> ((bytes \<times> nat) \<times> nat) option" where
  "read_at buf ptr =
     (if ptr + 4 \<le> length buf
      then (let len = unat (le_load (take 4 (drop ptr buf)) :: u32) in Some ((drop (ptr + 4) buf, len), ptr + 4 + len))
      else None)"

fun read_items :: "nat \<Rightarrow> nat \<Rightarrow> bytes \<Rightarrow> (bytes \<times> nat) list option" where
  "read_items 0 ptr buf = Some []"
| "read_items (Suc n) ptr buf = do { (x, ptr1) \<leftarrow> read_at buf ptr; xs \<leftarrow> read_items n ptr1 buf; Some (x # xs) }"

lemma first_line_prefix: "first_line f = take (length (first_line f)) f"
proof -
  have "take (length (first_line f)) f = first_line f"
  proof (cases "10 \<in> set f")
    case True
    then obtain b where "dropWhile (\<lambda>b. b \<noteq> 10) f = 10 # b"
      by (metis (mono_tags, lifting) dropWhile_eq_Nil_conv hd_dropWhile list.exhaust_sel)
    then have "f = takeWhile (\<lambda>b. b \<noteq> 10) f @ 10 # b" by (metis takeWhile_dropWhile_id)
    then have "take (Suc (length (takeWhile (\<lambda>b. b \<noteq> 10) f))) f = takeWhile (\<lambda>b. b \<noteq> 10) f @ [10]"
      by (metis append.assoc append_Cons append_Nil append_eq_conv_conj length_append_singleton)
    with True show ?thesis by (simp add: first_line_def)
  next
    case False
    then have "takeWhile (\<lambda>b. b \<noteq> 10) f = f" by (auto simp: takeWhile_eq_all_conv)
    then have "first_line f = f" using False by (simp only: first_line_def if_False append_Nil2)
    then show ?thesis by simp
  qed
  then show ?thesis by simp
qed

lemma fgets_shorter:
  assumes "fgets n f = Some (l, f')" "1 < n"
  shows "f = l @ f'" "length f' < length f" "length l < n"
proof -
  from assms have l: "f \<noteq> []" "l = take (n - 1) (first_line f)" "f' = drop (length l) f"
    by (auto simp: fgets_def Let_def split: if_splits)
  have "first_line f \<noteq> []" using l(1) by (cases f) (auto simp: first_line_def)
  then have "l \<noteq> []" using l(2) assms(2) by simp
  moreover have "l = take (length l) f" using l(2) first_line_prefix [of f]
    by (metis length_take min.commute take_take)
  ultimately show e: "f = l @ f'" using l(3) by (metis append_take_drop_id)
  show "length f' < length f" using \<open>l \<noteq> []\<close> by (subst e) simp
  show "length l < n" using l(2) assms(2) by auto
qed

lemma record_image_simps [simp]:
  "record_image [] = []" "record_image (r # rs) = le_bytes 4 (of_nat (length r) :: u32) @ r @ record_image rs"
  "record_image (rs @ qs) = record_image rs @ record_image qs"
  by (simp_all add: record_image_def)

lemma read_at_record:
  assumes "length r < 2 ^ 32"
  shows "read_at (pre @ le_bytes 4 (of_nat (length r) :: u32) @ r @ post) (length pre) =
    Some ((r @ post, length r), length pre + 4 + length r)"
  using assms le_load_le_bytes [of 4 "of_nat (length r) :: u32"] unat_of_nat_u32 [OF assms] by (simp add: read_at_def Let_def)

text \<open>Reading back what was stored.\<close>

lemma read_items_image:
  assumes "\<forall>r\<in>set rs. length r < 2 ^ 32"
  shows "\<exists>xs. read_items (length rs) (length pre) (pre @ record_image rs @ post) = Some xs \<and>
    map (\<lambda>(m, len). take len m) xs = rs \<and> map snd xs = map length rs \<and>
    (\<forall>i<length rs. fst (xs ! i) = rs ! i @ record_image (drop (Suc i) rs) @ post)"
  using assms
proof (induction rs arbitrary: pre)
  case (Cons r rs)
  let ?l = "le_bytes 4 (of_nat (length r) :: u32)"
  from Cons.IH [of "pre @ ?l @ r"] Cons.prems obtain xs where
    xs: "read_items (length rs) (length pre + 4 + length r) (pre @ ?l @ r @ record_image rs @ post) = Some xs"
      "map (\<lambda>(m, len). take len m) xs = rs" "map snd xs = map length rs"
      "\<forall>i<length rs. fst (xs ! i) = rs ! i @ record_image (drop (Suc i) rs) @ post" by (auto simp: ac_simps)
  have "read_at (pre @ ?l @ r @ record_image rs @ post) (length pre) =
      Some ((r @ record_image rs @ post, length r), length pre + 4 + length r)"
    using read_at_record [of r pre "record_image rs @ post"] Cons.prems by simp
  with xs show ?case by (auto simp: nth_Cons split: nat.split)
qed simp

section \<open>The interface\<close>

locale record_source =
  fixes read :: "'a \<Rightarrow> ('a \<times> (bytes \<times> nat) option) option"
    and ok :: "'a \<Rightarrow> bool"
    and content :: "'a \<Rightarrow> (bytes \<times> nat) list"
  assumes read_end: "ok a \<Longrightarrow> content a = [] \<Longrightarrow> \<exists>a'. read a = Some (a', None)"
    and read_next: "ok a \<Longrightarrow> content a = x # xs \<Longrightarrow> \<exists>a'. read a = Some (a', Some x) \<and> ok a' \<and> content a' = xs"
begin

lemma read_cases:
  assumes "ok a" "read a = Some (a', r)"
  shows "(case r of None \<Rightarrow> content a = [] | Some x \<Rightarrow> ok a' \<and> content a = x # content a')"
  using assms read_end [of a] read_next [of a] by (cases "content a") auto

lemma read_defined: "ok a \<Longrightarrow> \<exists>a' r. read a = Some (a', r)"
  using read_end [of a] read_next [of a] by (cases "content a") auto

end

section \<open>RAM adapter\<close>

record ram =
  rm_buf :: bytes
  rm_ptr :: nat
  rm_tot_cnt :: nat
  rm_cur_cnt :: nat
  rm_tot_byte :: nat
  rm_cur_byte :: nat

definition AdapterRAM :: "nat \<Rightarrow> ram" where
  "AdapterRAM buf_size =
     \<lparr>rm_buf = replicate buf_size 0, rm_ptr = 0, rm_tot_cnt = 0, rm_cur_cnt = 0, rm_tot_byte = 0, rm_cur_byte = 0\<rparr>"

definition ram_put :: "bytes \<Rightarrow> ram \<Rightarrow> ram" where
  "ram_put l r =
     r\<lparr>rm_buf := blit (blit (rm_buf r) (rm_ptr r) (le_bytes 4 (of_nat (length l) :: u32))) (rm_ptr r + 4) l,
       rm_ptr := rm_ptr r + 4 + length l, rm_tot_cnt := rm_tot_cnt r + 1, rm_tot_byte := rm_tot_byte r + length l\<rparr>"

function ram_load :: "nat \<Rightarrow> bytes \<Rightarrow> ram \<Rightarrow> ram" where
  "ram_load mx f r =
     (case fgets MAX_RECORD_LENGTH f of
        None \<Rightarrow> r
      | Some (l, f') \<Rightarrow>
          if length (rm_buf r) - rm_ptr r < 4 + length (cstr l) then r
          else (let r1 = ram_put (cstr l) r in if mx \<noteq> 0 \<and> rm_tot_cnt r1 = mx then r1 else ram_load mx f' r1))"
  by pat_completeness auto
termination
  by (relation "measure (\<lambda>(mx, f, r). length f)") (auto simp: MAX_RECORD_LENGTH_def dest: fgets_shorter(2))

declare ram_load.simps [simp del]

definition ram_Init :: "nat \<Rightarrow> nat \<Rightarrow> bytes option \<Rightarrow> ram option" where
  "ram_Init mx buf_size file =
     (if buf_size = 0 then None
      else (case file of None \<Rightarrow> None | Some f \<Rightarrow> Some ((ram_load mx f (AdapterRAM buf_size))\<lparr>rm_ptr := 0\<rparr>)))"

definition ram_ReadRecord :: "ram \<Rightarrow> (ram \<times> (bytes \<times> nat) option) option" where
  "ram_ReadRecord r =
     (if rm_cur_cnt r = rm_tot_cnt r then Some (r, None)
      else do { (x, ptr) \<leftarrow> read_at (rm_buf r) (rm_ptr r);
                Some (r\<lparr>rm_ptr := ptr, rm_cur_cnt := rm_cur_cnt r + 1, rm_cur_byte := rm_cur_byte r + snd x\<rparr>, Some x) })"

text \<open>The lines of a file, as \<open>fgets\<close> cuts it.\<close>

function lines_of :: "bytes \<Rightarrow> bytes list" where
  "lines_of f = (case fgets MAX_RECORD_LENGTH f of None \<Rightarrow> [] | Some (l, f') \<Rightarrow> cstr l # lines_of f')"
  by pat_completeness auto
termination
  by (relation "measure length") (auto simp: MAX_RECORD_LENGTH_def dest: fgets_shorter(2))

declare lines_of.simps [simp del]

definition ram_ok :: "ram \<Rightarrow> bool" where
  "ram_ok r \<longleftrightarrow> rm_cur_cnt r \<le> rm_tot_cnt r \<and> read_items (rm_tot_cnt r - rm_cur_cnt r) (rm_ptr r) (rm_buf r) \<noteq> None"

definition ram_content :: "ram \<Rightarrow> (bytes \<times> nat) list" where
  "ram_content r = the (read_items (rm_tot_cnt r - rm_cur_cnt r) (rm_ptr r) (rm_buf r))"

lemma read_items_length: "read_items n p b = Some xs \<Longrightarrow> length xs = n"
  by (induction n arbitrary: p xs) (auto simp: bind_eq_Some_conv)

interpretation ram_source: record_source ram_ReadRecord ram_ok ram_content
proof
  fix a x xs assume a: "ram_ok a" "ram_content a = x # xs"
  let ?n = "rm_tot_cnt a - rm_cur_cnt a"
  from a have items: "read_items ?n (rm_ptr a) (rm_buf a) = Some (x # xs)" by (auto simp: ram_ok_def ram_content_def)
  have n: "?n = Suc (length xs)" using read_items_length [OF items] by simp
  from items [unfolded n] obtain p where
    p: "read_at (rm_buf a) (rm_ptr a) = Some (x, p)" "read_items (length xs) p (rm_buf a) = Some xs"
    by (auto simp: bind_eq_Some_conv)
  moreover from n have "rm_tot_cnt a - Suc (rm_cur_cnt a) = length xs" "rm_cur_cnt a \<noteq> rm_tot_cnt a" "Suc (rm_cur_cnt a) \<le> rm_tot_cnt a" by linarith+
  ultimately show "\<exists>a'. ram_ReadRecord a = Some (a', Some x) \<and> ram_ok a' \<and> ram_content a' = xs"
    by (simp add: ram_ReadRecord_def ram_ok_def ram_content_def)
next
  fix a assume a: "ram_ok a" "ram_content a = []"
  then have "read_items (rm_tot_cnt a - rm_cur_cnt a) (rm_ptr a) (rm_buf a) = Some []" by (auto simp: ram_ok_def ram_content_def)
  from read_items_length [OF this] a(1) have "rm_cur_cnt a = rm_tot_cnt a" by (simp add: ram_ok_def)
  then show "\<exists>a'. ram_ReadRecord a = Some (a', None)" by (simp add: ram_ReadRecord_def)
qed

text \<open>While loading, the buffer is the image of the lines so far, followed by zeros.\<close>

definition ram_loaded :: "nat \<Rightarrow> bytes list \<Rightarrow> ram \<Rightarrow> bool" where
  "ram_loaded sz ls r \<longleftrightarrow> length (record_image ls) \<le> sz \<and>
     rm_buf r = record_image ls @ replicate (sz - length (record_image ls)) 0 \<and>
     rm_ptr r = length (record_image ls) \<and> rm_tot_cnt r = length ls \<and> rm_cur_cnt r = 0"

lemma ram_put_loaded:
  assumes "ram_loaded sz ls r" "4 + length l \<le> length (rm_buf r) - rm_ptr r"
  shows "ram_loaded sz (ls @ [l]) (ram_put l r)"
proof -
  let ?w = "le_bytes 4 (of_nat (length l) :: u32)" and ?i = "record_image ls"
  have r: "length ?i \<le> sz" "rm_buf r = ?i @ replicate (sz - length ?i) 0" "rm_ptr r = length ?i" "rm_tot_cnt r = length ls" "rm_cur_cnt r = 0"
    using assms(1) by (simp_all add: ram_loaded_def)
  then have fit: "length ?i + 4 + length l \<le> sz" using assms(2) by simp
  have "blit (blit (rm_buf r) (rm_ptr r) ?w) (rm_ptr r + 4) l = blit (rm_buf r) (rm_ptr r) (?w @ l)"
    using blit_append [of "rm_ptr r" ?w l "rm_buf r"] fit r(2,3) by simp
  also have "\<dots> = ?i @ ?w @ l @ replicate (sz - (length ?i + 4 + length l)) 0"
    using fit r(2,3) by (simp add: blit_eq)
  finally show ?thesis using fit r by (simp add: ram_loaded_def ram_put_def ac_simps)
qed

lemma ram_load_lines:
  assumes "ram_loaded sz ls r" "mx = 0 \<or> length ls < mx"
  shows "\<exists>k. ram_loaded sz (ls @ take k (lines_of f)) (ram_load mx f r) \<and> k \<le> length (lines_of f) \<and>
    (mx \<noteq> 0 \<longrightarrow> length ls + k \<le> mx) \<and>
    (k = length (lines_of f) \<or> mx \<noteq> 0 \<and> length ls + k = mx \<or> sz < length (record_image (ls @ take (Suc k) (lines_of f))))"
  using assms
proof (induction "length f" arbitrary: f ls r rule: less_induct)
  case less
  show ?case
  proof (cases "fgets MAX_RECORD_LENGTH f")
    case None
    then show ?thesis using less.prems(1,2) by (intro exI [of _ 0]) (auto simp: ram_load.simps lines_of.simps)
  next
    case (Some y)
    then obtain l f' where g: "fgets MAX_RECORD_LENGTH f = Some (l, f')" by (cases y) simp
    let ?l = "cstr l"
    have ls: "lines_of f = ?l # lines_of f'" using g by (simp add: lines_of.simps [of f])
    have room: "length (rm_buf r) - rm_ptr r = sz - length (record_image ls)" "length (record_image ls) \<le> sz"
      using less.prems(1) by (simp_all add: ram_loaded_def)
    show ?thesis
    proof (cases "length (rm_buf r) - rm_ptr r < 4 + length ?l")
      case True
      then have "ram_load mx f r = r" using g by (simp add: ram_load.simps [of mx f])
      moreover have "sz < length (record_image (ls @ [?l]))" using True room by simp
      ultimately show ?thesis using less.prems(1,2) ls by (intro exI [of _ 0]) auto
    next
      case False
      let ?r = "ram_put ?l r"
      have put: "ram_loaded sz (ls @ [?l]) ?r" using ram_put_loaded [OF less.prems(1)] False by simp
      have cnt: "rm_tot_cnt ?r = Suc (length ls)" using put by (simp add: ram_loaded_def)
      show ?thesis
      proof (cases "mx \<noteq> 0 \<and> Suc (length ls) = mx")
        case True
        then have "ram_load mx f r = ?r" using g False cnt by (simp add: ram_load.simps [of mx f] Let_def)
        then show ?thesis using put True ls by (intro exI [of _ 1]) auto
      next
        case no: False
        then have e: "ram_load mx f r = ram_load mx f' ?r" using g False cnt by (auto simp: ram_load.simps [of mx f] Let_def)
        have "mx = 0 \<or> length (ls @ [?l]) < mx" using no less.prems(2) by auto
        from less.hyps [OF _ put this] fgets_shorter(2) [OF g] obtain k where
          "ram_loaded sz ((ls @ [?l]) @ take k (lines_of f')) (ram_load mx f' ?r)" "k \<le> length (lines_of f')" "mx \<noteq> 0 \<longrightarrow> length (ls @ [?l]) + k \<le> mx"
          "k = length (lines_of f') \<or> mx \<noteq> 0 \<and> length (ls @ [?l]) + k = mx \<or> sz < length (record_image ((ls @ [?l]) @ take (Suc k) (lines_of f')))"
          by (auto simp: MAX_RECORD_LENGTH_def)
        then show ?thesis using e ls by (intro exI [of _ "Suc k"]) auto
      qed
    qed
  qed
qed

lemma lines_short: "l \<in> set (lines_of f) \<Longrightarrow> length l < MAX_RECORD_LENGTH"
proof (induction f rule: lines_of.induct)
  case (1 f)
  show ?case
  proof (cases "fgets MAX_RECORD_LENGTH f")
    case (Some y)
    then obtain l' f' where g: "fgets MAX_RECORD_LENGTH f = Some (l', f')" by (cases y) simp
    have "length (cstr l') \<le> length l'" by (simp add: cstr_def length_takeWhile_le)
    with fgets_shorter(3) [OF g] 1 g show ?thesis by (auto simp: lines_of.simps [of f] MAX_RECORD_LENGTH_def)
  qed (use 1 in \<open>simp add: lines_of.simps [of f]\<close>)
qed

section \<open>Disk adapter\<close>

text \<open>The length of a record is not set: \<open>len\<close> is what was there. \<open>cnt\<close> is not initialised by the constructor.\<close>

record disk =
  dk_file :: bytes
  dk_buf :: bytes
  dk_max :: u64
  dk_cnt :: u64

definition disk_Init :: "u64 \<Rightarrow> bytes \<Rightarrow> u64 \<Rightarrow> bytes option \<Rightarrow> disk option" where
  "disk_Init cnt junk mx file =
     map_option (\<lambda>f. \<lparr>dk_file = f, dk_buf = junk, dk_max = mx, dk_cnt = cnt\<rparr>) file"

definition disk_line :: "disk \<Rightarrow> disk" where
  "disk_line d =
     (case fgets MAX_RECORD_LENGTH (dk_file d) of
        None \<Rightarrow> d
      | Some (l, f') \<Rightarrow> d\<lparr>dk_file := f', dk_buf := blit (dk_buf d) 0 (l @ [0])\<rparr>)"

definition disk_ReadRecord :: "nat \<Rightarrow> disk \<Rightarrow> (disk \<times> (bytes \<times> nat) option) option" where
  "disk_ReadRecord len d =
     (let d1 = disk_line d in
      Some (if dk_max d1 \<noteq> 0 \<and> dk_cnt d1 = dk_max d1 then (d1, None)
            else (d1\<lparr>dk_cnt := dk_cnt d1 + 1\<rparr>, Some (dk_buf d1, len))))"

fun disk_items :: "nat \<Rightarrow> nat \<Rightarrow> disk \<Rightarrow> (bytes \<times> nat) list" where
  "disk_items len 0 d = []"
| "disk_items len (Suc n) d =
     (let d1 = disk_line d in (dk_buf d1, len) # disk_items len n (d1\<lparr>dk_cnt := dk_cnt d1 + 1\<rparr>))"

definition disk_ok :: "disk \<Rightarrow> bool" where
  "disk_ok d \<longleftrightarrow> dk_max d \<noteq> 0 \<and> dk_cnt d \<le> dk_max d"

definition disk_content :: "nat \<Rightarrow> disk \<Rightarrow> (bytes \<times> nat) list" where
  "disk_content len d = disk_items len (unat (dk_max d - dk_cnt d)) d"

lemma disk_line_same: "dk_max (disk_line d) = dk_max d" "dk_cnt (disk_line d) = dk_cnt d"
  by (auto simp: disk_line_def split: option.splits)

lemma length_disk_items: "length (disk_items len n d) = n"
  by (induction n arbitrary: d) (simp_all add: Let_def)

interpretation disk_source: record_source "disk_ReadRecord len" disk_ok "disk_content len" for len
proof
  fix d assume d: "disk_ok d" "disk_content len d = []"
  then have "unat (dk_max d - dk_cnt d) = 0" using length_disk_items [of len "unat (dk_max d - dk_cnt d)" d] by (simp add: disk_content_def)
  then have "dk_cnt d = dk_max d" by (simp add: unat_eq_0)
  then show "\<exists>d'. disk_ReadRecord len d = Some (d', None)" using d(1) by (simp add: disk_ReadRecord_def disk_line_same Let_def disk_ok_def)
next
  fix d x xs assume d: "disk_ok d" "disk_content len d = x # xs"
  let ?n = "unat (dk_max d - dk_cnt d)"
  have n: "?n = Suc (length xs)" using length_disk_items [of len ?n d] d(2) by (simp add: disk_content_def)
  then have "dk_max d - dk_cnt d \<noteq> 0" by auto
  then have lt: "dk_cnt d < dk_max d" using d(1) by (auto simp: disk_ok_def)
  then have "unat (dk_cnt d) < unat (dk_max d)" by (simp add: word_less_nat_alt)
  moreover have "unat (dk_max d) < 2 ^ 64" using unsigned_less [of "dk_max d", where 'a = nat] by simp
  ultimately have u: "unat (dk_cnt d + 1) = Suc (unat (dk_cnt d))" by (simp add: unat_word_ariths)
  then have le: "dk_cnt d + 1 \<le> dk_max d" using \<open>unat (dk_cnt d) < unat (dk_max d)\<close> by (simp add: word_le_nat_alt)
  then have "unat (dk_max d - (dk_cnt d + 1)) = unat (dk_max d) - Suc (unat (dk_cnt d))" using u by (simp add: unat_sub)
  also have "\<dots> = length xs" using n lt by (simp add: unat_sub)
  finally have r: "unat (dk_max d - (dk_cnt d + 1)) = length xs" .
  from d(2) n have "x = (dk_buf (disk_line d), len)" "xs = disk_items len (length xs) ((disk_line d)\<lparr>dk_cnt := dk_cnt d + 1\<rparr>)"
    by (simp_all add: disk_content_def Let_def disk_line_same)
  then show "\<exists>d'. disk_ReadRecord len d = Some (d', Some x) \<and> disk_ok d' \<and> disk_content len d' = xs"
    using lt le r d(1) by (auto simp: disk_ReadRecord_def disk_line_same Let_def disk_ok_def disk_content_def)
qed

fun disk_reads :: "nat \<Rightarrow> nat \<Rightarrow> disk \<Rightarrow> (bytes \<times> nat) option list" where
  "disk_reads len 0 d = []"
| "disk_reads len (Suc n) d = (case disk_ReadRecord len d of None \<Rightarrow> [] | Some (d', x) \<Rightarrow> x # disk_reads len n d')"

section \<open>Recovery adapter\<close>

record rec_adapter =
  rv_buf :: bytes
  rv_size :: nat
  rv_ptr :: nat

definition BLK_SIZE :: u32 where "BLK_SIZE = 4096"

definition align :: "u32 \<Rightarrow> u32 \<Rightarrow> u32" where
  "align orig_size blk_size = (if orig_size mod blk_size = 0 then orig_size else blk_size * (orig_size div blk_size + 1))"

fun u64s :: "nat \<Rightarrow> bytes \<Rightarrow> u64 list" where
  "u64s 0 bs = []"
| "u64s (Suc n) bs = le_load (take 8 bs) # u64s n (drop 8 bs)"

fun find_start :: "nat \<Rightarrow> nat \<Rightarrow> u64 \<Rightarrow> u64 list \<Rightarrow> nat" where
  "find_start i start last_seq [] = start"
| "find_start i start last_seq (cur_seq # seqs) =
     (if cur_seq - last_seq = 1 then find_start (i + 1) start cur_seq seqs else find_start (i + 1) i cur_seq seqs)"

fun skip_records :: "nat \<Rightarrow> nat \<Rightarrow> bytes \<Rightarrow> nat option" where
  "skip_records 0 ptr buf = Some ptr"
| "skip_records (Suc n) ptr buf = do { (x, ptr1) \<leftarrow> read_at buf ptr; skip_records n ptr1 buf }"

text \<open>The assertions after \<open>fread\<close> assign instead of comparing, so a short read is not noticed; here the files are read whole. An
  empty sequence file with data makes the code read behind an empty allocation.\<close>

definition rec_Init :: "bytes \<Rightarrow> bytes \<Rightarrow> rec_adapter option" where
  "rec_Init data seq =
     (if data = [] then Some \<lparr>rv_buf = [], rv_size = 0, rv_ptr = 0\<rparr>
      else
        (let n = unat (align (of_nat (length data)) BLK_SIZE); m = unat (align (of_nat (length seq)) BLK_SIZE) in
         if length seq mod 8 \<noteq> 0 \<or> n < length data \<or> m < length seq then None
         else
           (let buf = data @ replicate (n - length data) 0 in
            case u64s (length seq div 8) seq of
              [] \<Rightarrow> None
            | s # seqs \<Rightarrow>
                do { ptr \<leftarrow> skip_records (find_start 1 0 s seqs) 0 buf;
                     Some \<lparr>rv_buf = buf, rv_size = length data, rv_ptr = ptr\<rparr> })))"

definition rec_ReadRecord :: "rec_adapter \<Rightarrow> (rec_adapter \<times> (bytes \<times> nat) option) option" where
  "rec_ReadRecord r =
     (if rv_ptr r = rv_size r then Some (r, None)
      else do { (x, ptr) \<leftarrow> read_at (rv_buf r) (rv_ptr r); Some (r\<lparr>rv_ptr := ptr\<rparr>, Some x) })"

lemma read_at_advances: "read_at b p = Some (x, p') \<Longrightarrow> p < p'"
  by (auto simp: read_at_def Let_def split: if_splits)

function rec_items :: "rec_adapter \<Rightarrow> (bytes \<times> nat) list option" where
  "rec_items r =
     (if rv_size r \<le> rv_ptr r then (if rv_ptr r = rv_size r then Some [] else None)
      else (case read_at (rv_buf r) (rv_ptr r) of
              None \<Rightarrow> None
            | Some (x, ptr) \<Rightarrow> map_option ((#) x) (rec_items (r\<lparr>rv_ptr := ptr\<rparr>))))"
  by pat_completeness auto
termination
  by (relation "measure (\<lambda>r. rv_size r - rv_ptr r)") (auto dest: read_at_advances intro: diff_less_mono2)

declare rec_items.simps [simp del]

interpretation rec_source: record_source rec_ReadRecord "\<lambda>r. rec_items r \<noteq> None" "\<lambda>r. the (rec_items r)"
proof
  fix r assume "rec_items r \<noteq> None" "the (rec_items r) = []"
  then show "\<exists>r'. rec_ReadRecord r = Some (r', None)"
    by (simp add: rec_items.simps [of r] rec_ReadRecord_def split: if_splits option.splits prod.splits)
next
  fix r x xs assume "rec_items r \<noteq> None" "the (rec_items r) = x # xs"
  then have "rec_items r = Some (x # xs)" by auto
  then show "\<exists>r'. rec_ReadRecord r = Some (r', Some x) \<and> rec_items r' \<noteq> None \<and> the (rec_items r') = xs"
    by (auto simp: rec_items.simps [of r] rec_ReadRecord_def split: if_splits option.splits prod.splits)
qed

section \<open>Router\<close>

record router_rr =
  rr_cur :: int
  rr_max :: int

definition RouterRR :: "int \<Rightarrow> router_rr" where
  "RouterRR mx = \<lparr>rr_cur = -1, rr_max = mx\<rparr>"

definition rr_GetDestination :: "router_rr \<Rightarrow> (router_rr \<times> int) option" where
  "rr_GetDestination r =
     (if rr_max r = 0 then None
      else (let c = (rr_cur r + 1) mod rr_max r in Some (r\<lparr>rr_cur := c\<rparr>, c)))"

section \<open>Properties\<close>

text \<open>The next record is where the last one ended.\<close>

lemma skip_records_image:
  assumes "\<forall>r\<in>set rs. length r < 2 ^ 32"
  shows "skip_records (length rs) (length pre) (pre @ record_image rs @ post) = Some (length (pre @ record_image rs))"
  using assms
proof (induction rs arbitrary: pre)
  case (Cons r rs)
  let ?l = "le_bytes 4 (of_nat (length r) :: u32)"
  from Cons.IH [of "pre @ ?l @ r"] Cons.prems read_at_record [of r pre "record_image rs @ post"] show ?case by (simp add: ac_simps)
qed simp

lemma rec_items_image:
  assumes "\<forall>r\<in>set rs. length r < 2 ^ 32" "rv_buf a = pre @ record_image rs @ post" "rv_ptr a = length pre" "rv_size a = length (pre @ record_image rs)"
  shows "\<exists>xs. rec_items a = Some xs \<and> map (\<lambda>(m, len). take len m) xs = rs"
  using assms
proof (induction rs arbitrary: pre a)
  case Nil
  then show ?case by (simp add: rec_items.simps [of a])
next
  case (Cons r rs)
  let ?l = "le_bytes 4 (of_nat (length r) :: u32)"
  let ?p = "length pre + 4 + length r"
  have at: "read_at (rv_buf a) (rv_ptr a) = Some ((r @ record_image rs @ post, length r), ?p)"
    using read_at_record [of r pre "record_image rs @ post"] Cons.prems by simp
  from Cons.IH [of "a\<lparr>rv_ptr := ?p\<rparr>" "pre @ ?l @ r"] Cons.prems obtain xs where
    "rec_items (a\<lparr>rv_ptr := ?p\<rparr>) = Some xs" "map (\<lambda>(m, len). take len m) xs = rs" by auto
  then show ?case using at Cons.prems(3,4) by (simp add: rec_items.simps [of a])
qed

text \<open>\<open>start\<close> is the beginning of the last run of consecutive sequence numbers.\<close>

definition last_run :: "u64 list \<Rightarrow> nat \<Rightarrow> bool" where
  "last_run seqs start \<longleftrightarrow> start < length seqs \<and> successively (\<lambda>x y. y - x = 1) (drop start seqs) \<and>
     (start = 0 \<or> seqs ! start - seqs ! (start - 1) \<noteq> 1)"

lemma find_start_run:
  assumes "last_run pre start" "i = length pre" "x = last pre"
  shows "last_run (pre @ seqs) (find_start i start x seqs)"
  using assms
proof (induction seqs arbitrary: pre start i x)
  case (Cons c cs)
  have pre: "pre \<noteq> []" "start < length pre" "last (drop start pre) = last pre" using Cons.prems(1) by (auto simp: last_run_def)
  have step: "last_run (pre @ [c]) (if c - x = 1 then start else i)"
  proof (cases "c - x = 1")
    case True
    have "successively (\<lambda>x y. y - x = 1) (drop start pre @ [c])"
      using Cons.prems(1,3) True pre(2,3) by (auto simp: last_run_def successively_append_iff)
    moreover have "start = 0 \<or> (pre @ [c]) ! start - (pre @ [c]) ! (start - 1) \<noteq> 1"
      using Cons.prems(1) pre(2) by (auto simp: last_run_def nth_append)
    ultimately show ?thesis using True pre(2) by (simp add: last_run_def)
  next
    case False
    then show ?thesis using Cons.prems(2,3) pre(1) by (auto simp: last_run_def nth_append last_conv_nth)
  qed
  from Cons.IH [OF step, of "Suc i" c] Cons.prems(2) show ?case by (auto split: if_splits)
qed simp

lemma u64s_image: "u64s (length seqs) (concat (map (le_bytes 8) seqs)) = (seqs :: u64 list)"
  by (induction seqs) (simp_all add: le_load_le_bytes)

lemma length_u64_image: "length (concat (map (le_bytes 8) (seqs :: u64 list))) = 8 * length seqs"
  by (induction seqs) simp_all

lemma align_ge:
  assumes "n + 4096 < 2 ^ 32"
  shows "n \<le> unat (align (of_nat n) BLK_SIZE)"
proof -
  let ?m = "of_nat n :: u32"
  have n: "unat ?m = n" using assms by (intro unat_of_nat_u32) simp
  have d: "unat (?m div 4096) = n div 4096" using n by (simp add: unat_div)
  have b: "n < 4096 * (n div 4096 + 1)" "4096 * (n div 4096 + 1) < 2 ^ 32" using assms by simp_all
  have "unat (?m div 4096 + 1) = n div 4096 + 1" using b(2) d by (simp add: unat_word_ariths)
  moreover have "unat (4096 * w) = 4096 * unat w mod 2 ^ 32" for w :: u32 by (simp add: unat_word_ariths)
  ultimately have "unat (4096 * (?m div 4096 + 1)) = 4096 * (n div 4096 + 1)" using b(2) by (simp only: mod_less)
  with b(1) n show ?thesis by (simp add: align_def BLK_SIZE_def)
qed



text \<open>After a crash the recovery adapter resumes at the right record: it gives exactly the saved records from the beginning of the last run of consecutive sequence numbers.\<close>

theorem recovery_adapter_resumes:
  assumes "rs \<noteq> []" "length seqs = length rs" "length (record_image rs) + 4096 < 2 ^ 32" "8 * length seqs + 4096 < 2 ^ 32"
  shows "\<exists>a start xs. rec_Init (record_image rs) (concat (map (le_bytes 8) seqs)) = Some a \<and> last_run seqs start \<and>
    rec_items a = Some xs \<and> map (\<lambda>(m, len). take len m) xs = drop start rs"
proof -
  let ?data = "record_image rs" and ?seq = "concat (map (le_bytes 8) seqs)"
  obtain s ss where s: "seqs = s # ss" using assms(1,2) by (cases seqs) auto
  define start where "start = find_start (Suc 0) 0 s ss"
  define post where "post = (replicate (unat (align (of_nat (length ?data)) BLK_SIZE) - length ?data) 0 :: bytes)"
  have run: "last_run seqs start" unfolding s start_def
  proof -
    have "last_run [s] 0" by (simp add: last_run_def)
    from find_start_run [OF this, of "Suc 0" s ss] show "last_run (s # ss) (find_start (Suc 0) 0 s ss)" by simp
  qed
  have "length r \<le> length ?data" if "r \<in> set rs" for r
    using that by (induction rs) auto
  then have short: "\<forall>r\<in>set rs. length r < 2 ^ 32" using assms(3) by fastforce
  have split: "?data = record_image (take start rs) @ record_image (drop start rs)"
    by (metis append_take_drop_id record_image_simps(3))
  have len: "length (take start rs) = start" using run assms(2) by (simp add: last_run_def)
  have sk: "skip_records start 0 (?data @ post) = Some (length (record_image (take start rs)))"
    using skip_records_image [of "take start rs" "[]" "record_image (drop start rs) @ post"] short len split by (auto dest: in_set_takeD)
  have al: "length ?data \<le> unat (align (of_nat (length ?data)) BLK_SIZE)" "length ?seq \<le> unat (align (of_nat (length ?seq)) BLK_SIZE)"
    using align_ge [OF assms(3)] align_ge [of "length ?seq"] assms(4) by (simp_all add: length_u64_image)
  have "length ?data \<noteq> 0" using assms(1) by (cases rs) simp_all
  then have ne: "?data \<noteq> []" by simp
  let ?a = "\<lparr>rv_buf = ?data @ post, rv_size = length ?data, rv_ptr = length (record_image (take start rs))\<rparr>"
  have "u64s (length ?seq div 8) ?seq = s # ss" using u64s_image [of seqs] by (simp add: length_u64_image s)
  then have i: "rec_Init ?data ?seq = Some ?a"
    using ne al sk length_u64_image [of seqs] by (simp add: rec_Init_def Let_def post_def [symmetric] start_def [symmetric] not_less)
  from rec_items_image [of "drop start rs" ?a "record_image (take start rs)" post] short split obtain xs where
    "rec_items ?a = Some xs" "map (\<lambda>(m, len). take len m) xs = drop start rs" by (auto dest: in_set_dropD)
  with i run show ?thesis by blast
qed

theorem recovery_adapter_resumes_witness:
  "\<exists>a start xs. rec_Init (record_image [[1], [2, 3], [4]]) (concat (map (le_bytes 8) [1 :: u64, 5, 6])) = Some a \<and> last_run [1, 5, 6] start \<and>
    rec_items a = Some xs \<and> map (\<lambda>(m, len). take len m) xs = drop start [[1], [2, 3], [4]]"
  using recovery_adapter_resumes [of "[[1], [2, 3], [4]]" "[1, 5, 6]"] by simp

text \<open>Without a limit the disk adapter never reports the end of its file: every call of \<open>ReadRecord\<close> gives a record, and after the end of the file it is
  the last line, again and again.\<close>

theorem disk_adapter_never_ends:
  assumes "dk_max d = 0"
  shows "length (disk_reads len n d) = n \<and> None \<notin> set (disk_reads len n d) \<and>
    (dk_file d = [] \<longrightarrow> disk_reads len n d = replicate n (Some (dk_buf d, len)))"
  using assms
proof (induction n arbitrary: d)
  case (Suc n)
  let ?d = "(disk_line d)\<lparr>dk_cnt := dk_cnt d + 1\<rparr>"
  have "dk_max ?d = 0" using Suc.prems by (simp add: disk_line_same)
  from Suc.IH [OF this] Suc.prems show ?case
    by (auto simp: disk_ReadRecord_def Let_def disk_line_same disk_line_def fgets_def)
qed simp

theorem disk_adapter_never_ends_witness:
  "disk_reads 0 3 \<lparr>dk_file = [], dk_buf = [97, 10, 0], dk_max = 0, dk_cnt = 0\<rparr> = replicate 3 (Some ([97, 10, 0], 0))"
  using disk_adapter_never_ends [of "\<lparr>dk_file = [], dk_buf = [97, 10, 0], dk_max = 0, dk_cnt = 0\<rparr>" 0 3] by simp

end
