(* ===== verification/Trace.thy ===== *)
theory Trace
  imports Callbacks Adapters
begin

text \<open>
  The up thread that reads a trace: \<open>src/thread/up_thread_trace.hpp\<close>. It takes records from an adapter (theory \<open>Adapters\<close>) and writes
  them to the input queues of the compute threads, round robin, then one end mark to each queue. Thread and consumers are
  interleaved: a step of the thread is one record or one end mark, and it blocks while the queue is full.

  What the thread relies on are two interfaces: the adapter, locale \<open>record_source\<close>, and the assignment operator of the record type,
  locale \<open>record_type\<close>; \<open>trace_thread\<close> combines them. It is interpreted for the RAM adapter and \<open>RawItem\<close> (\<open>src/raw_item.hpp\<close>), the types
  the heavy-hitter application uses.

  Proved: every compute thread gets exactly its rr_share of the lines of the file and then the end mark, whatever the interleaving, and the
  thread is never stuck while the compute threads read.
\<close>

section \<open>RawItem\<close>

text \<open>\<open>operator=\<close> copies \<open>strlen\<close> bytes without the terminating zero; what is behind them in the target stays.\<close>

definition raw_assign :: "bytes \<Rightarrow> bytes \<Rightarrow> bytes option" where
  "raw_assign old m =
     (let n = length (cstr m) in
      if n = length m \<or> MAX_RECORD_LENGTH < n then None else Some (blit old 0 (take n m)))"

section \<open>The thread\<close>

datatype tr_phase = Reading | Finishing nat | Finished

record ('a, 'i) trace =
  tr_adapter :: 'a
  tr_router :: router_rr
  tr_queues :: "'i wrap rb list"
  tr_event :: u64
  tr_phase :: tr_phase

definition UpThreadTrace :: "router_rr \<Rightarrow> 'a \<Rightarrow> ('a, 'i) trace" where
  "UpThreadTrace router adapter = \<lparr>tr_adapter = adapter, tr_router = router, tr_queues = [], tr_event = 0, tr_phase = Reading\<rparr>"

definition tr_AddOutQueue :: "'i wrap rb \<Rightarrow> ('a, 'i) trace \<Rightarrow> ('a, 'i) trace" where
  "tr_AddOutQueue q t = t\<lparr>tr_queues := tr_queues t @ [q]\<rparr>"

definition tr_SetAdapter :: "'a \<Rightarrow> ('a, 'i) trace \<Rightarrow> ('a, 'i) trace" where
  "tr_SetAdapter adapter t = t\<lparr>tr_adapter := adapter\<rparr>"

text \<open>The choice of the adapter: one that was set is used, else the configuration names a built-in one, and its \<open>Init\<close> must succeed. \<open>cnt\<close> and \<open>junk\<close> are
  uninitialised members of the disk adapter.\<close>

datatype adapter = Ram ram | Disk disk

definition tr_ThreadInitHandler ::
  "string option \<Rightarrow> adapter option \<Rightarrow> nat \<Rightarrow> nat \<Rightarrow> u64 \<Rightarrow> bytes \<Rightarrow> bytes option \<Rightarrow> adapter option" where
  "tr_ThreadInitHandler adapter_type set_adapter mx buf_size cnt junk file =
     (case adapter_type of
        None \<Rightarrow> None
      | Some ty \<Rightarrow>
          (case set_adapter of
             Some (Ram r) \<Rightarrow> map_option Ram (ram_Init mx buf_size file)
           | Some (Disk d) \<Rightarrow> map_option Disk (disk_Init (dk_cnt d) (dk_buf d) (of_nat mx) file)
           | None \<Rightarrow>
               if ty = ''ram'' then map_option Ram (ram_Init mx buf_size file)
               else if ty = ''disk'' then map_option Disk (disk_Init cnt junk (of_nat mx) file)
               else None))"

text \<open>A slot keeps its source and sequence number from its last use.\<close>

definition tr_Emit :: "('i \<Rightarrow> bytes \<Rightarrow> 'i option) \<Rightarrow> bytes \<Rightarrow> 'i wrap rb \<Rightarrow> 'i wrap rb call" where
  "tr_Emit assign mem q =
     (case GetSlot q of
        None \<Rightarrow> Blocks
      | Some (q1, p) \<Rightarrow>
          (let slot = rb_buffer q1 ! p in
           case assign (i_data slot) mem of
             None \<Rightarrow> Out_of_range
           | Some d \<Rightarrow> Returned (CompleteWrite (rb_store p (slot\<lparr>i_type := ITEM_NORMAL, i_data := d\<rparr>) q1))))"

definition tr_finish :: "'i wrap \<Rightarrow> 'i wrap" where
  "tr_finish junk = (WrapItem junk)\<lparr>i_type := ITEM_FINISH\<rparr>"

text \<open>One step: a record, one end mark, or the final flush. When the queue is full the thread waits in \<open>GetSlot\<close>; nothing it did before is
  visible to others, so the record is taken from the adapter when the slot is there.\<close>

definition tr_read :: "('a \<Rightarrow> ('a \<times> (bytes \<times> nat) option) option) \<Rightarrow> ('i \<Rightarrow> bytes \<Rightarrow> 'i option) \<Rightarrow> ('a, 'i) trace \<Rightarrow> ('a, 'i) trace call" where
  "tr_read rd assign t =
     (case rd (tr_adapter t) of
        None \<Rightarrow> Out_of_range
      | Some (a, None) \<Rightarrow> Returned (t\<lparr>tr_adapter := a, tr_phase := Finishing 0\<rparr>)
      | Some (a, Some (mem, len)) \<Rightarrow>
          (case rr_GetDestination (tr_router t) of
             None \<Rightarrow> Out_of_range
           | Some (r, d) \<Rightarrow>
               if 0 \<le> d \<and> nat d < length (tr_queues t) then
                 (case tr_Emit assign mem (tr_queues t ! nat d) of
                    Returned q \<Rightarrow>
                      Returned (t\<lparr>tr_adapter := a, tr_router := r, tr_queues := (tr_queues t)[nat d := q], tr_event := tr_event t + 1\<rparr>)
                  | Blocks \<Rightarrow> Blocks
                  | Out_of_range \<Rightarrow> Out_of_range)
               else Out_of_range))"

definition tr_step ::
  "('a \<Rightarrow> ('a \<times> (bytes \<times> nat) option) option) \<Rightarrow> ('i \<Rightarrow> bytes \<Rightarrow> 'i option) \<Rightarrow> 'i wrap \<Rightarrow> ('a, 'i) trace \<Rightarrow> ('a, 'i) trace call" where
  "tr_step rd assign junk t =
     (case tr_phase t of
        Reading \<Rightarrow> tr_read rd assign t
      | Finishing k \<Rightarrow>
          if k < length (tr_queues t) then
            (case Insert (tr_finish junk) (tr_queues t ! k) of
               None \<Rightarrow> Blocks
             | Some q \<Rightarrow> Returned (t\<lparr>tr_queues := (tr_queues t)[k := q], tr_phase := Finishing (Suc k)\<rparr>))
          else Returned (t\<lparr>tr_queues := map Flush (tr_queues t), tr_phase := Finished\<rparr>)
      | Finished \<Rightarrow> Returned t)"

definition tr_start :: "'a \<Rightarrow> 'i wrap rb list \<Rightarrow> ('a, 'i) trace" where
  "tr_start a qs = fold tr_AddOutQueue qs (UpThreadTrace (RouterRR (int (length qs))) a)"

text \<open>The thread and the compute threads interleaved; \<open>taken ! j\<close> is what compute thread \<open>j\<close> has extracted.\<close>

inductive trace_run ::
  "('a \<Rightarrow> ('a \<times> (bytes \<times> nat) option) option) \<Rightarrow> ('i \<Rightarrow> bytes \<Rightarrow> 'i option) \<Rightarrow> 'i wrap \<Rightarrow> 'a \<Rightarrow> 'i wrap rb list \<Rightarrow>
   ('a, 'i) trace \<Rightarrow> 'i wrap list list \<Rightarrow> bool"
  for rd :: "'a \<Rightarrow> ('a \<times> (bytes \<times> nat) option) option" and assign :: "'i \<Rightarrow> bytes \<Rightarrow> 'i option" and junk :: "'i wrap" and a :: 'a
    and qs :: "'i wrap rb list" where
  tr_begins: "trace_run rd assign junk a qs (tr_start a qs) (replicate (length qs) [])"
| tr_steps: "trace_run rd assign junk a qs t taken \<Longrightarrow> tr_step rd assign junk t = Returned t' \<Longrightarrow> trace_run rd assign junk a qs t' taken"
| tr_takes: "trace_run rd assign junk a qs t taken \<Longrightarrow> j < length (tr_queues t) \<Longrightarrow> ext_ack (tr_queues t ! j) = (q, x) \<Longrightarrow>
    trace_run rd assign junk a qs (t\<lparr>tr_queues := (tr_queues t)[j := q]\<rparr>)
      (case x of None \<Rightarrow> taken | Some r \<Rightarrow> taken[j := taken ! j @ [r]])"

section \<open>What a compute thread gets\<close>

definition rr_share :: "nat \<Rightarrow> nat \<Rightarrow> 'v list \<Rightarrow> 'v list" where
  "rr_share n j vs = map snd (filter (\<lambda>(i, v). i mod n = j) (enumerate 0 vs))"

lemma rr_share_snoc: "rr_share n j (vs @ [v]) = rr_share n j vs @ (if length vs mod n = j then [v] else [])"
  by (simp add: rr_share_def enumerate_append_eq)

lemma rr_share_Nil [simp]: "rr_share n j [] = []"
  by (simp add: rr_share_def)

definition item_view :: "('i \<Rightarrow> 'v) \<Rightarrow> 'i wrap \<Rightarrow> 'v option" where
  "item_view val r = (if i_type r = ITEM_FINISH then None else Some (val (i_data r)))"

text \<open>The queues that have their end mark.\<close>

definition tr_marked :: "('a, 'i) trace \<Rightarrow> nat \<Rightarrow> bool" where
  "tr_marked t j \<longleftrightarrow> (case tr_phase t of Reading \<Rightarrow> False | Finishing k \<Rightarrow> j < k | Finished \<Rightarrow> True)"

lemma tr_start_eq:
  "tr_start a qs = \<lparr>tr_adapter = a, tr_router = RouterRR (int (length qs)), tr_queues = qs, tr_event = 0, tr_phase = Reading\<rparr>"
proof -
  have "fold tr_AddOutQueue qs t = t\<lparr>tr_queues := tr_queues t @ qs\<rparr>" for t :: "('a, 'b) trace"
    by (induction qs arbitrary: t) (simp_all add: tr_AddOutQueue_def)
  then show ?thesis by (simp add: tr_start_def UpThreadTrace_def)
qed

lemma ext_ack_buffer: "ext_ack q = (q', x) \<Longrightarrow> rb_buffer q' = rb_buffer q"
  by (auto simp: ext_ack_def Extract_def Ack_def Let_def split: if_splits prod.splits option.splits)

lemma full_can_extract:
  assumes "rb_inv q" "GetSlot q = None"
  shows "snd (ext_ack q) \<noteq> None"
proof -
  from assms(1) obtain Rl Rp R Wl Wp W where r: "rb_rel q Rl Rp R Wl Wp W" by (auto simp: rb_inv_def)
  have "Suc W = Rp + RB_SIZE" by (rule GetSlot_None [OF r assms(2)])
  moreover have "R - Rp < RB_BATCH" "W - Wp < RB_BATCH" "Rp \<le> R" "R \<le> W" "Wp \<le> W" using r by (auto simp: rb_rel_def)
  ultimately have "R \<noteq> Wp" by (simp add: RB_SIZE_def RB_BATCH_def)
  then have "snd (Extract q) \<noteq> None" using Extract_None(2) [OF r] by (cases "Extract q") auto
  then show ?thesis by (auto simp: ext_ack_def split: prod.splits)
qed

text \<open>\<open>I\<close> holds of the records in all slots.\<close>

definition slots_ok :: "('i \<Rightarrow> bool) \<Rightarrow> 'i wrap rb \<Rightarrow> bool" where
  "slots_ok I q \<longleftrightarrow> rb_inv q \<and> (\<forall>s\<in>set (rb_buffer q). I (i_data s))"

lemma Insert_slots:
  assumes "slots_ok I q" "I (i_data x)" "Insert x q = Some q'"
  shows "slots_ok I q'" "rb_cont q' = rb_cont q @ [x]"
proof -
  have "set (rb_buffer q') \<subseteq> Set.insert x (set (rb_buffer q))"
    using assms(3) by (auto simp: Insert_def Let_def split: if_splits dest!: set_update_subset_insert [THEN subsetD])
  then show "slots_ok I q'" "rb_cont q' = rb_cont q @ [x]"
    using assms Insert_cont [OF _ assms(3)] by (auto simp: slots_ok_def)
qed

lemma ext_slots:
  assumes "slots_ok I q" "ext_ack q = (q', x)"
  shows "slots_ok I q'" "rb_cont q = (case x of None \<Rightarrow> [] | Some r \<Rightarrow> [r]) @ rb_cont q'"
proof -
  have i: "rb_inv q" using assms(1) by (simp add: slots_ok_def)
  show "slots_ok I q'" using assms ext_ack_buffer [OF assms(2)] ring.ext_some [OF i] ring.ext_none [OF i] by (cases x) (auto simp: slots_ok_def)
  show "rb_cont q = (case x of None \<Rightarrow> [] | Some r \<Rightarrow> [r]) @ rb_cont q'"
    using assms(2) ring.ext_some [OF i] ring.ext_none [OF i] by (cases x) auto
qed

lemma Flush_slots: "slots_ok I q \<Longrightarrow> slots_ok I (Flush q) \<and> rb_cont (Flush q) = rb_cont q"
  using Flush_cont [of q] by (auto simp: slots_ok_def) (simp add: Flush_def)

section \<open>Interfaces\<close>

text \<open>The record type: \<open>I\<close> is its invariant, \<open>mem_ok\<close> says which memory can be assigned, \<open>val\<close> what is read of a record and \<open>mval\<close> what of memory.\<close>

locale record_type =
  fixes assign :: "'i \<Rightarrow> bytes \<Rightarrow> 'i option"
    and I :: "'i \<Rightarrow> bool"
    and mem_ok :: "bytes \<Rightarrow> bool"
    and val :: "'i \<Rightarrow> 'v"
    and mval :: "bytes \<Rightarrow> 'v"
  assumes assign_ok: "I d \<Longrightarrow> mem_ok m \<Longrightarrow> \<exists>d'. assign d m = Some d' \<and> I d' \<and> val d' = mval m"
begin

lemma Emit_ok:
  assumes "slots_ok I q" "mem_ok m"
  shows "tr_Emit assign m q = Blocks \<and> GetSlot q = None \<or>
    (\<exists>q' r. tr_Emit assign m q = Returned q' \<and> slots_ok I q' \<and> rb_cont q' = rb_cont q @ [r] \<and> item_view val r = Some (mval m))"
proof (cases "GetSlot q")
  case (Some y)
  then obtain q1 p where g: "GetSlot q = Some (q1, p)" by (cases y) simp
  from assms(1) obtain Rl Rp R Wl Wp W where r: "rb_rel q Rl Rp R Wl Wp W" by (auto simp: slots_ok_def rb_inv_def)
  have "p < length (rb_buffer q1)" using GetSlot_rel(2,4) [OF r g] r by (simp add: rb_rel_def)
  then have "I (i_data (rb_buffer q1 ! p))" using assms(1) GetSlot_rel(4) [OF r g] by (simp add: slots_ok_def)
  from assign_ok [OF this assms(2)] obtain d where d: "assign (i_data (rb_buffer q1 ! p)) m = Some d" "I d" "val d = mval m" by blast
  let ?r = "(rb_buffer q1 ! p)\<lparr>i_type := ITEM_NORMAL, i_data := d\<rparr>"
  have "Insert ?r q = Some (CompleteWrite (rb_store p ?r q1))" using g by (simp add: Insert_eq)
  from Insert_slots [OF assms(1) _ this] d(2) have
    "slots_ok I (CompleteWrite (rb_store p ?r q1))" "rb_cont (CompleteWrite (rb_store p ?r q1)) = rb_cont q @ [?r]" by simp_all
  moreover have "item_view val ?r = Some (mval m)" using d(3) by (simp add: item_view_def)
  ultimately show ?thesis using g d(1) by (simp add: tr_Emit_def Let_def)
qed (simp add: tr_Emit_def)

end

locale trace_thread = record_source read ok content + record_type assign I mem_ok val mval
  for read :: "'a \<Rightarrow> ('a \<times> (bytes \<times> nat) option) option" and ok and content
    and assign :: "'i \<Rightarrow> bytes \<Rightarrow> 'i option" and I and mem_ok and val :: "'i \<Rightarrow> 'v" and mval
begin

text \<open>\<open>k\<close> records of \<open>xs\<close> have been written.\<close>

definition trace_inv :: "(bytes \<times> nat) list \<Rightarrow> nat \<Rightarrow> nat \<Rightarrow> ('a, 'i) trace \<Rightarrow> 'i wrap list list \<Rightarrow> bool" where
  "trace_inv xs n k t taken \<longleftrightarrow> k \<le> length xs \<and> length (tr_queues t) = n \<and> length taken = n \<and> tr_event t = of_nat k \<and>
     rr_max (tr_router t) = int n \<and> (rr_cur (tr_router t) + 1) mod int n = int (k mod n) \<and>
     (tr_phase t = Reading \<longrightarrow> ok (tr_adapter t) \<and> content (tr_adapter t) = drop k xs) \<and> (tr_phase t \<noteq> Reading \<longrightarrow> k = length xs) \<and>
     (tr_phase t = Finished \<longrightarrow> (\<forall>q\<in>set (tr_queues t). published q)) \<and>
     (\<forall>j<n. slots_ok I (tr_queues t ! j) \<and>
       map (item_view val) (taken ! j @ rb_cont (tr_queues t ! j)) =
         map Some (rr_share n j (map (mval \<circ> fst) (take k xs))) @ (if tr_marked t j then [None] else []))"

lemma trace_inv_read:
  assumes inv: "trace_inv xs n k t taken" and n: "0 < n" and ph: "tr_phase t = Reading" and xs: "\<forall>x\<in>set xs. mem_ok (fst x)"
  shows "(tr_read read assign t = Blocks \<and> (\<exists>j<n. GetSlot (tr_queues t ! j) = None)) \<or>
    (\<exists>t' k'. tr_read read assign t = Returned t' \<and> trace_inv xs n k' t' taken)"
proof (cases "k = length xs")
  case True
  with inv ph have "ok (tr_adapter t)" "content (tr_adapter t) = []" by (simp_all add: trace_inv_def)
  from read_end [OF this] obtain a where "read (tr_adapter t) = Some (a, None)" by blast
  then have "tr_read read assign t = Returned (t\<lparr>tr_adapter := a, tr_phase := Finishing 0\<rparr>)" by (simp add: tr_read_def)
  moreover have "trace_inv xs n k (t\<lparr>tr_adapter := a, tr_phase := Finishing 0\<rparr>) taken"
    using inv ph True by (simp add: trace_inv_def tr_marked_def)
  ultimately show ?thesis by blast
next
  case False
  with inv have k: "k < length xs" by (simp add: trace_inv_def)
  obtain m len where x: "xs ! k = (m, len)" by fastforce
  from inv ph k x have "ok (tr_adapter t)" "content (tr_adapter t) = (m, len) # drop (Suc k) xs"
    by (simp_all add: trace_inv_def Cons_nth_drop_Suc [symmetric])
  from read_next [OF this] obtain a where a: "read (tr_adapter t) = Some (a, Some (m, len))" "ok a" "content a = drop (Suc k) xs" by blast
  let ?d = "k mod n" and ?r = "(tr_router t)\<lparr>rr_cur := int (k mod n)\<rparr>"
  have d: "rr_GetDestination (tr_router t) = Some (?r, int ?d)" "?d < n" "length (tr_queues t) = n"
    using inv n by (simp_all add: trace_inv_def rr_GetDestination_def Let_def)
  have q: "slots_ok I (tr_queues t ! ?d)" using inv d(2) by (simp add: trace_inv_def)
  have "mem_ok m" using xs nth_mem [OF k] x by fastforce
  from Emit_ok [OF q this] show ?thesis
  proof (elim disjE conjE exE)
    assume "tr_Emit assign m (tr_queues t ! ?d) = Blocks" "GetSlot (tr_queues t ! ?d) = None"
    then show ?thesis using a(1) d by (auto simp: tr_read_def)
  next
    fix q' r assume e: "tr_Emit assign m (tr_queues t ! ?d) = Returned q'" "slots_ok I q'" "rb_cont q' = rb_cont (tr_queues t ! ?d) @ [r]"
      "item_view val r = Some (mval m)"
    let ?t = "t\<lparr>tr_adapter := a, tr_router := ?r, tr_queues := (tr_queues t)[?d := q'], tr_event := tr_event t + 1\<rparr>"
    have "tr_read read assign t = Returned ?t" using a(1) d e(1) by (simp add: tr_read_def)
    moreover have "trace_inv xs n (Suc k) ?t taken"
    proof -
      have tk: "map (mval \<circ> fst) (take (Suc k) xs) = map (mval \<circ> fst) (take k xs) @ [mval m]" using k x by (simp add: take_Suc_conv_app_nth)
      have sh: "rr_share n j (map (mval \<circ> fst) (take (Suc k) xs)) = rr_share n j (map (mval \<circ> fst) (take k xs)) @ (if ?d = j then [mval m] else [])" for j
        unfolding tk rr_share_snoc using k by simp
      have "(int ?d + 1) mod int n = int (Suc k mod n)" by (metis add.commute mod_add_right_eq of_nat_Suc of_nat_mod)
      then show ?thesis using inv k a(2,3) d(2,3) e(2-4) ph
        by (auto simp: trace_inv_def tr_marked_def sh nth_list_update)
    qed
    ultimately show ?thesis by blast
  qed
qed

lemma trace_inv_step:
  assumes inv: "trace_inv xs n k t taken" and n: "0 < n" and junk: "I (i_data junk)" and xs: "\<forall>x\<in>set xs. mem_ok (fst x)"
  shows "(tr_step read assign junk t = Blocks \<and> (\<exists>j<n. GetSlot (tr_queues t ! j) = None)) \<or>
    (\<exists>t' k'. tr_step read assign junk t = Returned t' \<and> trace_inv xs n k' t' taken)"
proof (cases "tr_phase t")
  case Reading
  then show ?thesis using trace_inv_read [OF inv n Reading xs] by (simp add: tr_step_def)
next
  case (Finishing i)
  have len: "length (tr_queues t) = n" using inv by (simp add: trace_inv_def)
  show ?thesis
  proof (cases "i < n")
    case True
    have q: "slots_ok I (tr_queues t ! i)" using inv True by (simp add: trace_inv_def)
    have f: "I (i_data (tr_finish junk))" "item_view val (tr_finish junk) = None"
      using junk by (simp_all add: tr_finish_def WrapItem_def item_view_def)
    show ?thesis
    proof (cases "Insert (tr_finish junk) (tr_queues t ! i)")
      case None
      then have "GetSlot (tr_queues t ! i) = None" by (auto simp: Insert_eq split: option.splits prod.splits)
      then show ?thesis using None Finishing True len by (auto simp: tr_step_def)
    next
      case (Some q')
      let ?t = "t\<lparr>tr_queues := (tr_queues t)[i := q'], tr_phase := Finishing (Suc i)\<rparr>"
      note ins = Insert_slots [OF q f(1) Some]
      have "trace_inv xs n k ?t taken" using inv True len ins f(2) Finishing
        by (auto simp: trace_inv_def tr_marked_def nth_list_update less_Suc_eq)
      then show ?thesis using Some Finishing True len by (auto simp: tr_step_def)
    qed
  next
    case False
    let ?t = "t\<lparr>tr_queues := map Flush (tr_queues t), tr_phase := Finished\<rparr>"
    have "trace_inv xs n k ?t taken" using inv False len Finishing Flush_slots [of I]
      by (auto simp: trace_inv_def tr_marked_def published_flush)
    then show ?thesis using Finishing False len by (auto simp: tr_step_def)
  qed
next
  case Finished
  then show ?thesis using inv by (auto simp: tr_step_def)
qed

lemma trace_run_inv:
  assumes "trace_run read assign junk a qs t taken" "ok a" "qs \<noteq> []" "I (i_data junk)" "\<forall>x\<in>set (content a). mem_ok (fst x)"
    "\<forall>q\<in>set qs. slots_ok I q \<and> rb_cont q = []"
  shows "\<exists>k. trace_inv (content a) (length qs) k t taken"
  using assms
proof (induction rule: trace_run.induct)
  case tr_begins
  then show ?case by (intro exI [of _ 0]) (auto simp: trace_inv_def tr_start_eq RouterRR_def tr_marked_def)
next
  case (tr_steps t taken t')
  from tr_steps.IH [OF tr_steps.prems] obtain k where k: "trace_inv (content a) (length qs) k t taken" by blast
  from trace_inv_step [OF k _ tr_steps.prems(3,4)] tr_steps.hyps(2) tr_steps.prems(2) show ?case by auto
next
  case (tr_takes t taken j q x)
  from tr_takes.IH [OF tr_takes.prems] obtain k where k: "trace_inv (content a) (length qs) k t taken" by blast
  then have j: "j < length qs" "length taken = length qs" "length (tr_queues t) = length qs" "slots_ok I (tr_queues t ! j)"
    using tr_takes.hyps(2) by (simp_all add: trace_inv_def)
  note e = ext_slots [OF j(4) tr_takes.hyps(3)]
  let ?taken = "case x of None \<Rightarrow> taken | Some r \<Rightarrow> taken[j := taken ! j @ [r]]"
  have same: "?taken ! i @ rb_cont ((tr_queues t)[j := q] ! i) = taken ! i @ rb_cont (tr_queues t ! i)" if "i < length qs" for i
    using e(2) j that by (cases "i = j"; cases x) simp_all
  have pub: "published q" if "tr_phase t = Finished"
  proof -
    have "published (tr_queues t ! j)" using k that j by (simp add: trace_inv_def)
    from published_ext [OF this] tr_takes.hyps(3) show ?thesis by simp
  qed
  have "trace_inv (content a) (length qs) k (t\<lparr>tr_queues := (tr_queues t)[j := q]\<rparr>) ?taken"
    unfolding trace_inv_def
  proof (intro conjI allI impI)
    fix i assume i: "i < length qs"
    show "slots_ok I (tr_queues (t\<lparr>tr_queues := (tr_queues t)[j := q]\<rparr>) ! i)" using k e(1) i j by (cases "i = j") (simp_all add: trace_inv_def)
    show "map (item_view val) (?taken ! i @ rb_cont (tr_queues (t\<lparr>tr_queues := (tr_queues t)[j := q]\<rparr>) ! i)) =
        map Some (rr_share (length qs) i (map (mval \<circ> fst) (take k (content a)))) @ (if tr_marked (t\<lparr>tr_queues := (tr_queues t)[j := q]\<rparr>) i then [None] else [])"
      using k i same [OF i] by (simp add: trace_inv_def tr_marked_def del: map_append)
  next
    assume "tr_phase (t\<lparr>tr_queues := (tr_queues t)[j := q]\<rparr>) = Finished"
    then show "\<forall>q\<in>set (tr_queues (t\<lparr>tr_queues := (tr_queues t)[j := q]\<rparr>)). published q"
      using k pub by (auto simp: trace_inv_def dest!: set_update_subset_insert [THEN subsetD])
  qed (use k j in \<open>auto simp: trace_inv_def split: option.split\<close>)
  then show ?case by blast
qed

text \<open>What the thread still has to do.\<close>

definition tr_left :: "('a, 'i) trace \<Rightarrow> nat" where
  "tr_left t =
     (case tr_phase t of
        Reading \<Rightarrow> length (content (tr_adapter t)) + length (tr_queues t) + 2
      | Finishing k \<Rightarrow> length (tr_queues t) - k + 1
      | Finished \<Rightarrow> 0)"

lemma tr_step_left:
  assumes "trace_inv xs n k t taken" "tr_step read assign junk t = Returned t'" "tr_phase t \<noteq> Finished"
  shows "tr_left t' < tr_left t"
proof (cases "tr_phase t")
  case Reading
  then have "ok (tr_adapter t)" using assms(1) by (simp add: trace_inv_def)
  note rc = read_cases [OF this]
  from Reading assms(2) obtain a x where "read (tr_adapter t) = Some (a, x)" by (auto simp: tr_step_def tr_read_def split: option.splits)
  with rc [OF this] Reading assms(2) show ?thesis
    by (auto simp: tr_step_def tr_read_def tr_left_def split: option.splits call.splits if_splits prod.splits)
next
  case (Finishing i)
  with assms(2) show ?thesis by (auto simp: tr_step_def tr_left_def split: option.splits if_splits)
qed (use assms(3) in simp)

lemma can_finish:
  assumes "trace_run read assign junk a qs t taken" "ok a" "qs \<noteq> []" "I (i_data junk)" "\<forall>x\<in>set (content a). mem_ok (fst x)"
    "\<forall>q\<in>set qs. slots_ok I q \<and> rb_cont q = []"
  shows "\<exists>t' taken'. trace_run read assign junk a qs t' taken' \<and> tr_phase t' = Finished"
  using assms(1)
proof (induction "(tr_left t, sum_list (map (length \<circ> rb_cont) (tr_queues t)))" arbitrary: t taken rule: wf_induct_rule [OF wf_lex_prod [OF wf_less wf_less]])
  case (1 t taken)
  from trace_run_inv [OF 1(2) assms(2-6)] obtain k where inv: "trace_inv (content a) (length qs) k t taken" by blast
  show ?case
  proof (cases "tr_phase t = Finished")
    case False
    have "0 < length qs" using assms(3) by simp
    from trace_inv_step [OF inv this assms(4,5)] show ?thesis
    proof (elim disjE conjE exE)
      fix t' k' assume st: "tr_step read assign junk t = Returned t'"
      from 1(1) [OF _ trace_run.tr_steps [OF 1(2) st]] tr_step_left [OF inv st False] show ?thesis by simp
    next
      fix j assume j: "j < length qs" "GetSlot (tr_queues t ! j) = None"
      have q: "slots_ok I (tr_queues t ! j)" "j < length (tr_queues t)" using inv j(1) by (simp_all add: trace_inv_def)
      obtain q' x where e: "ext_ack (tr_queues t ! j) = (q', x)" by fastforce
      have "rb_inv (tr_queues t ! j)" using q(1) by (simp add: slots_ok_def)
      from full_can_extract [OF this j(2)] e obtain y where y: "x = Some y" by auto
      let ?t = "t\<lparr>tr_queues := (tr_queues t)[j := q']\<rparr>"
      have "length (rb_cont (tr_queues t ! j)) = Suc (length (rb_cont q'))" using ext_slots(2) [OF q(1) e] y by simp
      then have "sum_list (map (length \<circ> rb_cont) (tr_queues ?t)) < sum_list (map (length \<circ> rb_cont) (tr_queues t))"
        using sum_list_update_add [of j "map (length \<circ> rb_cont) (tr_queues t)" "length (rb_cont q')"] q(2) by (simp add: map_update)
      moreover have "tr_left ?t = tr_left t" by (simp add: tr_left_def split: tr_phase.split)
      ultimately show ?thesis using 1(1) [OF _ trace_run.tr_takes [OF 1(2) q(2) e]] by simp
    qed
  qed (use 1(2) in blast)
qed

end

section \<open>Lines in memory\<close>

definition raw_ok :: "bytes \<Rightarrow> bool" where
  "raw_ok d \<longleftrightarrow> length d = MAX_RECORD_LENGTH \<and> d ! (MAX_RECORD_LENGTH - 1) = 0"

definition raw_mem_ok :: "bytes \<Rightarrow> bool" where
  "raw_mem_ok m \<longleftrightarrow> 10 \<in> set (cstr m) \<and> length (cstr m) < length m \<and> length (cstr m) < MAX_RECORD_LENGTH"

lemma first_line_append: "10 \<in> set a \<Longrightarrow> first_line (a @ b) = first_line a"
  by (simp add: first_line_def takeWhile_append1)

interpretation ram_trace: trace_thread ram_ReadRecord ram_ok ram_content raw_assign raw_ok raw_mem_ok first_line first_line
proof
  fix d m assume d: "raw_ok d" "raw_mem_ok m"
  let ?n = "length (cstr m)"
  have n: "take ?n m = cstr m" by (metis append_eq_conv_conj cstr_prefix)
  have "raw_assign d m = Some (cstr m @ drop ?n d)" "raw_ok (cstr m @ drop ?n d)"
    using d n by (simp_all add: raw_assign_def raw_mem_ok_def raw_ok_def Let_def blit_eq nth_append MAX_RECORD_LENGTH_def)
  moreover have "first_line (cstr m @ drop ?n d) = first_line m"
    using d(2) first_line_append [of "cstr m"] cstr_prefix [of m] by (metis raw_mem_ok_def)
  ultimately show "\<exists>d'. raw_assign d m = Some d' \<and> raw_ok d' \<and> first_line d' = first_line m" by simp
qed

text \<open>A line of the file with its newline is what is read of the record.\<close>

lemma first_line_idem: "first_line (first_line f) = first_line f"
proof -
  have "10 \<notin> set (takeWhile (\<lambda>b. b \<noteq> 10) f)" by (auto dest: set_takeWhileD)
  then show ?thesis by (auto simp: first_line_def takeWhile_append)
qed

lemma prefix_with_last:
  assumes "a @ [c] = p @ y" "c \<in> set p" "c \<notin> set a"
  shows "y = []"
proof (rule ccontr)
  assume "y \<noteq> []"
  then have "p @ butlast y = a" using assms(1) by (metis append_butlast_last_id append_is_Nil_conv butlast_append butlast_snoc)
  with assms(2,3) show False by auto
qed

lemma line_first:
  assumes "l \<in> set (lines_of f)" "10 \<in> set l"
  shows "first_line (l @ x) = l" "0 \<notin> set l"
proof -
  have "first_line l = l \<and> 0 \<notin> set l"
    using assms
  proof (induction f rule: lines_of.induct)
    case (1 f)
    obtain l' f' where g: "fgets MAX_RECORD_LENGTH f = Some (l', f')"
      using 1(2) by (cases "fgets MAX_RECORD_LENGTH f") (auto simp: lines_of.simps [of f])
    then have in': "l = cstr l' \<or> l \<in> set (lines_of f')" using 1(2) by (simp add: lines_of.simps [of f])
    show ?case
    proof (cases "l = cstr l'")
      case True
      have l': "l' = take (MAX_RECORD_LENGTH - 1) (first_line f)" using g by (auto simp: fgets_def Let_def split: if_splits)
      obtain y where y: "first_line f = l @ y" using l' True cstr_prefix [of l'] by (metis append.assoc append_take_drop_id)
      then have "10 \<in> set (first_line f)" using 1(3) by simp
      then have "10 \<in> set f" by (auto simp: first_line_def split: if_splits dest: set_takeWhileD)
      then have fl: "first_line f = takeWhile (\<lambda>b. b \<noteq> 10) f @ [10]" by (simp add: first_line_def)
      have "10 \<notin> set (takeWhile (\<lambda>b. b \<noteq> 10) f)" by (auto dest: set_takeWhileD)
      from prefix_with_last [OF fl [symmetric, unfolded y] 1(3) this] y have "first_line f = l" by simp
      then show ?thesis using first_line_idem [of f] True by (auto simp: cstr_def dest: set_takeWhileD)
    next
      case False
      with in' show ?thesis using 1(1) [OF g refl] 1(3) by blast
    qed
  qed
  then show "first_line (l @ x) = l" "0 \<notin> set l" using first_line_append [OF assms(2)] by simp_all
qed

lemma cstr_upto: "i < length m \<Longrightarrow> m ! i = 0 \<Longrightarrow> length (cstr m) \<le> i"
  unfolding cstr_def by (metis (mono_tags, lifting) linorder_not_le nth_mem set_takeWhileD takeWhile_nth)

text \<open>Behind a record comes the length of the next one, which has a zero byte, or zeros.\<close>

lemma behind_record:
  assumes "\<forall>l\<in>set ls. length l < MAX_RECORD_LENGTH" "0 < pad"
  shows "\<exists>i\<le>2. i < length (record_image ls @ replicate pad 0) \<and> (record_image ls @ replicate pad 0) ! i = 0"
proof (cases ls)
  case Nil
  then show ?thesis using assms(2) by (intro exI [of _ 0]) simp
next
  case (Cons l ls')
  let ?w = "of_nat (length l) :: u32"
  have "unat ?w = length l" using assms(1) Cons by (intro unat_of_nat_u32) (simp add: MAX_RECORD_LENGTH_def)
  then have "unat (drop_bit 16 ?w) = 0" using assms(1) Cons
    by (simp only: unat_drop_bit_eq) (simp add: drop_bit_eq_div MAX_RECORD_LENGTH_def)
  then have "drop_bit 16 ?w = 0" by (simp add: unat_eq_0)
  then have "le_bytes 4 ?w ! 2 = 0" by (simp add: numeral_eq_Suc drop_bit_drop_bit)
  then show ?thesis using Cons by (intro exI [of _ 2]) (simp add: nth_append)
qed

lemma raw_mem_line:
  assumes "l \<in> set (lines_of f)" "10 \<in> set l" "length l + 2 < MAX_RECORD_LENGTH" "i \<le> 2" "i < length m" "m ! i = 0"
  shows "raw_mem_ok (l @ m)"
proof -
  have "cstr (l @ m) = l @ cstr m" using line_first(2) [OF assms(1,2)] by (auto simp: cstr_def takeWhile_append)
  then show ?thesis using cstr_upto [OF assms(5,6)] assms by (simp add: raw_mem_ok_def)
qed

definition lines_ok :: "nat \<Rightarrow> nat \<Rightarrow> bytes \<Rightarrow> bool" where
  "lines_ok mx buf_size f \<longleftrightarrow> (mx = 0 \<or> length (lines_of f) \<le> mx) \<and> length (record_image (lines_of f)) < buf_size \<and>
     (\<forall>l\<in>set (lines_of f). 10 \<in> set l \<and> length l + 2 < MAX_RECORD_LENGTH)"

lemma ram_content_lines:
  assumes "ram_Init mx buf_size (Some f) = Some a" "lines_ok mx buf_size f"
  shows "ram_ok a" "map (first_line \<circ> fst) (ram_content a) = lines_of f" "\<forall>x\<in>set (ram_content a). raw_mem_ok (fst x)"
proof -
  let ?ls = "lines_of f" and ?pad = "buf_size - length (record_image (lines_of f))"
  have r: "a = (ram_load mx f (AdapterRAM buf_size))\<lparr>rm_ptr := 0\<rparr>" using assms(1) by (simp add: ram_Init_def split: if_splits)
  have "ram_loaded buf_size [] (AdapterRAM buf_size)" by (simp add: ram_loaded_def AdapterRAM_def)
  from ram_load_lines [OF this, of mx f] obtain k where k: "ram_loaded buf_size (take k ?ls) (ram_load mx f (AdapterRAM buf_size))" "k \<le> length ?ls"
    "k = length ?ls \<or> mx \<noteq> 0 \<and> k = mx \<or> buf_size < length (record_image (take (Suc k) ?ls))" by auto
  have "length (record_image (take (Suc k) ?ls)) \<le> length (record_image ?ls)"
    by (metis append_take_drop_id le_add1 length_append record_image_simps(3))
  then have kl: "k = length ?ls" using k(2,3) assms(2) by (auto simp: lines_ok_def)
  have short: "\<forall>l\<in>set ?ls. length l < 2 ^ 32" using lines_short [of _ f] by (fastforce simp: MAX_RECORD_LENGTH_def)
  from read_items_image [OF short, of "[]" "replicate ?pad 0"] obtain xs where
    xs: "read_items (length ?ls) 0 (rm_buf a) = Some xs" "map snd xs = map length ?ls"
      "\<forall>i<length ?ls. fst (xs ! i) = ?ls ! i @ record_image (drop (Suc i) ?ls) @ replicate ?pad 0"
    using k(1) kl r by (auto simp: ram_loaded_def)
  have n: "rm_tot_cnt a = length ?ls" "rm_cur_cnt a = 0" "rm_ptr a = 0" using k(1) kl r by (simp_all add: ram_loaded_def)
  then show ok: "ram_ok a" using xs(1) by (simp add: ram_ok_def)
  have c: "ram_content a = xs" "length xs = length ?ls" using n xs(1) arg_cong [OF xs(2), of length] by (simp_all add: ram_content_def)
  have at: "fst (xs ! i) = ?ls ! i @ record_image (drop (Suc i) ?ls) @ replicate ?pad 0" "?ls ! i \<in> set ?ls" "10 \<in> set (?ls ! i)"
    "length (?ls ! i) + 2 < MAX_RECORD_LENGTH" if "i < length ?ls" for i
    using that xs(3) assms(2) by (auto simp: lines_ok_def)
  show "map (first_line \<circ> fst) (ram_content a) = ?ls" unfolding c(1)
  proof (rule nth_equalityI)
    fix i assume "i < length (map (first_line \<circ> fst) xs)"
    then have i: "i < length ?ls" using c(2) by simp
    from line_first(1) [OF at(2,3) [OF i]] at(1) [OF i] i c(2) show "map (first_line \<circ> fst) xs ! i = ?ls ! i" by simp
  qed (use c(2) in simp)
  have "raw_mem_ok (fst (xs ! i))" if i: "i < length ?ls" for i
  proof -
    have "0 < ?pad" using assms(2) by (simp add: lines_ok_def)
    from behind_record [OF _ this, of "drop (Suc i) ?ls"] lines_short [of _ f] obtain u where
      "u \<le> 2" "u < length (record_image (drop (Suc i) ?ls) @ replicate ?pad 0)" "(record_image (drop (Suc i) ?ls) @ replicate ?pad 0) ! u = 0"
      by (auto dest: in_set_dropD)
    from raw_mem_line [OF at(2-4) [OF i] this] at(1) [OF i] show ?thesis by simp
  qed
  then show "\<forall>x\<in>set (ram_content a). raw_mem_ok (fst x)" unfolding c(1) by (metis c(2) in_set_conv_nth)
qed

section \<open>Properties\<close>

text \<open>In every interleaving of the trace thread with the compute threads, compute thread \<open>j\<close> gets exactly the lines of the trace file whose number is \<open>j\<close> modulo the
  number of compute threads, in order and once, and then the end mark. When the thread has finished, all lines have been written and whatever is left in a
  queue can be taken. Every line must end with a newline and the buffer of the adapter must hold the file.\<close>

theorem trace_delivers:
  assumes "ram_Init mx buf_size (Some f) = Some a" "lines_ok mx buf_size f"
    and "qs \<noteq> []" "\<forall>q\<in>set qs. slots_ok raw_ok q \<and> rb_cont q = []" "raw_ok (i_data junk)"
    and "trace_run ram_ReadRecord raw_assign junk a qs t taken"
  shows "\<exists>k\<le>length (lines_of f). tr_event t = of_nat k \<and>
    (\<forall>j<length qs. map (item_view first_line) (taken ! j @ rb_cont (tr_queues t ! j)) =
      map Some (rr_share (length qs) j (take k (lines_of f))) @ (if tr_marked t j then [None] else [])) \<and>
    (tr_phase t = Finished \<longrightarrow> k = length (lines_of f) \<and>
      (\<forall>j<length qs. rb_cont (tr_queues t ! j) \<noteq> [] \<longrightarrow> snd (ext_ack (tr_queues t ! j)) \<noteq> None))"
proof -
  note c = ram_content_lines [OF assms(1,2)]
  from ram_trace.trace_run_inv [OF assms(6) c(1) assms(3,5) c(3) assms(4)] obtain k where
    inv: "ram_trace.trace_inv (ram_content a) (length qs) k t taken" by blast
  have len: "length (ram_content a) = length (lines_of f)" using arg_cong [OF c(2), of length] by simp
  have tk: "map (first_line \<circ> fst) (take k (ram_content a)) = take k (lines_of f)" using c(2) by (metis take_map)
  have "snd (ext_ack (tr_queues t ! j)) \<noteq> None" if "tr_phase t = Finished" "j < length qs" "rb_cont (tr_queues t ! j) \<noteq> []" for j
  proof -
    have q: "rb_inv (tr_queues t ! j)" "published (tr_queues t ! j)" using inv that(1,2) by (simp_all add: ram_trace.trace_inv_def slots_ok_def)
    from published_ext_None [OF this] that(3) show ?thesis by (cases "ext_ack (tr_queues t ! j)") auto
  qed
  then show ?thesis using inv len tk by (intro exI [of _ k]) (simp add: ram_trace.trace_inv_def)
qed


text \<open>A file of one line and one compute thread.\<close>

definition tr_demo_item :: "bytes wrap" where
  "tr_demo_item = \<lparr>i_type = ITEM_NORMAL, i_seq = 0, i_thr = 0, i_worker = 0, i_data = replicate MAX_RECORD_LENGTH 0\<rparr>"

lemma tr_demo:
  "lines_of [53, 10] = [[53, 10]]" "lines_ok 0 100 [53, 10]" "\<exists>a. ram_Init 0 100 (Some [53, 10]) = Some a" "[ZeroRingBuffer 0 tr_demo_item] \<noteq> []"
  "\<forall>q\<in>set [ZeroRingBuffer 0 tr_demo_item]. slots_ok raw_ok q \<and> rb_cont q = []" "raw_ok (i_data tr_demo_item)"
proof -
  show l: "lines_of [53, 10] = [[53, 10]]" by (simp add: lines_of.simps fgets_def first_line_def cstr_def MAX_RECORD_LENGTH_def)
  show "lines_ok 0 100 [53, 10]" by (simp add: lines_ok_def l MAX_RECORD_LENGTH_def)
  show "\<exists>a. ram_Init 0 100 (Some [53, 10]) = Some a" by (simp add: ram_Init_def)
  have "set (rb_buffer (ZeroRingBuffer 0 tr_demo_item)) = {tr_demo_item}" by (simp add: ZeroRingBuffer_def)
  then show "\<forall>q\<in>set [ZeroRingBuffer 0 tr_demo_item]. slots_ok raw_ok q \<and> rb_cont q = []"
    by (simp add: slots_ok_def ZeroRingBuffer_inv raw_ok_def tr_demo_item_def MAX_RECORD_LENGTH_def)
qed (simp_all add: raw_ok_def tr_demo_item_def MAX_RECORD_LENGTH_def)


theorem trace_delivers_witness:
  "\<exists>a t taken. trace_run ram_ReadRecord raw_assign tr_demo_item a [ZeroRingBuffer 0 tr_demo_item] t taken \<and>
    map (item_view first_line) (taken ! 0 @ rb_cont (tr_queues t ! 0)) = [Some [53, 10], None]"
proof -
  from tr_demo(3) obtain a where a: "ram_Init 0 100 (Some [53, 10]) = Some a" by blast
  note c = ram_content_lines [OF a tr_demo(2)]
  from ram_trace.can_finish [OF tr_begins c(1) tr_demo(4,6) c(3) tr_demo(5)] obtain t taken where
    t: "trace_run ram_ReadRecord raw_assign tr_demo_item a [ZeroRingBuffer 0 tr_demo_item] t taken" "tr_phase t = Finished" by blast
  from trace_delivers [OF a tr_demo(2,4-6) t(1)] t(2) have
    "map (item_view first_line) (taken ! 0 @ rb_cont (tr_queues t ! 0)) = map Some (rr_share 1 0 [[53, 10]]) @ [None]"
    by (auto simp: tr_demo(1) tr_marked_def)
  with t(1) show ?thesis by (auto simp: rr_share_def)
qed

end
