(* ===== verification/Cm_Input.thy ===== *)
theory Cm_Input
  imports Cm_App Trace
begin

text \<open>
  The input of the counting thread: \<open>ProcessData\<close> of \<open>apps/count_min/cm_thread.hpp\<close> on a raw record (\<open>strtok\<close> is here, the
  conversions are in theory \<open>C_Text\<close>). \<open>None\<close> is a missing field, which the code passes on as a null pointer, or reading behind the end of the record.

  Proved: together with theory \<open>Trace\<close>, the key and the value that a line of the trace file names reach the sketch of the compute
  thread the line is assigned to. A line without newline mixes with what was in the slot before.
\<close>

section \<open>Fields of a line\<close>

text \<open>\<open>strtok\<close> with blanks as delimiters: the token and where the next call continues.\<close>

definition strtok :: "bytes \<Rightarrow> (bytes \<times> bytes) option" where
  "strtok m =
     (let m1 = dropWhile (\<lambda>b. b = 32) m;
          t = takeWhile (\<lambda>b. b \<noteq> 32 \<and> b \<noteq> 0) m1;
          r = drop (length t) m1
      in if t = [] \<or> r = [] then None else Some (t, if hd r = 0 then r else tl r))"

definition parse_line :: "bytes \<Rightarrow> (u64 \<times> int) option" where
  "parse_line line =
     do { (t1, r1) \<leftarrow> strtok line;
          (t2, r2) \<leftarrow> strtok r1;
          (t3, r3) \<leftarrow> strtok r2;
          Some (strtoull t2, strtoll t3) }"

definition cm_ProcessRaw :: "bytes \<Rightarrow> bytes \<Rightarrow> cm_state \<Rightarrow> (cm_item option \<times> cm_state) option" where
  "cm_ProcessRaw junk line st = do { (key, v) \<leftarrow> parse_line line; cm_ProcessData junk key v st }"

section \<open>Well-formed lines\<close>

definition line_text :: "bytes \<times> nat \<times> nat \<Rightarrow> bytes" where
  "line_text = (\<lambda>(w, k, v). w @ [32] @ decimal k @ [32] @ decimal v @ [10])"

definition line_values :: "bytes \<times> nat \<times> nat \<Rightarrow> u64 \<times> int" where
  "line_values = (\<lambda>(w, k, v). (of_nat k, int v))"

definition line_ok :: "bytes \<times> nat \<times> nat \<Rightarrow> bool" where
  "line_ok = (\<lambda>(w, k, v). w \<noteq> [] \<and> 32 \<notin> set w \<and> 0 \<notin> set w \<and> 10 \<notin> set w \<and> k < 2 ^ 64 \<and> v < 2 ^ 63)"

lemma strtok_token:
  assumes "t \<noteq> []" "32 \<notin> set t" "0 \<notin> set t"
  shows "strtok (t @ 32 # r) = Some (t, r)"
proof -
  have "hd t \<noteq> 32" using assms(1,2) by (metis hd_in_set)
  then have "dropWhile (\<lambda>b. b = 32) (t @ 32 # r) = t @ 32 # r" using assms(1) by (cases t) simp_all
  moreover have "takeWhile (\<lambda>b. b \<noteq> 32 \<and> b \<noteq> 0) (t @ 32 # r) = t" using assms(2,3) by (subst takeWhile_append2) auto
  ultimately show ?thesis using assms(1) by (simp add: strtok_def Let_def)
qed

text \<open>What is behind the newline does not matter, if there is a zero.\<close>

lemma parse_line_text:
  assumes "line_ok wkv" "0 \<in> set r"
  shows "parse_line (line_text wkv @ r) = Some (line_values wkv)"
proof -
  obtain w k v where wkv: "wkv = (w, k, v)" by (cases wkv) auto
  have ok: "w \<noteq> []" "32 \<notin> set w" "0 \<notin> set w" "k < 2 ^ 64" "v < 2 ^ 63" using assms(1) by (simp_all add: wkv line_ok_def)
  let ?l = "decimal v @ 10 # r"
  have 1: "strtok (w @ 32 # decimal k @ 32 # ?l) = Some (w, decimal k @ 32 # ?l)" using ok by (intro strtok_token)
  have 2: "strtok (decimal k @ 32 # ?l) = Some (decimal k, ?l)"
    using decimal_no_delim [of _ k] decimal_digits [of k] by (intro strtok_token) auto
  let ?r = "takeWhile (\<lambda>b. b \<noteq> 32 \<and> b \<noteq> 0) r"
  have "\<exists>r'. strtok ?l = Some (decimal v @ 10 # ?r, r')"
  proof -
    have "hd (decimal v) \<noteq> 32" using decimal_digits [of v] decimal_no_delim by (metis hd_in_set)
    then have dw: "dropWhile (\<lambda>b. b = 32) ?l = ?l" using decimal_digits [of v] by (cases "decimal v") auto
    have tw: "takeWhile (\<lambda>b. b \<noteq> 32 \<and> b \<noteq> 0) ?l = decimal v @ 10 # ?r"
      using decimal_no_delim [of _ v] by (subst takeWhile_append2) auto
    have "length ?r < length r" using assms(2)
      by (metis (mono_tags, lifting) length_takeWhile_le le_neq_implies_less set_takeWhileD takeWhile_eq_take take_all_iff order_refl)
    then have "drop (length (decimal v @ 10 # ?r)) ?l \<noteq> []" by simp
    then show ?thesis by (simp add: strtok_def Let_def dw tw)
  qed
  then obtain r' where 3: "strtok ?l = Some (decimal v @ 10 # ?r, r')" by blast
  have "strtoull (decimal k) = of_nat k" using ok(4) scan_int_decimal(2) [of k] by (simp add: strtoull_def)
  moreover have "strtoll (decimal v @ 10 # ?r) = int v" using ok(5) scan_int_decimal(1) [of v ?r] by (simp add: strtoll_def Let_def)
  ultimately show ?thesis using 1 2 3 by (simp add: parse_line_def wkv line_text_def line_values_def)
qed

lemma line_text_bytes:
  assumes "line_ok x"
  shows "0 \<notin> set (line_text x)" "10 \<in> set (line_text x)"
  using assms decimal_no_delim by (auto simp: line_ok_def line_text_def)

section \<open>From the file to the sketch\<close>

definition cm_mem_ok :: "bytes \<Rightarrow> bool" where
  "cm_mem_ok m \<longleftrightarrow> raw_mem_ok m \<and> (\<exists>x r. line_ok x \<and> m = line_text x @ r)"

lemma parse_mem:
  assumes "raw_mem_ok (line_text x @ r)" "line_ok x"
  shows "parse_line (line_text x @ r) = Some (line_values x)"
proof -
  have "length (cstr (line_text x @ r)) < length (line_text x @ r)" using assms(1) by (simp add: raw_mem_ok_def)
  then have "0 \<in> set (line_text x @ r)" unfolding cstr_def
    by (metis (mono_tags, lifting) less_irrefl takeWhile_eq_all_conv)
  then have "0 \<in> set r" using line_text_bytes(1) [OF assms(2)] by simp
  then show ?thesis by (rule parse_line_text [OF assms(2)])
qed

interpretation cm_trace: trace_thread ram_ReadRecord ram_ok ram_content raw_assign raw_ok cm_mem_ok parse_line parse_line
proof
  fix d m assume d: "raw_ok d" "cm_mem_ok m"
  then obtain x r where x: "line_ok x" "m = line_text x @ r" "raw_mem_ok m" by (auto simp: cm_mem_ok_def)
  from ram_trace.assign_ok [OF d(1) x(3)] obtain d' where d': "raw_assign d m = Some d'" "raw_ok d'" by blast
  have c: "cstr m = line_text x @ cstr r" using x(2) line_text_bytes(1) [OF x(1)] by (auto simp: cstr_def takeWhile_append)
  let ?n = "length (cstr m)"
  have "take ?n m = cstr m" by (metis append_eq_conv_conj cstr_prefix)
  then have e: "d' = cstr m @ drop ?n d" using d' d(1) x(3) by (auto simp: raw_assign_def raw_mem_ok_def raw_ok_def Let_def blit_eq split: if_splits)
  have n: "?n < MAX_RECORD_LENGTH" "length d = MAX_RECORD_LENGTH" "d ! (MAX_RECORD_LENGTH - 1) = 0"
    using x(3) d(1) by (simp_all add: raw_mem_ok_def raw_ok_def)
  then have "drop ?n d ! (MAX_RECORD_LENGTH - 1 - ?n) = 0" "MAX_RECORD_LENGTH - 1 - ?n < length (drop ?n d)" by simp_all
  then have "0 \<in> set (drop ?n d)" by (metis nth_mem)
  then have "parse_line d' = Some (line_values x)" using parse_line_text [OF x(1), of "cstr r @ drop ?n d"] e c by simp
  moreover have "parse_line m = Some (line_values x)" using parse_mem x by simp
  ultimately show "\<exists>d'. raw_assign d m = Some d' \<and> raw_ok d' \<and> parse_line d' = parse_line m" using d' by simp
qed

lemma rr_share_map: "rr_share n j (map f xs) = map f (rr_share n j xs)"
  by (induction xs rule: rev_induct) (simp_all add: rr_share_snoc)

lemma ram_content_values:
  assumes "ram_Init mx buf_size (Some f) = Some a" "lines_ok mx buf_size f" "lines_of f = map line_text xs" "\<forall>x\<in>set xs. line_ok x"
  shows "map (parse_line \<circ> fst) (ram_content a) = map (Some \<circ> line_values) xs" "\<forall>y\<in>set (ram_content a). cm_mem_ok (fst y)"
proof -
  note c = ram_content_lines [OF assms(1,2)]
  have len: "length (ram_content a) = length xs" using arg_cong [OF c(2), of length] assms(3) by simp
  have at: "\<exists>r. fst (ram_content a ! i) = line_text (xs ! i) @ r" "raw_mem_ok (fst (ram_content a ! i))" "line_ok (xs ! i)" if i: "i < length xs" for i
  proof -
    have "first_line (fst (ram_content a ! i)) = line_text (xs ! i)" using arg_cong [OF c(2), of "\<lambda>l. l ! i"] len i assms(3) by simp
    then show "\<exists>r. fst (ram_content a ! i) = line_text (xs ! i) @ r" by (metis append_take_drop_id first_line_prefix)
    show "raw_mem_ok (fst (ram_content a ! i))" "line_ok (xs ! i)" using c(3) assms(4) len i by simp_all
  qed
  show "map (parse_line \<circ> fst) (ram_content a) = map (Some \<circ> line_values) xs"
  proof (rule nth_equalityI)
    fix i assume "i < length (map (parse_line \<circ> fst) (ram_content a))"
    then have i: "i < length xs" using len by simp
    from at(1) [OF i] obtain r where "fst (ram_content a ! i) = line_text (xs ! i) @ r" by blast
    with parse_mem [of "xs ! i" r] at(2,3) [OF i] i len show "map (parse_line \<circ> fst) (ram_content a) ! i = map (Some \<circ> line_values) xs ! i" by simp
  qed (use len in simp)
  have "cm_mem_ok (fst (ram_content a ! i))" if "i < length xs" for i
    using at [OF that] unfolding cm_mem_ok_def by blast
  then show "\<forall>y\<in>set (ram_content a). cm_mem_ok (fst y)" by (metis len in_set_conv_nth)
qed

section \<open>Properties\<close>

text \<open>C15. What the lines of the trace file say is what is counted: if the \<open>i\<close>-th line names the key \<open>k\<^sub>i\<close> and the value \<open>v\<^sub>i\<close>, then in every interleaving the records
  that compute thread \<open>j\<close> gets are parsed as the pairs \<open>(k\<^sub>i, v\<^sub>i)\<close> with \<open>i\<close> equal to \<open>j\<close> modulo the number of threads, in order and once, although records are
  not terminated and slots are reused.\<close>

theorem heavy_hitter_input:
  assumes "ram_Init mx buf_size (Some f) = Some a" "lines_ok mx buf_size f" "lines_of f = map line_text xs" "\<forall>x\<in>set xs. line_ok x"
    and "qs \<noteq> []" "\<forall>q\<in>set qs. slots_ok raw_ok q \<and> rb_cont q = []" "raw_ok (i_data junk)"
    and "trace_run ram_ReadRecord raw_assign junk a qs t taken"
  shows "\<exists>k\<le>length xs. (tr_phase t = Finished \<longrightarrow> k = length xs) \<and>
    (\<forall>j<length qs. map (item_view parse_line) (taken ! j @ rb_cont (tr_queues t ! j)) =
      map (Some \<circ> Some \<circ> line_values) (rr_share (length qs) j (take k xs)) @ (if tr_marked t j then [None] else []))"
proof -
  note c = ram_content_values [OF assms(1-4)]
  from cm_trace.trace_run_inv [OF assms(8) ram_content_lines(1) [OF assms(1,2)] assms(5,7) c(2) assms(6)] obtain k where
    inv: "cm_trace.trace_inv (ram_content a) (length qs) k t taken" by blast
  have len: "length (ram_content a) = length xs" using arg_cong [OF c(1), of length] by simp
  have "map (parse_line \<circ> fst) (take k (ram_content a)) = map (Some \<circ> line_values) (take k xs)" using c(1) by (metis take_map)
  then show ?thesis using inv len by (intro exI [of _ k]) (simp add: cm_trace.trace_inv_def rr_share_map)
qed

theorem heavy_hitter_input_witness:
  "\<exists>a t taken. trace_run ram_ReadRecord raw_assign tr_demo_item a [ZeroRingBuffer 0 tr_demo_item] t taken \<and>
    map (item_view parse_line) (taken ! 0 @ rb_cont (tr_queues t ! 0)) = [Some (Some (5, 73)), None]"
proof -
  let ?f = "[120, 32, 53, 32, 55, 51, 10] :: bytes"
  have f: "line_text ([120], 5, 73) = ?f" by (simp add: line_text_def decimal.simps)
  have l: "lines_of ?f = map line_text [([120], 5, 73)]"
    by (simp add: f lines_of.simps fgets_def first_line_def cstr_def MAX_RECORD_LENGTH_def)
  have ok: "lines_ok 0 100 ?f" by (simp add: lines_ok_def l f MAX_RECORD_LENGTH_def)
  have lok: "\<forall>x\<in>set [([120], 5, 73)]. line_ok x" by (simp add: line_ok_def)
  obtain a where a: "ram_Init 0 100 (Some ?f) = Some a" by (simp add: ram_Init_def)
  note c = ram_content_lines [OF a ok]
  from ram_trace.can_finish [OF tr_begins c(1) tr_demo(4,6) c(3) tr_demo(5)] obtain t taken where
    t: "trace_run ram_ReadRecord raw_assign tr_demo_item a [ZeroRingBuffer 0 tr_demo_item] t taken" "tr_phase t = Finished" by blast
  from heavy_hitter_input [OF a ok l lok tr_demo(4-6) t(1)] t(2) have
    "map (item_view parse_line) (taken ! 0 @ rb_cont (tr_queues t ! 0)) = map (Some \<circ> Some \<circ> line_values) (rr_share 1 0 [([120], 5, 73)]) @ [None]"
    by (auto simp: tr_marked_def)
  with t(1) show ?thesis by (auto simp: rr_share_def line_values_def)
qed

text \<open>The operator copies no terminating zero: the line \<open>x 5 7\<close> without newline, written to a slot that held \<open>x 12 3456\<close>, is read as the value 73456.\<close>

lemma unterminated_line_mixes:
  "\<exists>d. raw_assign ([120, 32, 49, 50, 32, 51, 52, 53, 54, 10, 0] :: bytes) [120, 32, 53, 32, 55, 0] = Some d \<and> parse_line d = Some (5, 73456)"
  by (rule exI [of _ "[120, 32, 53, 32, 55, 51, 52, 53, 54, 10, 0]"]) (intro conjI; code_simp)

end
