(* ===== verification/Wire.thy ===== *)
theory Wire
  imports Prelude
begin

text \<open>
  \<open>src/net/wire.hpp\<close>: storing and loading unsigned integers in network byte order. A pointer
  \<open>buffer_\<close> into an array is the array together with an offset; the store functions return the
  updated array. The lemmas show that every load undoes the store of the same width, that a store
  touches only its own bytes, and the most significant byte comes first.
\<close>

section \<open>Stores and loads\<close>

definition put_uint8 :: "bytes \<Rightarrow> nat \<Rightarrow> u8 \<Rightarrow> bytes" where
  "put_uint8 buf p v = buf[p := v]"

definition get_uint8 :: "bytes \<Rightarrow> nat \<Rightarrow> u8" where
  "get_uint8 buf p = buf ! p"

definition put_uint16 :: "bytes \<Rightarrow> nat \<Rightarrow> u16 \<Rightarrow> bytes" where
  "put_uint16 buf p v = buf
     [p := ucast (drop_bit 8 v AND 0xff), p + 1 := ucast (v AND 0xff)]"

definition get_uint16 :: "bytes \<Rightarrow> nat \<Rightarrow> u16" where
  "get_uint16 buf p = push_bit 8 (ucast (buf ! p)) OR ucast (buf ! (p + 1))"

definition put_uint32 :: "bytes \<Rightarrow> nat \<Rightarrow> u32 \<Rightarrow> bytes" where
  "put_uint32 buf p v = buf
     [p := ucast (drop_bit 24 v AND 0xff), p + 1 := ucast (drop_bit 16 v AND 0xff),
      p + 2 := ucast (drop_bit 8 v AND 0xff), p + 3 := ucast (v AND 0xff)]"

definition get_uint32 :: "bytes \<Rightarrow> nat \<Rightarrow> u32" where
  "get_uint32 buf p =
     push_bit 24 (ucast (buf ! p)) OR push_bit 16 (ucast (buf ! (p + 1))) OR
     push_bit 8 (ucast (buf ! (p + 2))) OR ucast (buf ! (p + 3))"

definition put_uint64 :: "bytes \<Rightarrow> nat \<Rightarrow> u64 \<Rightarrow> bytes" where
  "put_uint64 buf p v = buf
     [p := ucast (drop_bit 56 v AND 0xff), p + 1 := ucast (drop_bit 48 v AND 0xff),
      p + 2 := ucast (drop_bit 40 v AND 0xff), p + 3 := ucast (drop_bit 32 v AND 0xff),
      p + 4 := ucast (drop_bit 24 v AND 0xff), p + 5 := ucast (drop_bit 16 v AND 0xff),
      p + 6 := ucast (drop_bit 8 v AND 0xff), p + 7 := ucast (v AND 0xff)]"

definition get_uint64 :: "bytes \<Rightarrow> nat \<Rightarrow> u64" where
  "get_uint64 buf p =
     push_bit 56 (ucast (buf ! p)) OR push_bit 48 (ucast (buf ! (p + 1))) OR
     push_bit 40 (ucast (buf ! (p + 2))) OR push_bit 32 (ucast (buf ! (p + 3))) OR
     push_bit 24 (ucast (buf ! (p + 4))) OR push_bit 16 (ucast (buf ! (p + 5))) OR
     push_bit 8 (ucast (buf ! (p + 6))) OR ucast (buf ! (p + 7))"

lemmas wire_defs =
  put_uint8_def get_uint8_def put_uint16_def get_uint16_def
  put_uint32_def get_uint32_def put_uint64_def get_uint64_def

section \<open>Recombining the bytes of a word\<close>

lemma ucast_byte_mask [simp]: "ucast (v AND 0xff) = (ucast v :: u8)" for v :: "'a::len word"
proof -
  have "v AND 0xff = take_bit 8 v"
    by (simp add: take_bit_eq_mask mask_eq_exp_minus_1)
  then show ?thesis
    by (simp only:) (rule bit_word_eqI, auto simp: bit_simps)
qed

lemma bit_byte_at:
  fixes v :: "'a::len word"
  shows "bit (push_bit k (ucast (ucast (drop_bit k v) :: u8)) :: 'a word) n \<longleftrightarrow>
    k \<le> n \<and> n < k + 8 \<and> bit v n"
  by (auto simp: bit_simps dest: bit_imp_le_length)

lemma bit_low_byte: "bit (ucast (ucast v :: u8) :: 'a word) n \<longleftrightarrow> n < 8 \<and> bit v n"
  for v :: "'a::len word"
  by (auto simp: bit_simps dest: bit_imp_le_length)

lemmas bit_bytes = bit_byte_at bit_low_byte bit_or_iff

lemma length_put_uint [simp]:
  "length (put_uint8 buf p v8) = length buf" "length (put_uint16 buf p v16) = length buf"
  "length (put_uint32 buf p v32) = length buf" "length (put_uint64 buf p v64) = length buf"
  by (simp_all add: wire_defs)

section \<open>Round trips\<close>

lemma get_put_uint8: "p < length buf \<Longrightarrow> get_uint8 (put_uint8 buf p v) p = v"
  by (simp add: wire_defs)

lemma get_put_uint16: "p + 2 \<le> length buf \<Longrightarrow> get_uint16 (put_uint16 buf p v) p = v"
  by (rule bit_word_eqI) (auto simp: get_uint16_def put_uint16_def bit_bytes)

lemma get_put_uint32: "p + 4 \<le> length buf \<Longrightarrow> get_uint32 (put_uint32 buf p v) p = v"
  by (rule bit_word_eqI) (auto simp: get_uint32_def put_uint32_def bit_bytes)

lemma get_put_uint64: "p + 8 \<le> length buf \<Longrightarrow> get_uint64 (put_uint64 buf p v) p = v"
  by (rule bit_word_eqI) (auto simp: get_uint64_def put_uint64_def bit_bytes)

lemma put_uint64_frame:
  "i < p \<or> p + 8 \<le> i \<Longrightarrow> put_uint64 buf p v ! i = buf ! i"
  by (auto simp: put_uint64_def nth_list_update)

lemma put_uint32_frame:
  "i < p \<or> p + 4 \<le> i \<Longrightarrow> put_uint32 buf p v ! i = buf ! i"
  by (auto simp: put_uint32_def nth_list_update)

text \<open>Big-endian byte lists: what a store writes, read as a list.\<close>

definition be64 :: "u64 \<Rightarrow> bytes" where
  "be64 v = put_uint64 (replicate 8 0) 0 v"

definition be32 :: "u32 \<Rightarrow> bytes" where
  "be32 v = put_uint32 (replicate 4 0) 0 v"

lemma length_be [simp]: "length (be64 v) = 8" "length (be32 w) = 4"
  by (simp_all add: be64_def be32_def)

lemma be64_bytes: "be64 v = map (\<lambda>k. ucast (drop_bit k v)) [56, 48, 40, 32, 24, 16, 8, 0]"
  by (simp add: be64_def put_uint64_def eval_nat_numeral)

lemma be32_bytes: "be32 v = map (\<lambda>k. ucast (drop_bit k v)) [24, 16, 8, 0]"
  by (simp add: be32_def put_uint32_def eval_nat_numeral)

lemma put_uint64_blit: "p + 8 \<le> length buf \<Longrightarrow> put_uint64 buf p v = blit buf p (be64 v)"
  by (rule nth_equalityI)
    (auto simp: nth_blit be64_bytes put_uint64_def nth_list_update nth_Cons split: nat.split)

lemma put_uint32_blit: "p + 4 \<le> length buf \<Longrightarrow> put_uint32 buf p v = blit buf p (be32 v)"
  by (rule nth_equalityI)
    (auto simp: nth_blit be32_bytes put_uint32_def nth_list_update nth_Cons split: nat.split)

lemma get_uint64_append: "get_uint64 (be64 v @ rest) 0 = v"
  by (rule bit_word_eqI) (auto simp: get_uint64_def be64_bytes bit_bytes)

lemma get_uint32_append: "get_uint32 (be32 v @ rest) 0 = v"
  by (rule bit_word_eqI) (auto simp: get_uint32_def be32_bytes bit_bytes)

section \<open>Properties\<close>

text \<open>A 64-bit integer stored in network byte order anywhere inside a buffer is read back
  unchanged from there, whatever the buffer held, and no other byte of the buffer changes.\<close>

theorem uint64_roundtrip:
  assumes "p + 8 \<le> length buf"
  shows "get_uint64 (put_uint64 buf p v) p = v \<and> length (put_uint64 buf p v) = length buf \<and>
    take p (put_uint64 buf p v) = take p buf \<and> drop (p + 8) (put_uint64 buf p v) = drop (p + 8) buf"
  using assms get_put_uint64 [OF assms] by (simp add: put_uint64_blit)

theorem uint64_roundtrip_witness:
  "get_uint64 (put_uint64 [9, 9, 9, 9, 9, 9, 9, 9, 9, 9] 1 0x0102030405060708) 1 = 0x0102030405060708"
  using uint64_roundtrip [of 1 "[9, 9, 9, 9, 9, 9, 9, 9, 9, 9]" "0x0102030405060708"] by simp

end
