(* ===== verification/Framing.thy ===== *)
theory Framing
  imports Wire
begin

text \<open>
  The ZMTP/2.0 framing layer: \<open>src/net/v2_protocol.hpp\<close>, \<open>encoder.hpp\<close>, \<open>v2_encoder.cpp\<close>,
  \<open>decoder.hpp\<close> and \<open>v2_decoder.cpp\<close>. Encoder and decoder are the two state machines of the
  code: a \<open>next\<close> action, the bytes still to be written or read for the current action, and the
  message in progress. A pointer into a buffer is represented by the bytes behind it that matter:
  \<open>write_pos\<close> by the \<open>to_write\<close> bytes not yet copied out, \<open>read_pos\<close> by the bytes stored since the
  last \<open>next_step\<close>.

  The locale \<open>frame_decoder\<close> is the contract of \<open>i_decoder\<close> that the stream engine relies on; the
  engine's decode loop is proved once inside it and the locale is interpreted on the decoder.
\<close>

section \<open>Messages as the framing layer sees them\<close>

text \<open>\<open>msg_t\<close> reduced to what \<open>flags ()\<close>, \<open>size ()\<close> and \<open>data ()\<close> return.\<close>

record frame =
  fflags :: u8
  fdata :: bytes

definition msg_more :: u8 where "msg_more = 1"
definition msg_command :: u8 where "msg_command = 2"

definition more_flag :: u8 where "more_flag = 1"
definition large_flag :: u8 where "large_flag = 2"
definition command_flag :: u8 where "command_flag = 4"

lemmas flag_defs = msg_more_def msg_command_def more_flag_def large_flag_def command_flag_def

section \<open>The encoder\<close>

datatype enc_step = EMessage_ready | ESize_ready

record encoder =
  write_pos :: bytes
  enext :: enc_step
  new_msg_flag :: bool
  ebufsize :: nat
  ein_progress :: "frame option"
  edata :: "bytes option"
  eacks :: "bytes list"

definition to_write :: "encoder \<Rightarrow> nat" where
  "to_write e = length (write_pos e)"

definition enc_next_step :: "bytes \<Rightarrow> enc_step \<Rightarrow> bool \<Rightarrow> encoder \<Rightarrow> encoder" where
  "enc_next_step bs nx nm e = e\<lparr>write_pos := bs, enext := nx, new_msg_flag := nm\<rparr>"

definition v2_encoder :: "nat \<Rightarrow> encoder" where
  "v2_encoder bufsize =
     \<lparr>write_pos = [], enext = EMessage_ready, new_msg_flag = True, ebufsize = bufsize,
      ein_progress = None, edata = None, eacks = []\<rparr>"

definition protocol_flags :: "frame \<Rightarrow> u8" where
  "protocol_flags m =
     (if fflags m AND msg_more \<noteq> 0 then more_flag else 0) OR
     (if length (fdata m) > 255 then large_flag else 0) OR
     (if fflags m AND msg_command \<noteq> 0 then command_flag else 0)"

text \<open>The header \<open>message_ready\<close> assembles in \<open>tmpbuf\<close>: 9 bytes for a large message, else 2.\<close>

definition header :: "frame \<Rightarrow> bytes" where
  "header m =
     (let size = length (fdata m); tmpbuf = (replicate 9 0)[0 := protocol_flags m] in
      if size > 255 then take 9 (put_uint64 tmpbuf 1 (of_nat size))
      else take 2 (tmpbuf[1 := of_nat size]))"

definition enc_message_ready :: "frame \<Rightarrow> encoder \<Rightarrow> encoder" where
  "enc_message_ready m e = enc_next_step (header m) ESize_ready False e"

definition enc_size_ready :: "frame \<Rightarrow> encoder \<Rightarrow> encoder" where
  "enc_size_ready m e =
     (case edata e of
        None \<Rightarrow> enc_next_step (fdata m) EMessage_ready True e
      | Some d \<Rightarrow> enc_next_step d EMessage_ready True e)"

definition enc_step :: "frame \<Rightarrow> encoder \<Rightarrow> encoder" where
  "enc_step m e =
     (case enext e of EMessage_ready \<Rightarrow> enc_message_ready m e | ESize_ready \<Rightarrow> enc_size_ready m e)"

definition load_msg :: "frame \<Rightarrow> bytes option \<Rightarrow> encoder \<Rightarrow> encoder option" where
  "load_msg m d e =
     (if ein_progress e \<noteq> None then None
      else Some (enc_step m (e\<lparr>ein_progress := Some m, edata := d\<rparr>)))"

text \<open>Closing the finished message: the record handed out by the callback is acknowledged.\<close>

definition enc_close :: "encoder \<Rightarrow> encoder" where
  "enc_close e =
     (case edata e of
        None \<Rightarrow> e\<lparr>ein_progress := None\<rparr>
      | Some d \<Rightarrow> e\<lparr>ein_progress := None, edata := None, eacks := eacks e @ [d]\<rparr>)"

definition enc_fill :: "frame \<Rightarrow> encoder \<Rightarrow> encoder" where
  "enc_fill m e = (if write_pos e = [] then enc_step m e else e)"

lemma length_header: "length (header m) = (if length (fdata m) > 255 then 9 else 2)"
  by (simp add: header_def Let_def)

lemma header_not_Nil [simp]: "header m \<noteq> []"
  using length_header [of m] by (auto split: if_splits)

lemmas enc_step_defs = enc_step_def enc_message_ready_def enc_size_ready_def enc_next_step_def

lemma enc_fill_progress:
  "write_pos e = [] \<Longrightarrow> \<not> new_msg_flag e \<Longrightarrow> write_pos (enc_fill m e) = [] \<Longrightarrow>
   new_msg_flag (enc_fill m e)"
  by (auto simp: enc_fill_def enc_step_defs split: enc_step.splits option.splits)

lemma encode_loop_decreases:
  assumes "0 < room" "\<not> (write_pos e = [] \<and> new_msg_flag e)"
    and "k = min (length (write_pos (enc_fill m e))) room"
  shows "2 * (room - k) +
      (if drop k (write_pos (enc_fill m e)) = [] \<and> \<not> new_msg_flag (enc_fill m e) then 1 else 0)
    < 2 * room + (if write_pos e = [] \<and> \<not> new_msg_flag e then 1 else 0)"
proof (cases "write_pos (enc_fill m e) = []")
  case True
  then have "write_pos e = []" by (auto simp: enc_fill_def split: if_splits)
  with assms True show ?thesis by (auto dest: enc_fill_progress)
next
  case False
  with assms(1,3) have "0 < k" "k \<le> room" by auto
  then show ?thesis by auto
qed

text \<open>The copy loop of \<open>encode\<close>: \<open>room\<close> is \<open>buffersize - pos\<close>, the first component collects the
  buffer. \<open>zc\<close> is \<open>!pos && !*data_\<close>, where all of \<open>write_pos\<close> may be returned without a copy.\<close>

function encode_loop :: "bool \<Rightarrow> nat \<Rightarrow> encoder \<Rightarrow> bytes \<times> encoder" where
  "encode_loop zc room e =
     (case ein_progress e of
        None \<Rightarrow> ([], e)
      | Some m \<Rightarrow>
          if room = 0 then ([], e)
          else if write_pos e = [] \<and> new_msg_flag e then ([], enc_close e)
          else
            (let e1 = enc_fill m e in
             if zc \<and> to_write e1 \<ge> room then (write_pos e1, e1\<lparr>write_pos := []\<rparr>)
             else
               (let to_copy = min (to_write e1) room;
                    (bs, e2) = encode_loop (zc \<and> to_copy = 0) (room - to_copy)
                                 (e1\<lparr>write_pos := drop to_copy (write_pos e1)\<rparr>)
                in (take to_copy (write_pos e1) @ bs, e2))))"
  by pat_completeness auto
termination
  by (relation "measure (\<lambda>(zc, room, e).
        2 * room + (if write_pos e = [] \<and> \<not> new_msg_flag e then 1 else 0))")
    (use encode_loop_decreases in \<open>auto simp: to_write_def simp del: drop_eq_Nil2\<close>)

declare encode_loop.simps [simp del]

definition encode :: "nat option \<Rightarrow> encoder \<Rightarrow> bytes \<times> encoder" where
  "encode sz e =
     (case sz of None \<Rightarrow> encode_loop True (ebufsize e) e | Some n \<Rightarrow> encode_loop False n e)"


section \<open>What the encoder emits\<close>

definition enc_body :: "frame \<Rightarrow> encoder \<Rightarrow> bytes" where
  "enc_body m e = (case edata e of None \<Rightarrow> fdata m | Some d \<Rightarrow> d)"

definition enc_pending :: "encoder \<Rightarrow> bytes" where
  "enc_pending e =
     (case ein_progress e of
        None \<Rightarrow> []
      | Some m \<Rightarrow> write_pos e @ (if new_msg_flag e then [] else enc_body m e))"

definition enc_ok :: "encoder \<Rightarrow> bool" where
  "enc_ok e \<longleftrightarrow>
     (case ein_progress e of
        None \<Rightarrow> enext e = EMessage_ready \<and> write_pos e = []
      | Some m \<Rightarrow> new_msg_flag e = (enext e = EMessage_ready))"

lemmas enc_spec_defs = enc_ok_def enc_pending_def enc_body_def

lemma enc_ok_init: "enc_ok (v2_encoder n)"
  by (simp add: enc_ok_def v2_encoder_def)

lemma enc_load:
  "enc_ok e \<Longrightarrow> load_msg m d e = Some e' \<Longrightarrow>
   enc_ok e' \<and> ein_progress e' = Some m \<and> edata e' = d \<and> eacks e' = eacks e \<and>
   enc_pending e' = header m @ (case d of None \<Rightarrow> fdata m | Some x \<Rightarrow> x)"
  by (auto simp: load_msg_def enc_spec_defs enc_step_defs split: if_splits option.splits)

lemma enc_fill_ok:
  assumes "enc_ok e" "ein_progress e = Some m" "\<not> (write_pos e = [] \<and> new_msg_flag e)"
  shows "enc_ok (enc_fill m e)" "enc_pending (enc_fill m e) = enc_pending e"
    "ein_progress (enc_fill m e) = Some m" "edata (enc_fill m e) = edata e"
    "eacks (enc_fill m e) = eacks e"
  using assms
  by (auto simp: enc_fill_def enc_spec_defs enc_step_defs split: enc_step.splits option.splits)

lemma enc_drop_ok:
  assumes "enc_ok e" "ein_progress e = Some m"
  shows "enc_ok (e\<lparr>write_pos := drop k (write_pos e)\<rparr>)"
    "enc_pending e = take k (write_pos e) @ enc_pending (e\<lparr>write_pos := drop k (write_pos e)\<rparr>)"
  using assms by (auto simp: enc_spec_defs split: option.splits)

lemma enc_close_ok:
  assumes "enc_ok e" "ein_progress e = Some m" "write_pos e = []" "new_msg_flag e"
  shows "enc_ok (enc_close e)" "enc_pending e = []" "enc_pending (enc_close e) = []"
    "ein_progress (enc_close e) = None"
  using assms by (auto simp: enc_spec_defs enc_close_def split: option.splits)

text \<open>The acknowledgements an encode call may add: the record in progress, once it is closed.\<close>

definition enc_acked :: "encoder \<Rightarrow> encoder \<Rightarrow> bool" where
  "enc_acked e e' \<longleftrightarrow>
     (if ein_progress e \<noteq> None \<and> ein_progress e' = None
      then eacks e' = eacks e @ (case edata e of None \<Rightarrow> [] | Some d \<Rightarrow> [d])
      else eacks e' = eacks e \<and> ein_progress e' = ein_progress e \<and> edata e' = edata e)"

lemma enc_acked_cong:
  "enc_acked e2 e' \<Longrightarrow> ein_progress e2 = ein_progress e \<Longrightarrow> edata e2 = edata e \<Longrightarrow>
   eacks e2 = eacks e \<Longrightarrow> enc_acked e e'"
  by (auto simp: enc_acked_def split: if_splits)

lemma encode_loop_None: "ein_progress e = None \<Longrightarrow> encode_loop zc room e = ([], e)"
  by (subst encode_loop.simps) simp

lemma encode_loop_full: "room = 0 \<Longrightarrow> encode_loop zc room e = ([], e)"
  by (subst encode_loop.simps) (simp split: option.split)

lemma encode_loop_close:
  "ein_progress e = Some m \<Longrightarrow> room \<noteq> 0 \<Longrightarrow> write_pos e = [] \<Longrightarrow> new_msg_flag e \<Longrightarrow>
   encode_loop zc room e = ([], enc_close e)"
  by (subst encode_loop.simps) simp

lemma encode_loop_zero:
  "ein_progress e = Some m \<Longrightarrow> room \<noteq> 0 \<Longrightarrow> \<not> (write_pos e = [] \<and> new_msg_flag e) \<Longrightarrow>
   zc \<and> to_write (enc_fill m e) \<ge> room \<Longrightarrow>
   encode_loop zc room e = (write_pos (enc_fill m e), (enc_fill m e)\<lparr>write_pos := []\<rparr>)"
  by (subst encode_loop.simps) (auto simp: Let_def)

lemma encode_loop_copy:
  "ein_progress e = Some m \<Longrightarrow> room \<noteq> 0 \<Longrightarrow> \<not> (write_pos e = [] \<and> new_msg_flag e) \<Longrightarrow>
   \<not> (zc \<and> to_write (enc_fill m e) \<ge> room) \<Longrightarrow> k = min (to_write (enc_fill m e)) room \<Longrightarrow>
   encode_loop (zc \<and> k = 0) (room - k)
     ((enc_fill m e)\<lparr>write_pos := drop k (write_pos (enc_fill m e))\<rparr>) = (cs, e') \<Longrightarrow>
   encode_loop zc room e = (take k (write_pos (enc_fill m e)) @ cs, e')"
  by (subst encode_loop.simps) (auto simp: Let_def)

text \<open>One call of the copy loop: it emits a prefix of what is pending and leaves the rest pending;
  it fills the room unless the message ends before, and a message that ends strictly before the
  room does is closed and acknowledged.\<close>

lemma encode_loop_spec:
  assumes "enc_ok e" "encode_loop zc room e = (bs, e')"
  shows "enc_ok e' \<and> enc_pending e = bs @ enc_pending e' \<and> enc_acked e e' \<and>
    (length (enc_pending e) < room \<longrightarrow> ein_progress e' = None) \<and>
    (\<not> zc \<longrightarrow> length bs = min room (length (enc_pending e)))"
  using assms
proof (induction zc room e arbitrary: bs e' rule: encode_loop.induct)
  case (1 zc room e)
  show ?case
  proof (cases "ein_progress e")
    case None
    with "1.prems" show ?thesis
      by (auto simp: encode_loop_None enc_acked_def enc_pending_def)
  next
    case (Some m)
    let ?e1 = "enc_fill m e"
    let ?k = "min (to_write ?e1) room"
    let ?e2 = "?e1\<lparr>write_pos := drop ?k (write_pos ?e1)\<rparr>"
    consider "room = 0" | (close) "room \<noteq> 0" "write_pos e = []" "new_msg_flag e"
      | (zero) "room \<noteq> 0" "\<not> (write_pos e = [] \<and> new_msg_flag e)" "zc \<and> to_write ?e1 \<ge> room"
      | (copy) "room \<noteq> 0" "\<not> (write_pos e = [] \<and> new_msg_flag e)" "\<not> (zc \<and> to_write ?e1 \<ge> room)"
      by blast
    then show ?thesis
    proof cases
      case 1
      with "1.prems" show ?thesis by (auto simp: encode_loop_full enc_acked_def)
    next
      case close
      with "1.prems" Some enc_close_ok [of e m] show ?thesis
        by (auto simp: encode_loop_close enc_acked_def enc_close_def split: option.splits)
    next
      case zero
      note f = enc_fill_ok [OF \<open>enc_ok e\<close> Some zero(2)]
      have "bs = write_pos ?e1" "e' = ?e1\<lparr>write_pos := []\<rparr>"
        using "1.prems"(2) encode_loop_zero [OF Some zero] by auto
      moreover have "room \<le> length (enc_pending e)"
        using enc_drop_ok(2) [OF f(1,3), of "length (write_pos ?e1)"] f(2) zero(3)
        by (simp add: to_write_def)
      ultimately show ?thesis
        using f enc_drop_ok [OF f(1,3), of "length (write_pos ?e1)"] Some zero
        by (simp add: enc_acked_def)
    next
      case copy
      note f = enc_fill_ok [OF \<open>enc_ok e\<close> Some copy(2)]
      obtain cs e3 where rec: "encode_loop (zc \<and> ?k = 0) (room - ?k) ?e2 = (cs, e3)"
        by fastforce
      have res: "bs = take ?k (write_pos ?e1) @ cs" "e' = e3"
        using "1.prems"(2) encode_loop_copy [OF Some copy refl rec] by auto
      have len: "length (enc_pending e) = ?k + length (enc_pending ?e2)"
        using enc_drop_ok(2) [OF f(1,3), of ?k] f(2) by (simp add: to_write_def)
      note IH = "1.IH" [OF Some copy(1,2) refl copy(3) refl enc_drop_ok(1) [OF f(1,3)] rec]
      have "enc_pending e = bs @ enc_pending e3"
        using IH res(1) enc_drop_ok(2) [OF f(1,3), of ?k] f(2) by (metis append_assoc)
      moreover have "enc_acked e e3"
        by (rule enc_acked_cong [of ?e2]) (use IH f(3,4,5) Some in simp_all)
      moreover have "\<not> zc \<longrightarrow> length bs = min room (length (enc_pending e))"
      proof
        assume "\<not> zc"
        with IH have "length cs = min (room - ?k) (length (enc_pending ?e2))" by blast
        moreover have "length bs = ?k + length cs" using res(1) by (simp add: to_write_def)
        ultimately show "length bs = min room (length (enc_pending e))" using len by linarith
      qed
      moreover have "length (enc_pending e) < room \<longrightarrow> ein_progress e3 = None"
      proof
        assume "length (enc_pending e) < room"
        then have "length (enc_pending ?e2) < room - ?k" using len by linarith
        then show "ein_progress e3 = None" using IH by blast
      qed
      ultimately show ?thesis using IH res(2) by blast
    qed
  qed
qed

lemma encode_loop_bufsize: "encode_loop zc room e = (bs, e') \<Longrightarrow> ebufsize e' = ebufsize e"
proof (induction zc room e arbitrary: bs e' rule: encode_loop.induct)
  case (1 zc room e)
  have f: "ebufsize (enc_fill m e) = ebufsize e" for m
    by (auto simp: enc_fill_def enc_step_defs split: enc_step.splits option.splits)
  have c: "ebufsize (enc_close e) = ebufsize e" by (simp add: enc_close_def split: option.split)
  from "1.prems" show ?case
    by (subst (asm) encode_loop.simps)
      (auto simp: f c Let_def split: option.splits if_splits prod.splits dest!: "1.IH" [rotated -1])
qed

text \<open>Also with zero-copy a call returns as much as there is room for, or more.\<close>

lemma encode_loop_length:
  assumes "enc_ok e" "encode_loop zc room e = (bs, e')"
  shows "min room (length (enc_pending e)) \<le> length bs"
  using assms
proof (induction zc room e arbitrary: bs e' rule: encode_loop.induct)
  case (1 zc room e)
  show ?case
  proof (cases "ein_progress e")
    case None
    then show ?thesis by (simp add: enc_pending_def)
  next
    case (Some m)
    let ?e1 = "enc_fill m e"
    let ?k = "min (to_write ?e1) room"
    let ?e2 = "?e1\<lparr>write_pos := drop ?k (write_pos ?e1)\<rparr>"
    consider "room = 0" | (close) "room \<noteq> 0" "write_pos e = []" "new_msg_flag e"
      | (zero) "room \<noteq> 0" "\<not> (write_pos e = [] \<and> new_msg_flag e)" "zc \<and> to_write ?e1 \<ge> room"
      | (copy) "room \<noteq> 0" "\<not> (write_pos e = [] \<and> new_msg_flag e)" "\<not> (zc \<and> to_write ?e1 \<ge> room)"
      by blast
    then show ?thesis
    proof cases
      case close
      then show ?thesis using enc_close_ok(2) [OF "1.prems"(1) Some] by simp
    next
      case zero
      then show ?thesis using "1.prems"(2) encode_loop_zero [OF Some zero] by (auto simp: to_write_def)
    next
      case copy
      note f = enc_fill_ok [OF \<open>enc_ok e\<close> Some copy(2)]
      obtain cs e3 where rec: "encode_loop (zc \<and> ?k = 0) (room - ?k) ?e2 = (cs, e3)"
        by fastforce
      have "bs = take ?k (write_pos ?e1) @ cs" using "1.prems"(2) encode_loop_copy [OF Some copy refl rec] by auto
      then have "length bs = ?k + length cs" by (simp add: to_write_def)
      moreover have "length (enc_pending e) = ?k + length (enc_pending ?e2)"
        using enc_drop_ok(2) [OF f(1,3), of ?k] f(2) by (simp add: to_write_def)
      moreover have "min (room - ?k) (length (enc_pending ?e2)) \<le> length cs"
        by (rule "1.IH" [OF Some copy(1,2) refl copy(3) refl enc_drop_ok(1) [OF f(1,3)] rec])
      ultimately show ?thesis by linarith
    qed simp
  qed
qed

text \<open>A run of encode calls, one per send buffer.\<close>

fun encode_run :: "nat option list \<Rightarrow> encoder \<Rightarrow> bytes \<times> encoder" where
  "encode_run [] e = ([], e)"
| "encode_run (n # ns) e =
     (let (bs, e1) = encode n e; (cs, e2) = encode_run ns e1 in (bs @ cs, e2))"

lemma encode_spec:
  assumes "enc_ok e" "encode sz e = (bs, e')"
  shows "enc_ok e' \<and> enc_pending e = bs @ enc_pending e' \<and> enc_acked e e'"
  using assms encode_loop_spec by (auto simp: encode_def split: option.splits)

lemma enc_acked_trans: "enc_acked e e1 \<Longrightarrow> enc_acked e1 e2 \<Longrightarrow> enc_acked e e2"
  by (auto simp: enc_acked_def split: if_splits)

lemma encode_run_spec:
  assumes "enc_ok e" "encode_run ns e = (bs, e')"
  shows "enc_ok e' \<and> enc_pending e = bs @ enc_pending e' \<and> enc_acked e e'"
  using assms
proof (induction ns arbitrary: e bs)
  case Nil
  then show ?case by (auto simp: enc_acked_def)
next
  case (Cons n ns)
  obtain b1 e1 where n: "encode n e = (b1, e1)" by fastforce
  from Cons.prems(2) n obtain b2 where r: "encode_run ns e1 = (b2, e')" "bs = b1 @ b2"
    by (auto split: prod.splits)
  note s1 = encode_spec [OF Cons.prems(1) n]
  with Cons.IH [OF _ r(1)] r(2) show ?case by (auto intro: enc_acked_trans)
qed

lemma encode_run_finishes:
  assumes "enc_ok e" "encode_run (map Some ns) e = (bs, e')" "\<forall>n\<in>set ns. 0 < n"
    "length (enc_pending e) < length ns"
  shows "ein_progress e' = None"
  using assms
proof (induction ns arbitrary: e bs)
  case Nil
  then show ?case by simp
next
  case (Cons n ns)
  obtain b1 e1 where n: "encode (Some n) e = (b1, e1)" by fastforce
  from Cons.prems(2) n obtain b2 where r: "encode_run (map Some ns) e1 = (b2, e')"
    by (auto split: prod.splits)
  note s = encode_loop_spec [OF Cons.prems(1), of False n b1 e1]
  have ok1: "enc_ok e1" using encode_spec [OF Cons.prems(1) n] by simp
  show ?case
  proof (cases "ein_progress e1")
    case None
    then show ?thesis using encode_run_spec [OF ok1 r] by (auto simp: enc_acked_def)
  next
    case (Some m)
    have n': "encode_loop False n e = (b1, e1)" using n by (simp add: encode_def)
    from s [OF n'] Some
    have "\<not> length (enc_pending e) < n" "length b1 = min n (length (enc_pending e))"
      by (metis option.distinct(1))+
    moreover from s [OF n'] have "length (enc_pending e) = length b1 + length (enc_pending e1)"
      by (metis length_append)
    moreover have "0 < n" using Cons.prems(3) by simp
    moreover have "length (enc_pending e) \<le> length ns" using Cons.prems(4) by simp
    ultimately have "length (enc_pending e1) < length ns" by linarith
    with Cons.prems(3) show ?thesis by (intro Cons.IH [OF ok1 r]) auto
  qed
qed

section \<open>The decoder\<close>

datatype derrno = EMSGSIZE | ENOMEM
datatype dec_rc = More | Done | Err derrno
datatype dec_step = Flags_ready | One_byte_size_ready | Eight_byte_size_ready | DMessage_ready

record decoder =
  dnext :: dec_step
  rbuf :: bytes
  to_read :: nat
  dmsg_flags :: u8
  din_progress :: frame
  maxmsgsize :: int

definition dec_next_step :: "nat \<Rightarrow> dec_step \<Rightarrow> decoder \<Rightarrow> decoder" where
  "dec_next_step n nx d = d\<lparr>rbuf := [], to_read := n, dnext := nx\<rparr>"

definition v2_decoder :: "int \<Rightarrow> decoder" where
  "v2_decoder maxsize = dec_next_step 1 Flags_ready
     \<lparr>dnext = Flags_ready, rbuf = [], to_read = 0, dmsg_flags = 0,
      din_progress = \<lparr>fflags = 0, fdata = []\<rparr>, maxmsgsize = maxsize\<rparr>"

definition flags_ready :: "decoder \<Rightarrow> decoder \<times> dec_rc" where
  "flags_ready d =
     (let b = rbuf d ! 0;
          mf = (if b AND more_flag \<noteq> 0 then msg_more else 0) OR
               (if b AND command_flag \<noteq> 0 then msg_command else 0);
          d1 = d\<lparr>dmsg_flags := mf\<rparr>
      in if b AND large_flag \<noteq> 0 then (dec_next_step 8 Eight_byte_size_ready d1, More)
         else (dec_next_step 1 One_byte_size_ready d1, More))"

text \<open>\<open>in_progress.init_size (n)\<close> followed by \<open>set_flags\<close> and \<open>next_step\<close>; \<open>malloc_ok n\<close> says whether
  the allocation that \<open>init_size\<close> makes for more than 29 bytes succeeds. The body is received into
  \<open>rbuf\<close> and becomes the data of the message when it is complete.\<close>

definition dec_init_size :: "(nat \<Rightarrow> bool) \<Rightarrow> nat \<Rightarrow> decoder \<Rightarrow> decoder \<times> dec_rc" where
  "dec_init_size malloc_ok n d =
     (if n > 29 \<and> \<not> malloc_ok n
      then (d\<lparr>din_progress := \<lparr>fflags = 0, fdata = []\<rparr>\<rparr>, Err ENOMEM)
      else (dec_next_step n DMessage_ready
              (d\<lparr>din_progress := \<lparr>fflags = 0 OR dmsg_flags d, fdata = []\<rparr>\<rparr>), More))"

definition one_byte_size_ready :: "(nat \<Rightarrow> bool) \<Rightarrow> decoder \<Rightarrow> decoder \<times> dec_rc" where
  "one_byte_size_ready malloc_ok d =
     (if maxmsgsize d \<ge> 0 \<and> int (unat (rbuf d ! 0)) > maxmsgsize d then (d, Err EMSGSIZE)
      else dec_init_size malloc_ok (unat (rbuf d ! 0)) d)"

definition eight_byte_size_ready :: "(nat \<Rightarrow> bool) \<Rightarrow> decoder \<Rightarrow> decoder \<times> dec_rc" where
  "eight_byte_size_ready malloc_ok d =
     (let msg_size = get_uint64 (rbuf d) 0 in
      if maxmsgsize d \<ge> 0 \<and> int (unat msg_size) > maxmsgsize d then (d, Err EMSGSIZE)
      else if msg_size \<noteq> (ucast msg_size :: u64) then (d, Err EMSGSIZE)
      else dec_init_size malloc_ok (unat msg_size) d)"

definition dec_message_ready :: "decoder \<Rightarrow> decoder \<times> dec_rc" where
  "dec_message_ready d =
     (dec_next_step 1 Flags_ready
        (d\<lparr>din_progress := (din_progress d)\<lparr>fdata := rbuf d\<rparr>\<rparr>), Done)"

definition dec_run_step :: "(nat \<Rightarrow> bool) \<Rightarrow> decoder \<Rightarrow> decoder \<times> dec_rc" where
  "dec_run_step malloc_ok d =
     (case dnext d of
        Flags_ready \<Rightarrow> flags_ready d
      | One_byte_size_ready \<Rightarrow> one_byte_size_ready malloc_ok d
      | Eight_byte_size_ready \<Rightarrow> eight_byte_size_ready malloc_ok d
      | DMessage_ready \<Rightarrow> dec_message_ready d)"

lemmas dec_step_defs = dec_run_step_def flags_ready_def one_byte_size_ready_def
  eight_byte_size_ready_def dec_message_ready_def dec_init_size_def dec_next_step_def Let_def

text \<open>The inner loop \<open>while (to_read == 0)\<close> of \<open>decode\<close>.\<close>

function dec_steps :: "(nat \<Rightarrow> bool) \<Rightarrow> decoder \<Rightarrow> decoder \<times> dec_rc" where
  "dec_steps malloc_ok d =
     (if to_read d \<noteq> 0 then (d, More)
      else (case dec_run_step malloc_ok d of
              (d', More) \<Rightarrow> dec_steps malloc_ok d'
            | (d', rc) \<Rightarrow> (d', rc)))"
  by pat_completeness auto
termination
  by (relation "measure (\<lambda>(_, d). if to_read d \<noteq> 0 then 0 else
        (case dnext d of DMessage_ready \<Rightarrow> 1 | Flags_ready \<Rightarrow> 1 | _ \<Rightarrow> 2))")
    (auto simp: dec_step_defs split: dec_step.splits if_splits)

declare dec_steps.simps [simp del]

lemma dec_steps_More: "dec_steps malloc_ok d = (d', More) \<Longrightarrow> 0 < to_read d'"
proof (induction malloc_ok d rule: dec_steps.induct)
  case (1 malloc_ok d)
  then show ?case
    by (auto simp: dec_steps.simps [of malloc_ok d] split: if_splits prod.splits dec_rc.splits)
qed

text \<open>The copy loop of \<open>decode\<close>. The third component is the input not consumed, so
  \<open>bytes_used_\<close> is the difference of the lengths. In the zero-copy case (\<open>data_ == read_pos\<close>) the
  socket has already stored the bytes where the loop would copy them, and at most \<open>to_read\<close> of
  them, so both branches of the code have the effect of this loop.\<close>

function decode :: "(nat \<Rightarrow> bool) \<Rightarrow> decoder \<Rightarrow> bytes \<Rightarrow> decoder \<times> dec_rc \<times> bytes" where
  "decode malloc_ok d data =
     (if data = [] then (d, More, [])
      else
        (let to_copy = min (to_read d) (length data);
             d1 = d\<lparr>rbuf := rbuf d @ take to_copy data, to_read := to_read d - to_copy\<rparr>
         in case dec_steps malloc_ok d1 of
              (d2, More) \<Rightarrow> decode malloc_ok d2 (drop to_copy data)
            | (d2, rc) \<Rightarrow> (d2, rc, drop to_copy data)))"
  by pat_completeness auto
termination
  by (relation "measure (\<lambda>(_, d, data). 2 * length data + (if to_read d = 0 then 1 else 0))")
    (auto dest: dec_steps_More [OF sym])

declare decode.simps [simp del]


section \<open>The contract of a decoder and the engine's input loop\<close>

text \<open>What \<open>write_msg\<close> tells the loop of \<open>in_event\<close>: 0, -1 or -2 (the finish record was seen).\<close>

datatype write_rc = W_ok | W_fail | W_finish

text \<open>Why the loop ended: input exhausted, more input needed, or -1 from either side.\<close>

datatype loop_rc = L_empty | L_more | L_decode_error derrno | L_write_error

text \<open>\<open>while (insize > 0)\<close> of \<open>stream_engine_t::in_event\<close>; \<open>dec\<close> and \<open>msg\<close> are the virtual functions
  of \<open>i_decoder\<close>, \<open>wm\<close> is \<open>write_msg\<close>, \<open>stopped\<close> is \<open>input_stopped\<close>.\<close>

partial_function (option) in_event_loop ::
  "('d \<Rightarrow> bytes \<Rightarrow> 'd \<times> dec_rc \<times> bytes) \<Rightarrow> ('d \<Rightarrow> frame) \<Rightarrow> ('s \<Rightarrow> frame \<Rightarrow> 's \<times> write_rc) \<Rightarrow>
   'd \<Rightarrow> 's \<Rightarrow> bool \<Rightarrow> bytes \<Rightarrow> ('d \<times> 's \<times> bool \<times> loop_rc \<times> bytes) option" where
  "in_event_loop dec msg wm d s stopped inp =
     (if inp = [] then Some (d, s, stopped, L_empty, [])
      else
        (case dec d inp of (d', rc, rest) \<Rightarrow>
           (case rc of
              More \<Rightarrow> Some (d', s, stopped, L_more, rest)
            | Err x \<Rightarrow> Some (d', s, stopped, L_decode_error x, rest)
            | Done \<Rightarrow>
                (case wm s (msg d') of (s', w) \<Rightarrow>
                   (case w of
                      W_fail \<Rightarrow> Some (d', s', stopped, L_write_error, rest)
                    | W_ok \<Rightarrow> in_event_loop dec msg wm d' s' stopped rest
                    | W_finish \<Rightarrow> in_event_loop dec msg wm d' s' True rest)))))"

declare in_event_loop.simps [code]

text \<open>Several reads from the socket, each processed by the loop as far as it goes.\<close>

fun in_event_reads ::
  "('d \<Rightarrow> bytes \<Rightarrow> 'd \<times> dec_rc \<times> bytes) \<Rightarrow> ('d \<Rightarrow> frame) \<Rightarrow> ('s \<Rightarrow> frame \<Rightarrow> 's \<times> write_rc) \<Rightarrow>
   'd \<Rightarrow> 's \<Rightarrow> bytes list \<Rightarrow> ('d \<times> 's) option" where
  "in_event_reads dec msg wm d s [] = Some (d, s)"
| "in_event_reads dec msg wm d s (c # cs) =
     (case in_event_loop dec msg wm d s False c of
        Some (d', s', stopped, rc, []) \<Rightarrow> in_event_reads dec msg wm d' s' cs
      | _ \<Rightarrow> None)"

definition collect :: "frame list \<Rightarrow> frame \<Rightarrow> frame list \<times> write_rc" where
  "collect ms m = (ms @ [m], W_ok)"

locale frame_decoder =
  fixes dec :: "'d \<Rightarrow> bytes \<Rightarrow> 'd \<times> dec_rc \<times> bytes"
    and msg :: "'d \<Rightarrow> frame"
    and enc :: "frame \<Rightarrow> bytes"
    and delivered :: "frame \<Rightarrow> frame"
    and valid :: "frame \<Rightarrow> bool"
    and mid :: "'d \<Rightarrow> frame \<Rightarrow> bytes \<Rightarrow> bool"
    and idle :: "'d \<Rightarrow> bool"
  assumes enc_not_Nil: "enc m \<noteq> []"
    and idle_mid: "idle d \<Longrightarrow> valid m \<Longrightarrow> mid d m []"
    and dec_partial: "mid d m g \<Longrightarrow> data \<noteq> [] \<Longrightarrow> rem \<noteq> [] \<Longrightarrow> enc m = g @ data @ rem \<Longrightarrow>
      \<exists>d'. dec d data = (d', More, []) \<and> mid d' m (g @ data)"
    and dec_complete: "mid d m g \<Longrightarrow> data \<noteq> [] \<Longrightarrow> g @ data = enc m @ rest \<Longrightarrow>
      length g < length (enc m) \<Longrightarrow>
      \<exists>d'. dec d data = (d', Done, rest) \<and> idle d' \<and> msg d' = delivered m"
begin

text \<open>The decoder stands at byte \<open>length g\<close> of the first frame of \<open>fs\<close>.\<close>

definition synced :: "'d \<Rightarrow> bytes \<Rightarrow> frame list \<Rightarrow> bool" where
  "synced d g fs \<longleftrightarrow>
     (g = [] \<and> idle d \<or> (\<exists>m fs'. fs = m # fs' \<and> mid d m g \<and> length g < length (enc m)))"

lemma synced_mid: "synced d g (m # fs) \<Longrightarrow> valid m \<Longrightarrow> mid d m g \<and> length g < length (enc m)"
  using enc_not_Nil [of m] by (auto simp: synced_def idle_mid)

text \<open>\<open>wm\<close> is any \<open>write_msg\<close> that takes the messages of the stream as long as \<open>P\<close> holds.\<close>

lemma loop_delivers:
  assumes "synced d g fs" "\<forall>m\<in>set fs. valid m" "g @ data @ future = concat (map enc fs)" "P s"
    "\<forall>m\<in>set fs. Q m"
    and ok: "\<And>s m. P s \<Longrightarrow> Q m \<Longrightarrow> snd (wm s (delivered m)) = W_ok \<and> P (fst (wm s (delivered m)))"
  shows "\<exists>d' g' dn rest rc.
    in_event_loop dec msg wm d s st data = Some (d', foldl (\<lambda>s m. fst (wm s m)) s (map delivered dn), st, rc, []) \<and>
    fs = dn @ rest \<and> synced d' g' rest \<and> g' @ future = concat (map enc rest) \<and> (rc = L_empty \<or> rc = L_more)"
  using assms(1-5)
proof (induction fs arbitrary: d g data s)
  case Nil
  then have "data = []" by simp
  with Nil show ?case
    by (intro exI [of _ d] exI [of _ "[]"] exI [of _ L_empty]) (auto simp: in_event_loop.simps)
next
  case (Cons m fs)
  have m: "mid d m g" "length g < length (enc m)"
    using synced_mid [OF Cons.prems(1)] Cons.prems(2) by auto
  have eq: "g @ data @ future = enc m @ concat (map enc fs)" using Cons.prems(3) by simp
  show ?case
  proof (cases "data = []")
    case True
    then show ?thesis
      using Cons.prems
      by (intro exI [of _ d] exI [of _ g] exI [of _ "[]"] exI [of _ "m # fs"] exI [of _ L_empty])
        (auto simp: in_event_loop.simps)
  next
    case ne: False
    show ?thesis
    proof (cases "length (g @ data) < length (enc m)")
      case True
      then obtain rem where rem: "enc m = (g @ data) @ rem" "rem \<noteq> []"
        using append_eq_shorter [of "g @ data" future "enc m"] eq by auto
      then obtain d' where d': "dec d data = (d', More, [])" "mid d' m (g @ data)"
        using dec_partial [OF m(1) ne, of rem] by auto
      with True ne show ?thesis
        using Cons.prems(3)
        by (intro exI [of _ d'] exI [of _ "g @ data"] exI [of _ "[]"] exI [of _ "m # fs"]
            exI [of _ L_more]) (auto simp: in_event_loop.simps synced_def)
    next
      case False
      then obtain rest where rest: "g @ data = enc m @ rest" "rest @ future = concat (map enc fs)"
        using append_eq_longer [of "g @ data" future "enc m"] eq by auto
      then obtain d' where d': "dec d data = (d', Done, rest)" "idle d'" "msg d' = delivered m"
        using dec_complete [OF m(1) ne rest(1) m(2)] by auto
      have sy: "synced d' [] fs" using d'(2) by (simp add: synced_def)
      have va: "\<forall>m\<in>set fs. valid m" using Cons.prems(2) by simp
      have ap: "[] @ rest @ future = concat (map enc fs)" using rest(2) by simp
      obtain s1 where w: "wm s (delivered m) = (s1, W_ok)" "P s1"
        using ok [OF Cons.prems(4), of m] Cons.prems(5) by (metis list.set_intros(1) prod.collapse)
      have q: "\<forall>m\<in>set fs. Q m" using Cons.prems(5) by simp
      from Cons.IH [OF sy va ap w(2) q] obtain d2 g2 dn r rc where
        "in_event_loop dec msg wm d' s1 st rest =
           Some (d2, foldl (\<lambda>s m. fst (wm s m)) s1 (map delivered dn), st, rc, [])"
        "fs = dn @ r" "synced d2 g2 r" "g2 @ future = concat (map enc r)" "rc = L_empty \<or> rc = L_more"
        by blast
      moreover from this d' ne w(1) have "in_event_loop dec msg wm d s st data =
          Some (d2, foldl (\<lambda>s m. fst (wm s m)) s (map delivered (m # dn)), st, rc, [])"
        by (subst in_event_loop.simps) simp
      ultimately show ?thesis by (metis append_Cons)
    qed
  qed
qed

lemma loop_collects:
  assumes "synced d g fs" "\<forall>m\<in>set fs. valid m" "g @ data @ future = concat (map enc fs)"
  shows "\<exists>d' g' dn rest rc.
    in_event_loop dec msg collect d s st data = Some (d', s @ map delivered dn, st, rc, []) \<and>
    fs = dn @ rest \<and> synced d' g' rest \<and> g' @ future = concat (map enc rest)"
proof -
  have c: "foldl (\<lambda>s m. fst (collect s m)) s ms = s @ ms" for s ms
    by (induction ms arbitrary: s) (simp_all add: collect_def)
  have "snd (collect s m) = W_ok" for s m by (simp add: collect_def)
  then show ?thesis
    using loop_delivers [OF assms, of "\<lambda>_. True" s "\<lambda>_. True" collect st] unfolding c by blast
qed

lemma reads_deliver:
  assumes "synced d g fs" "\<forall>m\<in>set fs. valid m" "g @ concat chunks = concat (map enc fs)"
  shows "\<exists>d'. in_event_reads dec msg collect d s chunks = Some (d', s @ map delivered fs) \<and> idle d'"
  using assms
proof (induction chunks arbitrary: d g fs s)
  case Nil
  have "fs = []"
  proof (cases fs)
    case (Cons m fs')
    with Nil synced_mid [of d g m fs'] show ?thesis by auto
  qed simp
  with Nil show ?case by (auto simp: synced_def)
next
  case (Cons c chunks)
  have "g @ c @ concat chunks = concat (map enc fs)" using Cons.prems(3) by simp
  from loop_collects [OF Cons.prems(1,2) this, of s False] obtain d1 g1 dn r rc where
    l: "in_event_loop dec msg collect d s False c = Some (d1, s @ map delivered dn, False, rc, [])"
    and fs: "fs = dn @ r" and sy: "synced d1 g1 r" and tl: "g1 @ concat chunks = concat (map enc r)"
    by blast
  from Cons.IH [OF sy _ tl, of "s @ map delivered dn"] Cons.prems(2) fs l show ?case by auto
qed

end


section \<open>The decoder keeps the contract\<close>

text \<open>\<open>get_buffer\<close>: whether the socket is to store straight into the message, and how many bytes.\<close>

definition get_buffer :: "nat \<Rightarrow> decoder \<Rightarrow> bool \<times> nat" where
  "get_buffer bufsize d = (if to_read d \<ge> bufsize then (True, to_read d) else (False, bufsize))"

text \<open>The branch \<open>data_ == read_pos\<close> of \<open>decode\<close>; \<open>None\<close> is the failed assertion.\<close>

definition decode_zero_copy ::
  "(nat \<Rightarrow> bool) \<Rightarrow> decoder \<Rightarrow> bytes \<Rightarrow> (decoder \<times> dec_rc) option" where
  "decode_zero_copy malloc_ok d data =
     (if length data > to_read d then None
      else Some (dec_steps malloc_ok
        (d\<lparr>rbuf := rbuf d @ data, to_read := to_read d - length data\<rparr>)))"

lemma dec_steps_stay [simp]: "to_read d \<noteq> 0 \<Longrightarrow> dec_steps malloc_ok d = (d, More)"
  by (simp add: dec_steps.simps)

lemma decode_Nil [simp]: "decode malloc_ok d [] = (d, More, [])"
  by (simp add: decode.simps)

lemma decode_zero_copy_eq:
  assumes "data \<noteq> []" "length data \<le> to_read d"
  shows "map_option (\<lambda>(d', rc). (d', rc, [])) (decode_zero_copy malloc_ok d data) =
    Some (decode malloc_ok d data)"
  using assms by (simp add: decode_zero_copy_def decode.simps [of malloc_ok d data]
    split: prod.splits dec_rc.splits)

lemma decode_unfold:
  assumes "data \<noteq> []" "k = min (to_read d) (length data)"
    "dec_steps malloc_ok (d\<lparr>rbuf := rbuf d @ take k data, to_read := to_read d - k\<rparr>) = (d2, rc)"
  shows "decode malloc_ok d data =
    (if rc = More then decode malloc_ok d2 (drop k data) else (d2, rc, drop k data))"
  using assms by (simp add: decode.simps [of malloc_ok d data] Let_def split: dec_rc.splits)

lemma decode_More_rest: "decode malloc_ok d a = (d', More, r) \<Longrightarrow> r = []"
proof (induction malloc_ok d a rule: decode.induct)
  case (1 malloc_ok d a)
  let ?k = "min (to_read d) (length a)"
  obtain d2 rc where st:
    "dec_steps malloc_ok (d\<lparr>rbuf := rbuf d @ take ?k a, to_read := to_read d - ?k\<rparr>) = (d2, rc)"
    by fastforce
  show ?case
  proof (cases "a = []")
    case False
    note u = decode_unfold [OF False refl st]
    from u "1.prems" have "rc = More" by (auto split: if_splits)
    with "1.IH" [OF False refl refl] st u "1.prems" show ?thesis by simp
  qed (use "1.prems" in simp)
qed

lemma decode_append:
  "decode malloc_ok d (a @ b) =
     (case decode malloc_ok d a of
        (d', rc, r) \<Rightarrow> if rc = More then decode malloc_ok d' b else (d', rc, r @ b))"
proof (induction malloc_ok d a rule: decode.induct)
  case (1 malloc_ok d a)
  consider "a = []" | "b = []" | (fill) "a \<noteq> []" "b \<noteq> []" "to_read d \<le> length a"
    | (short) "a \<noteq> []" "b \<noteq> []" "length a < to_read d" by fastforce
  then show ?case
  proof cases
    case 2
    then show ?thesis by (auto split: prod.splits dest: decode_More_rest)
  next
    case fill
    let ?k = "to_read d"
    obtain d2 rc where st:
      "dec_steps malloc_ok (d\<lparr>rbuf := rbuf d @ take ?k a, to_read := to_read d - ?k\<rparr>) = (d2, rc)"
      by fastforce
    have ab: "a @ b \<noteq> []" "?k = min (to_read d) (length (a @ b))" "?k = min (to_read d) (length a)"
      using fill by auto
    have st': "dec_steps malloc_ok
        (d\<lparr>rbuf := rbuf d @ take ?k (a @ b), to_read := to_read d - ?k\<rparr>) = (d2, rc)"
      using st fill(3) by simp
    show ?thesis
      unfolding decode_unfold [OF ab(1,2) st'] decode_unfold [OF fill(1) ab(3) st]
      using "1.IH" [OF fill(1) ab(3) refl st [symmetric]] fill(3) by (cases rc) auto
  next
    case short
    let ?d1 = "d\<lparr>rbuf := rbuf d @ a, to_read := to_read d - length a\<rparr>"
    let ?j = "min (to_read d - length a) (length b)"
    let ?k = "min (to_read d) (length (a @ b))"
    have k: "?k = length a + ?j" using short by simp
    obtain d2 rc where st: "dec_steps malloc_ok
        (?d1\<lparr>rbuf := rbuf ?d1 @ take ?j b, to_read := to_read ?d1 - ?j\<rparr>) = (d2, rc)"
      by fastforce
    then have st': "dec_steps malloc_ok
        (d\<lparr>rbuf := rbuf d @ take ?k (a @ b), to_read := to_read d - ?k\<rparr>) = (d2, rc)"
      unfolding k by simp
    have j: "?j = min (to_read ?d1) (length b)" by simp
    have "decode malloc_ok d a = (?d1, More, [])"
      using short decode_unfold [OF short(1), of "length a" d malloc_ok ?d1 More] by simp
    moreover have "a @ b \<noteq> []" using short by simp
    ultimately show ?thesis
      using decode_unfold [OF short(2) j st] decode_unfold [OF _ refl st'] k by simp
  qed simp
qed

definition frame_bytes :: "frame \<Rightarrow> bytes" where
  "frame_bytes m = header m @ fdata m"

text \<open>What the receiver gets: the flags that travel are \<open>more\<close> and \<open>command\<close>.\<close>

definition delivered_flags :: "frame \<Rightarrow> u8" where
  "delivered_flags m = fflags m AND (msg_more OR msg_command)"

definition delivered :: "frame \<Rightarrow> frame" where
  "delivered m = \<lparr>fflags = delivered_flags m, fdata = fdata m\<rparr>"

definition frame_valid :: "(nat \<Rightarrow> bool) \<Rightarrow> int \<Rightarrow> frame \<Rightarrow> bool" where
  "frame_valid malloc_ok mx m \<longleftrightarrow>
     length (fdata m) < 2 ^ 64 \<and> (mx \<ge> 0 \<longrightarrow> int (length (fdata m)) \<le> mx) \<and>
     (length (fdata m) > 29 \<longrightarrow> malloc_ok (length (fdata m)))"

definition dec_idle :: "int \<Rightarrow> decoder \<Rightarrow> bool" where
  "dec_idle mx d \<longleftrightarrow> maxmsgsize d = mx \<and> dnext d = Flags_ready \<and> rbuf d = [] \<and> to_read d = 1"

text \<open>\<open>dec_mid d m g\<close>: the decoder has received the bytes \<open>g\<close> of the frame of \<open>m\<close> and no more.\<close>

definition dec_mid :: "(nat \<Rightarrow> bool) \<Rightarrow> int \<Rightarrow> decoder \<Rightarrow> frame \<Rightarrow> bytes \<Rightarrow> bool" where
  "dec_mid malloc_ok mx d m g \<longleftrightarrow>
     frame_valid malloc_ok mx m \<and> maxmsgsize d = mx \<and>
     (case dnext d of
        Flags_ready \<Rightarrow> g = [] \<and> rbuf d = [] \<and> to_read d = 1
      | One_byte_size_ready \<Rightarrow>
          length (fdata m) \<le> 255 \<and> g = [protocol_flags m] \<and> rbuf d = [] \<and> to_read d = 1 \<and>
          dmsg_flags d = delivered_flags m
      | Eight_byte_size_ready \<Rightarrow>
          length (fdata m) > 255 \<and> g = protocol_flags m # rbuf d \<and>
          length (rbuf d) + to_read d = 8 \<and> to_read d > 0 \<and> dmsg_flags d = delivered_flags m
      | DMessage_ready \<Rightarrow>
          g = header m @ rbuf d \<and> length (rbuf d) + to_read d = length (fdata m) \<and>
          to_read d > 0 \<and> fflags (din_progress d) = delivered_flags m)"

lemma header_eq:
  "header m = protocol_flags m #
     (if length (fdata m) > 255 then be64 (of_nat (length (fdata m)))
      else [of_nat (length (fdata m))])"
  by (simp add: header_def Let_def put_uint64_blit blit_eq eval_nat_numeral)

lemma protocol_flags_large:
  "protocol_flags m AND large_flag \<noteq> 0 \<longleftrightarrow> length (fdata m) > 255"
  by (simp add: protocol_flags_def flag_defs)

lemma and_exp_cases: "(w :: 'a::len word) AND 2 ^ n = (if bit w n then 2 ^ n else 0)"
  by (rule bit_word_eqI) (auto simp: bit_and_iff bit_exp_iff)

lemma and_flag_cases:
  fixes w :: u8
  shows "w AND 1 = (if bit w 0 then 1 else 0)" "w AND 2 = (if bit w 1 then 2 else 0)"
    "w AND 3 = (w AND 1) OR (w AND 2)"
proof -
  show "w AND 1 = (if bit w 0 then 1 else 0)" "w AND 2 = (if bit w 1 then 2 else 0)"
    using and_exp_cases [of w 0] and_exp_cases [of w 1] by auto
  have "(3 :: u8) = 1 OR 2" by simp
  then show "w AND 3 = (w AND 1) OR (w AND 2)" by (metis bit.conj_disj_distrib)
qed

lemma protocol_flags_delivered:
  "(if protocol_flags m AND more_flag \<noteq> 0 then msg_more else 0) OR
   (if protocol_flags m AND command_flag \<noteq> 0 then msg_command else 0) = delivered_flags m"
  by (simp add: protocol_flags_def delivered_flags_def flag_defs and_flag_cases)

lemma decode_byte:
  assumes "dec_steps malloc_ok (d\<lparr>rbuf := rbuf d @ [b], to_read := to_read d - 1\<rparr>) = (d2, rc)"
    and "to_read d > 0"
  shows "decode malloc_ok d [b] = (d2, rc, [])"
  using decode_unfold [of "[b]" 1 d malloc_ok d2 rc] assms by simp

lemma decode_last_byte:
  assumes "to_read d = 1" "dec_run_step malloc_ok (d\<lparr>rbuf := rbuf d @ [b], to_read := 0\<rparr>) = (d', rc)"
    "rc \<noteq> More \<or> to_read d' \<noteq> 0"
  shows "decode malloc_ok d [b] = (d', rc, [])"
  using assms by (intro decode_byte) (auto simp: dec_steps.simps split: dec_rc.splits)

lemma decode_inner_byte:
  "to_read d > 1 \<Longrightarrow>
   decode malloc_ok d [b] = (d\<lparr>rbuf := rbuf d @ [b], to_read := to_read d - 1\<rparr>, More, [])"
  by (intro decode_byte) auto

lemma dec_mid_byte_flags:
  assumes "dec_mid ok mx d m g" "dnext d = Flags_ready" "frame_bytes m = g @ b # rest"
  shows "\<exists>d'. decode ok d [b] = (d', More, []) \<and> dec_mid ok mx d' m (g @ [b]) \<and> rest \<noteq> []"
proof -
  have b: "b = protocol_flags m" "g = []" "rest \<noteq> []"
    using assms by (auto simp: dec_mid_def frame_bytes_def header_eq be64_bytes split: if_splits)
  have d: "rbuf d = []" "to_read d = 1" using assms by (auto simp: dec_mid_def)
  let ?d1 = "d\<lparr>dmsg_flags := delivered_flags m\<rparr>"
  show ?thesis
  proof (cases "length (fdata m) > 255")
    case True
    then show ?thesis
      using b d assms(1,2)
      by (intro exI [of _ "dec_next_step 8 Eight_byte_size_ready ?d1"] conjI decode_last_byte)
        (auto simp: dec_step_defs protocol_flags_large protocol_flags_delivered dec_mid_def)
  next
    case False
    then show ?thesis
      using b d assms(1,2)
      by (intro exI [of _ "dec_next_step 1 One_byte_size_ready ?d1"] conjI decode_last_byte)
        (auto simp: dec_step_defs protocol_flags_large protocol_flags_delivered dec_mid_def)
  qed
qed

lemma dec_init_size_ok:
  assumes "frame_valid ok mx m" "dmsg_flags d = delivered_flags m"
  shows "dec_init_size ok (length (fdata m)) d =
    (dec_next_step (length (fdata m)) DMessage_ready
       (d\<lparr>din_progress := \<lparr>fflags = delivered_flags m, fdata = []\<rparr>\<rparr>), More)"
  using assms by (auto simp: dec_init_size_def frame_valid_def)

lemma dec_mid_byte_one:
  assumes "dec_mid ok mx d m g" "dnext d = One_byte_size_ready" "frame_bytes m = g @ b # rest"
  shows "\<exists>d'. if rest \<noteq> [] then decode ok d [b] = (d', More, []) \<and> dec_mid ok mx d' m (g @ [b])
    else decode ok d [b] = (d', Done, []) \<and> dec_idle mx d' \<and> din_progress d' = delivered m"
proof -
  have v: "frame_valid ok mx m" "maxmsgsize d = mx" "rbuf d = []" "to_read d = 1"
    "dmsg_flags d = delivered_flags m" "length (fdata m) \<le> 255" "g = [protocol_flags m]"
    using assms(1,2) by (auto simp: dec_mid_def)
  have b: "b = of_nat (length (fdata m))" "rest = fdata m"
    using assms(3) v(6,7) by (auto simp: frame_bytes_def header_eq)
  have u: "unat b = length (fdata m)" using v(6) unfolding b by (simp add: unat_of_nat)
  let ?d0 = "d\<lparr>rbuf := [b], to_read := 0\<rparr>"
  let ?d1 = "dec_next_step (length (fdata m)) DMessage_ready
       (?d0\<lparr>din_progress := \<lparr>fflags = delivered_flags m, fdata = []\<rparr>\<rparr>)"
  have step: "dec_run_step ok ?d0 = (?d1, More)"
    using v dec_init_size_ok [OF v(1), of ?d0] assms(2)
    by (auto simp: dec_run_step_def one_byte_size_ready_def u frame_valid_def)
  show ?thesis
  proof (cases "rest = []")
    case True
    let ?d2 = "dec_next_step 1 Flags_ready (?d1\<lparr>din_progress := delivered m\<rparr>)"
    have "dec_run_step ok ?d1 = (?d2, Done)"
      using True b by (simp add: dec_run_step_def dec_message_ready_def dec_next_step_def delivered_def)
    then have "dec_steps ok ?d0 = (?d2, Done)"
      using step True b by (simp add: dec_steps.simps dec_next_step_def)
    with True v show ?thesis
      by (intro exI [of _ ?d2]) (auto simp: dec_idle_def dec_next_step_def intro!: decode_byte)
  next
    case False
    with v b step show ?thesis
      by (intro exI [of _ ?d1]) (auto simp: dec_mid_def dec_next_step_def header_eq
        intro!: decode_last_byte)
  qed
qed

lemma dec_mid_byte_eight:
  assumes "dec_mid ok mx d m g" "dnext d = Eight_byte_size_ready" "frame_bytes m = g @ b # rest"
  shows "\<exists>d'. decode ok d [b] = (d', More, []) \<and> dec_mid ok mx d' m (g @ [b]) \<and> rest \<noteq> []"
proof -
  have v: "frame_valid ok mx m" "maxmsgsize d = mx" "length (rbuf d) + to_read d = 8"
    "to_read d > 0" "dmsg_flags d = delivered_flags m" "length (fdata m) > 255"
    "g = protocol_flags m # rbuf d"
    using assms(1,2) by (auto simp: dec_mid_def)
  have eq: "be64 (of_nat (length (fdata m))) @ fdata m = (rbuf d @ [b]) @ rest"
    using assms(3) v(6,7) by (simp add: frame_bytes_def header_eq)
  from arg_cong [OF eq, of length] have rest: "rest \<noteq> []" using v by auto
  show ?thesis
  proof (cases "to_read d = 1")
    case True
    then have be: "rbuf d @ [b] = be64 (of_nat (length (fdata m)))" "rest = fdata m"
      using eq v(3) append_eq_append_conv [of "be64 (of_nat (length (fdata m)))" "rbuf d @ [b]"]
      by auto
    let ?d0 = "d\<lparr>rbuf := rbuf d @ [b], to_read := 0\<rparr>"
    let ?d1 = "dec_next_step (length (fdata m)) DMessage_ready
         (?d0\<lparr>din_progress := \<lparr>fflags = delivered_flags m, fdata = []\<rparr>\<rparr>)"
    have sz: "get_uint64 (rbuf d @ [b]) 0 = of_nat (length (fdata m))"
      unfolding be(1) using get_uint64_append [of _ "[]"] by simp
    have un: "unat (of_nat (length (fdata m)) :: u64) = length (fdata m)"
      using v(1) by (simp add: frame_valid_def unat_of_nat)
    then have ui: "uint (of_nat (length (fdata m)) :: u64) = int (length (fdata m))"
      by (metis uint_nat)
    have "dec_run_step ok ?d0 = (?d1, More)"
      using v dec_init_size_ok [OF v(1), of ?d0] assms(2) un ui
      by (auto simp: dec_run_step_def eight_byte_size_ready_def sz Let_def frame_valid_def)
    then show ?thesis
      using True v rest be
      by (intro exI [of _ ?d1]) (auto simp: dec_mid_def dec_next_step_def header_eq
        intro!: decode_last_byte)
  next
    case False
    then have "to_read d > 1" using v(4) by linarith
    with v rest assms(2) show ?thesis
      by (intro exI) (auto simp: dec_mid_def decode_inner_byte)
  qed
qed

lemma dec_mid_byte_body:
  assumes "dec_mid ok mx d m g" "dnext d = DMessage_ready" "frame_bytes m = g @ b # rest"
  shows "\<exists>d'. if rest \<noteq> [] then decode ok d [b] = (d', More, []) \<and> dec_mid ok mx d' m (g @ [b])
    else decode ok d [b] = (d', Done, []) \<and> dec_idle mx d' \<and> din_progress d' = delivered m"
proof -
  have v: "frame_valid ok mx m" "maxmsgsize d = mx" "to_read d > 0"
    "length (rbuf d) + to_read d = length (fdata m)" "g = header m @ rbuf d"
    "fflags (din_progress d) = delivered_flags m"
    using assms(1,2) by (auto simp: dec_mid_def)
  have eq: "fdata m = rbuf d @ b # rest"
    using assms(3) v(5) by (simp add: frame_bytes_def)
  have last: "rest = [] \<longleftrightarrow> to_read d = 1" using v(4) unfolding eq by auto
  let ?d2 = "dec_next_step 1 Flags_ready
    (d\<lparr>rbuf := rbuf d @ [b], to_read := 0, din_progress := delivered m\<rparr>)"
  show ?thesis
  proof (cases "rest = []")
    case True
    have "dec_run_step ok (d\<lparr>rbuf := rbuf d @ [b], to_read := 0\<rparr>) = (?d2, Done)"
      using v(6) assms(2) eq True
      by (simp add: dec_run_step_def dec_message_ready_def delivered_def dec_next_step_def)
    with True last v show ?thesis
      by (intro exI [of _ ?d2])
        (auto simp: dec_idle_def dec_next_step_def intro!: decode_last_byte)
  next
    case False
    then have "to_read d > 1" using last v(3) by linarith
    with False v assms(2) show ?thesis
      by (intro exI) (auto simp: dec_mid_def decode_inner_byte)
  qed
qed

lemma dec_mid_byte:
  assumes "dec_mid ok mx d m g" "frame_bytes m = g @ b # rest"
  shows "\<exists>d'. if rest \<noteq> [] then decode ok d [b] = (d', More, []) \<and> dec_mid ok mx d' m (g @ [b])
    else decode ok d [b] = (d', Done, []) \<and> dec_idle mx d' \<and> din_progress d' = delivered m"
proof (cases "dnext d")
  case Flags_ready
  from dec_mid_byte_flags [OF assms(1) this assms(2)] show ?thesis by auto
next
  case One_byte_size_ready
  from dec_mid_byte_one [OF assms(1) this assms(2)] show ?thesis .
next
  case Eight_byte_size_ready
  from dec_mid_byte_eight [OF assms(1) this assms(2)] show ?thesis by auto
next
  case DMessage_ready
  from dec_mid_byte_body [OF assms(1) this assms(2)] show ?thesis .
qed

lemma dec_mid_partial:
  assumes "dec_mid ok mx d m g" "frame_bytes m = g @ data @ rem" "rem \<noteq> []"
  shows "\<exists>d'. decode ok d data = (d', More, []) \<and> dec_mid ok mx d' m (g @ data)"
  using assms
proof (induction data arbitrary: d g)
  case (Cons b data)
  from dec_mid_byte [OF Cons.prems(1), of b "data @ rem"] Cons.prems(2,3) obtain d1
    where d1: "decode ok d [b] = (d1, More, [])" "dec_mid ok mx d1 m (g @ [b])" by auto
  with Cons.IH [OF d1(2)] Cons.prems(2,3) decode_append [of ok d "[b]" data]
  show ?case by auto
qed simp

lemma dec_mid_complete:
  assumes "dec_mid ok mx d m g" "g @ data = frame_bytes m @ rest" "length g < length (frame_bytes m)"
  shows "\<exists>d'. decode ok d data = (d', Done, rest) \<and> dec_idle mx d' \<and> din_progress d' = delivered m"
proof -
  from append_eq_shorter [OF assms(2,3)] obtain r where
    r: "frame_bytes m = g @ r" "r \<noteq> []" "data = r @ rest" by auto
  then obtain a b where ab: "r = a @ [b]" by (metis rev_exhaust)
  from dec_mid_partial [OF assms(1), of a "[b]"] r(1) ab obtain d1 where
    d1: "decode ok d a = (d1, More, [])" "dec_mid ok mx d1 m (g @ a)" by auto
  from dec_mid_byte [OF d1(2), of b "[]"] r(1) ab obtain d2 where
    d2: "decode ok d1 [b] = (d2, Done, [])" "dec_idle mx d2" "din_progress d2 = delivered m"
    by auto
  have "decode ok d data = (d2, Done, rest)"
    using r(3) ab d1(1) d2(1) decode_append [of ok d a "b # rest"] decode_append [of ok d1 "[b]" rest]
    by simp
  with d2 show ?thesis by blast
qed

interpretation v2: frame_decoder
  "decode malloc_ok" din_progress frame_bytes delivered "frame_valid malloc_ok mx"
  "dec_mid malloc_ok mx" "dec_idle mx" for malloc_ok mx
proof unfold_locales
  show "frame_bytes m \<noteq> []" for m by (simp add: frame_bytes_def)
  show "dec_mid malloc_ok mx d m []" if "dec_idle mx d" "frame_valid malloc_ok mx m" for d m
    using that by (simp add: dec_mid_def dec_idle_def)
  show "\<exists>d'. decode malloc_ok d data = (d', More, []) \<and> dec_mid malloc_ok mx d' m (g @ data)"
    if "dec_mid malloc_ok mx d m g" "rem \<noteq> []" "frame_bytes m = g @ data @ rem" for d m g data rem
    using dec_mid_partial that by blast
  show "\<exists>d'. decode malloc_ok d data = (d', Done, rest) \<and> dec_idle mx d' \<and> din_progress d' = delivered m"
    if "dec_mid malloc_ok mx d m g" "g @ data = frame_bytes m @ rest"
      "length g < length (frame_bytes m)" for d m g data rest
    using dec_mid_complete that by blast
qed

section \<open>Properties\<close>

text \<open>C20. However the byte stream of a sequence of frames is cut into reads, the decode loop of the
  engine run on a fresh decoder delivers exactly these messages, in order, each with its body and
  its \<open>more\<close> and \<open>command\<close> flags, and is ready for the next frame. The bodies must be within the
  configured \<open>maxmsgsize\<close> and the allocator must provide for the large ones.\<close>

theorem frames_delivered:
  assumes "\<forall>m\<in>set fs. frame_valid malloc_ok mx m"
    and "concat chunks = concat (map (\<lambda>m. header m @ fdata m) fs)"
  shows "\<exists>d'. in_event_reads (decode malloc_ok) din_progress collect (v2_decoder mx) [] chunks =
      Some (d', map delivered fs) \<and> dec_idle mx d'"
proof -
  have "v2.synced malloc_ok mx (v2_decoder mx) [] fs"
    by (simp add: v2.synced_def dec_idle_def v2_decoder_def dec_next_step_def)
  moreover have "[] @ concat chunks = concat (map frame_bytes fs)"
    using assms(2) by (simp add: frame_bytes_def [abs_def])
  ultimately show ?thesis using v2.reads_deliver [OF _ assms(1), of _ "[]" chunks "[]"] by simp
qed

theorem frames_delivered_witness:
  "\<exists>d'. in_event_reads (decode (\<lambda>_. True)) din_progress collect (v2_decoder 100) []
      [[1], [3, 7, 8], [9, 4], [1, 5]] =
    Some (d', map delivered [\<lparr>fflags = 1, fdata = [7, 8, 9]\<rparr>, \<lparr>fflags = 2, fdata = [5]\<rparr>]) \<and>
    dec_idle 100 d'"
  by (rule frames_delivered)
    (auto simp: frame_valid_def header_eq protocol_flags_def flag_defs)

text \<open>C26. A message handed to the encoder leaves as its header followed by its body, whatever send
  buffers the socket offers and in whatever order copies and zero-copy returns alternate: what the
  calls of \<open>encode\<close> return so far is a prefix of these bytes, the record is acknowledged exactly
  when the message is closed, and not before all bytes are out.\<close>

theorem encoder_emits:
  assumes "enc_ok e" "load_msg m (Some rec) e = Some e1" "encode_run sizes e1 = (bs, e2)"
  shows "\<exists>pending. header m @ rec = bs @ pending \<and> pending = enc_pending e2 \<and>
    (if ein_progress e2 = None then pending = [] \<and> eacks e2 = eacks e @ [rec] \<and> enc_ok e2
     else eacks e2 = eacks e)"
proof -
  note l = enc_load [OF assms(1,2)]
  then have s: "enc_ok e2" "enc_pending e1 = bs @ enc_pending e2" "enc_acked e1 e2"
    using encode_run_spec [OF _ assms(3)] by auto
  have "ein_progress e2 = None \<Longrightarrow> enc_pending e2 = []" by (simp add: enc_pending_def)
  with l s show ?thesis by (auto simp: enc_acked_def)
qed

theorem encoder_emits_witness:
  "\<exists>pending. header \<lparr>fflags = 0, fdata = [1, 2]\<rparr> @ [1, 2] = [0, 2, 1] @ pending \<and> pending = [2]"
proof -
  let ?e = "v2_encoder 8"
  obtain e1 where l: "load_msg \<lparr>fflags = 0, fdata = [1, 2]\<rparr> (Some [1, 2]) ?e = Some e1"
    by (auto simp: load_msg_def v2_encoder_def)
  have "enc_pending e1 = [0, 2, 1, 2]" "enc_ok e1"
    using enc_load [OF enc_ok_init l] by (auto simp: header_eq protocol_flags_def flag_defs)
  obtain bs e2 where r: "encode_run [Some 3] e1 = (bs, e2)" by fastforce
  then have "[0, 2, 1, 2] = bs @ enc_pending e2" "length bs = 3"
    using encode_loop_spec [OF \<open>enc_ok e1\<close>, of False 3 bs e2] \<open>enc_pending e1 = _\<close>
    by (auto simp: encode_def split: prod.splits)
  then have "bs = [0, 2, 1] \<and> enc_pending e2 = [2]"
    by (metis append_eq_conv_conj drop_Suc_Cons drop0 numeral_3_eq_3 take_Suc_Cons take0)
  with encoder_emits [OF enc_ok_init l r] show ?thesis by auto
qed

text \<open>The encoder finishes: after as many calls with non-empty send buffers as there are bytes in
  the frame, plus one, everything has been returned, the record is acknowledged and the encoder
  accepts the next message.\<close>

theorem encoder_finishes:
  assumes "enc_ok e" "load_msg m (Some rec) e = Some e1" "\<forall>n\<in>set ns. 0 < n"
    "length (header m @ rec) < length ns"
  shows "\<exists>e2. encode_run (map Some ns) e1 = (header m @ rec, e2) \<and> ein_progress e2 = None \<and>
    eacks e2 = eacks e @ [rec] \<and> (\<forall>m' d'. \<exists>e3. load_msg m' d' e2 = Some e3)"
proof -
  note l = enc_load [OF assms(1,2)]
  obtain bs e2 where r: "encode_run (map Some ns) e1 = (bs, e2)" by fastforce
  have f: "ein_progress e2 = None"
    using encode_run_finishes [OF _ r assms(3)] l assms(4) by simp
  then have "enc_pending e2 = []" by (simp add: enc_pending_def)
  moreover have "enc_pending e1 = bs @ enc_pending e2" "enc_acked e1 e2"
    using encode_run_spec [OF _ r] l by auto
  ultimately show ?thesis using l r f by (auto simp: enc_acked_def load_msg_def)
qed

theorem encoder_finishes_witness:
  "\<exists>e1 e2. load_msg \<lparr>fflags = 0, fdata = [1, 2]\<rparr> (Some [1, 2]) (v2_encoder 8) = Some e1 \<and>
    encode_run (map Some [3, 3, 1, 1, 1]) e1 = ([0, 2, 1, 2], e2) \<and> eacks e2 = [[1, 2]]"
proof -
  obtain e1 where l: "load_msg \<lparr>fflags = 0, fdata = [1, 2]\<rparr> (Some [1, 2]) (v2_encoder 8) = Some e1"
    by (auto simp: load_msg_def v2_encoder_def)
  have h: "header \<lparr>fflags = 0, fdata = [1, 2]\<rparr> = [0, 2]"
    by (simp add: header_eq protocol_flags_def flag_defs)
  from encoder_finishes [OF enc_ok_init l, of "[3, 3, 1, 1, 1]"] l show ?thesis
    by (auto simp: h v2_encoder_def)
qed

end
