(* ===== verification/Tcp_Address.thy ===== *)
theory Tcp_Address
  imports Prelude
begin

text \<open>
  Textual TCP addresses and the CIDR filters of the listener: \<open>src/net/tcp_address.cpp\<close> and
  \<open>address.cpp\<close>. The C library functions the code uses on strings (\<open>strrchr\<close>, \<open>atoi\<close>, the printing
  of numbers) are defined here. Name resolution is outside the program: \<open>gai\<close> stands for
  \<open>getaddrinfo\<close>, \<open>gni\<close> for \<open>getnameinfo\<close>, \<open>nics\<close> for the list \<open>getifaddrs\<close> returns.

  Proved: a filter matches an address exactly if the first \<open>mask\<close> bits agree; what \<open>resolve\<close> accepts
  has a mask of legal length; printing an address and resolving it again is the identity.
\<close>

section \<open>C strings\<close>

definition is_space :: "char \<Rightarrow> bool" where
  "is_space c \<longleftrightarrow> c = CHR '' '' \<or> of_char c \<in> {9 :: nat, 10, 11, 12, 13}"

definition is_digit :: "char \<Rightarrow> bool" where
  "is_digit c \<longleftrightarrow> of_char c \<ge> (48 :: nat) \<and> of_char c \<le> (57 :: nat)"

definition digit_val :: "char \<Rightarrow> int" where
  "digit_val c = of_char c - 48"

definition digits_val :: "string \<Rightarrow> int" where
  "digits_val ds = foldl (\<lambda>a c. a * 10 + digit_val c) 0 ds"

definition atoi :: "string \<Rightarrow> int" where
  "atoi s =
     (let t = dropWhile is_space s in
      if t = [] then 0
      else if hd t = CHR ''-'' then - digits_val (takeWhile is_digit (tl t))
      else if hd t = CHR ''+'' then digits_val (takeWhile is_digit (tl t))
      else digits_val (takeWhile is_digit t))"

fun show_nat :: "nat \<Rightarrow> string" where
  "show_nat n =
     (if n < 10 then [char_of (48 + n)] else show_nat (n div 10) @ [char_of (48 + n mod 10)])"

declare show_nat.simps [simp del]

text \<open>\<open>strrchr\<close> as the code uses it: what is before and behind the last occurrence.\<close>

definition split_last :: "char \<Rightarrow> string \<Rightarrow> (string \<times> string) option" where
  "split_last c s =
     (case dropWhile (\<lambda>x. x \<noteq> c) (rev s) of
        [] \<Rightarrow> None
      | _ # r \<Rightarrow> Some (rev r, rev (takeWhile (\<lambda>x. x \<noteq> c) (rev s))))"

lemma split_last_append: "c \<notin> set b \<Longrightarrow> split_last c (a @ c # b) = Some (a, b)"
proof -
  assume n: "c \<notin> set b"
  have d: "dropWhile (\<lambda>x. x \<noteq> c) (rev b @ c # rev a) = c # rev a"
    using n by (subst dropWhile_append2) auto
  have t: "takeWhile (\<lambda>x. x \<noteq> c) (rev b @ c # rev a) = rev b"
    using n by (subst takeWhile_append2) auto
  show ?thesis by (simp add: split_last_def d t)
qed

lemma split_last_None: "c \<notin> set s \<Longrightarrow> split_last c s = None"
proof -
  assume n: "c \<notin> set s"
  then have d: "dropWhile (\<lambda>x. x \<noteq> c) (rev s) = []" by auto
  show ?thesis unfolding split_last_def d by simp
qed

lemma of_char_digit: "d < 10 \<Longrightarrow> of_char (char_of (48 + d) :: char) = 48 + (d :: nat)"
  by simp

lemma digit_char: "d < 10 \<Longrightarrow> is_digit (char_of (48 + d)) \<and> digit_val (char_of (48 + d)) = int d"
proof -
  assume d: "d < (10 :: nat)"
  have n: "of_char (char_of (48 + d) :: char) = 48 + d" using of_char_digit [OF d] .
  then have "(of_char (char_of (48 + d) :: char) :: int) = 48 + int d"
    by (metis of_nat_add of_nat_numeral of_nat_of_char)
  with n d show ?thesis by (simp add: is_digit_def digit_val_def)
qed

lemma show_nat_digits: "(\<forall>c\<in>set (show_nat n). is_digit c) \<and> show_nat n \<noteq> [] \<and> digits_val (show_nat n) = int n"
proof (induction n rule: show_nat.induct)
  case (1 n)
  show ?case
  proof (cases "n < 10")
    case True
    then show ?thesis using digit_char [of n] by (simp add: show_nat.simps digits_val_def)
  next
    case False
    have e: "show_nat n = show_nat (n div 10) @ [char_of (48 + n mod 10)]"
      using False by (simp add: show_nat.simps [of n])
    have "int (n div 10) * 10 + int (n mod 10) = int n"
      by (metis div_mult_mod_eq of_nat_add of_nat_mult of_nat_numeral)
    with 1 [OF False] digit_char [of "n mod 10"] show ?thesis
      unfolding e by (auto simp: digits_val_def)
  qed
qed

lemma digit_no_space: "is_digit c \<Longrightarrow> \<not> is_space c \<and> c \<noteq> CHR ''-'' \<and> c \<noteq> CHR ''+'' \<and> c \<noteq> CHR '':'' \<and>
    c \<noteq> CHR ''/'' \<and> c \<noteq> CHR ''*''"
  by (auto simp: is_digit_def is_space_def)

lemma takeWhile_all: "\<forall>c\<in>set s. P c \<Longrightarrow> takeWhile P s = s"
  by (induction s) auto

lemma atoi_show: "atoi (show_nat n) = int n"
proof -
  note s = show_nat_digits [of n]
  obtain c cs where c: "show_nat n = c # cs" using s by (cases "show_nat n") auto
  with s have "is_digit c" by auto
  with digit_no_space have nc: "\<not> is_space c" "c \<noteq> CHR ''-''" "c \<noteq> CHR ''+''" by auto
  have "atoi (show_nat n) = digits_val (takeWhile is_digit (show_nat n))"
    using nc unfolding c atoi_def Let_def by simp
  then show ?thesis using s takeWhile_all [of "show_nat n" is_digit] by simp
qed

section \<open>Addresses\<close>

datatype af = AF_INET | AF_INET6 | AF_OTHER

record sockaddr =
  sa_family :: af
  sa_port :: u16
  sa_addr :: bytes

definition sockaddr_ok :: "'a sockaddr_scheme \<Rightarrow> bool" where
  "sockaddr_ok a \<longleftrightarrow> (sa_family a = AF_INET \<and> length (sa_addr a) = 4) \<or>
     (sa_family a = AF_INET6 \<and> length (sa_addr a) = 16)"

datatype gai_error = EAI_MEMORY | EAI_OTHER
datatype aerrno = AEINVAL | AENODEV | AENOMEM

definition any_addr :: "bool \<Rightarrow> sockaddr" where
  "any_addr ip6 =
     (if ip6 then \<lparr>sa_family = AF_INET6, sa_port = 0, sa_addr = replicate 16 0\<rparr>
      else \<lparr>sa_family = AF_INET, sa_port = 0, sa_addr = replicate 4 0\<rparr>)"

fun resolve_nic_name :: "(string \<times> sockaddr option) list \<Rightarrow> string \<Rightarrow> bool \<Rightarrow> aerrno + sockaddr" where
  "resolve_nic_name [] nic ip6 = Inl AENODEV"
| "resolve_nic_name ((name, a) # ifs) nic ip6 =
     (case a of
        None \<Rightarrow> resolve_nic_name ifs nic ip6
      | Some sa \<Rightarrow>
          if (sa_family sa = AF_INET \<or> (ip6 \<and> sa_family sa = AF_INET6)) \<and> nic = name
          then Inr sa else resolve_nic_name ifs nic ip6)"

definition resolve_interface ::
  "(string \<times> sockaddr option) list \<Rightarrow> (string \<Rightarrow> bool \<Rightarrow> gai_error + sockaddr) \<Rightarrow> string \<Rightarrow> bool \<Rightarrow>
   aerrno + sockaddr" where
  "resolve_interface nics gai_num ifname ip6 =
     (if ifname = ''*'' then Inr (any_addr ip6)
      else (case resolve_nic_name nics ifname ip6 of
              Inr sa \<Rightarrow> Inr sa
            | Inl AENODEV \<Rightarrow> (case gai_num ifname ip6 of Inl _ \<Rightarrow> Inl AENODEV | Inr sa \<Rightarrow> Inr sa)
            | Inl e \<Rightarrow> Inl e))"

definition resolve_hostname ::
  "(string \<Rightarrow> bool \<Rightarrow> gai_error + sockaddr) \<Rightarrow> string \<Rightarrow> bool \<Rightarrow> aerrno + sockaddr" where
  "resolve_hostname gai host ip6 =
     (case gai host ip6 of
        Inl EAI_MEMORY \<Rightarrow> Inl AENOMEM
      | Inl EAI_OTHER \<Rightarrow> Inl AEINVAL
      | Inr sa \<Rightarrow> Inr sa)"

text \<open>\<open>tcp_address_t (sa, sa_len)\<close>: an address of unknown family or of too small a structure is not
  copied.\<close>

definition tcp_address_of :: "sockaddr \<Rightarrow> nat \<Rightarrow> sockaddr" where
  "tcp_address_of sa sa_len =
     (if sa_family sa = AF_INET \<and> sa_len \<ge> 16 then sa
      else if sa_family sa = AF_INET6 \<and> sa_len \<ge> 28 then sa
      else \<lparr>sa_family = AF_OTHER, sa_port = 0, sa_addr = []\<rparr>)"

definition strip_brackets :: "string \<Rightarrow> string" where
  "strip_brackets s =
     (if length s \<ge> 2 \<and> s ! 0 = CHR ''['' \<and> s ! (length s - 1) = CHR '']''
      then take (length s - 2) (drop 1 s) else s)"

definition parse_port :: "string \<Rightarrow> u16 option" where
  "parse_port s =
     (if s = ''*'' \<or> s = ''0'' then Some 0
      else (let port = (word_of_int (atoi s) :: u16) in if port = 0 then None else Some port))"

text \<open>\<open>res\<close> is \<open>resolve_interface\<close> or \<open>resolve_hostname\<close>, chosen by \<open>local_\<close>.\<close>

definition tcp_resolve :: "(string \<Rightarrow> bool \<Rightarrow> aerrno + sockaddr) \<Rightarrow> string \<Rightarrow> bool \<Rightarrow> aerrno + sockaddr" where
  "tcp_resolve res name ip6 =
     (case split_last CHR '':'' name of
        None \<Rightarrow> Inl AEINVAL
      | Some (addr_str, port_str) \<Rightarrow>
          (case parse_port port_str of
             None \<Rightarrow> Inl AEINVAL
           | Some port \<Rightarrow>
               (case res (strip_brackets addr_str) ip6 of
                  Inl e \<Rightarrow> Inl e
                | Inr sa \<Rightarrow> Inr (sa\<lparr>sa_port := port\<rparr>))))"

definition tcp_to_string :: "(sockaddr \<Rightarrow> string option) \<Rightarrow> sockaddr \<Rightarrow> string option" where
  "tcp_to_string gni a =
     (if sa_family a = AF_OTHER then None
      else (case gni a of
              None \<Rightarrow> None
            | Some hbuf \<Rightarrow>
                if sa_family a = AF_INET6
                then Some (''tcp://['' @ hbuf @ '']:'' @ show_nat (unat (sa_port a)))
                else Some (''tcp://'' @ hbuf @ '':'' @ show_nat (unat (sa_port a)))))"

definition addrlen :: "sockaddr \<Rightarrow> nat" where
  "addrlen a = (if sa_family a = AF_INET6 then 28 else 16)"

section \<open>Address masks\<close>

record address_mask = sockaddr +
  addr_mask :: int

definition mask_parse :: "af \<Rightarrow> string \<Rightarrow> int option" where
  "mask_parse fam mask_str =
     (if mask_str = [] then Some (if fam = AF_INET6 then 128 else 32)
      else if mask_str = ''0'' then Some 0
      else (let m = atoi mask_str in
            if m < 1 \<or> (fam = AF_INET6 \<and> m > 128) \<or> (fam \<noteq> AF_INET6 \<and> m > 32) then None else Some m))"

definition mask_resolve ::
  "(string \<Rightarrow> bool \<Rightarrow> gai_error + sockaddr) \<Rightarrow> string \<Rightarrow> bool \<Rightarrow> aerrno + address_mask" where
  "mask_resolve gai name ip6 =
     (let parts = (case split_last CHR ''/'' name of
                     Some (a, m) \<Rightarrow> if m = [] then None else Some (a, m)
                   | None \<Rightarrow> Some (name, [])) in
      case parts of
        None \<Rightarrow> Inl AEINVAL
      | Some (addr_str, mask_str) \<Rightarrow>
          (case resolve_hostname gai addr_str ip6 of
             Inl e \<Rightarrow> Inl e
           | Inr sa \<Rightarrow>
               (case mask_parse (sa_family sa) mask_str of
                  None \<Rightarrow> Inl AEINVAL
                | Some m \<Rightarrow> Inr (sockaddr.extend sa \<lparr>addr_mask = m\<rparr>))))"

definition mask_to_string :: "(sockaddr \<Rightarrow> string option) \<Rightarrow> address_mask \<Rightarrow> string option" where
  "mask_to_string gni a =
     (if sa_family a = AF_OTHER \<or> addr_mask a = -1 then None
      else (case gni (sockaddr.truncate a) of
              None \<Rightarrow> None
            | Some hbuf \<Rightarrow>
                if sa_family a = AF_INET6
                then Some (''['' @ hbuf @ '']/'' @ show_nat (nat (addr_mask a)))
                else Some (hbuf @ ''/'' @ show_nat (nat (addr_mask a)))))"

text \<open>\<open>None\<close> is a failed assertion; the length passed by \<open>accept\<close> belongs to the family.\<close>

definition match_address :: "address_mask \<Rightarrow> sockaddr \<Rightarrow> bool option" where
  "match_address a ss =
     (if addr_mask a = -1 then None
      else if sa_family ss \<noteq> sa_family a then Some False
      else if addr_mask a > 0 then
        (let full = (if sa_family ss = AF_INET6 then 16 * 8 else 4 * 8);
             m = nat (if addr_mask a < full then addr_mask a else full);
             full_bytes = m div 8;
             last_byte_bits = (push_bit (8 - m mod 8) 0xff :: u8)
         in if take full_bytes (sa_addr a) \<noteq> take full_bytes (sa_addr ss) then Some False
            else if last_byte_bits \<noteq> 0 \<and>
              sa_addr ss ! full_bytes AND last_byte_bits \<noteq> sa_addr a ! full_bytes AND last_byte_bits
            then Some False
            else Some True)
      else Some True)"

section \<open>What a filter matches\<close>

text \<open>Bit \<open>n\<close> of an address in network order.\<close>

definition addr_bit :: "bytes \<Rightarrow> nat \<Rightarrow> bool" where
  "addr_bit bs n = bit (bs ! (n div 8)) (7 - n mod 8)"

lemma byte_eq_bits: "(a :: u8) = b \<longleftrightarrow> (\<forall>k<8. bit a (7 - k) = bit b (7 - k))"
proof
  assume r: "\<forall>k<8. bit a (7 - k) = bit b (7 - k)"
  show "a = b"
  proof (rule bit_word_eqI)
    fix n assume "n < LENGTH(8)"
    then have "n < 8" by simp
    with r [rule_format, of "7 - n"] show "bit a n = bit b n" by simp
  qed
qed simp

lemma take_eq_bits:
  assumes "n \<le> length a" "n \<le> length b"
  shows "take n a = take n b \<longleftrightarrow> (\<forall>k<8 * n. addr_bit a k = addr_bit b k)"
proof -
  have "take n a = take n b \<longleftrightarrow> (\<forall>i<n. a ! i = b ! i)"
    using assms by (auto simp: list_eq_iff_nth_eq)
  also have "\<dots> \<longleftrightarrow> (\<forall>i<n. \<forall>k<8. bit (a ! i) (7 - k) = bit (b ! i) (7 - k))"
    by (simp add: byte_eq_bits)
  also have "\<dots> \<longleftrightarrow> (\<forall>k<8 * n. addr_bit a k = addr_bit b k)"
  proof (rule iffI; intro allI impI)
    fix k assume a: "\<forall>i<n. \<forall>k<8. bit (a ! i) (7 - k) = bit (b ! i) (7 - k)" "k < 8 * n"
    then have "k div 8 < n" "k mod 8 < 8" by auto
    with a(1) show "addr_bit a k = addr_bit b k" by (simp add: addr_bit_def)
  next
    fix i k assume a: "\<forall>k<8 * n. addr_bit a k = addr_bit b k" "i < n" "k < (8 :: nat)"
    then have "8 * i + k < 8 * n" "(8 * i + k) div 8 = i" "(8 * i + k) mod 8 = k" by auto
    with a(1) show "bit (a ! i) (7 - k) = bit (b ! i) (7 - k)" by (metis addr_bit_def)
  qed
  finally show ?thesis .
qed

lemma last_bits:
  assumes "q < 8"
  shows "(x AND (push_bit (8 - q) 0xff :: u8) = y AND push_bit (8 - q) 0xff) \<longleftrightarrow>
    (\<forall>k<q. bit x (7 - k) = bit y (7 - k))"
proof -
  have m: "bit (push_bit (8 - q) 0xff :: u8) n \<longleftrightarrow> 8 - q \<le> n \<and> n < 8" for n
  proof -
    have e: "(0xff :: u8) = mask 8" by (simp add: mask_eq_exp_minus_1)
    show ?thesis unfolding e using assms by (auto simp only: bit_push_bit_iff bit_mask_iff) auto
  qed
  have "(x AND (push_bit (8 - q) 0xff :: u8) = y AND push_bit (8 - q) 0xff) \<longleftrightarrow>
      (\<forall>n<8. 8 - q \<le> n \<longrightarrow> bit x n = bit y n)"
    by (subst bit_eq_iff) (auto simp: bit_and_iff m dest: bit_imp_le_length)
  also have "\<dots> \<longleftrightarrow> (\<forall>k<q. bit x (7 - k) = bit y (7 - k))"
  proof (rule iffI; intro allI impI)
    fix k assume "\<forall>n<8. 8 - q \<le> n \<longrightarrow> bit x n = bit y n" "k < q"
    then show "bit x (7 - k) = bit y (7 - k)" using assms by auto
  next
    fix n assume "\<forall>k<q. bit x (7 - k) = bit y (7 - k)" "n < 8" "8 - q \<le> n"
    moreover have "7 - n < q" "7 - (7 - n) = n" using assms \<open>n < 8\<close> \<open>8 - q \<le> n\<close> by auto
    ultimately show "bit x n = bit y n" by metis
  qed
  finally show ?thesis .
qed

lemma below_split: "(\<forall>k<8 * n + (q :: nat). P k) \<longleftrightarrow> (\<forall>k<8 * n. P k) \<and> (\<forall>k<q. P (8 * n + k))"
proof (rule iffI)
  assume r: "(\<forall>k<8 * n. P k) \<and> (\<forall>k<q. P (8 * n + k))"
  show "\<forall>k<8 * n + q. P k"
  proof (intro allI impI)
    fix k assume k: "k < 8 * n + q"
    show "P k"
    proof (cases "k < 8 * n")
      case False
      with k have "k - 8 * n < q" "8 * n + (k - 8 * n) = k" by auto
      with r show ?thesis by metis
    qed (use r in simp)
  qed
qed auto

lemma match_address_prefix:
  assumes "sockaddr_ok a" "sockaddr_ok ss" "0 \<le> addr_mask a" "addr_mask a \<le> 8 * int (length (sa_addr a))"
  shows "match_address a ss =
    Some (sa_family ss = sa_family a \<and> (\<forall>k<nat (addr_mask a). addr_bit (sa_addr ss) k = addr_bit (sa_addr a) k))"
proof (cases "sa_family ss = sa_family a \<and> addr_mask a > 0")
  case True
  define m n q where "m = nat (addr_mask a)" and "n = m div 8" and "q = m mod 8"
  have full: "(if sa_family ss = AF_INET6 then 16 * 8 else 4 * 8) = 8 * int (length (sa_addr a))"
    and len: "length (sa_addr ss) = length (sa_addr a)"
    using True assms(1,2) by (auto simp: sockaddr_ok_def)
  have me: "nat (if addr_mask a < 8 * int (length (sa_addr a)) then addr_mask a else 8 * int (length (sa_addr a))) = m"
    using assms(4) by (auto simp: m_def)
  have ml: "m \<le> 8 * length (sa_addr a)" using assms(3,4) by (simp add: m_def)
  then have n: "n \<le> length (sa_addr a)" by (simp add: n_def)
  have q: "q < 8" and mq: "m = 8 * n + q" by (simp_all add: q_def n_def)
  have bit: "bit (bs ! n) (7 - k) = addr_bit bs (8 * n + k)" if "k < q" for bs k
    using that q by (simp add: addr_bit_def)
  have z: "(push_bit (8 - q) 0xff :: u8) = 0 \<Longrightarrow> q = 0"
    using last_bits [OF q, of 0 "0xff"] q by (cases q) auto
  have "match_address a ss = Some (take n (sa_addr a) = take n (sa_addr ss) \<and>
      ((push_bit (8 - q) 0xff :: u8) \<noteq> 0 \<longrightarrow>
       sa_addr ss ! n AND push_bit (8 - q) 0xff = sa_addr a ! n AND push_bit (8 - q) 0xff))"
    using True unfolding match_address_def full me Let_def n_def q_def by auto
  also have "\<dots> = Some ((\<forall>k<8 * n. addr_bit (sa_addr a) k = addr_bit (sa_addr ss) k) \<and>
      (\<forall>k<q. bit (sa_addr ss ! n) (7 - k) = bit (sa_addr a ! n) (7 - k)))"
    using n len z by (auto simp: take_eq_bits last_bits [OF q])
  also have "\<dots> = Some (\<forall>k<m. addr_bit (sa_addr ss) k = addr_bit (sa_addr a) k)"
    unfolding mq below_split using bit by auto
  finally show ?thesis using True by (simp add: m_def)
next
  case False
  then show ?thesis using assms(3) by (auto simp: match_address_def)
qed

lemma show_nat_no: "is_digit c \<or> c \<notin> set (show_nat n)"
  using show_nat_digits [of n] by auto

lemma slash_colon_no_digit: "CHR ''/'' \<notin> set (show_nat n)" "CHR '':'' \<notin> set (show_nat n)"
  using show_nat_no [of "CHR ''/''" n] show_nat_no [of "CHR '':''" n] by (auto simp: is_digit_def)

lemma show_nat_0: "show_nat 0 = ''0''"
  by code_simp

lemma show_nat_zero: "show_nat n = ''0'' \<longleftrightarrow> n = 0"
proof
  assume "show_nat n = ''0''"
  then have "digits_val (show_nat n) = 0" by (simp add: digits_val_def digit_val_def)
  then show "n = 0" using show_nat_digits [of n] by simp
qed (simp add: show_nat_0)

lemma mask_parse_show:
  "n \<le> (if fam = AF_INET6 then 128 else 32) \<Longrightarrow> mask_parse fam (show_nat n) = Some (int n)"
  using show_nat_digits [of n] by (auto simp: mask_parse_def show_nat_zero atoi_show Let_def split: if_splits)

lemma mask_resolve_text:
  assumes "gai host ip6 = Inr net" "n \<le> (if sa_family net = AF_INET6 then 128 else 32)"
  shows "mask_resolve gai (host @ ''/'' @ show_nat n) ip6 = Inr (sockaddr.extend net \<lparr>addr_mask = int n\<rparr>)"
proof -
  have "split_last CHR ''/'' (host @ ''/'' @ show_nat n) = Some (host, show_nat n)"
    using split_last_append [OF slash_colon_no_digit(1)] by simp
  with show_nat_digits [of n] assms mask_parse_show [OF assms(2)] show ?thesis
    by (simp add: mask_resolve_def resolve_hostname_def)
qed

lemma parse_port_show: "parse_port (show_nat (unat p)) = Some p"
proof -
  have "show_nat (unat p) \<noteq> ''*''" using show_nat_digits [of "unat p"] by (auto simp: is_digit_def)
  then show ?thesis by (auto simp: parse_port_def show_nat_zero atoi_show unat_eq_zero Let_def)
qed

lemma strip_brackets_wrapped: "strip_brackets (''['' @ h @ '']'') = h"
  by (simp add: strip_brackets_def nth_append)

lemma strip_brackets_plain: "h = [] \<or> hd h \<noteq> CHR ''['' \<Longrightarrow> strip_brackets h = h"
  by (cases h) (auto simp: strip_brackets_def)

section \<open>Properties\<close>

text \<open>C33. An accept filter given as \<open>host/n\<close>, where the resolver turns \<open>host\<close> into the network address
  \<open>net\<close> and \<open>n\<close> is at most its number of bits, is accepted by \<open>resolve\<close>, and the listener's test
  \<open>match_address\<close> then lets a peer in exactly if the peer's address is of the same family and its first \<open>n\<close>
  bits, in network order, are those of \<open>net\<close>.\<close>

theorem filter_matches_prefix:
  assumes "gai host ip6 = Inr net" "sockaddr_ok net" "sockaddr_ok ss"
    "n \<le> 8 * length (sa_addr net)"
  shows "\<exists>f. mask_resolve gai (host @ ''/'' @ show_nat n) ip6 = Inr f \<and>
    match_address f ss = Some (sa_family ss = sa_family net \<and>
      (\<forall>k<n. addr_bit (sa_addr ss) k = addr_bit (sa_addr net) k))"
proof -
  define f where "f = sockaddr.extend net \<lparr>addr_mask = int n\<rparr>"
  have "n \<le> (if sa_family net = AF_INET6 then 128 else 32)"
    using assms(2,4) by (auto simp: sockaddr_ok_def)
  then have "mask_resolve gai (host @ ''/'' @ show_nat n) ip6 = Inr f"
    unfolding f_def by (intro mask_resolve_text) (rule assms(1))
  moreover have "sockaddr_ok f" "sa_family f = sa_family net" "sa_addr f = sa_addr net" "addr_mask f = int n"
    using assms(2) by (auto simp: f_def sockaddr.extend_def sockaddr_ok_def)
  ultimately show ?thesis using match_address_prefix [of f ss] assms(3,4) by auto
qed

text \<open>C34. Printing an address and resolving the text, without the \<open>tcp://\<close> the caller strips, gives the
  address back, port included, for every port and both families. What is relied on: \<open>getaddrinfo\<close>
  turns the numeric form that \<open>getnameinfo\<close> printed into the same address, and that form does not begin
  with a bracket.\<close>

theorem address_text_roundtrip:
  assumes "sockaddr_ok a" "gni a = Some h" "gai h ip6 = Inr (a\<lparr>sa_port := 0\<rparr>)"
    "h \<noteq> []" "hd h \<noteq> CHR ''[''"
  shows "\<exists>s. tcp_to_string gni a = Some (''tcp://'' @ s) \<and> tcp_resolve (resolve_hostname gai) s ip6 = Inr a"
proof -
  define b where "b = (if sa_family a = AF_INET6 then ''['' @ h @ '']'' else h)"
  define s where "s = b @ CHR '':'' # show_nat (unat (sa_port a))"
  have "tcp_to_string gni a = Some (''tcp://'' @ s)"
    using assms(1,2) by (auto simp: tcp_to_string_def s_def b_def sockaddr_ok_def)
  moreover have "strip_brackets b = h"
    using assms(4,5) strip_brackets_wrapped strip_brackets_plain by (auto simp: b_def)
  moreover have "split_last CHR '':'' s = Some (b, show_nat (unat (sa_port a)))"
    unfolding s_def by (rule split_last_append) (rule slash_colon_no_digit)
  ultimately show ?thesis
    using assms(3) by (auto simp: tcp_resolve_def resolve_hostname_def parse_port_show)
qed

text \<open>The text of an IPv6 filter is not a round trip: \<open>to_string\<close> wraps the host in brackets and
  \<open>resolve\<close> hands them on to the resolver.\<close>

lemma mask_text_ipv6:
  assumes "sa_family f = AF_INET6" "0 \<le> addr_mask f" "gni (sockaddr.truncate f) = Some h"
    "gai (''['' @ h @ '']'') ip6 = Inl EAI_OTHER"
  shows "\<exists>s. mask_to_string gni f = Some s \<and> mask_resolve gai s ip6 = Inl AEINVAL"
proof -
  define s where "s = (''['' @ h @ '']'') @ CHR ''/'' # show_nat (nat (addr_mask f))"
  have "mask_to_string gni f = Some s" using assms by (simp add: mask_to_string_def s_def)
  moreover have "split_last CHR ''/'' s = Some (''['' @ h @ '']'', show_nat (nat (addr_mask f)))"
    unfolding s_def by (rule split_last_append) (rule slash_colon_no_digit)
  ultimately show ?thesis using assms(4) show_nat_digits [of "nat (addr_mask f)"]
    by (auto simp: mask_resolve_def resolve_hostname_def)
qed

section \<open>Witnesses\<close>

text \<open>Resolver and printer of a host with one network.\<close>

definition wit_net :: sockaddr where
  "wit_net = \<lparr>sa_family = AF_INET, sa_port = 0, sa_addr = [10, 1, 128, 0]\<rparr>"

definition wit_gai :: "string \<Rightarrow> bool \<Rightarrow> gai_error + sockaddr" where
  "wit_gai h ip6 = (if h = ''10.1.128.0'' \<and> \<not> ip6 then Inr wit_net else Inl EAI_OTHER)"

definition wit_gni :: "sockaddr \<Rightarrow> string option" where
  "wit_gni a = (if sa_family a = AF_INET \<and> sa_addr a = [10, 1, 128, 0] then Some ''10.1.128.0'' else None)"

theorem filter_matches_prefix_witness:
  "\<exists>f. mask_resolve wit_gai (''10.1.128.0'' @ ''/'' @ show_nat 17) False = Inr f \<and>
    match_address f \<lparr>sa_family = AF_INET, sa_port = 99, sa_addr = [10, 1, 255, 7]\<rparr> = Some True"
proof -
  have "\<forall>k\<in>set [0..<17]. addr_bit [10, 1, 255, 7] k = addr_bit [10, 1, 128, 0] k" by code_simp
  then have b: "\<forall>k<17. addr_bit [10, 1, 255, 7] k = addr_bit [10, 1, 128, 0] k" by simp
  show ?thesis
    using filter_matches_prefix [of wit_gai "''10.1.128.0''" False wit_net
      "\<lparr>sa_family = AF_INET, sa_port = 99, sa_addr = [10, 1, 255, 7]\<rparr>" 17] b
    by (simp add: wit_gai_def wit_net_def sockaddr_ok_def)
qed

theorem address_text_roundtrip_witness:
  "\<exists>s. tcp_to_string wit_gni (wit_net\<lparr>sa_port := 5555\<rparr>) = Some (''tcp://'' @ s) \<and>
    tcp_resolve (resolve_hostname wit_gai) s False = Inr (wit_net\<lparr>sa_port := 5555\<rparr>)"
  using address_text_roundtrip [of "wit_net\<lparr>sa_port := 5555\<rparr>" wit_gni "''10.1.128.0''" wit_gai False]
  by (simp add: wit_gai_def wit_gni_def wit_net_def sockaddr_ok_def)

end
