(* ===== verification/Options.thy ===== *)
theory Options
  imports Tcp_Address
begin

text \<open>
  Socket options, \<open>src/net/options.cpp\<close>: the option record with its defaults, \<open>setsockopt\<close> with its
  guards and \<open>getsockopt\<close>. An argument is a byte string, or \<open>None\<close> for a null pointer of length 0.
  The build has no libsodium, so the CURVE options are unknown and rejected. \<open>None\<close> as a result is
  the return value -1 with \<open>errno = EINVAL\<close>; the object is unchanged then.

  Proved: the options behave like independent cells (locale \<open>option_store\<close>): what was accepted last is
  what is read; the ranges the transport relies on hold after any calls.
\<close>

section \<open>The option record\<close>

datatype sockopt =
    ZMQ_SNDHWM | ZMQ_RCVHWM | ZMQ_AFFINITY | ZMQ_IDENTITY | ZMQ_RATE | ZMQ_RECOVERY_IVL
  | ZMQ_SNDBUF | ZMQ_RCVBUF | ZMQ_TYPE | ZMQ_LINGER | ZMQ_RECONNECT_IVL | ZMQ_RECONNECT_IVL_MAX
  | ZMQ_BACKLOG | ZMQ_MAXMSGSIZE | ZMQ_MULTICAST_HOPS | ZMQ_RCVTIMEO | ZMQ_SNDTIMEO
  | ZMQ_IPV4ONLY | ZMQ_IPV6 | ZMQ_TCP_KEEPALIVE | ZMQ_TCP_KEEPALIVE_CNT | ZMQ_TCP_KEEPALIVE_IDLE
  | ZMQ_TCP_KEEPALIVE_INTVL | ZMQ_IMMEDIATE | ZMQ_TCP_ACCEPT_FILTER | ZMQ_MECHANISM
  | ZMQ_PLAIN_SERVER | ZMQ_PLAIN_USERNAME | ZMQ_PLAIN_PASSWORD | ZMQ_ZAP_DOMAIN | ZMQ_CONFLATE
  | ZMQ_UNKNOWN

definition ZMQ_NULL :: int where "ZMQ_NULL = 0"
definition ZMQ_PLAIN :: int where "ZMQ_PLAIN = 1"

record options =
  o_sndhwm :: int
  o_rcvhwm :: int
  o_affinity :: u64
  o_identity_size :: u8
  o_identity :: bytes
  o_rate :: int
  o_recovery_ivl :: int
  o_multicast_hops :: int
  o_sndbuf :: int
  o_rcvbuf :: int
  o_type :: int
  o_linger :: int
  o_reconnect_ivl :: int
  o_reconnect_ivl_max :: int
  o_backlog :: int
  o_maxmsgsize :: int
  o_rcvtimeo :: int
  o_sndtimeo :: int
  o_ipv6 :: bool
  o_immediate :: int
  o_filter :: bool
  o_recv_identity :: bool
  o_raw_sock :: bool
  o_tcp_keepalive :: int
  o_tcp_keepalive_cnt :: int
  o_tcp_keepalive_idle :: int
  o_tcp_keepalive_intvl :: int
  o_tcp_accept_filters :: "address_mask list"
  o_mechanism :: int
  o_as_server :: int
  o_zap_domain :: bytes
  o_plain_username :: bytes
  o_plain_password :: bytes
  o_socket_id :: int
  o_conflate :: bool

text \<open>The constructor; \<open>junk\<close> is what the array \<open>identity\<close> holds before.\<close>

definition options_t :: "bytes \<Rightarrow> options" where
  "options_t junk =
     \<lparr>o_sndhwm = 1000, o_rcvhwm = 1000, o_affinity = 0, o_identity_size = 0, o_identity = junk,
      o_rate = 100, o_recovery_ivl = 10000, o_multicast_hops = 1, o_sndbuf = 1024 * 4096,
      o_rcvbuf = 1024 * 4096, o_type = -1, o_linger = -1, o_reconnect_ivl = 100,
      o_reconnect_ivl_max = 0, o_backlog = 100, o_maxmsgsize = -1, o_rcvtimeo = -1,
      o_sndtimeo = -1, o_ipv6 = False, o_immediate = 0, o_filter = False, o_recv_identity = False,
      o_raw_sock = False, o_tcp_keepalive = -1, o_tcp_keepalive_cnt = -1,
      o_tcp_keepalive_idle = -1, o_tcp_keepalive_intvl = -1, o_tcp_accept_filters = [],
      o_mechanism = ZMQ_NULL, o_as_server = 0, o_zap_domain = [], o_plain_username = [],
      o_plain_password = [], o_socket_id = 0, o_conflate = False\<rparr>"

section \<open>Setting an option\<close>

definition is_int :: "bytes \<Rightarrow> bool" where
  "is_int v \<longleftrightarrow> length v = 4"

definition int_value :: "bytes \<Rightarrow> int" where
  "int_value v = (if is_int v then sint (le_load v :: u32) else 0)"

definition put_int :: "(int \<Rightarrow> bool) \<Rightarrow> (int \<Rightarrow> options \<Rightarrow> options) \<Rightarrow> bytes \<Rightarrow> options \<Rightarrow> options option" where
  "put_int guard upd v o' = (if is_int v \<and> guard (int_value v) then Some (upd (int_value v) o') else None)"

definition arg_bytes :: "bytes option \<Rightarrow> bytes" where
  "arg_bytes v = (case v of None \<Rightarrow> [] | Some b \<Rightarrow> b)"

definition set_flow :: "sockopt \<Rightarrow> bytes option \<Rightarrow> options \<Rightarrow> options option" where
  "set_flow opt optval o' =
     (let v = arg_bytes optval in
      case opt of
        ZMQ_SNDHWM \<Rightarrow> put_int (\<lambda>i. i \<ge> 0) (\<lambda>i o'. o'\<lparr>o_sndhwm := i\<rparr>) v o'
      | ZMQ_RCVHWM \<Rightarrow> put_int (\<lambda>i. i \<ge> 0) (\<lambda>i o'. o'\<lparr>o_rcvhwm := i\<rparr>) v o'
      | ZMQ_AFFINITY \<Rightarrow> if length v = 8 then Some (o'\<lparr>o_affinity := le_load v\<rparr>) else None
      | ZMQ_IDENTITY \<Rightarrow>
          if length v > 0 \<and> length v < 256 \<and> v ! 0 \<noteq> 0
          then Some (o'\<lparr>o_identity_size := of_nat (length v), o_identity := blit (o_identity o') 0 v\<rparr>) else None
      | ZMQ_RATE \<Rightarrow> put_int (\<lambda>i. i > 0) (\<lambda>i o'. o'\<lparr>o_rate := i\<rparr>) v o'
      | ZMQ_RECOVERY_IVL \<Rightarrow> put_int (\<lambda>i. i \<ge> 0) (\<lambda>i o'. o'\<lparr>o_recovery_ivl := i\<rparr>) v o'
      | ZMQ_SNDBUF \<Rightarrow> put_int (\<lambda>i. i \<ge> 0) (\<lambda>i o'. o'\<lparr>o_sndbuf := i\<rparr>) v o'
      | ZMQ_RCVBUF \<Rightarrow> put_int (\<lambda>i. i \<ge> 0) (\<lambda>i o'. o'\<lparr>o_rcvbuf := i\<rparr>) v o'
      | ZMQ_LINGER \<Rightarrow> put_int (\<lambda>i. i \<ge> -1) (\<lambda>i o'. o'\<lparr>o_linger := i\<rparr>) v o'
      | ZMQ_RECONNECT_IVL \<Rightarrow> put_int (\<lambda>i. i \<ge> -1) (\<lambda>i o'. o'\<lparr>o_reconnect_ivl := i\<rparr>) v o'
      | ZMQ_RECONNECT_IVL_MAX \<Rightarrow> put_int (\<lambda>i. i \<ge> 0) (\<lambda>i o'. o'\<lparr>o_reconnect_ivl_max := i\<rparr>) v o'
      | ZMQ_BACKLOG \<Rightarrow> put_int (\<lambda>i. i \<ge> 0) (\<lambda>i o'. o'\<lparr>o_backlog := i\<rparr>) v o'
      | ZMQ_MAXMSGSIZE \<Rightarrow> if length v = 8 then Some (o'\<lparr>o_maxmsgsize := sint (le_load v :: u64)\<rparr>) else None
      | ZMQ_MULTICAST_HOPS \<Rightarrow> put_int (\<lambda>i. i > 0) (\<lambda>i o'. o'\<lparr>o_multicast_hops := i\<rparr>) v o'
      | ZMQ_RCVTIMEO \<Rightarrow> put_int (\<lambda>i. i \<ge> -1) (\<lambda>i o'. o'\<lparr>o_rcvtimeo := i\<rparr>) v o'
      | ZMQ_SNDTIMEO \<Rightarrow> put_int (\<lambda>i. i \<ge> -1) (\<lambda>i o'. o'\<lparr>o_sndtimeo := i\<rparr>) v o'
      | _ \<Rightarrow> None)"

text \<open>\<open>gai\<close> is the resolver of the accept filters. The filter text ends at its first zero byte.\<close>

definition c_str :: "bytes \<Rightarrow> string" where
  "c_str v = map (\<lambda>b. char_of (unat b)) (takeWhile (\<lambda>b. b \<noteq> 0) v)"

definition set_tcp ::
  "(string \<Rightarrow> bool \<Rightarrow> gai_error + sockaddr) \<Rightarrow> sockopt \<Rightarrow> bytes option \<Rightarrow> options \<Rightarrow> options option" where
  "set_tcp gai opt optval o' =
     (let v = arg_bytes optval in
      case opt of
        ZMQ_IPV4ONLY \<Rightarrow> put_int (\<lambda>i. i = 0 \<or> i = 1) (\<lambda>i o'. o'\<lparr>o_ipv6 := (i = 0)\<rparr>) v o'
      | ZMQ_IPV6 \<Rightarrow> put_int (\<lambda>i. i = 0 \<or> i = 1) (\<lambda>i o'. o'\<lparr>o_ipv6 := (i \<noteq> 0)\<rparr>) v o'
      | ZMQ_TCP_KEEPALIVE \<Rightarrow> put_int (\<lambda>i. i \<ge> -1 \<or> i \<le> 1) (\<lambda>i o'. o'\<lparr>o_tcp_keepalive := i\<rparr>) v o'
      | ZMQ_TCP_KEEPALIVE_CNT \<Rightarrow> put_int (\<lambda>i. i = -1 \<or> i \<ge> 0) (\<lambda>i o'. o'\<lparr>o_tcp_keepalive_cnt := i\<rparr>) v o'
      | ZMQ_TCP_KEEPALIVE_IDLE \<Rightarrow> put_int (\<lambda>i. i = -1 \<or> i \<ge> 0) (\<lambda>i o'. o'\<lparr>o_tcp_keepalive_idle := i\<rparr>) v o'
      | ZMQ_TCP_KEEPALIVE_INTVL \<Rightarrow> put_int (\<lambda>i. i = -1 \<or> i \<ge> 0) (\<lambda>i o'. o'\<lparr>o_tcp_keepalive_intvl := i\<rparr>) v o'
      | ZMQ_IMMEDIATE \<Rightarrow> put_int (\<lambda>i. i = 0 \<or> i = 1) (\<lambda>i o'. o'\<lparr>o_immediate := i\<rparr>) v o'
      | ZMQ_TCP_ACCEPT_FILTER \<Rightarrow>
          if optval = None then Some (o'\<lparr>o_tcp_accept_filters := []\<rparr>)
          else if length v > 0 \<and> length v < 256 \<and> v ! 0 \<noteq> 0
          then (case mask_resolve gai (c_str v) (o_ipv6 o') of
                  Inl _ \<Rightarrow> None
                | Inr f \<Rightarrow> Some (o'\<lparr>o_tcp_accept_filters := o_tcp_accept_filters o' @ [f]\<rparr>))
          else None
      | _ \<Rightarrow> None)"

definition set_plain :: "sockopt \<Rightarrow> bytes option \<Rightarrow> options \<Rightarrow> options option" where
  "set_plain opt optval o' =
     (let v = arg_bytes optval in
      case opt of
        ZMQ_PLAIN_SERVER \<Rightarrow>
          put_int (\<lambda>i. i = 0 \<or> i = 1)
            (\<lambda>i o'. o'\<lparr>o_as_server := i, o_mechanism := (if i \<noteq> 0 then ZMQ_PLAIN else ZMQ_NULL)\<rparr>) v o'
      | ZMQ_PLAIN_USERNAME \<Rightarrow>
          if optval = None then Some (o'\<lparr>o_mechanism := ZMQ_NULL\<rparr>)
          else if length v > 0 \<and> length v < 256
          then Some (o'\<lparr>o_plain_username := v, o_as_server := 0, o_mechanism := ZMQ_PLAIN\<rparr>) else None
      | ZMQ_PLAIN_PASSWORD \<Rightarrow>
          if optval = None then Some (o'\<lparr>o_mechanism := ZMQ_NULL\<rparr>)
          else if length v > 0 \<and> length v < 256
          then Some (o'\<lparr>o_plain_password := v, o_as_server := 0, o_mechanism := ZMQ_PLAIN\<rparr>) else None
      | ZMQ_ZAP_DOMAIN \<Rightarrow> if length v < 256 then Some (o'\<lparr>o_zap_domain := v\<rparr>) else None
      | _ \<Rightarrow> None)"

definition set_conflate :: "sockopt \<Rightarrow> bytes option \<Rightarrow> options \<Rightarrow> options option" where
  "set_conflate opt optval o' =
     (case opt of
        ZMQ_CONFLATE \<Rightarrow>
          put_int (\<lambda>i. i = 0 \<or> i = 1) (\<lambda>i o'. o'\<lparr>o_conflate := (i \<noteq> 0)\<rparr>) (arg_bytes optval) o'
      | _ \<Rightarrow> None)"

text \<open>The switch of \<open>setsockopt\<close>: an option that no case accepts falls through to \<open>EINVAL\<close>.\<close>

definition setsockopt ::
  "(string \<Rightarrow> bool \<Rightarrow> gai_error + sockaddr) \<Rightarrow> sockopt \<Rightarrow> bytes option \<Rightarrow> options \<Rightarrow> options option" where
  "setsockopt gai opt optval o' =
     (case set_flow opt optval o' of
        Some r \<Rightarrow> Some r
      | None \<Rightarrow>
          (case set_tcp gai opt optval o' of
             Some r \<Rightarrow> Some r
           | None \<Rightarrow>
               (case set_plain opt optval o' of Some r \<Rightarrow> Some r | None \<Rightarrow> set_conflate opt optval o')))"

section \<open>Reading an option\<close>

text \<open>The caller passes a buffer; the result is its new contents and the length reported.\<close>

definition get_int :: "int \<Rightarrow> bytes \<Rightarrow> (bytes \<times> nat) option" where
  "get_int i buf = (if is_int buf then Some (le_bytes 4 (word_of_int i :: u32), 4) else None)"

definition get_str :: "bytes \<Rightarrow> bytes \<Rightarrow> (bytes \<times> nat) option" where
  "get_str s buf =
     (if length buf \<ge> length s + 1 then Some (blit buf 0 (s @ [0]), length s + 1) else None)"

definition get_flow :: "sockopt \<Rightarrow> bytes \<Rightarrow> options \<Rightarrow> (bytes \<times> nat) option" where
  "get_flow opt buf o' =
     (case opt of
        ZMQ_SNDHWM \<Rightarrow> get_int (o_sndhwm o') buf
      | ZMQ_RCVHWM \<Rightarrow> get_int (o_rcvhwm o') buf
      | ZMQ_AFFINITY \<Rightarrow> if length buf = 8 then Some (le_bytes 8 (o_affinity o'), 8) else None
      | ZMQ_IDENTITY \<Rightarrow>
          if length buf \<ge> unat (o_identity_size o')
          then Some (blit buf 0 (take (unat (o_identity_size o')) (o_identity o')), unat (o_identity_size o'))
          else None
      | ZMQ_RATE \<Rightarrow> get_int (o_rate o') buf
      | ZMQ_RECOVERY_IVL \<Rightarrow> get_int (o_recovery_ivl o') buf
      | ZMQ_SNDBUF \<Rightarrow> get_int (o_sndbuf o') buf
      | ZMQ_RCVBUF \<Rightarrow> get_int (o_rcvbuf o') buf
      | ZMQ_TYPE \<Rightarrow> get_int (o_type o') buf
      | ZMQ_LINGER \<Rightarrow> get_int (o_linger o') buf
      | ZMQ_RECONNECT_IVL \<Rightarrow> get_int (o_reconnect_ivl o') buf
      | ZMQ_RECONNECT_IVL_MAX \<Rightarrow> get_int (o_reconnect_ivl_max o') buf
      | ZMQ_BACKLOG \<Rightarrow> get_int (o_backlog o') buf
      | ZMQ_MAXMSGSIZE \<Rightarrow>
          if length buf = 8 then Some (le_bytes 8 (word_of_int (o_maxmsgsize o') :: u64), 8) else None
      | ZMQ_MULTICAST_HOPS \<Rightarrow> get_int (o_multicast_hops o') buf
      | ZMQ_RCVTIMEO \<Rightarrow> get_int (o_rcvtimeo o') buf
      | ZMQ_SNDTIMEO \<Rightarrow> get_int (o_sndtimeo o') buf
      | _ \<Rightarrow> None)"

definition get_tcp :: "sockopt \<Rightarrow> bytes \<Rightarrow> options \<Rightarrow> (bytes \<times> nat) option" where
  "get_tcp opt buf o' =
     (case opt of
        ZMQ_IPV4ONLY \<Rightarrow> get_int (1 - of_bool (o_ipv6 o')) buf
      | ZMQ_IPV6 \<Rightarrow> get_int (of_bool (o_ipv6 o')) buf
      | ZMQ_IMMEDIATE \<Rightarrow> get_int (o_immediate o') buf
      | ZMQ_TCP_KEEPALIVE \<Rightarrow> get_int (o_tcp_keepalive o') buf
      | ZMQ_TCP_KEEPALIVE_CNT \<Rightarrow> get_int (o_tcp_keepalive_cnt o') buf
      | ZMQ_TCP_KEEPALIVE_IDLE \<Rightarrow> get_int (o_tcp_keepalive_idle o') buf
      | ZMQ_TCP_KEEPALIVE_INTVL \<Rightarrow> get_int (o_tcp_keepalive_intvl o') buf
      | _ \<Rightarrow> None)"

definition get_plain :: "sockopt \<Rightarrow> bytes \<Rightarrow> options \<Rightarrow> (bytes \<times> nat) option" where
  "get_plain opt buf o' =
     (case opt of
        ZMQ_MECHANISM \<Rightarrow> get_int (o_mechanism o') buf
      | ZMQ_PLAIN_SERVER \<Rightarrow> get_int (of_bool (o_as_server o' \<noteq> 0 \<and> o_mechanism o' = ZMQ_PLAIN)) buf
      | ZMQ_PLAIN_USERNAME \<Rightarrow> get_str (o_plain_username o') buf
      | ZMQ_PLAIN_PASSWORD \<Rightarrow> get_str (o_plain_password o') buf
      | ZMQ_ZAP_DOMAIN \<Rightarrow> get_str (o_zap_domain o') buf
      | ZMQ_CONFLATE \<Rightarrow> get_int (of_bool (o_conflate o')) buf
      | _ \<Rightarrow> None)"

definition getsockopt :: "sockopt \<Rightarrow> bytes \<Rightarrow> options \<Rightarrow> (bytes \<times> nat) option" where
  "getsockopt opt buf o' =
     (case get_flow opt buf o' of
        Some r \<Rightarrow> Some r
      | None \<Rightarrow> (case get_tcp opt buf o' of Some r \<Rightarrow> Some r | None \<Rightarrow> get_plain opt buf o'))"

section \<open>Options as cells\<close>

text \<open>The interface a user of the options relies on: an accepted value is read back, an option of
  another group is not disturbed, a rejected call changes nothing.\<close>

locale option_store =
  fixes set_opt :: "'k \<Rightarrow> 'v \<Rightarrow> 's \<Rightarrow> 's option"
    and get_opt :: "'k \<Rightarrow> 's \<Rightarrow> 'r"
    and grp :: "'k \<Rightarrow> 'g"
    and valid :: "'k \<Rightarrow> 'v \<Rightarrow> bool"
    and expected :: "'k \<Rightarrow> 'v \<Rightarrow> 'r"
    and wf :: "'s \<Rightarrow> bool"
  assumes set_valid: "wf s \<Longrightarrow> valid k v \<Longrightarrow> \<exists>s'. set_opt k v s = Some s' \<and> get_opt k s' = expected k v"
    and set_wf: "wf s \<Longrightarrow> set_opt k v s = Some s' \<Longrightarrow> wf s'"
    and set_other: "wf s \<Longrightarrow> set_opt k v s = Some s' \<Longrightarrow> grp k \<noteq> grp k' \<Longrightarrow> get_opt k' s' = get_opt k' s"
begin

fun set_all :: "('k \<times> 'v) list \<Rightarrow> 's \<Rightarrow> 's" where
  "set_all [] s = s"
| "set_all ((k, v) # kvs) s = set_all kvs (case set_opt k v s of None \<Rightarrow> s | Some s' \<Rightarrow> s')"

lemma set_all_append: "set_all (xs @ ys) s = set_all ys (set_all xs s)"
  by (induction xs arbitrary: s) auto

lemma set_all_wf: "wf s \<Longrightarrow> wf (set_all kvs s)"
proof (induction kvs arbitrary: s)
  case (Cons a kvs)
  then show ?case by (cases a) (auto intro: set_wf split: option.splits)
qed simp

lemma set_all_other:
  "wf s \<Longrightarrow> \<forall>(k, v)\<in>set kvs. grp k \<noteq> grp k' \<Longrightarrow> get_opt k' (set_all kvs s) = get_opt k' s"
proof (induction kvs arbitrary: s)
  case (Cons a kvs)
  obtain k v where a: "a = (k, v)" by fastforce
  show ?case
  proof (cases "set_opt k v s")
    case (Some s')
    with Cons a set_wf [OF Cons.prems(1) Some] set_other [OF Cons.prems(1) Some, of k'] show ?thesis by auto
  qed (use Cons a in auto)
qed simp

lemma last_valid_wins:
  assumes "wf s" "valid k v" "\<forall>(k', v')\<in>set ys. grp k' \<noteq> grp k"
  shows "get_opt k (set_all (xs @ (k, v) # ys) s) = expected k v"
proof -
  from set_valid [OF set_all_wf [OF assms(1)] assms(2)] obtain s'
    where "set_opt k v (set_all xs s) = Some s'" "get_opt k s' = expected k v" by blast
  with set_all_other [OF set_wf [OF set_all_wf [OF assms(1)]] assms(3)] show ?thesis
    by (simp add: set_all_append)
qed

end

datatype opt_kind = KInt int int | KLong | KBin | KStr nat | KNone

text \<open>What each option accepts: integers of a range, 64-bit values, the identity, strings of a least
  length; \<open>KNone\<close> for options that cannot be both set and read.\<close>

definition INT_MAX :: int where "INT_MAX = 2 ^ 31 - 1"

definition opt_kind_of :: "sockopt \<Rightarrow> opt_kind" where
  "opt_kind_of opt =
     (if opt \<in> {ZMQ_SNDHWM, ZMQ_RCVHWM, ZMQ_RECOVERY_IVL, ZMQ_SNDBUF, ZMQ_RCVBUF, ZMQ_RECONNECT_IVL_MAX, ZMQ_BACKLOG}
      then KInt 0 INT_MAX
      else if opt \<in> {ZMQ_RATE, ZMQ_MULTICAST_HOPS} then KInt 1 INT_MAX
      else if opt \<in> {ZMQ_LINGER, ZMQ_RECONNECT_IVL, ZMQ_RCVTIMEO, ZMQ_SNDTIMEO, ZMQ_TCP_KEEPALIVE_CNT,
                      ZMQ_TCP_KEEPALIVE_IDLE, ZMQ_TCP_KEEPALIVE_INTVL} then KInt (-1) INT_MAX
      else if opt \<in> {ZMQ_IPV4ONLY, ZMQ_IPV6, ZMQ_IMMEDIATE, ZMQ_PLAIN_SERVER, ZMQ_CONFLATE} then KInt 0 1
      else if opt = ZMQ_TCP_KEEPALIVE then KInt (- INT_MAX - 1) INT_MAX
      else if opt \<in> {ZMQ_AFFINITY, ZMQ_MAXMSGSIZE} then KLong
      else if opt = ZMQ_IDENTITY then KBin
      else if opt \<in> {ZMQ_PLAIN_USERNAME, ZMQ_PLAIN_PASSWORD} then KStr 1
      else if opt = ZMQ_ZAP_DOMAIN then KStr 0
      else KNone)"

definition opt_valid :: "sockopt \<Rightarrow> bytes option \<Rightarrow> bool" where
  "opt_valid opt optval =
     (case optval of
        None \<Rightarrow> False
      | Some v \<Rightarrow>
          (case opt_kind_of opt of
             KInt lo hi \<Rightarrow> length v = 4 \<and> lo \<le> sint (le_load v :: u32) \<and> sint (le_load v :: u32) \<le> hi
           | KLong \<Rightarrow> length v = 8
           | KBin \<Rightarrow> 0 < length v \<and> length v < 256 \<and> hd v \<noteq> 0
           | KStr l \<Rightarrow> l \<le> length v \<and> length v < 256
           | KNone \<Rightarrow> False))"

definition opt_expected :: "sockopt \<Rightarrow> bytes option \<Rightarrow> bytes \<Rightarrow> (bytes \<times> nat) option" where
  "opt_expected opt optval buf =
     (let v = the optval in
      case opt_kind_of opt of
        KInt lo hi \<Rightarrow> if length buf = 4 then Some (v, 4) else None
      | KLong \<Rightarrow> if length buf = 8 then Some (v, 8) else None
      | KBin \<Rightarrow> if length v \<le> length buf then Some (blit buf 0 v, length v) else None
      | KStr l \<Rightarrow> if length v < length buf then Some (blit buf 0 (v @ [0]), length v + 1) else None
      | KNone \<Rightarrow> None)"

text \<open>Options that share a member of the record form a group.\<close>

definition opt_group :: "sockopt \<Rightarrow> sockopt" where
  "opt_group opt =
     (if opt = ZMQ_IPV4ONLY then ZMQ_IPV6
      else if opt \<in> {ZMQ_PLAIN_USERNAME, ZMQ_PLAIN_PASSWORD, ZMQ_MECHANISM} then ZMQ_PLAIN_SERVER
      else opt)"

definition identity_ok :: "options \<Rightarrow> bool" where
  "identity_ok o' \<longleftrightarrow> length (o_identity o') = 256"

lemmas set_defs = setsockopt_def set_flow_def set_tcp_def set_plain_def set_conflate_def put_int_def
lemmas get_defs = getsockopt_def get_flow_def get_tcp_def get_plain_def

lemma int_bytes: "length v = 4 \<Longrightarrow> le_bytes 4 (le_load v :: u32) = v"
  using le_bytes_le_load [of v, where 'a = 32] by simp

lemma long_bytes: "length v = 8 \<Longrightarrow> le_bytes 8 (le_load v :: u64) = v"
  using le_bytes_le_load [of v, where 'a = 64] by simp

lemma setsockopt_identity_ok: "identity_ok o' \<Longrightarrow> setsockopt gai opt v o' = Some r \<Longrightarrow> identity_ok r"
  by (cases opt) (auto simp: set_defs Let_def identity_ok_def split: if_splits option.splits sum.splits)

text \<open>The members an option reads.\<close>

datatype opt_member = VInt int | VLong u64 | VBin bytes | VStr bytes | VNone

definition opt_view :: "sockopt \<Rightarrow> options \<Rightarrow> opt_member" where
  "opt_view opt o' =
     (case opt of
        ZMQ_SNDHWM \<Rightarrow> VInt (o_sndhwm o') | ZMQ_RCVHWM \<Rightarrow> VInt (o_rcvhwm o')
      | ZMQ_AFFINITY \<Rightarrow> VLong (o_affinity o')
      | ZMQ_IDENTITY \<Rightarrow> VBin (take (unat (o_identity_size o')) (o_identity o'))
      | ZMQ_RATE \<Rightarrow> VInt (o_rate o') | ZMQ_RECOVERY_IVL \<Rightarrow> VInt (o_recovery_ivl o')
      | ZMQ_SNDBUF \<Rightarrow> VInt (o_sndbuf o') | ZMQ_RCVBUF \<Rightarrow> VInt (o_rcvbuf o')
      | ZMQ_TYPE \<Rightarrow> VInt (o_type o') | ZMQ_LINGER \<Rightarrow> VInt (o_linger o')
      | ZMQ_RECONNECT_IVL \<Rightarrow> VInt (o_reconnect_ivl o')
      | ZMQ_RECONNECT_IVL_MAX \<Rightarrow> VInt (o_reconnect_ivl_max o')
      | ZMQ_BACKLOG \<Rightarrow> VInt (o_backlog o')
      | ZMQ_MAXMSGSIZE \<Rightarrow> VLong (word_of_int (o_maxmsgsize o'))
      | ZMQ_MULTICAST_HOPS \<Rightarrow> VInt (o_multicast_hops o')
      | ZMQ_RCVTIMEO \<Rightarrow> VInt (o_rcvtimeo o') | ZMQ_SNDTIMEO \<Rightarrow> VInt (o_sndtimeo o')
      | ZMQ_IPV4ONLY \<Rightarrow> VInt (1 - of_bool (o_ipv6 o')) | ZMQ_IPV6 \<Rightarrow> VInt (of_bool (o_ipv6 o'))
      | ZMQ_IMMEDIATE \<Rightarrow> VInt (o_immediate o')
      | ZMQ_TCP_KEEPALIVE \<Rightarrow> VInt (o_tcp_keepalive o')
      | ZMQ_TCP_KEEPALIVE_CNT \<Rightarrow> VInt (o_tcp_keepalive_cnt o')
      | ZMQ_TCP_KEEPALIVE_IDLE \<Rightarrow> VInt (o_tcp_keepalive_idle o')
      | ZMQ_TCP_KEEPALIVE_INTVL \<Rightarrow> VInt (o_tcp_keepalive_intvl o')
      | ZMQ_MECHANISM \<Rightarrow> VInt (o_mechanism o')
      | ZMQ_PLAIN_SERVER \<Rightarrow> VInt (of_bool (o_as_server o' \<noteq> 0 \<and> o_mechanism o' = ZMQ_PLAIN))
      | ZMQ_PLAIN_USERNAME \<Rightarrow> VStr (o_plain_username o') | ZMQ_PLAIN_PASSWORD \<Rightarrow> VStr (o_plain_password o')
      | ZMQ_ZAP_DOMAIN \<Rightarrow> VStr (o_zap_domain o') | ZMQ_CONFLATE \<Rightarrow> VInt (of_bool (o_conflate o'))
      | _ \<Rightarrow> VNone)"

fun view_bytes :: "opt_member \<Rightarrow> bytes \<Rightarrow> (bytes \<times> nat) option" where
  "view_bytes (VInt i) buf = get_int i buf"
| "view_bytes (VLong w) buf = (if length buf = 8 then Some (le_bytes 8 w, 8) else None)"
| "view_bytes (VBin b) buf = (if length b \<le> length buf then Some (blit buf 0 b, length b) else None)"
| "view_bytes (VStr b) buf = get_str b buf"
| "view_bytes VNone buf = None"

lemma identity_size_le: "unat (n :: u8) \<le> 256"
  using unsigned_less [of n, where 'a = nat] by simp

lemma getsockopt_view: "identity_ok o' \<Longrightarrow> getsockopt opt buf o' = view_bytes (opt_view opt o') buf"
  using identity_size_le [of "o_identity_size o'"]
  by (cases opt) (simp_all add: get_defs opt_view_def identity_ok_def min_def split: option.split)

lemma setsockopt_view_other:
  assumes "setsockopt gai opt v o' = Some r" "opt_group opt \<noteq> opt_group opt'"
  shows "opt_view opt' r = opt_view opt' o'"
  using assms
  by (cases opt; simp add: set_defs Let_def split: if_splits option.splits sum.splits;
      hypsubst_thin?; cases opt'; simp add: opt_view_def opt_group_def)

definition view_of_arg :: "sockopt \<Rightarrow> bytes \<Rightarrow> opt_member" where
  "view_of_arg opt v =
     (case opt_kind_of opt of
        KInt lo hi \<Rightarrow> VInt (sint (le_load v :: u32))
      | KLong \<Rightarrow> VLong (le_load v)
      | KBin \<Rightarrow> VBin v
      | KStr l \<Rightarrow> VStr v
      | KNone \<Rightarrow> VNone)"

lemma sint_bounds: "- INT_MAX - 1 \<le> sint (w :: u32)" "sint (w :: u32) \<le> INT_MAX"
  using sint_range_size [of w] by (auto simp: INT_MAX_def word_size)

lemma identity_stored:
  "length ident = 256 \<Longrightarrow> length v < 256 \<Longrightarrow>
   take (unat (of_nat (length v) :: u8)) (blit ident 0 v) = v"
  using take_blit_upto [of 0 v ident] by (simp add: unat_of_nat)

lemma setsockopt_view:
  assumes "identity_ok o'" "opt_valid opt (Some v)"
  shows "\<exists>r. setsockopt gai opt (Some v) o' = Some r \<and> opt_view opt r = view_of_arg opt v"
  using assms sint_bounds [of "le_load v"]
  by (cases opt) (auto simp: set_defs opt_view_def opt_valid_def opt_kind_of_def view_of_arg_def arg_bytes_def
      is_int_def int_value_def identity_ok_def identity_stored hd_conv_nth)

lemma view_of_arg_expected:
  "opt_valid opt (Some v) \<Longrightarrow> view_bytes (view_of_arg opt v) buf = opt_expected opt (Some v) buf"
  by (auto simp: view_of_arg_def opt_valid_def opt_expected_def get_int_def get_str_def is_int_def int_bytes long_bytes
      Let_def split: opt_kind.splits)

text \<open>A sequence of \<open>setsockopt\<close> calls; the caller goes on after a rejected one.\<close>

fun setsockopts ::
  "(string \<Rightarrow> bool \<Rightarrow> gai_error + sockaddr) \<Rightarrow> (sockopt \<times> bytes option) list \<Rightarrow> options \<Rightarrow> options" where
  "setsockopts gai [] o' = o'"
| "setsockopts gai ((opt, v) # cs) o' =
     setsockopts gai cs (case setsockopt gai opt v o' of None \<Rightarrow> o' | Some r \<Rightarrow> r)"

interpretation sockopts: option_store "setsockopt gai" "\<lambda>opt o' buf. getsockopt opt buf o'" opt_group opt_valid
  opt_expected identity_ok for gai
proof
  fix s :: options and k v
  assume s: "identity_ok s" and v: "opt_valid k v"
  then obtain b where b: "v = Some b" by (cases v) (auto simp: opt_valid_def)
  from setsockopt_view [OF s v [unfolded b]] obtain r
    where r: "setsockopt gai k (Some b) s = Some r" "opt_view k r = view_of_arg k b" by blast
  with setsockopt_identity_ok [OF s] getsockopt_view view_of_arg_expected [OF v [unfolded b]] b
  show "\<exists>s'. setsockopt gai k v s = Some s' \<and> (\<lambda>buf. getsockopt k buf s') = opt_expected k v" by auto
qed (auto simp: getsockopt_view setsockopt_identity_ok setsockopt_view_other)

lemma setsockopts_set_all: "setsockopts gai cs o' = sockopts.set_all gai cs o'"
  by (induction gai cs o' rule: setsockopts.induct) simp_all

section \<open>Ranges\<close>

definition options_ok :: "options \<Rightarrow> bool" where
  "options_ok o' \<longleftrightarrow>
     0 \<le> o_sndhwm o' \<and> 0 \<le> o_rcvhwm o' \<and> 0 < o_rate o' \<and> 0 \<le> o_recovery_ivl o' \<and>
     0 < o_multicast_hops o' \<and> 0 \<le> o_sndbuf o' \<and> 0 \<le> o_rcvbuf o' \<and> -1 \<le> o_linger o' \<and>
     -1 \<le> o_reconnect_ivl o' \<and> 0 \<le> o_reconnect_ivl_max o' \<and> 0 \<le> o_backlog o' \<and>
     -1 \<le> o_rcvtimeo o' \<and> -1 \<le> o_sndtimeo o' \<and> o_mechanism o' \<in> {ZMQ_NULL, ZMQ_PLAIN} \<and>
     length (o_plain_username o') < 256 \<and> length (o_plain_password o') < 256 \<and>
     (\<forall>f\<in>set (o_tcp_accept_filters o').
        0 \<le> addr_mask f \<and> addr_mask f \<le> (if sa_family f = AF_INET6 then 128 else 32))"

lemma mask_resolve_range:
  "mask_resolve gai s ip6 = Inr f \<Longrightarrow>
   0 \<le> addr_mask f \<and> addr_mask f \<le> (if sa_family f = AF_INET6 then 128 else 32)"
  by (auto simp: mask_resolve_def mask_parse_def Let_def sockaddr.extend_def split: option.splits sum.splits if_splits prod.splits)

lemma setsockopt_options_ok: "options_ok o' \<Longrightarrow> setsockopt gai opt v o' = Some r \<Longrightarrow> options_ok r"
  by (cases opt; simp add: set_defs Let_def split: if_splits option.splits sum.splits;
      hypsubst_thin?; fastforce simp: options_ok_def dest: mask_resolve_range)

lemma setsockopts_options_ok: "options_ok o' \<Longrightarrow> options_ok (setsockopts gai cs o')"
  by (induction gai cs o' rule: setsockopts.induct) (auto split: option.splits dest: setsockopt_options_ok)

lemma options_t_ok: "options_ok (options_t junk)"
  by (simp add: options_ok_def options_t_def)

section \<open>Properties\<close>

text \<open>Options are independent cells: after any sequence of \<open>setsockopt\<close> calls, accepted or not, reading
  an option returns the last valid value that was set for it, provided no later call addresses an
  option sharing its member; the bytes read are the bytes written, for integers of either sign,
  64-bit values, the identity and strings, and a buffer of the wrong length is refused.\<close>

theorem sockopt_last_set_wins:
  assumes "length (o_identity o') = 256" "opt_valid opt (Some v)"
    "\<forall>(k, w)\<in>set later. opt_group k \<noteq> opt_group opt"
  shows "getsockopt opt buf (setsockopts gai (before @ (opt, Some v) # later) o') = opt_expected opt (Some v) buf"
  using fun_cong [OF sockopts.last_valid_wins [of o' opt "Some v" later gai before], of buf] assms
  by (simp add: identity_ok_def setsockopts_set_all)


text \<open>The guard of \<open>ZMQ_TCP_KEEPALIVE\<close> rejects nothing: every four-byte value is stored, although the
  option is meant to be -1, 0 or 1.\<close>

theorem keepalive_guard_vacuous:
  "length v = 4 \<longrightarrow> setsockopt gai ZMQ_TCP_KEEPALIVE (Some v) o' = Some (o'\<lparr>o_tcp_keepalive := sint (le_load v :: u32)\<rparr>)"
  by (auto simp: set_defs arg_bytes_def is_int_def int_value_def)

section \<open>Witnesses\<close>

theorem sockopt_last_set_wins_witness:
  "getsockopt ZMQ_LINGER [0, 0, 0, 0]
     (setsockopts wit_gai
        ([(ZMQ_LINGER, Some [1, 0, 0, 0])] @ (ZMQ_LINGER, Some [255, 255, 255, 255]) #
         [(ZMQ_SNDHWM, Some [5, 0, 0, 0]), (ZMQ_RATE, Some [0])])
        (options_t (replicate 256 0))) = Some ([255, 255, 255, 255], 4)"
proof -
  have v: "opt_valid ZMQ_LINGER (Some [255, 255, 255, 255])" by code_simp
  have e: "opt_expected ZMQ_LINGER (Some [255, 255, 255, 255]) [0, 0, 0, 0] = Some ([255, 255, 255, 255], 4)"
    by (simp add: opt_expected_def opt_kind_of_def)
  show ?thesis
    using sockopt_last_set_wins [of "options_t (replicate 256 0)" ZMQ_LINGER "[255, 255, 255, 255]"
      "[(ZMQ_SNDHWM, Some [5, 0, 0, 0]), (ZMQ_RATE, Some [0])]" "[0, 0, 0, 0]" wit_gai
      "[(ZMQ_LINGER, Some [1, 0, 0, 0])]"] v e
    by (simp add: options_t_def opt_group_def)
qed


theorem keepalive_guard_vacuous_witness:
  "setsockopt wit_gai ZMQ_TCP_KEEPALIVE (Some [7, 0, 0, 0]) (options_t []) =
     Some ((options_t [])\<lparr>o_tcp_keepalive := 7\<rparr>)"
proof -
  have "sint (le_load [7, 0, 0, 0] :: u32) = 7" by code_simp
  then show ?thesis using keepalive_guard_vacuous [of "[7, 0, 0, 0]" wit_gai "options_t []"] by simp
qed

end
