(* ===== verification/Mechanism.thy ===== *)
theory Mechanism
  imports Framing Options C_Text
begin

text \<open>
  The NULL security mechanism, \<open>src/net/mechanism.cpp\<close> and \<open>null_mechanism.cpp\<close>: the READY command
  with its properties and the state of the handshake. Text on the wire is the bytes of its characters.

  Proved: a READY command is accepted by the peer exactly if the socket types fit, and transports the
  identity; two mechanisms complete the handshake by exchanging their commands in any order; the command
  fits the buffer it is assembled in. The parser accepts some truncated metadata.
\<close>

section \<open>Properties of a READY command\<close>

definition socket_type_names :: "string list" where
  "socket_type_names = [''PAIR'', ''PUB'', ''SUB'', ''REQ'', ''REP'', ''DEALER'', ''ROUTER'', ''PULL'', ''PUSH'',
     ''XPUB'', ''XSUB'', ''STREAM'']"

text \<open>\<open>None\<close> is a failed assertion.\<close>

definition socket_type_string :: "int \<Rightarrow> bytes option" where
  "socket_type_string ty = (if 0 \<le> ty \<and> ty \<le> 10 then Some (ascii (socket_type_names ! nat ty)) else None)"

definition add_property :: "bytes \<Rightarrow> bytes \<Rightarrow> bytes option" where
  "add_property name v =
     (if length name \<le> 255 \<and> length v \<le> 0x7FFFFFFF
      then Some (of_nat (length name) # name @ put_uint32 (replicate 4 0) 0 (of_nat (length v)) @ v)
      else None)"

definition ty_PAIR :: int where "ty_PAIR = 0"
definition ty_PUB :: int where "ty_PUB = 1"
definition ty_SUB :: int where "ty_SUB = 2"
definition ty_REQ :: int where "ty_REQ = 3"
definition ty_REP :: int where "ty_REP = 4"
definition ty_DEALER :: int where "ty_DEALER = 5"
definition ty_ROUTER :: int where "ty_ROUTER = 6"
definition ty_PULL :: int where "ty_PULL = 7"
definition ty_PUSH :: int where "ty_PUSH = 8"
definition ty_XPUB :: int where "ty_XPUB = 9"
definition ty_XSUB :: int where "ty_XSUB = 10"

lemmas ty_defs = ty_PAIR_def ty_PUB_def ty_SUB_def ty_REQ_def ty_REP_def ty_DEALER_def ty_ROUTER_def ty_PULL_def
  ty_PUSH_def ty_XPUB_def ty_XSUB_def

definition check_socket_type :: "int \<Rightarrow> bytes \<Rightarrow> bool" where
  "check_socket_type ty t =
     (if ty = ty_REQ then t = ascii ''REP'' \<or> t = ascii ''ROUTER''
      else if ty = ty_REP then t = ascii ''REQ'' \<or> t = ascii ''DEALER''
      else if ty = ty_DEALER then t = ascii ''REP'' \<or> t = ascii ''DEALER'' \<or> t = ascii ''ROUTER''
      else if ty = ty_ROUTER then t = ascii ''REQ'' \<or> t = ascii ''DEALER'' \<or> t = ascii ''ROUTER''
      else if ty = ty_PUSH then t = ascii ''PULL''
      else if ty = ty_PULL then t = ascii ''PUSH''
      else if ty = ty_PUB then t = ascii ''SUB'' \<or> t = ascii ''XSUB''
      else if ty = ty_SUB then t = ascii ''PUB'' \<or> t = ascii ''XPUB''
      else if ty = ty_XPUB then t = ascii ''SUB'' \<or> t = ascii ''XSUB''
      else if ty = ty_XSUB then t = ascii ''PUB'' \<or> t = ascii ''XPUB''
      else if ty = ty_PAIR then t = ascii ''PAIR''
      else False)"

datatype merrno = M_EPROTO | M_EINVAL | M_EAGAIN

text \<open>The result of \<open>parse_metadata\<close>: the peer identity stored so far and the error, if any. The virtual
  function \<open>property\<close> accepts everything.\<close>

definition metadata_end :: "bytes \<Rightarrow> bytes \<Rightarrow> bytes \<times> merrno option" where
  "metadata_end left ident = (ident, if length left > 0 then Some M_EPROTO else None)"

function parse_metadata :: "options \<Rightarrow> bytes \<Rightarrow> bytes \<Rightarrow> bytes \<times> merrno option" where
  "parse_metadata o' p ident =
     (if length p > 1 then
        (let name_length = unat (p ! 0); p1 = drop 1 p in
         if length p1 < name_length then metadata_end p1 ident
         else
           (let name = take name_length p1; p2 = drop name_length p1 in
            if length p2 < 4 then metadata_end p2 ident
            else
              (let value_length = unat (get_uint32 p2 0); p3 = drop 4 p2 in
               if length p3 < value_length then metadata_end p3 ident
               else
                 (let v = take value_length p3; p4 = drop value_length p3 in
                  if name = ascii ''Identity'' \<and> o_recv_identity o' then parse_metadata o' p4 v
                  else if name = ascii ''Socket-Type''
                  then (if check_socket_type (o_type o') v then parse_metadata o' p4 ident else (ident, Some M_EINVAL))
                  else parse_metadata o' p4 ident))))
      else metadata_end p ident)"
  by pat_completeness auto
termination
  by (relation "measure (\<lambda>(o', p, ident). length p)") (auto simp: Let_def)

declare parse_metadata.simps [simp del]

section \<open>The mechanism\<close>

record null_mechanism =
  nm_options :: options
  ready_command_sent :: bool
  ready_command_received :: bool
  nm_identity :: bytes

definition null_mechanism_t :: "options \<Rightarrow> null_mechanism" where
  "null_mechanism_t o' =
     \<lparr>nm_options = o', ready_command_sent = False, ready_command_received = False, nm_identity = []\<rparr>"

definition ready_prefix :: bytes where
  "ready_prefix = 5 # ascii ''READY''"

text \<open>The bytes assembled in the command buffer; \<open>None\<close> is a failed assertion.\<close>

definition ready_command :: "options \<Rightarrow> bytes option" where
  "ready_command o' =
     (case socket_type_string (o_type o') of
        None \<Rightarrow> None
      | Some ty \<Rightarrow>
          (case add_property (ascii ''Socket-Type'') ty of
             None \<Rightarrow> None
           | Some p \<Rightarrow>
               if o_type o' = ty_REQ \<or> o_type o' = ty_DEALER \<or> o_type o' = ty_ROUTER
               then (case add_property (ascii ''Identity'') (take (unat (o_identity_size o')) (o_identity o')) of
                       None \<Rightarrow> None
                     | Some q \<Rightarrow> Some (ready_prefix @ p @ q))
               else Some (ready_prefix @ p)))"

definition next_handshake_command :: "null_mechanism \<Rightarrow> (merrno + bytes \<times> null_mechanism) option" where
  "next_handshake_command m =
     (if ready_command_sent m then Some (Inl M_EAGAIN)
      else (case ready_command (nm_options m) of
              None \<Rightarrow> None
            | Some c \<Rightarrow> Some (Inr (c, m\<lparr>ready_command_sent := True\<rparr>))))"

definition process_handshake_command :: "bytes \<Rightarrow> null_mechanism \<Rightarrow> null_mechanism \<times> merrno option" where
  "process_handshake_command c m =
     (if ready_command_received m then (m, Some M_EPROTO)
      else if length c < 6 \<or> take 6 c \<noteq> ready_prefix then (m, Some M_EPROTO)
      else (case parse_metadata (nm_options m) (drop 6 c) (nm_identity m) of
              (ident, rc) \<Rightarrow> (m\<lparr>nm_identity := ident, ready_command_received := True\<rparr>, rc)))"

definition is_handshake_complete :: "null_mechanism \<Rightarrow> bool" where
  "is_handshake_complete m \<longleftrightarrow> ready_command_received m \<and> ready_command_sent m"

text \<open>\<open>peer_identity\<close>: the message built from the identity.\<close>

definition peer_identity :: "null_mechanism \<Rightarrow> frame" where
  "peer_identity m = \<lparr>fflags = 64, fdata = nm_identity m\<rparr>"

section \<open>Reading what was written\<close>

lemma unat_len8: "n \<le> 255 \<Longrightarrow> unat (of_nat n :: u8) = n"
  by (simp add: unat_of_nat)

lemma unat_len32: "n \<le> 0x7FFFFFFF \<Longrightarrow> unat (of_nat n :: u32) = n"
  by (simp add: unat_of_nat)

lemma add_property_length: "add_property n v = Some p \<Longrightarrow> length p = 5 + length n + length v"
  by (auto simp: add_property_def split: if_splits)

lemma parse_property:
  assumes "add_property n v = Some p"
  shows "parse_metadata o' (p @ rest) ident =
     (if n = ascii ''Identity'' \<and> o_recv_identity o' then parse_metadata o' rest v
      else if n = ascii ''Socket-Type''
      then (if check_socket_type (o_type o') v then parse_metadata o' rest ident else (ident, Some M_EINVAL))
      else parse_metadata o' rest ident)"
proof -
  have p: "p = of_nat (length n) # n @ be32 (of_nat (length v)) @ v" and l: "length n \<le> 255" "length v \<le> 0x7FFFFFFF"
    using assms by (auto simp: add_property_def be32_def split: if_splits)
  have g: "get_uint32 (be32 (of_nat (length v)) @ v @ rest) 0 = of_nat (length v)" by (rule get_uint32_append)
  show ?thesis
    by (subst parse_metadata.simps) (simp add: p g unat_len8 [OF l(1)] unat_len32 [OF l(2)])
qed

lemma parse_empty: "parse_metadata o' [] ident = (ident, None)"
  by (simp add: parse_metadata.simps metadata_end_def)

lemma names_neq: "ascii ''Socket-Type'' \<noteq> ascii ''Identity''"
  by code_simp

lemma length_names: "length (ascii ''Socket-Type'') = 11" "length (ascii ''Identity'') = 8"
  by (simp_all add: ascii_def)

definition sends_identity :: "options \<Rightarrow> bool" where
  "sends_identity o' \<longleftrightarrow> o_type o' = ty_REQ \<or> o_type o' = ty_DEALER \<or> o_type o' = ty_ROUTER"

definition own_identity :: "options \<Rightarrow> bytes" where
  "own_identity o' = take (unat (o_identity_size o')) (o_identity o')"

definition type_name :: "options \<Rightarrow> bytes" where
  "type_name o' = ascii (socket_type_names ! nat (o_type o'))"

lemma type_name_length:
  assumes "0 \<le> o_type o'" "o_type o' \<le> 10"
  shows "length (type_name o') \<le> 6"
proof -
  have "\<forall>s\<in>set socket_type_names. length s \<le> 6" by code_simp
  moreover have "nat (o_type o') < length socket_type_names" using assms by (simp add: socket_type_names_def)
  ultimately show ?thesis by (simp add: type_name_def ascii_def)
qed

lemma own_identity_length: "length (own_identity o') \<le> 255"
proof -
  have "unat (o_identity_size o') < 256" using unsigned_less [of "o_identity_size o'", where 'a = nat] by simp
  then show ?thesis by (simp add: own_identity_def)
qed

lemma ready_command_bytes:
  assumes "0 \<le> o_type o'" "o_type o' \<le> 10"
  shows "\<exists>p q. add_property (ascii ''Socket-Type'') (type_name o') = Some p \<and>
    add_property (ascii ''Identity'') (own_identity o') = Some q \<and>
    ready_command o' = Some (ready_prefix @ p @ (if sends_identity o' then q else []))"
proof -
  have "length (type_name o') \<le> 0x7FFFFFFF" using type_name_length [OF assms] by simp
  then obtain p where p: "add_property (ascii ''Socket-Type'') (type_name o') = Some p"
    by (auto simp: add_property_def length_names)
  have "length (own_identity o') \<le> 0x7FFFFFFF" using own_identity_length [of o'] by simp
  then obtain q where q: "add_property (ascii ''Identity'') (own_identity o') = Some q"
    by (auto simp: add_property_def length_names)
  have "socket_type_string (o_type o') = Some (type_name o')"
    using assms by (simp add: socket_type_string_def type_name_def)
  with p q show ?thesis by (auto simp: ready_command_def sends_identity_def own_identity_def)
qed

lemma length_ready_prefix: "length ready_prefix = 6"
  by (simp add: ready_prefix_def ascii_def)

lemma process_ready:
  assumes "0 \<le> o_type a" "o_type a \<le> 10" "ready_command a = Some c"
  shows "process_handshake_command c (null_mechanism_t b) =
    ((null_mechanism_t b)\<lparr>ready_command_received := True,
       nm_identity := (if check_socket_type (o_type b) (type_name a) \<and> sends_identity a \<and> o_recv_identity b
                       then own_identity a else [])\<rparr>,
     if check_socket_type (o_type b) (type_name a) then None else Some M_EINVAL)"
proof -
  from ready_command_bytes [OF assms(1,2)] assms(3) obtain p q where
    p: "add_property (ascii ''Socket-Type'') (type_name a) = Some p"
    and q: "add_property (ascii ''Identity'') (own_identity a) = Some q"
    and c: "c = ready_prefix @ p @ (if sends_identity a then q else [])" by auto
  have "parse_metadata b (p @ (if sends_identity a then q else [])) [] =
     (if check_socket_type (o_type b) (type_name a)
      then (if sends_identity a \<and> o_recv_identity b then own_identity a else [], None) else ([], Some M_EINVAL))"
    using parse_property [OF q, of b "[]" "[]"] names_neq
    by (auto simp: parse_property [OF p] parse_empty)
  then show ?thesis
    by (auto simp: process_handshake_command_def c length_ready_prefix null_mechanism_t_def)
qed

lemma socket_types_symmetric:
  assumes "0 \<le> o_type a" "o_type a \<le> 10" "0 \<le> o_type b" "o_type b \<le> 10"
  shows "check_socket_type (o_type b) (type_name a) \<longleftrightarrow> check_socket_type (o_type a) (type_name b)"
proof -
  have all: "\<forall>x\<in>set [0..<11]. \<forall>y\<in>set [0..<11].
      check_socket_type (int x) (ascii (socket_type_names ! y)) \<longleftrightarrow>
      check_socket_type (int y) (ascii (socket_type_names ! x))" by code_simp
  from assms have "nat (o_type a) \<in> set [0..<11]" "nat (o_type b) \<in> set [0..<11]" by auto
  from bspec [OF bspec [OF all this(2)] this(1)] assms show ?thesis by (simp add: type_name_def)
qed

lemma ready_command_fits:
  assumes "0 \<le> o_type a" "o_type a \<le> 10"
  shows "\<exists>c. ready_command a = Some c \<and> length c \<le> 512"
proof -
  from ready_command_bytes [OF assms] obtain p q where
    p: "add_property (ascii ''Socket-Type'') (type_name a) = Some p"
    and q: "add_property (ascii ''Identity'') (own_identity a) = Some q"
    and c: "ready_command a = Some (ready_prefix @ p @ (if sends_identity a then q else []))" by auto
  from c show ?thesis
    using add_property_length [OF p] add_property_length [OF q] type_name_length [OF assms]
      own_identity_length [of a] by (auto simp: length_ready_prefix length_names)
qed

section \<open>Properties\<close>

text \<open>The READY command of a socket of any of the eleven types is built without a failed assertion and
  fits the 512 bytes it is assembled in, whatever its identity; a peer accepts it exactly if the
  types fit, the peer that rejects it would be rejected likewise, and a peer that asks for identities
  then knows the identity of the sender.\<close>

theorem ready_command_accepted:
  assumes "0 \<le> o_type a" "o_type a \<le> 10" "0 \<le> o_type b" "o_type b \<le> 10"
  shows "\<exists>ca cb m. next_handshake_command (null_mechanism_t a) = Some (Inr (ca, m)) \<and> length ca \<le> 512 \<and>
    ready_command b = Some cb \<and>
    (snd (process_handshake_command ca (null_mechanism_t b)) = None \<longleftrightarrow>
       check_socket_type (o_type b) (ascii (socket_type_names ! nat (o_type a)))) \<and>
    (snd (process_handshake_command cb (null_mechanism_t a)) = None \<longleftrightarrow>
       snd (process_handshake_command ca (null_mechanism_t b)) = None) \<and>
    (snd (process_handshake_command ca (null_mechanism_t b)) = None \<and> sends_identity a \<and> o_recv_identity b \<longrightarrow>
       fdata (peer_identity (fst (process_handshake_command ca (null_mechanism_t b)))) =
         take (unat (o_identity_size a)) (o_identity a))"
proof -
  obtain ca where c: "ready_command a = Some ca" "length ca \<le> 512" using ready_command_fits [OF assms(1,2)] by blast
  obtain cb where cb: "ready_command b = Some cb" using ready_command_fits [OF assms(3,4)] by blast
  have n: "next_handshake_command (null_mechanism_t a) = Some (Inr (ca, (null_mechanism_t a)\<lparr>ready_command_sent := True\<rparr>))"
    by (simp add: next_handshake_command_def null_mechanism_t_def c)
  note r = process_ready [OF assms(1,2) c(1), of b] process_ready [OF assms(3,4) cb, of a]
  show ?thesis
    by (rule exI [of _ ca], rule exI [of _ cb], rule exI [of _ "(null_mechanism_t a)\<lparr>ready_command_sent := True\<rparr>"])
      (use n c(2) cb socket_types_symmetric [OF assms] in
        \<open>simp add: r type_name_def [symmetric] own_identity_def [symmetric] peer_identity_def\<close>)
qed

text \<open>Metadata cut off right behind a property name is accepted: the loop leaves with no byte left, which
  is taken for the end. The peer is accepted although it never named its socket type.\<close>

theorem truncated_metadata_accepted:
  assumes "1 \<le> length name" "length name \<le> 255"
  shows "process_handshake_command (ready_prefix @ of_nat (length name) # name) (null_mechanism_t o') =
    ((null_mechanism_t o')\<lparr>ready_command_received := True\<rparr>, None)"
proof -
  have "parse_metadata o' (of_nat (length name) # name) [] = ([], None)"
    using assms by (subst parse_metadata.simps) (auto simp: unat_len8 metadata_end_def)
  then show ?thesis by (simp add: process_handshake_command_def length_ready_prefix null_mechanism_t_def)
qed

section \<open>Witnesses\<close>

theorem ready_command_accepted_witness:
  "\<exists>ca m. next_handshake_command (null_mechanism_t ((options_t [])\<lparr>o_type := ty_PUSH\<rparr>)) = Some (Inr (ca, m)) \<and>
    snd (process_handshake_command ca (null_mechanism_t ((options_t [])\<lparr>o_type := ty_PULL\<rparr>))) = None"
proof -
  have "check_socket_type ty_PULL (ascii (socket_type_names ! nat ty_PUSH))" by code_simp
  then show ?thesis
    using ready_command_accepted [of "(options_t [])\<lparr>o_type := ty_PUSH\<rparr>" "(options_t [])\<lparr>o_type := ty_PULL\<rparr>"]
    by (auto simp: ty_defs)
qed

theorem truncated_metadata_accepted_witness:
  "process_handshake_command (ready_prefix @ [3, 97, 98, 99]) (null_mechanism_t (options_t [])) =
    ((null_mechanism_t (options_t []))\<lparr>ready_command_received := True\<rparr>, None)"
  using truncated_metadata_accepted [of "[97, 98, 99]" "options_t []"] by simp

end
