(* ===== verification/Engine.thy ===== *)
theory Engine
  imports Mechanism
begin

text \<open>
  The stream engine, \<open>src/net/stream_engine.cpp\<close>: greeting, handshake, the event handlers that move
  records between the callbacks and the socket. Parts of the file that are commented out are absent
  here too. The socket is explicit: \<open>e_rx\<close> is what \<open>recv\<close> will return, \<open>e_tx\<close> how many bytes the next
  calls of \<open>send\<close> take (an empty list means \<open>EAGAIN\<close> for both), \<open>e_sent\<close> what has been sent. The callbacks
  are explicit as well: \<open>e_pulls\<close> are the records \<open>PullRecord\<close> will hand out, with the mark of the last one,
  \<open>e_pushed\<close> the records handed to \<open>PushRecord\<close>, whose answer is the parameter \<open>fin\<close>. The fields
  \<open>outpos\<close> and \<open>outsize\<close> are the bytes between them, likewise \<open>inpos\<close> and \<open>insize\<close>.
\<close>

section \<open>The socket\<close>

datatype sock_in = Chunk bytes | Eof | Broken_in

datatype sock_out = Accept nat | Broken_out

datatype read_rc = Rd bytes | Rd_eof | Rd_again | Rd_err

fun sock_read :: "nat \<Rightarrow> sock_in list \<Rightarrow> read_rc \<times> sock_in list" where
  "sock_read n [] = (Rd_again, [])"
| "sock_read n (Chunk c # r) =
     (if c = [] \<or> n = 0 then (Rd_again, r)
      else (Rd (take n c), if length c \<le> n then r else Chunk (drop n c) # r))"
| "sock_read n (Eof # r) = (Rd_eof, Eof # r)"
| "sock_read n (Broken_in # r) = (Rd_err, r)"

text \<open>\<open>None\<close> is an error; \<open>EAGAIN\<close> and \<open>EINTR\<close> are reported as zero bytes.\<close>

fun sock_write :: "bytes \<Rightarrow> sock_out list \<Rightarrow> nat option \<times> sock_out list" where
  "sock_write d [] = (Some 0, [])"
| "sock_write d (Accept k # r) = (Some (min k (length d)), r)"
| "sock_write d (Broken_out # r) = (None, r)"

fun rx_bytes :: "sock_in list \<Rightarrow> nat" where
  "rx_bytes [] = 0"
| "rx_bytes (Chunk c # r) = length c + rx_bytes r"
| "rx_bytes (_ # r) = rx_bytes r"

lemma sock_read_less: "sock_read n xs = (Rd bs, ys) \<Longrightarrow> rx_bytes ys < rx_bytes xs"
  by (induction n xs rule: sock_read.induct) (auto split: if_splits)

section \<open>State\<close>

definition out_batch_size :: nat where "out_batch_size = 1024 * 128"
definition in_batch_size :: nat where "in_batch_size = 1024 * 128"
definition signature_size :: nat where "signature_size = 10"
definition v2_greeting_size :: nat where "v2_greeting_size = 12"
definition v3_greeting_size :: nat where "v3_greeting_size = 64"
definition ZMTP_1_0 :: u8 where "ZMTP_1_0 = 0"
definition ZMTP_2_0 :: u8 where "ZMTP_2_0 = 1"

lemmas engine_consts = out_batch_size_def in_batch_size_def signature_size_def v2_greeting_size_def
  v3_greeting_size_def ZMTP_1_0_def ZMTP_2_0_def

text \<open>The targets of the member pointers \<open>read_msg\<close> and \<open>write_msg\<close>.\<close>

datatype read_fn = R_null | R_handshake | R_pull
datatype write_fn = W_null | W_handshake | W_push

text \<open>Deleted by \<open>error\<close> or \<open>terminate\<close>; a failed assertion; spinning on a full socket; a write of a
  negative number of bytes.\<close>

datatype fate = Running | Deleted | Aborted | Spinning | Overrun

record engine =
  e_options :: options
  e_in_cb :: bool
  e_out_cb :: bool
  e_handshaking :: bool
  e_greeting_size :: nat
  e_greeting_recv :: bytes
  e_greeting_send :: bytes
  e_inbuf :: bytes
  e_outbuf :: bytes
  e_decoder :: "decoder option"
  e_encoder :: "encoder option"
  e_mechanism :: "null_mechanism option"
  e_read :: read_fn
  e_write :: write_fn
  e_plugged :: bool
  e_io_error :: bool
  e_input_stopped :: bool
  e_output_stopped :: bool
  e_pollin :: bool
  e_pollout :: bool
  e_fate :: fate
  e_rx :: "sock_in list"
  e_tx :: "sock_out list"
  e_sent :: bytes
  e_pulls :: "(bytes \<times> bool) list"
  e_pushed :: "bytes list"

definition stream_engine_t :: "options \<Rightarrow> bool \<Rightarrow> bool \<Rightarrow> engine" where
  "stream_engine_t o' in_cb out_cb =
     \<lparr>e_options = o', e_in_cb = in_cb, e_out_cb = out_cb, e_handshaking = True,
      e_greeting_size = v2_greeting_size, e_greeting_recv = [], e_greeting_send = [], e_inbuf = [],
      e_outbuf = [], e_decoder = None, e_encoder = None, e_mechanism = None, e_read = R_null,
      e_write = W_null, e_plugged = False, e_io_error = False, e_input_stopped = False,
      e_output_stopped = False, e_pollin = False, e_pollout = False, e_fate = Running, e_rx = [],
      e_tx = [], e_sent = [], e_pulls = [], e_pushed = []\<rparr>"

definition abort :: "engine \<Rightarrow> engine" where
  "abort e = e\<lparr>e_fate := Aborted\<rparr>"

definition unplug :: "engine \<Rightarrow> engine" where
  "unplug e = (if \<not> e_plugged e then abort e else e\<lparr>e_plugged := False, e_pollin := False, e_pollout := False\<rparr>)"

definition engine_error :: "engine \<Rightarrow> engine" where
  "engine_error e = (unplug e)\<lparr>e_fate := if e_plugged e then Deleted else Aborted\<rparr>"

definition terminate :: "engine \<Rightarrow> engine" where
  "terminate e = (unplug e)\<lparr>e_fate := if e_plugged e then Deleted else Aborted\<rparr>"

section \<open>Greeting\<close>

text \<open>Appending to the greeting that is being sent.\<close>

definition put_greeting :: "bytes \<Rightarrow> engine \<Rightarrow> engine" where
  "put_greeting bs e =
     e\<lparr>e_pollout := (if e_outbuf e = [] then True else e_pollout e),
       e_outbuf := e_outbuf e @ bs, e_greeting_send := e_greeting_send e @ bs\<rparr>"

definition pad20 :: "bytes \<Rightarrow> bytes" where
  "pad20 bs = bs @ replicate (20 - length bs) 0"

definition mechanism_name :: "int \<Rightarrow> bytes" where
  "mechanism_name m =
     (if m = ZMQ_NULL then ascii ''NULL'' else if m = ZMQ_PLAIN then ascii ''PLAIN'' else ascii ''CURVE'')"

definition ZMQ_CURVE :: int where "ZMQ_CURVE = 2"

text \<open>The body of the loop behind a successful read: the reaction to what has been received, and whether
  the loop is left because the peer is unversioned.\<close>

definition greeting_step :: "engine \<Rightarrow> engine \<times> bool" where
  "greeting_step e =
     (let g = e_greeting_recv e in
      if g ! 0 \<noteq> 0xff then (e, True)
      else if length g < signature_size then (e, False)
      else if g ! 9 AND 1 = 0 then (e, True)
      else
        (let e1 = (if length (e_greeting_send e) = signature_size then put_greeting [3] e else e);
             e2 = (if length g > signature_size \<and> length (e_greeting_send e1) = signature_size + 1
                   then (if g ! 10 = ZMTP_1_0 \<or> g ! 10 = ZMTP_2_0
                         then put_greeting [word_of_int (o_type (e_options e))] e1
                         else if o_mechanism (e_options e) \<notin> {ZMQ_NULL, ZMQ_PLAIN, ZMQ_CURVE} then abort e1
                         else (put_greeting (0 # pad20 (mechanism_name (o_mechanism (e_options e))) @ replicate 32 0) e1)
                                \<lparr>e_greeting_size := v3_greeting_size\<rparr>)
                   else e1)
         in (e2, e_fate e2 \<noteq> Running)))"

datatype greeting_rc = G_done | G_again | G_error

lemma greeting_step_rx [simp]: "e_rx (fst (greeting_step e)) = e_rx e"
  by (simp add: greeting_step_def Let_def put_greeting_def abort_def)

lemma greeting_step_less:
  assumes "sock_read n (e_rx e) = (Rd bs, rx)"
    "greeting_step (e\<lparr>e_rx := rx, e_greeting_recv := r\<rparr>) = (e1, brk)"
  shows "rx_bytes (e_rx e1) < rx_bytes (e_rx e)"
  using sock_read_less [OF assms(1)] greeting_step_rx [of "e\<lparr>e_rx := rx, e_greeting_recv := r\<rparr>"] assms(2)
  by simp

function greeting_loop :: "engine \<Rightarrow> engine \<times> greeting_rc" where
  "greeting_loop e =
     (if length (e_greeting_recv e) < e_greeting_size e then
        (case sock_read (e_greeting_size e - length (e_greeting_recv e)) (e_rx e) of
           (Rd_eof, rx) \<Rightarrow> (engine_error (e\<lparr>e_rx := rx\<rparr>), G_error)
         | (Rd_err, rx) \<Rightarrow> (engine_error (e\<lparr>e_rx := rx\<rparr>), G_error)
         | (Rd_again, rx) \<Rightarrow> (e\<lparr>e_rx := rx\<rparr>, G_again)
         | (Rd bs, rx) \<Rightarrow>
             (case greeting_step (e\<lparr>e_rx := rx, e_greeting_recv := e_greeting_recv e @ bs\<rparr>) of
                (e1, brk) \<Rightarrow> if brk then (e1, G_done) else greeting_loop e1))
      else (e, G_done))"
  by pat_completeness auto

termination
  by (relation "measure (\<lambda>e. rx_bytes (e_rx e))") (auto intro: greeting_step_less [OF sym sym])

declare greeting_loop.simps [simp del]

text \<open>The choice of protocol behind the loop.\<close>

definition handshake_select :: "engine \<Rightarrow> engine \<times> bool" where
  "handshake_select e =
     (let g = e_greeting_recv e; o' = e_options e;
          fin = (\<lambda>e. (e\<lparr>e_pollout := (if e_outbuf e = [] then True else e_pollout e), e_handshaking := False\<rparr>, True))
      in if g ! 0 \<noteq> 0xff \<or> g ! 9 AND 1 = 0 then fin e
         else if g ! 10 = ZMTP_1_0 \<or> g ! 10 = ZMTP_2_0 then fin e
         else
           (let e1 = e\<lparr>e_encoder := Some (v2_encoder out_batch_size), e_decoder := Some (v2_decoder (o_maxmsgsize o'))\<rparr> in
            if o_mechanism o' = ZMQ_NULL \<and> take 20 (drop 12 g) = pad20 (ascii ''NULL'')
            then fin (e1\<lparr>e_mechanism := Some (null_mechanism_t o'), e_read := R_handshake, e_write := W_handshake\<rparr>)
            else if o_mechanism o' = ZMQ_PLAIN \<and> take 20 (drop 12 g) = pad20 (ascii ''PLAIN'')
            then fin (e1\<lparr>e_read := R_handshake, e_write := W_handshake\<rparr>)
            else (engine_error e1, False)))"

definition handshake :: "engine \<Rightarrow> engine \<times> bool" where
  "handshake e =
     (if \<not> e_handshaking e \<or> e_greeting_size e \<le> length (e_greeting_recv e) then (abort e, False)
      else (case greeting_loop e of
              (e1, G_done) \<Rightarrow> if e_fate e1 = Running then handshake_select e1 else (e1, False)
            | (e1, _) \<Rightarrow> (e1, False)))"

section \<open>Messages out\<close>

definition mechanism_ready :: "engine \<Rightarrow> engine" where
  "mechanism_ready e =
     (let e1 = e\<lparr>e_read := R_pull, e_write := W_push\<rparr>;
          e2 = (if e_in_cb e1 then e1 else e1\<lparr>e_input_stopped := True, e_pollin := False\<rparr>)
      in if e_out_cb e2 then e2 else e2\<lparr>e_output_stopped := True, e_pollout := False\<rparr>)"

text \<open>What \<open>read_msg\<close> returns: nothing (-1), a message with the record it stands for, if any, and whether
  the application has finished (-2).\<close>

datatype msg_rc = No_msg | A_msg frame "bytes option" bool

definition engine_next_handshake_command :: "engine \<Rightarrow> engine \<times> msg_rc" where
  "engine_next_handshake_command e =
     (case e_mechanism e of
        None \<Rightarrow> (abort e, No_msg)
      | Some m \<Rightarrow>
          (case next_handshake_command m of
             None \<Rightarrow> (abort e, No_msg)
           | Some (Inl _) \<Rightarrow> (e, No_msg)
           | Some (Inr (c, m')) \<Rightarrow>
               (let e1 = e\<lparr>e_mechanism := Some m'\<rparr> in
                (if is_handshake_complete m' then mechanism_ready e1 else e1,
                 A_msg \<lparr>fflags = msg_command, fdata = c\<rparr> None False))))"

text \<open>The message gets the size of the record; its data stay in the record.\<close>

definition pull_and_encode :: "engine \<Rightarrow> engine \<times> msg_rc" where
  "pull_and_encode e =
     (if e_mechanism e = None then (abort e, No_msg)
      else if \<not> e_out_cb e then (e, No_msg)
      else (case e_pulls e of
              [] \<Rightarrow> (e, No_msg)
            | (r, lst) # rs \<Rightarrow> (e\<lparr>e_pulls := rs\<rparr>, A_msg \<lparr>fflags = 0, fdata = r\<rparr> (Some r) lst)))"

definition read_msg :: "engine \<Rightarrow> engine \<times> msg_rc" where
  "read_msg e =
     (case e_read e of
        R_null \<Rightarrow> (abort e, No_msg)
      | R_handshake \<Rightarrow> engine_next_handshake_command e
      | R_pull \<Rightarrow> pull_and_encode e)"

text \<open>The loop of \<open>out_event\<close> that fills the batch; \<open>nul\<close> is \<open>outpos == NULL\<close>, where the encoder provides
  its own buffer. \<open>n > 0\<close> is asserted.\<close>

lemma read_msg_outbuf [simp]: "e_outbuf (fst (read_msg e)) = e_outbuf e"
  by (auto simp: read_msg_def engine_next_handshake_command_def pull_and_encode_def abort_def mechanism_ready_def Let_def
      split: read_fn.splits option.splits sum.splits list.splits)

lemma read_msg_outbuf_eq: "read_msg e = (e1, r) \<Longrightarrow> e_outbuf e1 = e_outbuf e"
  using read_msg_outbuf [of e] by simp

function fill_batch :: "bool \<Rightarrow> encoder \<Rightarrow> engine \<Rightarrow> encoder \<times> engine" where
  "fill_batch nul enc e =
     (if length (e_outbuf e) < out_batch_size then
        (case read_msg e of
           (e1, No_msg) \<Rightarrow> (enc, e1)
         | (e1, A_msg m d lst) \<Rightarrow>
             (case load_msg m d enc of
                None \<Rightarrow> (enc, abort e1)
              | Some enc1 \<Rightarrow>
                  (case encode (if nul then None else Some (out_batch_size - length (e_outbuf e1))) enc1 of
                     (bs, enc2) \<Rightarrow>
                       if bs = [] then (enc2, abort e1)
                       else
                         (let e2 = e1\<lparr>e_outbuf := e_outbuf e1 @ bs\<rparr> in
                          if lst then (enc2, e2\<lparr>e_output_stopped := True\<rparr>) else fill_batch False enc2 e2))))
      else (enc, e))"
  by pat_completeness auto

termination
  by (relation "measure (\<lambda>(nul, enc, e). out_batch_size - length (e_outbuf e))")
    (auto dest!: read_msg_outbuf_eq [OF sym] simp: diff_less_mono2)

declare fill_batch.simps [simp del]

text \<open>The loop that empties the encoder at the end: \<open>outsize -= nbytes\<close> with \<open>nbytes == -1\<close> grows the range.\<close>

fun drain_out :: "bytes \<Rightarrow> sock_out list \<Rightarrow> bytes \<times> sock_out list \<times> fate" where
  "drain_out d tx =
     (if d = [] then ([], tx, Running)
      else (case tx of
              [] \<Rightarrow> ([], [], Spinning)
            | Accept k # r \<Rightarrow>
                (case drain_out (drop (min k (length d)) d) r of
                   (s, tx', f) \<Rightarrow> (take (min k (length d)) d @ s, tx', f))
            | Broken_out # r \<Rightarrow> ([], r, Overrun)))"

declare drain_out.simps [simp del]

definition out_finish :: "encoder \<Rightarrow> engine \<Rightarrow> engine" where
  "out_finish enc e =
     (case encode None enc of
        (bs, enc1) \<Rightarrow>
          (case drain_out bs (e_tx e) of
             (s, tx, f) \<Rightarrow>
               (let e1 = e\<lparr>e_encoder := Some enc1, e_outbuf := [], e_sent := e_sent e @ s, e_tx := tx, e_fate := f,
                           e_output_stopped := True, e_pollout := False\<rparr>
                in if f = Running \<and> e_input_stopped e1 then terminate e1 else e1)))"

text \<open>Sending what is in the buffer.\<close>

definition out_send :: "engine \<Rightarrow> engine" where
  "out_send e =
     (case sock_write (e_outbuf e) (e_tx e) of
        (None, tx) \<Rightarrow> e\<lparr>e_tx := tx, e_pollout := False\<rparr>
      | (Some n, tx) \<Rightarrow>
          (let e1 = e\<lparr>e_tx := tx, e_sent := e_sent e @ take n (e_outbuf e), e_outbuf := drop n (e_outbuf e)\<rparr>;
               e2 = (if e_output_stopped e1
                     then (case e_encoder e1 of None \<Rightarrow> abort e1 | Some enc \<Rightarrow> out_finish enc e1) else e1)
           in if e_fate e2 = Running \<and> e_handshaking e2 \<and> e_outbuf e2 = [] then e2\<lparr>e_pollout := False\<rparr> else e2))"

definition out_event :: "engine \<Rightarrow> engine" where
  "out_event e =
     (if e_io_error e then abort e
      else if e_outbuf e \<noteq> [] then out_send e
      else (case e_encoder e of
              None \<Rightarrow> if e_handshaking e then e else abort e
            | Some enc \<Rightarrow>
                (case encode None enc of
                   (bs, enc1) \<Rightarrow>
                     (case fill_batch (ein_progress enc = None) enc1 (e\<lparr>e_outbuf := bs\<rparr>) of
                        (enc2, e1) \<Rightarrow>
                          (let e2 = e1\<lparr>e_encoder := Some enc2\<rparr> in
                           if e_fate e2 \<noteq> Running \<or> e_outbuf e2 = [] then e2 else out_send e2)))))"

definition restart_output :: "engine \<Rightarrow> engine" where
  "restart_output e =
     (if e_io_error e then e
      else if e_output_stopped e then
        (if \<not> e_out_cb e then e else out_event (e\<lparr>e_pollout := True, e_output_stopped := False\<rparr>))
      else out_event e)"

section \<open>Messages in\<close>

definition engine_process_handshake_command :: "engine \<Rightarrow> frame \<Rightarrow> engine \<times> write_rc" where
  "engine_process_handshake_command e msg =
     (case e_mechanism e of
        None \<Rightarrow> (abort e, W_fail)
      | Some m \<Rightarrow>
          (case process_handshake_command (fdata msg) m of
             (m', Some _) \<Rightarrow> (e\<lparr>e_mechanism := Some m'\<rparr>, W_fail)
           | (m', None) \<Rightarrow>
               (let e1 = e\<lparr>e_mechanism := Some m'\<rparr>;
                    e2 = (if is_handshake_complete m' then mechanism_ready e1 else e1);
                    e3 = (if e_output_stopped e2 then restart_output e2 else e2)
                in (e3, if e_fate e3 = Running then W_ok else W_fail))))"

definition decode_and_push :: "(bytes \<Rightarrow> bool) \<Rightarrow> engine \<Rightarrow> frame \<Rightarrow> engine \<times> write_rc" where
  "decode_and_push fin e msg =
     (if e_mechanism e = None then (abort e, W_fail)
      else if \<not> e_in_cb e then (e, W_ok)
      else (e\<lparr>e_pushed := e_pushed e @ [fdata msg]\<rparr>, if fin (fdata msg) then W_finish else W_ok))"

definition write_msg :: "(bytes \<Rightarrow> bool) \<Rightarrow> engine \<Rightarrow> frame \<Rightarrow> engine \<times> write_rc" where
  "write_msg fin e msg =
     (case e_write e of
        W_null \<Rightarrow> (abort e, W_fail)
      | W_handshake \<Rightarrow> engine_process_handshake_command e msg
      | W_push \<Rightarrow> decode_and_push fin e msg)"

text \<open>\<open>in_event\<close> behind the read: the decode loop and its consequences. No \<open>write_msg\<close> fails with \<open>EAGAIN\<close>.\<close>

definition in_process :: "(nat \<Rightarrow> bool) \<Rightarrow> (bytes \<Rightarrow> bool) \<Rightarrow> decoder \<Rightarrow> engine \<Rightarrow> engine option" where
  "in_process malloc_ok fin d e =
     (case in_event_loop (decode malloc_ok) din_progress (write_msg fin) d e False (e_inbuf e) of
        None \<Rightarrow> None
      | Some (d', e1, stopped, rc, rest) \<Rightarrow>
          (let e2 = e1\<lparr>e_decoder := Some d', e_inbuf := rest, e_input_stopped := e_input_stopped e1 \<or> stopped\<rparr> in
           if e_fate e2 \<noteq> Running then Some e2
           else (case rc of
                   L_decode_error _ \<Rightarrow> Some (engine_error e2)
                 | L_write_error \<Rightarrow> Some (engine_error e2)
                 | _ \<Rightarrow>
                     Some (if e_input_stopped e2
                           then (let e3 = e2\<lparr>e_pollin := False\<rparr> in if e_output_stopped e3 then terminate e3 else e3)
                           else e2))))"

definition in_event :: "(nat \<Rightarrow> bool) \<Rightarrow> (bytes \<Rightarrow> bool) \<Rightarrow> engine \<Rightarrow> engine option" where
  "in_event malloc_ok fin e =
     (if e_io_error e then Some (abort e)
      else
        (case (if e_handshaking e then handshake e else (e, True)) of
           (e1, False) \<Rightarrow> Some e1
         | (e1, True) \<Rightarrow>
             (case e_decoder e1 of
                None \<Rightarrow> Some (abort e1)
              | Some d \<Rightarrow>
                  if e_input_stopped e1
                  then Some (e1\<lparr>e_io_error := True, e_pollin := False, e_pollout := False\<rparr>)
                  else if e_inbuf e1 \<noteq> [] then in_process malloc_ok fin d e1
                  else (case sock_read (snd (get_buffer in_batch_size d)) (e_rx e1) of
                          (Rd_eof, rx) \<Rightarrow> Some (engine_error (e1\<lparr>e_rx := rx\<rparr>))
                        | (Rd_err, rx) \<Rightarrow> Some (engine_error (e1\<lparr>e_rx := rx\<rparr>))
                        | (Rd_again, rx) \<Rightarrow> Some (e1\<lparr>e_rx := rx\<rparr>)
                        | (Rd bs, rx) \<Rightarrow> in_process malloc_ok fin d (e1\<lparr>e_rx := rx, e_inbuf := bs\<rparr>)))))"

definition greeting_start :: "engine \<Rightarrow> engine" where
  "greeting_start e = put_greeting (0xff # be64 (ucast (o_identity_size (e_options e)) + 1) @ [0x7f]) e"

definition plug :: "(nat \<Rightarrow> bool) \<Rightarrow> (bytes \<Rightarrow> bool) \<Rightarrow> engine \<Rightarrow> engine option" where
  "plug malloc_ok fin e =
     (if e_plugged e then Some (abort e)
      else
        (let e1 = e\<lparr>e_plugged := True, e_io_error := False\<rparr>;
             e2 = (if o_raw_sock (e_options e1) then e1 else greeting_start e1)
         in in_event malloc_ok fin (e2\<lparr>e_pollin := True, e_pollout := True\<rparr>)))"

text \<open>\<open>restart_input\<close>: the message the decoder holds is delivered again, then what is left in the buffer.\<close>

definition restart_input :: "(nat \<Rightarrow> bool) \<Rightarrow> (bytes \<Rightarrow> bool) \<Rightarrow> engine \<Rightarrow> engine option" where
  "restart_input malloc_ok fin e =
     (case e_decoder e of
        None \<Rightarrow> Some (abort e)
      | Some d \<Rightarrow>
          (case write_msg fin e (din_progress d) of
             (e1, W_fail) \<Rightarrow> Some e1
           | (e1, _) \<Rightarrow>
               (case in_event_loop (decode malloc_ok) din_progress (write_msg fin) d e1 False (e_inbuf e1) of
                  None \<Rightarrow> None
                | Some (d', e2, stopped, rc, rest) \<Rightarrow> Some (e2\<lparr>e_decoder := Some d', e_inbuf := rest\<rparr>))))"

definition zap_msg_available :: "(nat \<Rightarrow> bool) \<Rightarrow> (bytes \<Rightarrow> bool) \<Rightarrow> engine \<Rightarrow> engine option" where
  "zap_msg_available malloc_ok fin e =
     (if e_mechanism e = None then Some (abort e)
      else (case (if e_input_stopped e then restart_input malloc_ok fin e else Some e) of
              None \<Rightarrow> None
            | Some e1 \<Rightarrow> Some (if e_output_stopped e1 then restart_output e1 else e1)))"

section \<open>The greeting\<close>

text \<open>The 64 bytes an engine sends, and how many of them it has released after receiving \<open>n\<close> bytes of the
  peer's.\<close>

definition greeting :: "options \<Rightarrow> bytes" where
  "greeting o' = 0xff # be64 (ucast (o_identity_size o') + 1) @ [0x7f, 3, 0] @
     pad20 (mechanism_name (o_mechanism o')) @ replicate 32 0"

definition released :: "nat \<Rightarrow> nat" where
  "released n = (if n < 10 then 10 else if n < 11 then 11 else 64)"

lemma length_mechanism_name: "length (pad20 (mechanism_name m)) = 20"
  by (simp add: pad20_def mechanism_name_def ascii_def)

lemma length_greeting: "length (greeting o') = 64"
  by (simp add: greeting_def length_mechanism_name)

lemma greeting_parts:
  "take 10 (greeting o') = 0xff # be64 (ucast (o_identity_size o') + 1) @ [0x7f]"
  "take 11 (greeting o') = 0xff # be64 (ucast (o_identity_size o') + 1) @ [0x7f, 3]"
  "greeting o' = take 11 (greeting o') @ 0 # pad20 (mechanism_name (o_mechanism o')) @ replicate 32 0"
  by (simp_all add: greeting_def)

lemma greeting_nth: "greeting o' ! 0 = 0xff" "greeting o' ! 9 = 0x7f" "greeting o' ! 10 = 3"
  by (simp_all add: greeting_def nth_append nth_Cons')

definition hs_inv :: "options \<Rightarrow> engine \<Rightarrow> bool" where
  "hs_inv p e \<longleftrightarrow>
     e_fate e = Running \<and> e_plugged e \<and> e_handshaking e \<and> o_mechanism (e_options e) = ZMQ_NULL \<and>
     length (e_greeting_recv e) \<le> 64 \<and> e_greeting_recv e = take (length (e_greeting_recv e)) (greeting p) \<and>
     e_greeting_send e = take (released (length (e_greeting_recv e))) (greeting (e_options e)) \<and>
     e_sent e @ e_outbuf e = e_greeting_send e \<and>
     e_greeting_size e = (if length (e_greeting_recv e) < 11 then 12 else 64)"

lemma put_greeting_simps [simp]:
  "e_options (put_greeting bs e) = e_options e" "e_fate (put_greeting bs e) = e_fate e"
  "e_greeting_send (put_greeting bs e) = e_greeting_send e @ bs" "e_outbuf (put_greeting bs e) = e_outbuf e @ bs"
  "e_sent (put_greeting bs e) = e_sent e" "e_greeting_recv (put_greeting bs e) = e_greeting_recv e"
  "e_greeting_size (put_greeting bs e) = e_greeting_size e" "e_plugged (put_greeting bs e) = e_plugged e"
  "e_handshaking (put_greeting bs e) = e_handshaking e"
  by (simp_all add: put_greeting_def)

lemma greeting_step_inv:
  assumes "hs_inv p e" "bs \<noteq> []" "length (e_greeting_recv e @ bs) \<le> 64"
    "e_greeting_recv e @ bs = take (length (e_greeting_recv e @ bs)) (greeting p)"
  shows "\<exists>e1. greeting_step (e\<lparr>e_rx := rx, e_greeting_recv := e_greeting_recv e @ bs\<rparr>) = (e1, False) \<and>
    hs_inv p e1 \<and> e_rx e1 = rx \<and> e_greeting_recv e1 = e_greeting_recv e @ bs \<and> e_options e1 = e_options e"
proof -
  define g where "g = e_greeting_recv e @ bs"
  define n where "n = length (e_greeting_recv e)"
  let ?e = "e\<lparr>e_rx := rx, e_greeting_recv := g\<rparr>"
  note inv = assms(1) [unfolded hs_inv_def, folded n_def]
  have g1: "g = take (length g) (greeting p)" unfolding g_def by (rule assms(4))
  have g2: "length g \<le> 64" "n < length g" using assms(2,3) by (simp_all add: g_def n_def)
  note g = g1 g2
  have nth: "g ! i = greeting p ! i" if "i < length g" for i using g(1) that by (metis nth_take)
  have g0: "g ! 0 = 0xff" using nth [OF le_less_trans [OF le0 g(3)]] greeting_nth(1) [of p] by simp
  have g9: "g ! 9 AND 1 \<noteq> 0" if "10 \<le> length g" using nth [of 9] that greeting_nth(2) [of p] by simp
  have g10: "g ! 10 = 3" if "11 \<le> length g" using nth [of 10] that greeting_nth(3) [of p] by simp
  have send: "e_greeting_send e = take (released n) (greeting (e_options e))" using inv by simp
  have len: "length (e_greeting_send e) = released n"
    unfolding send by (simp add: length_greeting released_def)
  let ?r = "0 # pad20 (mechanism_name (o_mechanism (e_options e))) @ replicate 32 0 :: bytes"
  have c3: "take 10 (greeting (e_options e)) @ [3] = take 11 (greeting (e_options e))"
    unfolding greeting_parts(1,2) by simp
  have cr: "take 11 (greeting (e_options e)) @ ?r = take 64 (greeting (e_options e))"
    using greeting_parts(3) [of "e_options e"] length_greeting [of "e_options e"] by (metis order_refl take_all)
  have app: "e_sent e @ e_outbuf e @ xs = e_greeting_send e @ xs" for xs
    using inv by (metis append_assoc)
  consider "length g < 10" | "10 \<le> length g" "length g < 11" | "11 \<le> length g" by linarith
  then show ?thesis
  proof cases
    case 1
    then have "greeting_step ?e = (?e, False)"
      using g0 by (simp add: greeting_step_def Let_def signature_size_def)
    moreover have "hs_inv p ?e" using inv g 1 unfolding hs_inv_def by (auto simp: released_def)
    ultimately show ?thesis by (simp add: g_def)
  next
    case 2
    then have n: "n < 10" using g(3) by simp
    let ?e1 = "put_greeting [3] ?e"
    have "greeting_step ?e = (?e1, False)"
      using g0 g9 2 n len inv by (simp add: greeting_step_def Let_def signature_size_def released_def)
    moreover have "hs_inv p ?e1" using inv g 2 n c3 unfolding hs_inv_def by (auto simp: released_def app)
    ultimately show ?thesis by (simp add: g_def put_greeting_def)
  next
    case 3
    show ?thesis
    proof (cases "n < 11")
      case True
      let ?e1 = "if n < 10 then put_greeting [3] ?e else ?e"
      let ?e2 = "(put_greeting ?r ?e1)\<lparr>e_greeting_size := 64\<rparr>"
      have l: "length (e_greeting_send ?e1) = 11" using len True by (auto simp: released_def)
      have "greeting_step ?e = (?e2, False)"
        using g0 g9 g10 3 True len inv l
        by (auto simp: greeting_step_def Let_def engine_consts released_def)
      moreover have "hs_inv p ?e2"
        using inv g 3 True c3 cr unfolding hs_inv_def by (auto simp: released_def app)
      ultimately show ?thesis by (auto simp: g_def put_greeting_def)
    next
      case False
      then have "greeting_step ?e = (?e, False)"
        using g0 g9 g10 3 len inv by (simp add: greeting_step_def Let_def engine_consts released_def)
      moreover have "hs_inv p ?e" using inv g 3 False unfolding hs_inv_def by (auto simp: released_def)
      ultimately show ?thesis by (simp add: g_def)
    qed
  qed
qed

lemma sock_read_chunks:
  assumes "0 < n" "\<forall>c\<in>set cs. c \<noteq> []"
  shows "(cs = [] \<and> sock_read n (map Chunk cs) = (Rd_again, [])) \<or>
    (\<exists>bs cs'. sock_read n (map Chunk cs) = (Rd bs, map Chunk cs') \<and> bs \<noteq> [] \<and> length bs \<le> n \<and>
       concat cs = bs @ concat cs' \<and> (\<forall>c\<in>set cs'. c \<noteq> []))"
proof (cases cs)
  case (Cons c r)
  with assms show ?thesis
    by (auto intro!: exI [of _ "take n c"] exI [of _ "if length c \<le> n then r else drop n c # r"] simp: Cons)
qed simp

text \<open>The loop consumes a greeting however it is cut into reads; what follows it stays in the socket.\<close>

lemma greeting_loop_inv:
  assumes "hs_inv p e" "length (e_greeting_recv e) < 64" "e_rx e = map Chunk cs" "\<forall>c\<in>set cs. c \<noteq> []"
    "e_greeting_recv e @ concat cs @ future = greeting p @ extra"
  shows "\<exists>e1 rc cs'. greeting_loop e = (e1, rc) \<and> hs_inv p e1 \<and> e_options e1 = e_options e \<and>
    e_rx e1 = map Chunk cs' \<and> (\<forall>c\<in>set cs'. c \<noteq> []) \<and>
    e_greeting_recv e1 @ concat cs' = e_greeting_recv e @ concat cs \<and>
    (if length (e_greeting_recv e @ concat cs) < 64 then rc = G_again \<and> cs' = []
     else rc = G_done \<and> e_greeting_recv e1 = greeting p)"
  using assms
proof (induction e arbitrary: cs rule: greeting_loop.induct)
  case (1 e)
  let ?n = "length (e_greeting_recv e)"
  have size: "e_greeting_size e = (if ?n < 11 then 12 else 64)" and recv: "e_greeting_recv e = take ?n (greeting p)"
    using "1.prems"(1) unfolding hs_inv_def by blast+
  have lt: "?n < e_greeting_size e" and le: "e_greeting_size e \<le> 64" using size "1.prems"(2) by auto
  from sock_read_chunks [of "e_greeting_size e - ?n" cs] lt "1.prems"(4)
  consider "cs = []" "sock_read (e_greeting_size e - ?n) (map Chunk cs) = (Rd_again, [])"
    | bs cs' where "sock_read (e_greeting_size e - ?n) (map Chunk cs) = (Rd bs, map Chunk cs')" "bs \<noteq> []"
      "length bs \<le> e_greeting_size e - ?n" "concat cs = bs @ concat cs'" "\<forall>c\<in>set cs'. c \<noteq> []" by auto
  then show ?case
  proof cases
    case 1
    have "greeting_loop e = (e\<lparr>e_rx := []\<rparr>, G_again)"
      using lt 1 "1.prems"(3) by (subst greeting_loop.simps) simp
    moreover have "hs_inv p (e\<lparr>e_rx := []\<rparr>)" using "1.prems"(1) by (simp add: hs_inv_def)
    ultimately show ?thesis using 1(1) "1.prems"(2) by simp
  next
    case (2 bs cs')
    have l: "length (e_greeting_recv e @ bs) \<le> 64" using 2(3) le lt by simp
    have "(e_greeting_recv e @ bs) @ concat cs' @ future = greeting p @ extra" using "1.prems"(5) 2(4) by simp
    then have pre: "e_greeting_recv e @ bs = take (length (e_greeting_recv e @ bs)) (greeting p)"
      using l length_greeting [of p] by (metis append_eq_conv_conj take_append diff_is_0_eq take0 append_Nil2)
    from greeting_step_inv [OF "1.prems"(1) 2(2) l pre, of "map Chunk cs'"] obtain e1 where
      e1: "greeting_step (e\<lparr>e_rx := map Chunk cs', e_greeting_recv := e_greeting_recv e @ bs\<rparr>) = (e1, False)"
        "hs_inv p e1" "e_rx e1 = map Chunk cs'" "e_greeting_recv e1 = e_greeting_recv e @ bs" "e_options e1 = e_options e"
      by blast
    have loop: "greeting_loop e = greeting_loop e1"
      using lt 2(1) e1(1) "1.prems"(3) by (subst greeting_loop.simps) simp
    show ?thesis
    proof (cases "length (e_greeting_recv e1) < 64")
      case True
      have fut: "e_greeting_recv e1 @ concat cs' @ future = greeting p @ extra" using e1(4) 2(4) "1.prems"(5) by simp
      have "\<exists>e2 rc cs2. greeting_loop e1 = (e2, rc) \<and> hs_inv p e2 \<and> e_options e2 = e_options e1 \<and>
        e_rx e2 = map Chunk cs2 \<and> (\<forall>c\<in>set cs2. c \<noteq> []) \<and>
        e_greeting_recv e2 @ concat cs2 = e_greeting_recv e1 @ concat cs' \<and>
        (if length (e_greeting_recv e1 @ concat cs') < 64 then rc = G_again \<and> cs2 = []
         else rc = G_done \<and> e_greeting_recv e2 = greeting p)"
        by (rule "1.IH" [where cs = cs' and ya = False]) (use lt 2(1,5) e1(1) [symmetric] e1(2,3) "1.prems"(3) True fut in simp_all)
      with loop show ?thesis unfolding e1(4,5) 2(4) by (simp only: append_assoc)
    next
      case False
      then have f: "length (e_greeting_recv e1) = 64" using l e1(4) by simp
      then have "greeting_loop e1 = (e1, G_done)"
        using e1(2) by (subst greeting_loop.simps) (simp add: hs_inv_def)
      moreover have "e_greeting_recv e1 = greeting p" using pre e1(4) f length_greeting [of p] by simp
      moreover have "\<not> length (e_greeting_recv e @ concat cs) < 64" using f e1(4) 2(4) by simp
      ultimately show ?thesis using loop e1(2-5) 2(4,5)
        by (intro exI [of _ e1] exI [of _ G_done] exI [of _ cs']) simp
    qed
  qed
qed

text \<open>An engine between \<open>plug\<close> and the arrival of the greeting, and the arrival of data in several batches,
  each followed by an input event.\<close>

definition plugged_engine :: "options \<Rightarrow> bool \<Rightarrow> bool \<Rightarrow> engine" where
  "plugged_engine o' in_cb out_cb =
     (greeting_start ((stream_engine_t o' in_cb out_cb)\<lparr>e_plugged := True\<rparr>))\<lparr>e_pollin := True, e_pollout := True\<rparr>"

fun greeting_arrives :: "bytes list list \<Rightarrow> engine \<Rightarrow> engine" where
  "greeting_arrives [] e = e"
| "greeting_arrives (b # bs) e =
     (let e1 = e\<lparr>e_rx := e_rx e @ map Chunk b\<rparr> in
      greeting_arrives bs (if e_handshaking e1 then fst (handshake e1) else e1))"

text \<open>The state behind a completed greeting.\<close>

definition hs_done :: "options \<Rightarrow> engine \<Rightarrow> bool" where
  "hs_done p e \<longleftrightarrow>
     e_fate e = Running \<and> e_plugged e \<and> \<not> e_handshaking e \<and> e_greeting_recv e = greeting p \<and>
     e_sent e @ e_outbuf e = greeting (e_options e) \<and>
     e_encoder e = Some (v2_encoder out_batch_size) \<and> e_decoder e = Some (v2_decoder (o_maxmsgsize (e_options e))) \<and>
     e_mechanism e = Some (null_mechanism_t (e_options e)) \<and> e_read e = R_handshake \<and> e_write e = W_handshake"

lemma handshake_select_null:
  assumes "hs_inv p e" "e_greeting_recv e = greeting p" "o_mechanism p = ZMQ_NULL"
  shows "\<exists>e1. handshake_select e = (e1, True) \<and> hs_done p e1 \<and> e_options e1 = e_options e \<and> e_rx e1 = e_rx e"
proof -
  have m: "o_mechanism (e_options e) = ZMQ_NULL" using assms(1) by (simp add: hs_inv_def)
  have "take 20 (drop 12 (greeting p)) = pad20 (ascii ''NULL'')"
    using assms(3) by (simp add: greeting_def mechanism_name_def pad20_def ascii_def)
  moreover have "length (e_greeting_recv e) = 64" using assms(2) length_greeting by simp
  ultimately show ?thesis using assms m greeting_nth [of p]
    by (simp add: handshake_select_def Let_def hs_inv_def hs_done_def released_def length_greeting ZMTP_1_0_def ZMTP_2_0_def)
qed

lemma hs_inv_rx [simp]: "hs_inv p (e\<lparr>e_rx := r\<rparr>) = hs_inv p e"
  by (simp add: hs_inv_def)

lemma handshake_step:
  assumes "hs_inv p e" "length (e_greeting_recv e) < 64" "e_rx e = map Chunk cs" "\<forall>c\<in>set cs. c \<noteq> []"
    "e_greeting_recv e @ concat cs @ future = greeting p @ extra" "o_mechanism p = ZMQ_NULL"
  shows "\<exists>e1 cs'. e_options e1 = e_options e \<and> e_rx e1 = map Chunk cs' \<and> (\<forall>c\<in>set cs'. c \<noteq> []) \<and>
    e_greeting_recv e1 @ concat cs' = e_greeting_recv e @ concat cs \<and>
    (if length (e_greeting_recv e @ concat cs) < 64
     then handshake e = (e1, False) \<and> hs_inv p e1 \<and> cs' = [] else handshake e = (e1, True) \<and> hs_done p e1)"
proof -
  obtain e1 rc cs' where l: "greeting_loop e = (e1, rc)" "hs_inv p e1" "e_options e1 = e_options e"
    "e_rx e1 = map Chunk cs'" "\<forall>c\<in>set cs'. c \<noteq> []" "e_greeting_recv e1 @ concat cs' = e_greeting_recv e @ concat cs"
    "if length (e_greeting_recv e @ concat cs) < 64 then rc = G_again \<and> cs' = []
     else rc = G_done \<and> e_greeting_recv e1 = greeting p"
    using greeting_loop_inv [OF assms(1-5)] by metis
  have h: "e_handshaking e" "length (e_greeting_recv e) < e_greeting_size e"
    using assms(1,2) by (auto simp: hs_inv_def)
  show ?thesis
  proof (cases "length (e_greeting_recv e @ concat cs) < 64")
    case True
    with l(7) have "rc = G_again" by (simp only: if_True)
    with l(1) h have "handshake e = (e1, False)" by (simp add: handshake_def)
    with l True show ?thesis by (intro exI [of _ e1] exI [of _ cs']) (simp only: if_True simp_thms)
  next
    case False
    with l(7) have g: "rc = G_done" "e_greeting_recv e1 = greeting p" by (simp_all only: if_False)
    from handshake_select_null [OF l(2) g(2) assms(6)] obtain e2 where
      e2: "handshake_select e1 = (e2, True)" "hs_done p e2" "e_options e2 = e_options e1" "e_rx e2 = e_rx e1" by blast
    have "e_fate e1 = Running" using l(2) by (simp add: hs_inv_def)
    with l(1) h g e2(1) have "handshake e = (e2, True)" by (simp add: handshake_def)
    moreover have "e_greeting_recv e2 = e_greeting_recv e1" using e2(2) g(2) by (simp add: hs_done_def)
    ultimately show ?thesis using l(3-6) e2(2-4) False
      by (intro exI [of _ e2] exI [of _ cs']) (simp only: if_False simp_thms)
  qed
qed

lemma plugged_inv: "o_mechanism o' = ZMQ_NULL \<Longrightarrow> hs_inv p (plugged_engine o' i out)"
  by (simp add: hs_inv_def plugged_engine_def greeting_start_def stream_engine_t_def released_def greeting_parts(1)
      v2_greeting_size_def put_greeting_def)

lemma hs_done_rx [simp]: "hs_done p (e\<lparr>e_rx := r\<rparr>) = hs_done p e"
  by (simp add: hs_done_def)

lemma arrives_after_done:
  assumes "hs_done p e" "e_rx e = map Chunk cs"
  shows "hs_done p (greeting_arrives bss e) \<and> e_options (greeting_arrives bss e) = e_options e \<and>
    e_rx (greeting_arrives bss e) = map Chunk (cs @ concat bss)"
  using assms
proof (induction bss arbitrary: e cs)
  case (Cons b bss)
  have "\<not> e_handshaking e" using Cons.prems(1) by (simp add: hs_done_def)
  then have "greeting_arrives (b # bss) e = greeting_arrives bss (e\<lparr>e_rx := e_rx e @ map Chunk b\<rparr>)" by (simp add: Let_def)
  with Cons.IH [of "e\<lparr>e_rx := e_rx e @ map Chunk b\<rparr>" "cs @ b"] Cons.prems show ?case by simp
qed simp

lemma greeting_arrives_done:
  assumes "hs_inv p e" "length (e_greeting_recv e) < 64" "e_rx e = []" "\<forall>b\<in>set bss. \<forall>c\<in>set b. c \<noteq> []"
    "e_greeting_recv e @ concat (concat bss) = greeting p @ extra" "o_mechanism p = ZMQ_NULL"
  shows "\<exists>cs. hs_done p (greeting_arrives bss e) \<and> e_options (greeting_arrives bss e) = e_options e \<and>
    e_rx (greeting_arrives bss e) = map Chunk cs \<and> concat cs = extra"
  using assms
proof (induction bss arbitrary: e)
  case Nil
  then have "length (e_greeting_recv e) = length (greeting p @ extra)" by simp
  with Nil.prems(2) length_greeting [of p] show ?case by simp
next
  case (Cons b bss)
  let ?e = "e\<lparr>e_rx := e_rx e @ map Chunk b\<rparr>"
  have hs: "e_handshaking e" using Cons.prems(1) by (simp add: hs_inv_def)
  have fut: "e_greeting_recv ?e @ concat b @ concat (concat bss) = greeting p @ extra" using Cons.prems(5) by simp
  have "\<exists>e1 cs'. e_options e1 = e_options ?e \<and> e_rx e1 = map Chunk cs' \<and> (\<forall>c\<in>set cs'. c \<noteq> []) \<and>
    e_greeting_recv e1 @ concat cs' = e_greeting_recv ?e @ concat b \<and>
    (if length (e_greeting_recv ?e @ concat b) < 64
     then handshake ?e = (e1, False) \<and> hs_inv p e1 \<and> cs' = [] else handshake ?e = (e1, True) \<and> hs_done p e1)"
    by (rule handshake_step [OF _ _ _ _ fut Cons.prems(6)]) (use Cons.prems(1-4) in simp_all)
  then obtain e1 cs' where e1: "e_options e1 = e_options e" "e_rx e1 = map Chunk cs'"
    "e_greeting_recv e1 @ concat cs' = e_greeting_recv e @ concat b"
    "if length (e_greeting_recv e @ concat b) < 64
     then handshake ?e = (e1, False) \<and> hs_inv p e1 \<and> cs' = [] else handshake ?e = (e1, True) \<and> hs_done p e1"
    by auto
  have next_e: "greeting_arrives (b # bss) e = greeting_arrives bss e1"
    using hs e1(4) by (auto simp: Let_def split: if_splits)
  show ?case
  proof (cases "length (e_greeting_recv e @ concat b) < 64")
    case True
    with e1(4) have i: "hs_inv p e1" "cs' = []" by (simp_all only: if_True)
    with e1(3) have r: "e_greeting_recv e1 = e_greeting_recv e @ concat b" by simp
    with True have "length (e_greeting_recv e1) < 64" by simp
    from Cons.IH [OF i(1) this] e1(1,2) i(2) r Cons.prems(4-6) next_e show ?thesis by simp
  next
    case False
    with e1(4) have d: "hs_done p e1" by (simp only: if_False)
    then have "e_greeting_recv e1 = greeting p" by (simp add: hs_done_def)
    with e1(3) Cons.prems(5) have "(greeting p @ concat cs') @ concat (concat bss) = greeting p @ extra"
      by (metis append_assoc concat.simps(2) concat_append)
    then have "greeting p @ concat (cs' @ concat bss) = greeting p @ extra" by simp
    then show ?thesis using arrives_after_done [OF d e1(2), of bss] e1(1)
      unfolding next_e by (intro exI [of _ "cs' @ concat bss"]) simp
  qed
qed

section \<open>The outgoing stream\<close>

text \<open>Everything the engine has been given to send: sent, buffered, or held by the encoder.\<close>

definition out_stream :: "engine \<Rightarrow> bytes" where
  "out_stream e = e_sent e @ e_outbuf e @ (case e_encoder e of None \<Rightarrow> [] | Some enc \<Rightarrow> enc_pending enc)"

definition rec_frame :: "bytes \<Rightarrow> frame" where
  "rec_frame r = \<lparr>fflags = 0, fdata = r\<rparr>"

text \<open>The state of an engine that transmits records.\<close>

definition sending :: "engine \<Rightarrow> bool" where
  "sending e \<longleftrightarrow> e_fate e = Running \<and> e_read e = R_pull \<and> e_out_cb e \<and> e_mechanism e \<noteq> None \<and>
     \<not> e_io_error e \<and> \<not> e_output_stopped e \<and>
     (\<exists>enc. e_encoder e = Some enc \<and> enc_ok enc \<and> ebufsize enc = out_batch_size)"

definition pulling :: "engine \<Rightarrow> bool" where
  "pulling e \<longleftrightarrow> e_fate e = Running \<and> e_read e = R_pull \<and> e_out_cb e \<and> e_mechanism e \<noteq> None"

lemma read_msg_pulling:
  "pulling e \<Longrightarrow> read_msg e =
     (case e_pulls e of [] \<Rightarrow> (e, No_msg) | (r, l) # rs \<Rightarrow> (e\<lparr>e_pulls := rs\<rparr>, A_msg (rec_frame r) (Some r) l))"
  by (auto simp: pulling_def read_msg_def pull_and_encode_def rec_frame_def split: list.splits)

lemma load_idle:
  assumes "enc_ok enc" "ein_progress enc = None"
  shows "\<exists>enc1. load_msg m d enc = Some enc1 \<and> enc_ok enc1 \<and> ebufsize enc1 = ebufsize enc \<and>
    enc_pending enc1 = header m @ (case d of None \<Rightarrow> fdata m | Some x \<Rightarrow> x)"
proof -
  obtain enc1 where l: "load_msg m d enc = Some enc1" using assms(2) by (simp add: load_msg_def)
  then have "ebufsize enc1 = ebufsize enc"
    by (auto simp: load_msg_def enc_step_defs split: if_splits enc_step.splits option.splits)
  with l enc_load [OF assms(1) l] show ?thesis by auto
qed

text \<open>One more message in the batch.\<close>

lemma encode_batch:
  assumes "enc_ok enc" "ebufsize enc = out_batch_size" "n < out_batch_size" "nul \<longrightarrow> n = 0"
    "encode (if nul then None else Some (out_batch_size - n)) enc = (bs, enc1)"
  shows "enc_ok enc1 \<and> ebufsize enc1 = out_batch_size \<and> enc_pending enc = bs @ enc_pending enc1 \<and>
    (enc_pending enc \<noteq> [] \<longrightarrow> bs \<noteq> []) \<and> (n + length bs < out_batch_size \<longrightarrow> ein_progress enc1 = None)"
proof -
  have e: "encode_loop nul (out_batch_size - n) enc = (bs, enc1)"
    using assms(2,4,5) by (auto simp: encode_def split: if_splits)
  have l: "min (out_batch_size - n) (length (enc_pending enc)) \<le> length bs"
    by (rule encode_loop_length [OF assms(1) e])
  have s: "enc_ok enc1" "enc_pending enc = bs @ enc_pending enc1"
    "length (enc_pending enc) < out_batch_size - n \<longrightarrow> ein_progress enc1 = None"
    using encode_loop_spec [OF assms(1) e] by blast+
  have "ebufsize enc1 = out_batch_size" using encode_loop_bufsize [OF e] assms(2) by simp
  moreover have "bs \<noteq> []" if "enc_pending enc \<noteq> []"
  proof -
    have "0 < out_batch_size - n" "0 < length (enc_pending enc)" using that assms(3) by simp_all
    with l have "0 < length bs" by linarith
    then show ?thesis by simp
  qed
  moreover have "ein_progress enc1 = None" if "n + length bs < out_batch_size"
  proof -
    have "length (enc_pending enc) < out_batch_size - n" using l that by linarith
    with s(3) show ?thesis by blast
  qed
  ultimately show ?thesis using s(1,2) by blast
qed

definition rec_bytes :: "(bytes \<times> bool) list \<Rightarrow> bytes" where
  "rec_bytes rs = concat (map (\<lambda>(r, l). frame_bytes (rec_frame r)) rs)"

lemma rec_bytes_simps [simp]:
  "rec_bytes [] = []" "rec_bytes ((r, l) # rs) = frame_bytes (rec_frame r) @ rec_bytes rs"
  "rec_bytes (xs @ ys) = rec_bytes xs @ rec_bytes ys"
  by (simp_all add: rec_bytes_def)

lemma fill_batch_stream:
  assumes "pulling e" "enc_ok enc" "ebufsize enc = out_batch_size" "nul \<longrightarrow> e_outbuf e = []"
    "length (e_outbuf e) < out_batch_size \<longrightarrow> ein_progress enc = None" "\<forall>(r, l)\<in>set (e_pulls e). \<not> l"
  shows "\<exists>rs enc' ps ob. fill_batch nul enc e = (enc', e\<lparr>e_pulls := ps, e_outbuf := ob\<rparr>) \<and> e_pulls e = rs @ ps \<and>
    enc_ok enc' \<and> ebufsize enc' = out_batch_size \<and> ob @ enc_pending enc' = e_outbuf e @ enc_pending enc @ rec_bytes rs"
  using assms
proof (induction nul enc e rule: fill_batch.induct)
  case (1 nul enc e)
  show ?case
  proof (cases "length (e_outbuf e) < out_batch_size")
    case False
    then have "fill_batch nul enc e = (enc, e)" by (subst fill_batch.simps) simp
    with "1.prems"(2,3) show ?thesis by (intro exI [of _ "[]"] exI [of _ enc] exI [of _ "e_pulls e"] exI [of _ "e_outbuf e"]) simp
  next
    case lt: True
    then have idle: "ein_progress enc = None" using "1.prems"(5) by blast
    show ?thesis
    proof (cases "e_pulls e")
      case Nil
      then have "fill_batch nul enc e = (enc, e)"
        using lt read_msg_pulling [OF "1.prems"(1)] by (subst fill_batch.simps) simp
      with "1.prems"(2,3) show ?thesis
        by (intro exI [of _ "[]"] exI [of _ enc] exI [of _ "e_pulls e"] exI [of _ "e_outbuf e"]) simp
    next
      case (Cons p rs)
      obtain x l where p: "p = (x, l)" by fastforce
      have nl: "\<not> l" using "1.prems"(6) Cons p by auto
      let ?e1 = "e\<lparr>e_pulls := rs\<rparr>"
      have rd: "read_msg e = (?e1, A_msg (rec_frame x) (Some x) False)"
        using read_msg_pulling [OF "1.prems"(1)] Cons p nl by simp
      obtain enc1 where l1: "load_msg (rec_frame x) (Some x) enc = Some enc1" "enc_ok enc1" "ebufsize enc1 = ebufsize enc"
        "enc_pending enc1 = frame_bytes (rec_frame x)"
        using load_idle [OF "1.prems"(2) idle, of "rec_frame x" "Some x"] by (auto simp: frame_bytes_def rec_frame_def)
      obtain bs enc2 where en: "encode (if nul then None else Some (out_batch_size - length (e_outbuf ?e1))) enc1 = (bs, enc2)"
        by fastforce
      then have en': "encode (if nul then None else Some (out_batch_size - length (e_outbuf e))) enc1 = (bs, enc2)"
        by (cases nul) simp_all
      have pend: "enc_pending enc = []" using idle by (simp add: enc_pending_def)
      have b: "enc_ok enc2" "ebufsize enc2 = out_batch_size" "enc_pending enc1 = bs @ enc_pending enc2" "bs \<noteq> []"
        "length (e_outbuf e) + length bs < out_batch_size \<longrightarrow> ein_progress enc2 = None"
        using encode_batch [OF l1(2) _ lt _ en'] l1(3,4) "1.prems"(3,4) by (auto simp: frame_bytes_def)
      let ?e2 = "?e1\<lparr>e_outbuf := e_outbuf ?e1 @ bs\<rparr>"
      have "fill_batch nul enc e = fill_batch False enc2 ?e2"
        using lt rd l1(1) en b(4) by (subst fill_batch.simps) simp
      moreover have "\<exists>rs' enc' ps ob. fill_batch False enc2 ?e2 = (enc', ?e2\<lparr>e_pulls := ps, e_outbuf := ob\<rparr>) \<and>
          e_pulls ?e2 = rs' @ ps \<and> enc_ok enc' \<and> ebufsize enc' = out_batch_size \<and>
          ob @ enc_pending enc' = e_outbuf ?e2 @ enc_pending enc2 @ rec_bytes rs'"
        by (rule "1.IH" [OF lt rd [symmetric] refl l1(1) en [symmetric] b(4) refl])
          (use "1.prems"(1,6) Cons b in \<open>auto simp: pulling_def\<close>)
      ultimately obtain rs' enc' ps ob where "fill_batch nul enc e = (enc', e\<lparr>e_pulls := ps, e_outbuf := ob\<rparr>)"
        "rs = rs' @ ps" "enc_ok enc'" "ebufsize enc' = out_batch_size"
        "ob @ enc_pending enc' = e_outbuf e @ (bs @ enc_pending enc2) @ rec_bytes rs'" by auto
      with Cons p pend l1(4) b(3) show ?thesis
        by (intro exI [of _ "(x, l) # rs'"] exI [of _ enc'] exI [of _ ps] exI [of _ ob]) simp
    qed
  qed
qed

lemma sending_simps:
  "sending e \<Longrightarrow> pulling e \<and> \<not> e_io_error e \<and> \<not> e_output_stopped e"
  by (simp add: sending_def pulling_def)

lemma out_send_stream:
  assumes "sending e"
  shows "sending (out_send e) \<and> out_stream (out_send e) = out_stream e \<and> e_pulls (out_send e) = e_pulls e"
proof (cases "sock_write (e_outbuf e) (e_tx e)")
  case (Pair n tx)
  show ?thesis
  proof (cases n)
    case None
    then show ?thesis using Pair assms by (simp add: out_send_def sending_def out_stream_def)
  next
    case (Some k)
    have "\<not> e_output_stopped e" "e_fate e = Running" using assms by (simp_all add: sending_def)
    then show ?thesis using Pair Some assms by (auto simp: out_send_def sending_def out_stream_def Let_def)
  qed
qed

lemma out_event_stream:
  assumes "sending e" "\<forall>(r, l)\<in>set (e_pulls e). \<not> l"
  shows "\<exists>rs. e_pulls e = rs @ e_pulls (out_event e) \<and> out_stream (out_event e) = out_stream e @ rec_bytes rs \<and>
    sending (out_event e)"
proof (cases "e_outbuf e = []")
  case False
  then have "out_event e = out_send e" using sending_simps [OF assms(1)] by (simp add: out_event_def)
  with out_send_stream [OF assms(1)] show ?thesis by (intro exI [of _ "[]"]) simp
next
  case True
  from assms(1) obtain enc where enc: "e_encoder e = Some enc" "enc_ok enc" "ebufsize enc = out_batch_size"
    by (auto simp: sending_def)
  obtain bs enc1 where en: "encode None enc = (bs, enc1)" by fastforce
  have b: "enc_ok enc1" "ebufsize enc1 = out_batch_size" "enc_pending enc = bs @ enc_pending enc1"
    "length bs < out_batch_size \<longrightarrow> ein_progress enc1 = None"
    using encode_batch [OF enc(2,3), of 0 True bs enc1] en by (auto simp: out_batch_size_def)
  have n: "ein_progress enc = None \<longrightarrow> bs = []"
    using en by (auto simp: encode_def encode_loop_None)
  let ?e = "e\<lparr>e_outbuf := bs\<rparr>"
  have "pulling ?e" using sending_simps [OF assms(1)] by (simp add: pulling_def)
  then have "\<exists>rs enc' ps ob. fill_batch (ein_progress enc = None) enc1 ?e = (enc', ?e\<lparr>e_pulls := ps, e_outbuf := ob\<rparr>) \<and>
      e_pulls ?e = rs @ ps \<and> enc_ok enc' \<and> ebufsize enc' = out_batch_size \<and>
      ob @ enc_pending enc' = e_outbuf ?e @ enc_pending enc1 @ rec_bytes rs"
    by (rule fill_batch_stream) (use b n assms(2) in simp_all)
  then obtain rs enc2 ps ob where f: "fill_batch (ein_progress enc = None) enc1 ?e = (enc2, e\<lparr>e_pulls := ps, e_outbuf := ob\<rparr>)"
    "e_pulls e = rs @ ps" "enc_ok enc2" "ebufsize enc2 = out_batch_size"
    "ob @ enc_pending enc2 = bs @ enc_pending enc1 @ rec_bytes rs" by auto
  let ?e2 = "e\<lparr>e_pulls := ps, e_outbuf := ob, e_encoder := Some enc2\<rparr>"
  have s2: "sending ?e2" using assms(1) f(3,4) by (simp add: sending_def)
  have st: "out_stream ?e2 = out_stream e @ rec_bytes rs"
    using f(5) b(3) enc(1) True by (simp add: out_stream_def)
  have "e_fate e = Running" using assms(1) by (simp add: sending_def)
  then have "out_event e = (if ob = [] then ?e2 else out_send ?e2)"
    using sending_simps [OF assms(1)] True enc(1) en f(1) by (simp add: out_event_def Let_def)
  with out_send_stream [OF s2] s2 st f(2) show ?thesis
    by (intro exI [of _ rs]) (cases "ob = []", simp_all)
qed

text \<open>Output events, each after some more records have become available and with its own answers of the
  socket.\<close>

fun out_events :: "((bytes \<times> bool) list \<times> sock_out list) list \<Rightarrow> engine \<Rightarrow> engine" where
  "out_events [] e = e"
| "out_events ((rs, tx) # evs) e = out_events evs (out_event (e\<lparr>e_pulls := e_pulls e @ rs, e_tx := tx\<rparr>))"

lemma out_events_stream:
  assumes "sending e" "\<forall>(r, l)\<in>set (e_pulls e). \<not> l" "\<forall>(rs, tx)\<in>set evs. \<forall>(r, l)\<in>set rs. \<not> l"
  shows "sending (out_events evs e) \<and>
    out_stream (out_events evs e) @ rec_bytes (e_pulls (out_events evs e)) =
      out_stream e @ rec_bytes (e_pulls e @ concat (map fst evs))"
  using assms
proof (induction evs arbitrary: e)
  case (Cons ev evs)
  obtain rs tx where ev: "ev = (rs, tx)" by fastforce
  let ?e = "e\<lparr>e_pulls := e_pulls e @ rs, e_tx := tx\<rparr>"
  have s: "sending ?e" "out_stream ?e = out_stream e" using Cons.prems(1) by (simp_all add: sending_def out_stream_def)
  have nl: "\<forall>(r, l)\<in>set (e_pulls ?e). \<not> l" using Cons.prems(2,3) ev by auto
  from out_event_stream [OF s(1) nl] obtain qs where
    q: "e_pulls ?e = qs @ e_pulls (out_event ?e)" "out_stream (out_event ?e) = out_stream ?e @ rec_bytes qs"
      "sending (out_event ?e)" by blast
  have "\<forall>(r, l)\<in>set (e_pulls (out_event ?e)). \<not> l" using nl q(1) by auto
  from Cons.IH [OF q(3) this] Cons.prems(3) have
    "sending (out_events evs (out_event ?e)) \<and> out_stream (out_events evs (out_event ?e)) @ rec_bytes (e_pulls (out_events evs (out_event ?e)))
      = out_stream e @ rec_bytes qs @ rec_bytes (e_pulls (out_event ?e)) @ rec_bytes (concat (map fst evs))"
    using q(2) s(2) by simp
  moreover have "rec_bytes qs @ rec_bytes (e_pulls (out_event ?e)) = rec_bytes (e_pulls e @ rs)"
    using arg_cong [OF q(1), of rec_bytes] by simp
  ultimately show ?case using ev by (simp del: rec_bytes_simps(3)) (metis append_assoc rec_bytes_simps(3))
qed simp

section \<open>The incoming stream\<close>

definition receiving :: "decoder \<Rightarrow> engine \<Rightarrow> bool" where
  "receiving d e \<longleftrightarrow> e_fate e = Running \<and> \<not> e_handshaking e \<and> \<not> e_io_error e \<and> \<not> e_input_stopped e \<and>
     e_write e = W_push \<and> e_in_cb e \<and> e_mechanism e \<noteq> None \<and> e_decoder e = Some d \<and> e_inbuf e = []"

definition pushing :: "engine \<Rightarrow> bool" where
  "pushing e \<longleftrightarrow> e_write e = W_push \<and> e_in_cb e \<and> e_mechanism e \<noteq> None"

lemma write_msg_pushing:
  "pushing e \<Longrightarrow> write_msg fin e m =
     (e\<lparr>e_pushed := e_pushed e @ [fdata m]\<rparr>, if fin (fdata m) then W_finish else W_ok)"
  by (simp add: pushing_def write_msg_def decode_and_push_def)

lemma foldl_pushing:
  "pushing e \<Longrightarrow> foldl (\<lambda>s m. fst (write_msg fin s m)) e ms = e\<lparr>e_pushed := e_pushed e @ map fdata ms\<rparr>"
proof (induction ms arbitrary: e)
  case (Cons m ms)
  have "pushing (e\<lparr>e_pushed := e_pushed e @ [fdata m]\<rparr>)" using Cons.prems by (simp add: pushing_def)
  from Cons.IH [OF this] Cons.prems show ?case by (simp add: write_msg_pushing)
qed simp

lemma get_buffer_pos: "0 < snd (get_buffer in_batch_size d)"
  by (simp add: get_buffer_def in_batch_size_def)

lemma in_event_delivers:
  assumes "receiving d e" "v2.synced ok mx d g fs" "\<forall>m\<in>set fs. frame_valid ok mx m" "\<forall>m\<in>set fs. \<not> fin (fdata m)"
    "e_rx e = map Chunk cs" "cs \<noteq> []" "\<forall>c\<in>set cs. c \<noteq> []" "g @ concat cs @ future = concat (map frame_bytes fs)"
  shows "\<exists>e' d' g' dn rest cs'. in_event ok fin e = Some e' \<and> receiving d' e' \<and>
    e_pushed e' = e_pushed e @ map fdata dn \<and> fs = dn @ rest \<and> v2.synced ok mx d' g' rest \<and>
    e_rx e' = map Chunk cs' \<and> (\<forall>c\<in>set cs'. c \<noteq> []) \<and> length (concat cs') < length (concat cs) \<and>
    g' @ concat cs' @ future = concat (map frame_bytes rest)"
proof -
  from sock_read_chunks [OF get_buffer_pos [of d] assms(7)] assms(6) obtain bs cs' where
    rd: "sock_read (snd (get_buffer in_batch_size d)) (map Chunk cs) = (Rd bs, map Chunk cs')" "bs \<noteq> []"
      "concat cs = bs @ concat cs'" "\<forall>c\<in>set cs'. c \<noteq> []" by blast
  let ?e = "e\<lparr>e_rx := map Chunk cs', e_inbuf := bs\<rparr>"
  have pu: "pushing ?e" using assms(1) by (simp add: receiving_def pushing_def)
  have fut: "g @ bs @ (concat cs' @ future) = concat (map frame_bytes fs)" using assms(8) rd(3) by simp
  have wm: "snd (write_msg fin s (delivered m)) = W_ok \<and> pushing (fst (write_msg fin s (delivered m)))"
    if "pushing s" "\<not> fin (fdata m)" for s m
    using that by (simp add: write_msg_pushing) (simp add: pushing_def delivered_def)
  from v2.loop_delivers [where P = pushing and Q = "\<lambda>m. \<not> fin (fdata m)" and wm = "write_msg fin" and st = False,
      OF assms(2,3) fut pu assms(4) wm] obtain d' g' dn rest rc where
    l: "in_event_loop (decode ok) din_progress (write_msg fin) d ?e False bs =
          Some (d', foldl (\<lambda>s m. fst (write_msg fin s m)) ?e (map delivered dn), False, rc, [])"
      "fs = dn @ rest" "v2.synced ok mx d' g' rest" "g' @ (concat cs' @ future) = concat (map frame_bytes rest)"
      "rc = L_empty \<or> rc = L_more" by blast
  let ?e' = "e\<lparr>e_rx := map Chunk cs', e_inbuf := [], e_decoder := Some d', e_pushed := e_pushed e @ map fdata dn\<rparr>"
  have "map fdata (map delivered dn) = map fdata dn" by (simp add: delivered_def)
  then have "in_process ok fin d ?e = Some ?e'"
    using l(1,5) assms(1) unfolding foldl_pushing [OF pu]
    by (auto simp: in_process_def receiving_def Let_def)
  then have "in_event ok fin e = Some ?e'"
    using assms(1,5) rd(1) by (simp add: in_event_def receiving_def)
  moreover have "receiving d' ?e'" using assms(1) by (simp add: receiving_def)
  ultimately show ?thesis using l(2-4) rd(2-4)
    by (intro exI [of _ ?e'] exI [of _ d'] exI [of _ g'] exI [of _ dn] exI [of _ rest] exI [of _ cs']) simp
qed

text \<open>Input events, one after the other.\<close>

fun in_events :: "nat \<Rightarrow> (nat \<Rightarrow> bool) \<Rightarrow> (bytes \<Rightarrow> bool) \<Rightarrow> engine \<Rightarrow> engine option" where
  "in_events 0 ok fin e = Some e"
| "in_events (Suc n) ok fin e = (case in_event ok fin e of None \<Rightarrow> None | Some e1 \<Rightarrow> in_events n ok fin e1)"

lemma in_event_idle:
  assumes "receiving d e" "e_rx e = []"
  shows "in_event ok fin e = Some e"
proof -
  have "e\<lparr>e_rx := []\<rparr> = e" using assms(2) by simp
  then show ?thesis using assms by (simp add: in_event_def receiving_def)
qed

lemma in_events_idle: "receiving d e \<Longrightarrow> e_rx e = [] \<Longrightarrow> in_events n ok fin e = Some e"
  by (induction n) (simp_all add: in_event_idle)

lemma in_events_deliver:
  assumes "receiving d e" "v2.synced ok mx d g fs" "\<forall>m\<in>set fs. frame_valid ok mx m" "\<forall>m\<in>set fs. \<not> fin (fdata m)"
    "e_rx e = map Chunk cs" "\<forall>c\<in>set cs. c \<noteq> []" "g @ concat cs = concat (map frame_bytes fs)" "length (concat cs) \<le> n"
  shows "\<exists>e'. in_events n ok fin e = Some e' \<and> e_pushed e' = e_pushed e @ map fdata fs \<and> e_fate e' = Running"
  using assms
proof (induction n arbitrary: d e g fs cs)
  case (0 d e g fs cs)
  then have cs: "concat cs = []" by simp
  have "fs = []"
  proof (cases fs)
    case (Cons m fs')
    with 0 v2.synced_mid [of ok mx d g m fs'] cs show ?thesis by auto
  qed simp
  with 0(1) show ?case by (simp add: receiving_def)
next
  case (Suc n)
  show ?case
  proof (cases "cs = []")
    case True
    have "fs = []"
    proof (cases fs)
      case (Cons m fs')
      with Suc.prems True v2.synced_mid [of ok mx d g m fs'] show ?thesis by auto
    qed simp
    with True Suc.prems(1,5) in_events_idle [of d e "Suc n" ok fin] show ?thesis by (auto simp: receiving_def)
  next
    case False
    have "g @ concat cs @ [] = concat (map frame_bytes fs)" using Suc.prems(7) by simp
    from in_event_delivers [OF Suc.prems(1-5) False Suc.prems(6) this] obtain e1 d1 g1 dn rest cs1 where
      e1: "in_event ok fin e = Some e1" "receiving d1 e1" "e_pushed e1 = e_pushed e @ map fdata dn" "fs = dn @ rest"
        "v2.synced ok mx d1 g1 rest" "e_rx e1 = map Chunk cs1" "\<forall>c\<in>set cs1. c \<noteq> []"
        "length (concat cs1) < length (concat cs)" "g1 @ concat cs1 = concat (map frame_bytes rest)" by auto
    from Suc.IH [OF e1(2,5) _ _ e1(6,7,9)] e1 Suc.prems(3,4,8) show ?thesis by auto
  qed
qed

section \<open>The last record\<close>

lemma encode_idle: "ein_progress enc = None \<Longrightarrow> encode sz enc = ([], enc)"
  by (simp add: encode_def encode_loop_None split: option.split)

lemma drain_nothing: "drain_out [] tx = ([], tx, Running)"
  by (simp add: drain_out.simps)

lemma fill_first:
  assumes "pulling e" "enc_ok enc" "ebufsize enc = out_batch_size" "ein_progress enc = None" "e_outbuf e = []"
    "e_pulls e = (r, l) # rs" "length (frame_bytes (rec_frame r)) < out_batch_size"
  shows "\<exists>enc2. fill_batch True enc e =
      (if l then (enc2, e\<lparr>e_pulls := rs, e_outbuf := frame_bytes (rec_frame r), e_output_stopped := True\<rparr>)
       else fill_batch False enc2 (e\<lparr>e_pulls := rs, e_outbuf := frame_bytes (rec_frame r)\<rparr>)) \<and> ein_progress enc2 = None"
proof -
  obtain enc1 where l: "load_msg (rec_frame r) (Some r) enc = Some enc1" "enc_ok enc1" "ebufsize enc1 = out_batch_size"
    "enc_pending enc1 = frame_bytes (rec_frame r)"
    using load_idle [OF assms(2,4), of "rec_frame r" "Some r"] assms(3) by (auto simp: frame_bytes_def rec_frame_def)
  obtain bs enc2 where en: "encode None enc1 = (bs, enc2)" by fastforce
  then have el: "encode_loop True out_batch_size enc1 = (bs, enc2)" using l(3) by (simp add: encode_def)
  have ip: "ein_progress enc2 = None" and p: "enc_pending enc1 = bs @ enc_pending enc2"
    using encode_loop_spec [OF l(2) el] l(4) assms(7) by simp_all
  then have bs: "bs = frame_bytes (rec_frame r)" using l(4) by (simp add: enc_pending_def)
  have rd: "read_msg e = (e\<lparr>e_pulls := rs\<rparr>, A_msg (rec_frame r) (Some r) l)"
    using read_msg_pulling [OF assms(1)] assms(6) by simp
  have "frame_bytes (rec_frame r) \<noteq> []" "0 < out_batch_size" by (simp_all add: frame_bytes_def out_batch_size_def)
  then show ?thesis using rd l(1) en bs ip assms(5) by (subst fill_batch.simps) (auto intro!: exI [of _ enc2])
qed

lemma single_record_sent:
  assumes "sending e" "e_outbuf e = []" "e_encoder e = Some enc" "ein_progress enc = None" "e_pulls e = [(r, False)]"
    "length (frame_bytes (rec_frame r)) < out_batch_size" "e_tx e = [Accept k]" "length (frame_bytes (rec_frame r)) \<le> k"
    "\<not> e_handshaking e"
  shows "\<exists>enc2. out_event e = e\<lparr>e_pulls := [], e_tx := [], e_encoder := Some enc2,
    e_sent := e_sent e @ frame_bytes (rec_frame r), e_outbuf := []\<rparr> \<and> enc_pending enc2 = []"
proof -
  have enc: "enc_ok enc" "ebufsize enc = out_batch_size" using assms(1,3) by (auto simp: sending_def)
  obtain enc2 where f: "fill_batch True enc e =
      fill_batch False enc2 (e\<lparr>e_pulls := [], e_outbuf := frame_bytes (rec_frame r)\<rparr>)" "ein_progress enc2 = None"
    using fill_first [OF _ enc assms(4,2,5,6)] sending_simps [OF assms(1)] by auto
  let ?e2 = "e\<lparr>e_pulls := [], e_outbuf := frame_bytes (rec_frame r)\<rparr>"
  have "pulling ?e2" using sending_simps [OF assms(1)] by (simp add: pulling_def)
  from read_msg_pulling [OF this] have "read_msg ?e2 = (?e2, No_msg)" by simp
  then have g: "fill_batch False enc2 ?e2 = (enc2, ?e2)" using assms(6) by (subst fill_batch.simps) simp
  have ob: "e\<lparr>e_outbuf := []\<rparr> = e" using assms(2) by simp
  have nz: "frame_bytes (rec_frame r) \<noteq> []" by (simp add: frame_bytes_def)
  have e: "e_fate e = Running" "\<not> e_io_error e" "\<not> e_output_stopped e" using assms(1) by (simp_all add: sending_def)
  then have "out_event e = out_send (?e2\<lparr>e_encoder := Some enc2\<rparr>)"
    using assms(2-4) f(1) g nz by (simp add: out_event_def encode_idle ob Let_def)
  moreover have "enc_pending enc2 = []" using f(2) by (simp add: enc_pending_def)
  ultimately show ?thesis using assms(2,7,8,9) e by (auto simp: out_send_def Let_def intro!: exI [of _ enc2])
qed

section \<open>Properties\<close>


text \<open>Nothing is lost, duplicated or reordered on the way out: in any run of output events, with records
  arriving in between and whatever the socket accepts or refuses, the bytes sent, buffered and held by
  the encoder are together exactly the frames of the records taken so far, and the records not yet
  taken are the remaining ones. The statement is about records before the last one.\<close>

theorem records_sent_in_order:
  assumes "sending e" "e_pulls e = []" "\<forall>(rs, tx)\<in>set evs. \<forall>(r, l)\<in>set rs. \<not> l"
  shows "let e' = out_events evs e in sending e' \<and>
    out_stream e' @ rec_bytes (e_pulls e') = out_stream e @ rec_bytes (concat (map fst evs))"
  using out_events_stream [OF assms(1) _ assms(3)] assms(2) by (simp add: Let_def)

text \<open>On the way in, the application gets exactly the records that were framed: input events deliver
  them in order, however the bytes are cut into reads, as many events sufficing as there are bytes.\<close>

theorem records_received:
  assumes "receiving (v2_decoder mx) e" "e_rx e = map Chunk cs" "\<forall>c\<in>set cs. c \<noteq> []"
    "concat cs = concat (map frame_bytes fs)" "\<forall>m\<in>set fs. frame_valid ok mx m" "\<forall>m\<in>set fs. \<not> fin (fdata m)"
    "length (concat cs) \<le> n"
  shows "\<exists>e'. in_events n ok fin e = Some e' \<and> e_pushed e' = e_pushed e @ map fdata fs"
proof -
  have "v2.synced ok mx (v2_decoder mx) [] fs"
    by (simp add: v2.synced_def dec_idle_def v2_decoder_def dec_next_step_def)
  from in_events_deliver [OF assms(1) this assms(5,6,2,3) _ assms(7)] assms(4) show ?thesis by auto
qed

text \<open>C40. The last record may be cut off: when the socket takes only the first \<open>k\<close> bytes of it, the rest is
  dropped, because the engine asks the encoder for new data and forgets the bytes that were left in
  the buffer.\<close>

theorem finish_drops_bytes:
  assumes "sending e" "e_outbuf e = []" "e_encoder e = Some enc" "ein_progress enc = None" "e_pulls e = (r, True) # rs"
    "length (frame_bytes (rec_frame r)) < out_batch_size" "e_tx e = Accept k # tx" "k < length (frame_bytes (rec_frame r))"
  shows "let e' = out_event e in e_sent e' = e_sent e @ take k (frame_bytes (rec_frame r)) \<and> e_outbuf e' = [] \<and>
    (\<exists>enc'. e_encoder e' = Some enc' \<and> enc_pending enc' = [])"
proof -
  have enc: "enc_ok enc" "ebufsize enc = out_batch_size" using assms(1,3) by (auto simp: sending_def)
  obtain enc2 where f: "fill_batch True enc e =
      (enc2, e\<lparr>e_pulls := rs, e_outbuf := frame_bytes (rec_frame r), e_output_stopped := True\<rparr>)" "ein_progress enc2 = None"
    using fill_first [OF _ enc assms(4,2,5,6)] sending_simps [OF assms(1)] by auto
  let ?e2 = "e\<lparr>e_pulls := rs, e_outbuf := frame_bytes (rec_frame r), e_output_stopped := True, e_encoder := Some enc2\<rparr>"
  have ob: "e\<lparr>e_outbuf := []\<rparr> = e" using assms(2) by simp
  have nz: "frame_bytes (rec_frame r) \<noteq> []" by (simp add: frame_bytes_def)
  have "e_fate e = Running" "\<not> e_io_error e" using assms(1) by (simp_all add: sending_def)
  then have "out_event e = out_send ?e2"
    using assms(2-4) f(1) nz by (simp add: out_event_def encode_idle ob Let_def)
  moreover have "enc_pending enc2 = []" using f(2) by (simp add: enc_pending_def)
  ultimately show ?thesis using assms(7,8) f(2)
    by (auto simp: out_send_def out_finish_def encode_idle drain_nothing Let_def terminate_def unplug_def abort_def)
qed

text \<open>A peer that does not speak the versioned protocol brings the process down: the engine leaves the
  handshake without a decoder and fails the assertion that there is one.\<close>

theorem unversioned_peer_aborts:
  assumes "b \<noteq> 0xff"
  shows "\<exists>e'. in_event ok fin ((plugged_engine o' in_cb out_cb)\<lparr>e_rx := [Chunk [b]]\<rparr>) = Some e' \<and> e_fate e' = Aborted"
proof -
  let ?e = "(plugged_engine o' in_cb out_cb)\<lparr>e_rx := [Chunk [b]]\<rparr>"
  have e: "e_greeting_recv ?e = []" "e_greeting_size ?e = 12" "e_handshaking ?e" "e_rx ?e = [Chunk [b]]"
      "e_fate ?e = Running" "\<not> e_io_error ?e" "e_decoder ?e = None"
    by (simp_all add: plugged_engine_def greeting_start_def stream_engine_t_def put_greeting_def v2_greeting_size_def)
  have "greeting_loop ?e = (?e\<lparr>e_rx := [], e_greeting_recv := [b]\<rparr>, G_done)"
    using assms e by (subst greeting_loop.simps) (simp add: greeting_step_def Let_def)
  then have "\<exists>e1. handshake ?e = (e1, True) \<and> e_decoder e1 = None"
    using assms e by (simp add: handshake_def handshake_select_def Let_def)
  then show ?thesis using e by (auto simp: in_event_def abort_def)
qed

section \<open>Witnesses\<close>

definition demo_engine :: engine where
  "demo_engine = (plugged_engine ((options_t [])\<lparr>o_type := ty_PUSH\<rparr>) True True)
     \<lparr>e_handshaking := False, e_outbuf := [], e_encoder := Some (v2_encoder out_batch_size),
      e_decoder := Some (v2_decoder 100), e_mechanism := Some (null_mechanism_t (options_t [])),
      e_read := R_pull, e_write := W_push\<rparr>"

lemma demo_engine_fields:
  "e_fate demo_engine = Running" "e_read demo_engine = R_pull" "e_out_cb demo_engine" "e_mechanism demo_engine \<noteq> None"
  "\<not> e_io_error demo_engine" "\<not> e_output_stopped demo_engine" "e_encoder demo_engine = Some (v2_encoder out_batch_size)"
  "e_pulls demo_engine = []" "e_outbuf demo_engine = []" "e_sent demo_engine = []" "\<not> e_handshaking demo_engine"
  "\<not> e_input_stopped demo_engine" "e_write demo_engine = W_push" "e_in_cb demo_engine"
  "e_decoder demo_engine = Some (v2_decoder 100)" "e_inbuf demo_engine = []" "e_pushed demo_engine = []"
  by (simp_all add: demo_engine_def plugged_engine_def greeting_start_def stream_engine_t_def put_greeting_def)

lemma demo_sending: "sending demo_engine" "receiving (v2_decoder 100) demo_engine"
  by (simp_all add: sending_def receiving_def demo_engine_fields enc_ok_init) (simp add: v2_encoder_def)

lemma demo_frame: "frame_bytes (rec_frame [5, 6]) = [0, 2, 5, 6]"
  by (simp add: frame_bytes_def rec_frame_def header_eq protocol_flags_def flag_defs)


theorem records_sent_in_order_witness:
  "let e' = out_events [([([5, 6], False)], [Accept 3]), ([], [])] demo_engine in
     out_stream e' @ rec_bytes (e_pulls e') = [0, 2, 5, 6]"
  using records_sent_in_order [of demo_engine "[([([5, 6], False)], [Accept 3]), ([], [])]"] demo_sending(1)
  by (simp add: Let_def demo_engine_fields demo_frame out_stream_def enc_pending_def v2_encoder_def)

theorem records_received_witness:
  "\<exists>e'. in_events 4 (\<lambda>_. True) (\<lambda>_. False) (demo_engine\<lparr>e_rx := map Chunk [[0], [2, 5], [6]]\<rparr>) = Some e' \<and>
     e_pushed e' = [[5, 6]]"
  using records_received [of 100 "demo_engine\<lparr>e_rx := map Chunk [[0], [2, 5], [6]]\<rparr>" "[[0], [2, 5], [6]]" "[rec_frame [5, 6]]"
    "\<lambda>_. True" "\<lambda>_. False" 4] demo_sending(2) demo_frame
  by (simp add: receiving_def demo_engine_fields frame_valid_def rec_frame_def)

theorem finish_drops_bytes_witness:
  "let e' = out_event (demo_engine\<lparr>e_pulls := [([5, 6], True)], e_tx := [Accept 1, Accept 9]\<rparr>) in
     e_sent e' = [0] \<and> e_outbuf e' = []"
proof -
  let ?e = "demo_engine\<lparr>e_pulls := [([5, 6], True)], e_tx := [Accept 1, Accept 9]\<rparr>"
  have "sending ?e" using demo_sending(1) by (simp add: sending_def)
  moreover have "ein_progress (v2_encoder out_batch_size) = None" by (simp add: v2_encoder_def)
  ultimately show ?thesis
    using finish_drops_bytes [of ?e "v2_encoder out_batch_size" "[5, 6]" "[]" 1 "[Accept 9]"]
    by (simp add: demo_engine_fields demo_frame Let_def) (simp add: out_batch_size_def)
qed

theorem unversioned_peer_aborts_witness:
  "\<exists>e'. in_event (\<lambda>_. True) (\<lambda>_. False) ((plugged_engine (options_t []) True True)\<lparr>e_rx := [Chunk [1]]\<rparr>) = Some e' \<and>
     e_fate e' = Aborted"
  using unversioned_peer_aborts [of 1 "\<lambda>_. True" "\<lambda>_. False" "options_t []" True True] by simp

end
