(* ===== verification/Msg.thy ===== *)
theory Msg
  imports Prelude "HOL-Library.Multiset"
begin

text \<open>
  Messages, \<open>src/net/msg.cpp\<close>: a message is small and stored in place, or refers to a reference-counted
  content on the heap, or to constant memory, or is a delimiter. The state holds the message objects of
  the program, the allocated contents and the log of the free functions called. \<open>None\<close> as the result
  of an operation is an access to freed or null memory.

  Proved: no operation used by its contract touches freed memory; the reference counts are exact, so
  that nothing is leaked or freed twice; to their users messages behave as plain values.
\<close>

section \<open>Data\<close>

definition msg_shared :: u8 where "msg_shared = 128"
definition msg_identity :: u8 where "msg_identity = 64"
definition max_vsm_size :: nat where "max_vsm_size = 29"

text \<open>The union \<open>u\<close>; \<open>Invalid\<close> is a type outside \<open>type_min..type_max\<close>. A \<open>Lmsg\<close> without content is
  left behind by a failed allocation.\<close>

datatype mbody = Vsm bytes | Lmsg "nat option" | Delimiter | Cmsg bytes | Invalid

record msg =
  m_body :: mbody
  m_flags :: u8

text \<open>\<open>c_ffn\<close> names the pair of free function and hint.\<close>

record msg_content =
  c_data :: bytes
  c_ffn :: "nat option"
  c_refcnt :: u32

record mstate =
  ms_vars :: "msg list"
  ms_heap :: "nat \<Rightarrow> msg_content option"
  ms_freed :: "nat list"

datatype mrc = M_ok | M_efault | M_enomem

definition check :: "msg \<Rightarrow> bool" where
  "check m \<longleftrightarrow> m_body m \<noteq> Invalid"

definition is_shared :: "msg \<Rightarrow> bool" where
  "is_shared m \<longleftrightarrow> m_flags m AND msg_shared \<noteq> 0"

definition put_var :: "nat \<Rightarrow> msg \<Rightarrow> mstate \<Rightarrow> mstate" where
  "put_var i m st = st\<lparr>ms_vars := (ms_vars st)[i := m]\<rparr>"

definition put_content :: "nat \<Rightarrow> msg_content \<Rightarrow> mstate \<Rightarrow> mstate" where
  "put_content a c st = st\<lparr>ms_heap := (ms_heap st)(a \<mapsto> c)\<rparr>"

section \<open>Operations\<close>

definition msg_init :: "nat \<Rightarrow> mstate \<Rightarrow> mstate" where
  "msg_init i st = put_var i \<lparr>m_body = Vsm [], m_flags = 0\<rparr> st"

text \<open>\<open>junk\<close> is the uninitialised data of the new message, its length the size asked for; \<open>alloc\<close> is what
  \<open>malloc\<close> returns.\<close>

definition init_size :: "nat \<Rightarrow> bytes \<Rightarrow> nat option \<Rightarrow> mstate \<Rightarrow> mstate \<times> mrc" where
  "init_size i junk alloc st =
     (if length junk \<le> max_vsm_size then (put_var i \<lparr>m_body = Vsm junk, m_flags = 0\<rparr> st, M_ok)
      else (let st1 = put_var i \<lparr>m_body = Lmsg alloc, m_flags = 0\<rparr> st in
            case alloc of
              None \<Rightarrow> (st1, M_enomem)
            | Some a \<Rightarrow> (put_content a \<lparr>c_data = junk, c_ffn = None, c_refcnt = 0\<rparr> st1, M_ok)))"

definition init_data :: "nat \<Rightarrow> bytes \<Rightarrow> nat option \<Rightarrow> nat option \<Rightarrow> mstate \<Rightarrow> mstate \<times> mrc" where
  "init_data i d ffn alloc st =
     (case ffn of
        None \<Rightarrow> (put_var i \<lparr>m_body = Cmsg d, m_flags = 0\<rparr> st, M_ok)
      | Some f \<Rightarrow>
          (let st1 = put_var i \<lparr>m_body = Lmsg alloc, m_flags = 0\<rparr> st in
           case alloc of
             None \<Rightarrow> (st1, M_enomem)
           | Some a \<Rightarrow> (put_content a \<lparr>c_data = d, c_ffn = Some f, c_refcnt = 0\<rparr> st1, M_ok)))"

definition init_delimiter :: "nat \<Rightarrow> mstate \<Rightarrow> mstate" where
  "init_delimiter i st = put_var i \<lparr>m_body = Delimiter, m_flags = 0\<rparr> st"

text \<open>Destroying a content: the free function, if any, is called and the memory returned.\<close>

definition free_content :: "nat \<Rightarrow> mstate \<Rightarrow> mstate option" where
  "free_content a st =
     (case ms_heap st a of
        None \<Rightarrow> None
      | Some c \<Rightarrow>
          Some (st\<lparr>ms_heap := (ms_heap st)(a := None),
                   ms_freed := ms_freed st @ (case c_ffn c of None \<Rightarrow> [] | Some f \<Rightarrow> [f])\<rparr>))"

text \<open>\<open>refcnt.sub (n)\<close>: the new state and whether the counter is still positive.\<close>

definition refcnt_sub :: "nat \<Rightarrow> u32 \<Rightarrow> mstate \<Rightarrow> (mstate \<times> bool) option" where
  "refcnt_sub a n st =
     (case ms_heap st a of
        None \<Rightarrow> None
      | Some c \<Rightarrow> Some (put_content a (c\<lparr>c_refcnt := c_refcnt c - n\<rparr>) st, c_refcnt c - n \<noteq> 0))"

definition refcnt_upd :: "nat \<Rightarrow> (u32 \<Rightarrow> u32) \<Rightarrow> mstate \<Rightarrow> mstate option" where
  "refcnt_upd a f st =
     (case ms_heap st a of
        None \<Rightarrow> None
      | Some c \<Rightarrow> Some (put_content a (c\<lparr>c_refcnt := f (c_refcnt c)\<rparr>) st))"

definition drop_ref :: "nat \<Rightarrow> bool \<Rightarrow> mstate \<Rightarrow> mstate option" where
  "drop_ref a sh st =
     (if sh
      then (case refcnt_sub a 1 st of
              None \<Rightarrow> None
            | Some (st1, pos) \<Rightarrow> if pos then Some st1 else free_content a st1)
      else free_content a st)"

definition msg_close :: "nat \<Rightarrow> mstate \<Rightarrow> (mstate \<times> mrc) option" where
  "msg_close i st =
     (let m = ms_vars st ! i in
      if \<not> check m then Some (st, M_efault)
      else (case (case m_body m of
                    Lmsg None \<Rightarrow> None
                  | Lmsg (Some a) \<Rightarrow> drop_ref a (is_shared m) st
                  | _ \<Rightarrow> Some st) of
              None \<Rightarrow> None
            | Some st1 \<Rightarrow> Some (put_var i (m\<lparr>m_body := Invalid\<rparr>) st1, M_ok)))"

definition msg_move :: "nat \<Rightarrow> nat \<Rightarrow> mstate \<Rightarrow> (mstate \<times> mrc) option" where
  "msg_move d s st =
     (if \<not> check (ms_vars st ! s) then Some (st, M_efault)
      else (case msg_close d st of
              None \<Rightarrow> None
            | Some (st1, rc) \<Rightarrow>
                if rc \<noteq> M_ok then Some (st1, rc)
                else Some (msg_init s (put_var d (ms_vars st1 ! s) st1), M_ok)))"

text \<open>Sharing a long message once more.\<close>

definition share :: "nat \<Rightarrow> mstate \<Rightarrow> mstate option" where
  "share s st =
     (let m = ms_vars st ! s in
      case m_body m of
        Lmsg None \<Rightarrow> None
      | Lmsg (Some a) \<Rightarrow>
          if is_shared m then refcnt_upd a (\<lambda>n. n + 1) st
          else refcnt_upd a (\<lambda>_. 2) (put_var s (m\<lparr>m_flags := m_flags m OR msg_shared\<rparr>) st)
      | _ \<Rightarrow> Some st)"

definition msg_copy :: "nat \<Rightarrow> nat \<Rightarrow> mstate \<Rightarrow> (mstate \<times> mrc) option" where
  "msg_copy d s st =
     (if \<not> check (ms_vars st ! s) then Some (st, M_efault)
      else (case msg_close d st of
              None \<Rightarrow> None
            | Some (st1, rc) \<Rightarrow>
                if rc \<noteq> M_ok then Some (st1, rc)
                else (case share s st1 of
                        None \<Rightarrow> None
                      | Some st2 \<Rightarrow> Some (put_var d (ms_vars st2 ! s) st2, M_ok))))"

text \<open>\<open>data ()\<close> with \<open>size ()\<close>; \<open>None\<close> is the failed assertion on an invalid message or a delimiter.\<close>

definition msg_data :: "nat \<Rightarrow> mstate \<Rightarrow> bytes option" where
  "msg_data i st =
     (case m_body (ms_vars st ! i) of
        Vsm b \<Rightarrow> Some b
      | Cmsg b \<Rightarrow> Some b
      | Lmsg (Some a) \<Rightarrow> map_option c_data (ms_heap st a)
      | _ \<Rightarrow> None)"

definition set_flags :: "nat \<Rightarrow> u8 \<Rightarrow> mstate \<Rightarrow> mstate" where
  "set_flags i f st = put_var i ((ms_vars st ! i)\<lparr>m_flags := m_flags (ms_vars st ! i) OR f\<rparr>) st"

definition reset_flags :: "nat \<Rightarrow> u8 \<Rightarrow> mstate \<Rightarrow> mstate" where
  "reset_flags i f st = put_var i ((ms_vars st ! i)\<lparr>m_flags := m_flags (ms_vars st ! i) AND NOT f\<rparr>) st"

definition is_identity :: "nat \<Rightarrow> mstate \<Rightarrow> bool" where
  "is_identity i st \<longleftrightarrow> m_flags (ms_vars st ! i) AND msg_identity = msg_identity"

definition is_delimiter :: "nat \<Rightarrow> mstate \<Rightarrow> bool" where
  "is_delimiter i st \<longleftrightarrow> m_body (ms_vars st ! i) = Delimiter"

definition add_refs :: "nat \<Rightarrow> nat \<Rightarrow> mstate \<Rightarrow> mstate option" where
  "add_refs i refs st =
     (if refs = 0 then Some st
      else (let m = ms_vars st ! i in
            case m_body m of
              Lmsg None \<Rightarrow> None
            | Lmsg (Some a) \<Rightarrow>
                if is_shared m then refcnt_upd a (\<lambda>n. n + of_nat refs) st
                else refcnt_upd a (\<lambda>_. of_nat refs + 1) (put_var i (m\<lparr>m_flags := m_flags m OR msg_shared\<rparr>) st)
            | _ \<Rightarrow> Some st))"

definition rm_refs :: "nat \<Rightarrow> nat \<Rightarrow> mstate \<Rightarrow> (mstate \<times> bool) option" where
  "rm_refs i refs st =
     (if refs = 0 then Some (st, True)
      else (let m = ms_vars st ! i in
            if (case m_body m of Lmsg p \<Rightarrow> \<not> is_shared m | _ \<Rightarrow> True)
            then map_option (\<lambda>(st1, rc). (st1, False)) (msg_close i st)
            else (case m_body m of
                    Lmsg (Some a) \<Rightarrow>
                      (case refcnt_sub a (of_nat refs) st of
                         None \<Rightarrow> None
                       | Some (st1, pos) \<Rightarrow>
                           if pos then Some (st1, True) else map_option (\<lambda>st2. (st2, False)) (free_content a st1))
                  | _ \<Rightarrow> None)))"

section \<open>Reference counts\<close>

definition pts :: "nat \<Rightarrow> msg \<Rightarrow> bool" where
  "pts a m \<longleftrightarrow> m_body m = Lmsg (Some a)"

definition refs :: "mstate \<Rightarrow> nat \<Rightarrow> nat" where
  "refs st a = length (filter (pts a) (ms_vars st))"

text \<open>A content is allocated exactly while messages refer to it; a message that is not marked shared is
  the only one to do so, and a shared one knows that the counter is exact.\<close>

definition cell_ok :: "mstate \<Rightarrow> nat \<Rightarrow> bool" where
  "cell_ok st a \<longleftrightarrow>
     (case ms_heap st a of
        None \<Rightarrow> refs st a = 0
      | Some c \<Rightarrow> 1 \<le> refs st a \<and>
          (\<forall>m\<in>set (ms_vars st). pts a m \<longrightarrow>
             (if is_shared m then c_refcnt c = of_nat (refs st a) else refs st a = 1)))"

definition minv :: "mstate \<Rightarrow> bool" where
  "minv st \<longleftrightarrow> (\<forall>a. cell_ok st a) \<and> finite (dom (ms_heap st)) \<and> length (ms_vars st) < 2 ^ 32"

lemma filter_update:
  "i < length xs \<Longrightarrow> length (filter P (xs[i := x])) + of_bool (P (xs ! i)) = length (filter P xs) + of_bool (P x)"
proof (induction xs arbitrary: i)
  case (Cons y xs)
  then show ?case by (cases i) auto
qed simp

lemma filter_pos: "i < length xs \<Longrightarrow> P (xs ! i) \<Longrightarrow> 1 \<le> length (filter P xs)"
  by (metis One_nat_def Suc_leI filter_empty_conv length_greater_0_conv nth_mem)

lemma refs_put_var:
  "i < length (ms_vars st) \<Longrightarrow>
   refs (put_var i m st) a + of_bool (pts a (ms_vars st ! i)) = refs st a + of_bool (pts a m)"
  by (simp add: refs_def put_var_def filter_update)

lemma refs_put_var_same:
  "i < length (ms_vars st) \<Longrightarrow> pts a (ms_vars st ! i) = pts a m \<Longrightarrow> refs (put_var i m st) a = refs st a"
  using refs_put_var [of i st m a] by simp

lemma refs_le: "refs st a \<le> length (ms_vars st)"
  by (simp add: refs_def)

lemma refs_heap [simp]:
  "refs (st\<lparr>ms_heap := h\<rparr>) a = refs st a" "refs (st\<lparr>ms_heap := h, ms_freed := f\<rparr>) a = refs st a"
  by (simp_all add: refs_def)

lemma put_var_simps [simp]:
  "ms_heap (put_var i m st) = ms_heap st" "ms_freed (put_var i m st) = ms_freed st"
  "ms_vars (put_var i m st) = (ms_vars st)[i := m]"
  by (simp_all add: put_var_def)

lemma put_content_simps [simp]:
  "ms_vars (put_content a c st) = ms_vars st" "ms_freed (put_content a c st) = ms_freed st"
  "ms_heap (put_content a c st) = (ms_heap st)(a \<mapsto> c)" "refs (put_content a c st) b = refs st b"
  by (simp_all add: put_content_def)

lemma set_update_D: "m \<in> set (xs[i := x]) \<Longrightarrow> m = x \<or> m \<in> set xs"
  using set_update_subset_insert [of xs i x] by auto

text \<open>A message that does not refer to any content may be replaced by another such message.\<close>

lemma minv_put_plain:
  assumes "minv st" "i < length (ms_vars st)" "\<forall>a. \<not> pts a (ms_vars st ! i)" "\<forall>a. \<not> pts a m"
  shows "minv (put_var i m st)"
proof -
  have r: "refs (put_var i m st) a = refs st a" for a
    using refs_put_var_same [OF assms(2), of a m] assms(3,4) by simp
  have "cell_ok (put_var i m st) a" for a
  proof -
    have "cell_ok st a" using assms(1) by (simp add: minv_def)
    then show ?thesis
      using assms(4) unfolding cell_ok_def r by (auto split: option.splits dest!: set_update_D)
  qed
  then show ?thesis using assms(1) by (simp add: minv_def)
qed

lemma minv_put_new:
  assumes "minv st" "i < length (ms_vars st)" "\<forall>a. \<not> pts a (ms_vars st ! i)" "ms_heap st a = None"
    "m_body m = Lmsg (Some a)" "\<not> is_shared m"
  shows "minv (put_content a c (put_var i m st))"
proof -
  have p: "pts b m \<longleftrightarrow> b = a" for b using assms(5) by (auto simp: pts_def)
  have r: "refs (put_var i m st) b = (if b = a then 1 else refs st b)" for b
  proof -
    have "refs st a = 0" using assms(1,4) by (auto simp: minv_def cell_ok_def dest!: spec [of _ a])
    then show ?thesis using refs_put_var [OF assms(2), of m b] assms(3) p by auto
  qed
  have "cell_ok (put_content a c (put_var i m st)) b" for b
  proof -
    have cb: "cell_ok st b" using assms(1) by (simp add: minv_def)
    show ?thesis
    proof (cases "b = a")
      case True
      have "\<not> pts a x" if "x \<in> set (ms_vars st)" for x
        using cb that True assms(4) by (auto simp: cell_ok_def refs_def filter_empty_conv)
      then show ?thesis using True r assms(6) by (auto simp: cell_ok_def dest!: set_update_D)
    next
      case False
      with cb p show ?thesis by (auto simp: cell_ok_def r split: option.splits dest!: set_update_D)
    qed
  qed
  then show ?thesis using assms(1) by (simp add: minv_def)
qed

lemma of_nat_u32_eq: "(of_nat n :: u32) = of_nat m \<Longrightarrow> n < 2 ^ 32 \<Longrightarrow> m < 2 ^ 32 \<Longrightarrow> n = m"
  using of_nat_inverse [of n "of_nat m :: u32"] of_nat_inverse [of m "of_nat m :: u32"] by fastforce

lemma cell_of:
  assumes "minv st" "i < length (ms_vars st)" "pts a (ms_vars st ! i)"
  obtains c where "ms_heap st a = Some c" "1 \<le> refs st a" "refs st a < 2 ^ 32"
    "if is_shared (ms_vars st ! i) then c_refcnt c = of_nat (refs st a) else refs st a = 1"
    "\<forall>m\<in>set (ms_vars st). pts a m \<longrightarrow>
       (if is_shared m then c_refcnt c = of_nat (refs st a) else refs st a = 1)"
proof -
  have c: "cell_ok st a" using assms(1) by (simp add: minv_def)
  have "1 \<le> refs st a" unfolding refs_def using assms(2,3) by (rule filter_pos)
  moreover have "refs st a < 2 ^ 32" using assms(1) refs_le [of st a] by (simp add: minv_def)
  moreover from c \<open>1 \<le> refs st a\<close> obtain c where h: "ms_heap st a = Some c"
    and all: "\<forall>m\<in>set (ms_vars st). pts a m \<longrightarrow>
       (if is_shared m then c_refcnt c = of_nat (refs st a) else refs st a = 1)"
    by (auto simp: cell_ok_def split: option.splits)
  ultimately show ?thesis using that [OF h] bspec [OF all nth_mem [OF assms(2)]] assms(3) by blast
qed

text \<open>What closing the message \<open>i\<close>, which refers to \<open>a\<close>, does to the heap.\<close>

lemma drop_ref_heap:
  assumes "minv st" "i < length (ms_vars st)" "pts a (ms_vars st ! i)"
  shows "\<exists>st1 c. drop_ref a (is_shared (ms_vars st ! i)) st = Some st1 \<and> ms_vars st1 = ms_vars st \<and>
    ms_heap st a = Some c \<and> (\<forall>b. refs st1 b = refs st b) \<and>
    (if refs st a = 1
     then ms_heap st1 = (ms_heap st)(a := None) \<and> ms_freed st1 = ms_freed st @ (case c_ffn c of None \<Rightarrow> [] | Some f \<Rightarrow> [f])
     else ms_heap st1 = (ms_heap st)(a \<mapsto> c\<lparr>c_refcnt := of_nat (refs st a - 1)\<rparr>) \<and> ms_freed st1 = ms_freed st)"
proof -
  obtain c where c: "ms_heap st a = Some c" "1 \<le> refs st a" "refs st a < 2 ^ 32"
    "if is_shared (ms_vars st ! i) then c_refcnt c = of_nat (refs st a) else refs st a = 1"
    using cell_of [OF assms] by metis
  show ?thesis
  proof (cases "is_shared (ms_vars st ! i)")
    case True
    have d: "(of_nat (refs st a) :: u32) - 1 = of_nat (refs st a - 1)" using c(2) by (simp add: of_nat_diff)
    have z: "(of_nat (refs st a - 1) :: u32) = 0 \<longleftrightarrow> refs st a = 1"
      using of_nat_u32_eq [of "refs st a - 1" 0] c(2,3) by auto
    show ?thesis
    proof (cases "refs st a = 1")
      case t: True
      have "drop_ref a True st = free_content a (put_content a (c\<lparr>c_refcnt := 0\<rparr>) st)"
        using c True t d by (simp add: drop_ref_def refcnt_sub_def)
      then show ?thesis using True t c by (simp add: free_content_def refs_def)
    next
      case f: False
      then have "drop_ref a True st = Some (put_content a (c\<lparr>c_refcnt := of_nat (refs st a - 1)\<rparr>) st)"
        using c True d z by (simp add: drop_ref_def refcnt_sub_def)
      then show ?thesis using True f c by simp
    qed
  next
    case False
    with c show ?thesis by (auto simp: drop_ref_def free_content_def refs_def)
  qed
qed

lemma close_lmsg_minv:
  assumes "minv st" "i < length (ms_vars st)" "pts a (ms_vars st ! i)"
    "drop_ref a (is_shared (ms_vars st ! i)) st = Some st1"
  shows "minv (put_var i ((ms_vars st ! i)\<lparr>m_body := Invalid\<rparr>) st1)"
proof -
  let ?m = "(ms_vars st ! i)\<lparr>m_body := Invalid\<rparr>"
  from drop_ref_heap [OF assms(1-3)] assms(4) obtain c where
    v: "ms_vars st1 = ms_vars st" and c: "ms_heap st a = Some c" and r1: "\<forall>b. refs st1 b = refs st b"
    and h: "ms_heap st1 = (ms_heap st)(a := if refs st a = 1 then None else Some (c\<lparr>c_refcnt := of_nat (refs st a - 1)\<rparr>))"
    by (auto split: if_splits)
  have np: "\<not> pts b ?m" for b by (simp add: pts_def)
  have pb: "pts b (ms_vars st ! i) \<longleftrightarrow> b = a" for b using assms(3) by (auto simp: pts_def)
  have r: "refs (put_var i ?m st1) b = (if b = a then refs st a - 1 else refs st b)" for b
    using refs_put_var [of i st1 ?m b] assms(2) np pb r1 v by auto
  have all: "\<forall>m\<in>set (ms_vars st). pts a m \<longrightarrow>
       (if is_shared m then c_refcnt c = of_nat (refs st a) else refs st a = 1)" and "1 \<le> refs st a"
    using cell_of [OF assms(1-3)] c by (metis option.inject)+
  have "cell_ok (put_var i ?m st1) b" for b
  proof -
    have cb: "cell_ok st b" using assms(1) by (simp add: minv_def)
    show ?thesis
    proof (cases "b = a")
      case False
      with cb np show ?thesis by (auto simp: cell_ok_def r h v split: option.splits dest!: set_update_D)
    next
      case True
      with all \<open>1 \<le> refs st a\<close> np show ?thesis
        by (auto simp: cell_ok_def r h v dest!: set_update_D split: if_splits)
    qed
  qed
  moreover have "finite (dom (ms_heap st1))" using assms(1) h by (auto simp: minv_def)
  ultimately show ?thesis using assms(1) v by (simp add: minv_def)
qed

lemma two_refs:
  assumes "i < length (ms_vars st)" "j < length (ms_vars st)" "i \<noteq> j" "pts a (ms_vars st ! i)" "pts a (ms_vars st ! j)"
  shows "2 \<le> refs st a"
proof -
  let ?m = "\<lparr>m_body = Invalid, m_flags = 0\<rparr>"
  have "1 \<le> refs (put_var i ?m st) a"
    unfolding refs_def using assms by (intro filter_pos [of j]) auto
  moreover have "\<not> pts a ?m" by (simp add: pts_def)
  ultimately show ?thesis using refs_put_var [OF assms(1), of ?m a] assms(4) by simp
qed

lemma is_shared_or: "is_shared (m\<lparr>m_flags := m_flags m OR msg_shared\<rparr>)"
proof -
  have "bit ((m_flags m OR msg_shared) AND msg_shared) 7" by (simp add: bit_or_iff bit_and_iff msg_shared_def)
  then show ?thesis by (auto simp: is_shared_def)
qed

lemma share_plain:
  assumes "\<forall>p. m_body (ms_vars st ! s) \<noteq> Lmsg p"
  shows "share s st = Some st"
  using assms by (cases "m_body (ms_vars st ! s)") (auto simp: share_def)

lemma share_lmsg:
  assumes "minv st" "s < length (ms_vars st)" "pts a (ms_vars st ! s)"
  shows "\<exists>st2 c m'. share s st = Some st2 \<and> ms_heap st a = Some c \<and> ms_freed st2 = ms_freed st \<and>
    m_body m' = Lmsg (Some a) \<and> is_shared m' \<and> m_flags m' = m_flags (ms_vars st ! s) OR (if is_shared (ms_vars st ! s) then 0 else msg_shared) \<and>
    ms_vars st2 = (ms_vars st)[s := m'] \<and> ms_heap st2 = (ms_heap st)(a \<mapsto> c\<lparr>c_refcnt := of_nat (refs st a + 1)\<rparr>)"
proof -
  let ?m = "ms_vars st ! s"
  obtain c where c: "ms_heap st a = Some c"
    "if is_shared ?m then c_refcnt c = of_nat (refs st a) else refs st a = 1"
    using cell_of [OF assms] by metis
  have b: "m_body ?m = Lmsg (Some a)" using assms(3) by (simp add: pts_def)
  show ?thesis
  proof (cases "is_shared ?m")
    case True
    with b c have "share s st = Some (put_content a (c\<lparr>c_refcnt := of_nat (refs st a + 1)\<rparr>) st)"
      by (simp add: share_def refcnt_upd_def add.commute)
    with True b c show ?thesis
      by (intro exI [of _ "put_content a (c\<lparr>c_refcnt := of_nat (refs st a + 1)\<rparr>) st"] exI [of _ c] exI [of _ ?m]) simp
  next
    case False
    with b c have "share s st = Some (put_content a (c\<lparr>c_refcnt := of_nat (refs st a + 1)\<rparr>)
        (put_var s (?m\<lparr>m_flags := m_flags ?m OR msg_shared\<rparr>) st))"
      by (simp add: share_def refcnt_upd_def Let_def)
    with False b c is_shared_or [of ?m] show ?thesis
      by (intro exI [of _ "put_content a (c\<lparr>c_refcnt := of_nat (refs st a + 1)\<rparr>)
            (put_var s (?m\<lparr>m_flags := m_flags ?m OR msg_shared\<rparr>) st)"] exI [of _ c]
          exI [of _ "?m\<lparr>m_flags := m_flags ?m OR msg_shared\<rparr>"]) simp
  qed
qed

lemma copy_lmsg_minv:
  assumes "minv st" "s < length (ms_vars st)" "d < length (ms_vars st)" "d \<noteq> s"
    "\<forall>a. \<not> pts a (ms_vars st ! d)" "pts a (ms_vars st ! s)" "share s st = Some st2"
  shows "minv (put_var d (ms_vars st2 ! s) st2)"
proof -
  from share_lmsg [OF assms(1,2,6)] assms(7) obtain c m' where
    c: "ms_heap st a = Some c" and m': "m_body m' = Lmsg (Some a)" "is_shared m'"
    and v: "ms_vars st2 = (ms_vars st)[s := m']"
    and h: "ms_heap st2 = (ms_heap st)(a \<mapsto> c\<lparr>c_refcnt := of_nat (refs st a + 1)\<rparr>)" by auto
  have p: "pts b m' \<longleftrightarrow> b = a" "pts b (ms_vars st ! s) \<longleftrightarrow> b = a" for b
    using m'(1) assms(6) by (auto simp: pts_def)
  have vs: "ms_vars st2 ! s = m'" using v assms(2) by simp
  have "refs st2 b = refs (put_var s m' st) b" for b using v by (simp add: refs_def)
  then have r2: "refs st2 b = refs st b" for b using refs_put_var_same [OF assms(2), of b m'] p by simp
  have r: "refs (put_var d m' st2) b = (if b = a then refs st a + 1 else refs st b)" for b
    using refs_put_var [of d st2 m' b] assms(3-5) p(1) r2 v by auto
  have cell: "cell_ok (put_var d m' st2) b" for b
  proof (cases "b = a")
    case True
    have "is_shared x" if "x \<in> set ((ms_vars st)[s := m', d := m'])" "pts a x" for x
    proof -
      from that(1) obtain j where j: "j < length (ms_vars st)" "x = (ms_vars st)[s := m', d := m'] ! j"
        by (auto simp: in_set_conv_nth)
      show ?thesis
      proof (cases "j = s \<or> j = d")
        case False
        with j that(2) have x: "x = ms_vars st ! j" "2 \<le> refs st a"
          using two_refs [of s st j a] assms(2,6) by auto
        then show ?thesis using cell_of [OF assms(1) j(1), of a] that(2) by fastforce
      qed (use j m'(2) assms(2,3) in \<open>auto simp: nth_list_update\<close>)
    qed
    then show ?thesis using True by (auto simp: cell_ok_def r h v)
  next
    case False
    moreover have "cell_ok st b" using assms(1) by (simp add: minv_def)
    ultimately show ?thesis using p(1) by (auto simp: cell_ok_def r h v split: option.splits dest!: set_update_D)
  qed
  then show ?thesis using assms(1) v h vs by (simp add: minv_def)
qed

section \<open>Messages as values\<close>

text \<open>What a user sees of a message object: nothing, a delimiter, or flags and data.\<close>

datatype mvalue = Dead | AMsg u8 bytes | ADelim u8

definition flags_of :: "msg \<Rightarrow> u8" where
  "flags_of m = m_flags m AND NOT msg_shared"

definition mval :: "(nat \<Rightarrow> msg_content option) \<Rightarrow> msg \<Rightarrow> mvalue" where
  "mval h m =
     (case m_body m of
        Vsm b \<Rightarrow> AMsg (flags_of m) b
      | Cmsg b \<Rightarrow> AMsg (flags_of m) b
      | Lmsg (Some a) \<Rightarrow> (case h a of None \<Rightarrow> Dead | Some c \<Rightarrow> AMsg (flags_of m) (c_data c))
      | Lmsg None \<Rightarrow> Dead
      | Delimiter \<Rightarrow> ADelim (flags_of m)
      | Invalid \<Rightarrow> Dead)"

definition values_of :: "mstate \<Rightarrow> mvalue list" where
  "values_of st = map (mval (ms_heap st)) (ms_vars st)"

lemma mval_cong:
  "(\<And>a. pts a m \<Longrightarrow> map_option c_data (h a) = map_option c_data (h' a)) \<Longrightarrow> mval h m = mval h' m"
proof (cases "m_body m")
  case (Lmsg p)
  assume e: "\<And>a. pts a m \<Longrightarrow> map_option c_data (h a) = map_option c_data (h' a)"
  show ?thesis
  proof (cases p)
    case (Some a)
    with e [of a] Lmsg show ?thesis by (cases "h a"; cases "h' a") (simp_all add: mval_def pts_def)
  qed (use Lmsg in \<open>simp add: mval_def\<close>)
qed (simp_all add: mval_def)

lemma values_put_var [simp]: "values_of (put_var i m st) = (values_of st)[i := mval (ms_heap st) m]"
  by (simp add: values_of_def map_update)

lemma values_heap:
  assumes "\<And>j a. j < length (ms_vars st) \<Longrightarrow> pts a (ms_vars st ! j) \<Longrightarrow> map_option c_data (h a) = map_option c_data (ms_heap st a)"
  shows "map (mval h) (ms_vars st) = values_of st"
  unfolding values_of_def using assms by (intro nth_equalityI) (auto intro!: mval_cong)

text \<open>The free functions of the allocated contents.\<close>

definition ffn_list :: "msg_content \<Rightarrow> nat list" where
  "ffn_list c = (case c_ffn c of None \<Rightarrow> [] | Some f \<Rightarrow> [f])"

definition live :: "mstate \<Rightarrow> nat multiset" where
  "live st = (\<Sum>a\<in>dom (ms_heap st). case ms_heap st a of None \<Rightarrow> {#} | Some c \<Rightarrow> mset (ffn_list c))"

lemma live_new:
  assumes "finite (dom (ms_heap st))" "ms_heap st a = None" "ms_heap st' = (ms_heap st)(a \<mapsto> c)"
  shows "live st' = live st + mset (ffn_list c)"
proof -
  have "live st' = mset (ffn_list c) + (\<Sum>b\<in>dom (ms_heap st). case (ms_heap st') b of None \<Rightarrow> {#} | Some c \<Rightarrow> mset (ffn_list c))"
    unfolding live_def assms(3) dom_fun_upd using assms(1,2) by (simp add: sum.insert domIff)
  also have "(\<Sum>b\<in>dom (ms_heap st). case (ms_heap st') b of None \<Rightarrow> {#} | Some c \<Rightarrow> mset (ffn_list c)) = live st"
    unfolding live_def assms(3) using assms(2) by (intro sum.cong) auto
  finally show ?thesis by simp
qed

lemma live_free:
  assumes "finite (dom (ms_heap st))" "ms_heap st a = Some c" "ms_heap st' = (ms_heap st)(a := None)"
  shows "live st = live st' + mset (ffn_list c)"
proof -
  have "ms_heap st = (ms_heap st')(a \<mapsto> c)" using assms(2,3) by auto
  moreover have "finite (dom (ms_heap st'))" "ms_heap st' a = None" using assms(1,3) by simp_all
  ultimately show ?thesis using live_new [of st' a st c] by simp
qed

lemma live_same:
  assumes "ms_heap st a = Some c" "ms_heap st' = (ms_heap st)(a \<mapsto> c')" "c_ffn c' = c_ffn c"
  shows "live st' = live st"
proof -
  have "dom (ms_heap st') = dom (ms_heap st)" using assms by auto
  then show ?thesis unfolding live_def using assms by (auto intro!: sum.cong simp: ffn_list_def)
qed

lemma live_eq [simp]: "live (put_var i m st) = live st"
  by (simp add: live_def)

section \<open>Sequences of operations\<close>

datatype mop = OInit nat | OInitSize nat bytes "nat option" | OInitData nat bytes "nat option" "nat option"
  | OInitDelim nat | OClose nat | OMove nat nat | OCopy nat nat | OSetFlags nat u8 | OResetFlags nat u8

fun mexec :: "mop \<Rightarrow> mstate \<Rightarrow> (mstate \<times> mrc) option" where
  "mexec (OInit i) st = Some (msg_init i st, M_ok)"
| "mexec (OInitSize i junk alloc) st = Some (init_size i junk alloc st)"
| "mexec (OInitData i d ffn alloc) st = Some (init_data i d ffn alloc st)"
| "mexec (OInitDelim i) st = Some (init_delimiter i st, M_ok)"
| "mexec (OClose i) st = msg_close i st"
| "mexec (OMove d s) st = msg_move d s st"
| "mexec (OCopy d s) st = msg_copy d s st"
| "mexec (OSetFlags i f) st = Some (set_flags i f st, M_ok)"
| "mexec (OResetFlags i f) st = Some (reset_flags i f st, M_ok)"

text \<open>The contract: messages are constructed before and after their life only, an allocation returns
  unused memory, a message whose construction failed is constructed again before it is used, and the
  flag \<open>shared\<close> belongs to the implementation.\<close>

definition unconstructed :: "msg \<Rightarrow> bool" where
  "unconstructed m \<longleftrightarrow> m_body m = Invalid \<or> m_body m = Lmsg None"

definition fresh :: "nat option \<Rightarrow> mstate \<Rightarrow> bool" where
  "fresh alloc st \<longleftrightarrow> (case alloc of None \<Rightarrow> True | Some a \<Rightarrow> ms_heap st a = None)"

definition usable :: "nat \<Rightarrow> mstate \<Rightarrow> bool" where
  "usable i st \<longleftrightarrow> i < length (ms_vars st) \<and> m_body (ms_vars st ! i) \<noteq> Lmsg None"

definition constructible :: "nat \<Rightarrow> mstate \<Rightarrow> bool" where
  "constructible i st \<longleftrightarrow> i < length (ms_vars st) \<and> unconstructed (ms_vars st ! i)"

fun contract :: "mop \<Rightarrow> mstate \<Rightarrow> bool" where
  "contract (OInit i) st = constructible i st"
| "contract (OInitSize i junk alloc) st = (constructible i st \<and> fresh alloc st)"
| "contract (OInitData i d ffn alloc) st = (constructible i st \<and> fresh alloc st)"
| "contract (OInitDelim i) st = constructible i st"
| "contract (OClose i) st = usable i st"
| "contract (OMove d s) st = (usable d st \<and> usable s st)"
| "contract (OCopy d s) st = (usable d st \<and> usable s st)"
| "contract (OSetFlags i f) st = (i < length (ms_vars st) \<and> f AND msg_shared = 0)"
| "contract (OResetFlags i f) st = (i < length (ms_vars st) \<and> f AND msg_shared = 0)"

text \<open>Buffers handed over with their free function.\<close>

fun handed :: "mop \<Rightarrow> nat list" where
  "handed (OInitData i d (Some f) (Some a)) = [f]"
| "handed _ = []"

text \<open>The operations on values.\<close>

fun vflags :: "(u8 \<Rightarrow> u8) \<Rightarrow> mvalue \<Rightarrow> mvalue" where
  "vflags g Dead = Dead"
| "vflags g (AMsg fl b) = AMsg (g fl) b"
| "vflags g (ADelim fl) = ADelim (g fl)"

fun vexec :: "mop \<Rightarrow> mvalue list \<Rightarrow> mvalue list \<times> mrc" where
  "vexec (OInit i) vs = (vs[i := AMsg 0 []], M_ok)"
| "vexec (OInitSize i junk alloc) vs =
     (if length junk \<le> max_vsm_size \<or> alloc \<noteq> None then (vs[i := AMsg 0 junk], M_ok) else (vs[i := Dead], M_enomem))"
| "vexec (OInitData i d ffn alloc) vs =
     (if ffn = None \<or> alloc \<noteq> None then (vs[i := AMsg 0 d], M_ok) else (vs[i := Dead], M_enomem))"
| "vexec (OInitDelim i) vs = (vs[i := ADelim 0], M_ok)"
| "vexec (OClose i) vs = (if vs ! i = Dead then (vs, M_efault) else (vs[i := Dead], M_ok))"
| "vexec (OMove d s) vs =
     (if vs ! s = Dead \<or> vs ! d = Dead then (vs, M_efault)
      else (vs[d := vs ! s, s := AMsg 0 []], M_ok))"
| "vexec (OCopy d s) vs =
     (if vs ! s = Dead \<or> vs ! d = Dead then (vs, M_efault)
      else (vs[d := (if d = s then Dead else vs ! s)], M_ok))"
| "vexec (OSetFlags i f) vs = (vs[i := vflags (\<lambda>fl. fl OR f) (vs ! i)], M_ok)"
| "vexec (OResetFlags i f) vs = (vs[i := vflags (\<lambda>fl. fl AND NOT f) (vs ! i)], M_ok)"

text \<open>What an operation that is used by its contract guarantees.\<close>

definition sound :: "mop \<Rightarrow> mstate \<Rightarrow> bool" where
  "sound op st \<longleftrightarrow>
     (\<exists>st' rc. mexec op st = Some (st', rc) \<and> minv st' \<and> length (ms_vars st') = length (ms_vars st) \<and>
        (values_of st', rc) = vexec op (values_of st) \<and>
        mset (ms_freed st') + live st' = mset (ms_freed st) + live st + mset (handed op))"

lemma unconstructed_no_pts: "unconstructed m \<Longrightarrow> \<not> pts a m"
  by (auto simp: unconstructed_def pts_def)

lemma sound_put_plain:
  assumes "minv st" "constructible i st" "mexec op st = Some (put_var i m st, rc)" "\<forall>a. \<not> pts a m"
    "vexec op (values_of st) = ((values_of st)[i := mval (ms_heap st) m], rc)" "handed op = []"
  shows "sound op st"
proof -
  have "minv (put_var i m st)"
    using assms(1,2,4) unconstructed_no_pts by (intro minv_put_plain) (auto simp: constructible_def)
  with assms show ?thesis by (auto simp: sound_def)
qed

lemma sound_put_new:
  assumes "minv st" "constructible i st" "ms_heap st a = None" "mexec op st = Some (put_content a c (put_var i m st), rc)"
    "m_body m = Lmsg (Some a)" "\<not> is_shared m" "flags_of m = fl"
    "vexec op (values_of st) = ((values_of st)[i := AMsg fl (c_data c)], rc)" "handed op = ffn_list c"
  shows "sound op st"
proof -
  let ?st = "put_content a c (put_var i m st)"
  have i: "i < length (ms_vars st)" "\<forall>b. \<not> pts b (ms_vars st ! i)"
    using assms(2) unconstructed_no_pts by (auto simp: constructible_def)
  have "minv ?st" by (rule minv_put_new [OF assms(1) i assms(3,5,6)])
  moreover have "\<not> pts a x" if "x \<in> set (ms_vars st)" for x
    using assms(1,3) that by (auto simp: minv_def cell_ok_def refs_def filter_empty_conv dest!: spec [of _ a])
  then have v: "map (mval ((ms_heap st)(a \<mapsto> c))) (ms_vars st) = values_of st"
    by (intro values_heap) (metis fun_upd_other nth_mem)
  have "values_of ?st = (map (mval ((ms_heap st)(a \<mapsto> c))) (ms_vars st))[i := mval ((ms_heap st)(a \<mapsto> c)) m]"
    by (simp add: values_of_def map_update)
  then have "values_of ?st = (values_of st)[i := AMsg fl (c_data c)]"
    unfolding v using assms(5,7) by (simp add: mval_def)
  moreover have "live ?st = live st + mset (ffn_list c)"
    using live_new [of st a ?st c] assms(1,3) by (simp add: minv_def)
  ultimately show ?thesis using assms(4,8,9) by (auto simp: sound_def)
qed

lemma values_nth: "i < length (ms_vars st) \<Longrightarrow> values_of st ! i = mval (ms_heap st) (ms_vars st ! i)"
  by (simp add: values_of_def)

lemma length_values [simp]: "length (values_of st) = length (ms_vars st)"
  by (simp add: values_of_def)

lemma dead_iff:
  assumes "minv st" "usable i st"
  shows "values_of st ! i = Dead \<longleftrightarrow> \<not> check (ms_vars st ! i)"
proof (cases "m_body (ms_vars st ! i)")
  case (Lmsg p)
  with assms obtain a where p: "p = Some a" by (auto simp: usable_def)
  with Lmsg assms obtain c where "ms_heap st a = Some c"
    using cell_of [OF assms(1), of i a] by (auto simp: usable_def pts_def)
  with Lmsg p assms show ?thesis by (simp add: usable_def values_nth mval_def check_def)
qed (use assms in \<open>simp_all add: usable_def values_nth mval_def check_def\<close>)

lemma map_others:
  assumes "i < length xs" "\<And>j. j < length xs \<Longrightarrow> j \<noteq> i \<Longrightarrow> f (xs ! j) = g (xs ! j)"
  shows "(map f xs)[i := y] = (map g xs)[i := y]"
  using assms by (intro nth_equalityI) (auto simp: nth_list_update)

lemma close_ok:
  assumes "minv st" "usable i st" "check (ms_vars st ! i)"
  shows "\<exists>st1. msg_close i st = Some (st1, M_ok) \<and> minv st1 \<and>
    ms_vars st1 = (ms_vars st)[i := (ms_vars st ! i)\<lparr>m_body := Invalid\<rparr>] \<and>
    values_of st1 = (values_of st)[i := Dead] \<and> mset (ms_freed st1) + live st1 = mset (ms_freed st) + live st"
proof (cases "\<exists>a. pts a (ms_vars st ! i)")
  case False
  let ?st = "put_var i ((ms_vars st ! i)\<lparr>m_body := Invalid\<rparr>) st"
  have "msg_close i st = Some (?st, M_ok)"
    using assms(2,3) False by (cases "m_body (ms_vars st ! i)") (auto simp: msg_close_def usable_def pts_def Let_def)
  moreover have "minv ?st" using assms(1,2) False by (intro minv_put_plain) (auto simp: usable_def pts_def)
  ultimately show ?thesis by (simp add: mval_def)
next
  case True
  then obtain a where a: "pts a (ms_vars st ! i)" by blast
  have i: "i < length (ms_vars st)" using assms(2) by (simp add: usable_def)
  let ?m = "(ms_vars st ! i)\<lparr>m_body := Invalid\<rparr>"
  from drop_ref_heap [OF assms(1) i a] obtain s1 c where
    d: "drop_ref a (is_shared (ms_vars st ! i)) st = Some s1" and v: "ms_vars s1 = ms_vars st"
    and c: "ms_heap st a = Some c"
    and h: "if refs st a = 1 then ms_heap s1 = (ms_heap st)(a := None) \<and> ms_freed s1 = ms_freed st @ ffn_list c
      else ms_heap s1 = (ms_heap st)(a \<mapsto> c\<lparr>c_refcnt := of_nat (refs st a - 1)\<rparr>) \<and> ms_freed s1 = ms_freed st"
    by (auto simp: ffn_list_def)
  have "msg_close i st = Some (put_var i ?m s1, M_ok)"
    using a d assms(3) by (simp add: msg_close_def pts_def Let_def)
  moreover have "minv (put_var i ?m s1)" by (rule close_lmsg_minv [OF assms(1) i a d])
  moreover have "values_of (put_var i ?m s1) = (values_of st)[i := Dead]"
  proof -
    have "mval (ms_heap s1) (ms_vars st ! j) = mval (ms_heap st) (ms_vars st ! j)"
      if "j < length (ms_vars st)" "j \<noteq> i" for j
      using h c two_refs [of i st j a] i a that by (intro mval_cong) (auto split: if_splits)
    then have "(map (mval (ms_heap s1)) (ms_vars st))[i := Dead] = (map (mval (ms_heap st)) (ms_vars st))[i := Dead]"
      using i by (intro map_others) auto
    moreover have "mval (ms_heap s1) ?m = Dead" by (simp add: mval_def)
    ultimately show ?thesis by (simp add: values_of_def v map_update)
  qed
  moreover have "mset (ms_freed s1) + live s1 = mset (ms_freed st) + live st"
    using h live_free [of st a c s1] live_same [of st a c s1] assms(1) c by (auto simp: minv_def split: if_splits)
  ultimately show ?thesis using v by simp
qed

lemma sound_close:
  assumes "minv st" "usable i st"
  shows "sound (OClose i) st"
proof (cases "check (ms_vars st ! i)")
  case True
  with close_ok [OF assms True] dead_iff [OF assms] show ?thesis by (auto simp: sound_def)
next
  case False
  with assms dead_iff [OF assms] show ?thesis by (auto simp: sound_def msg_close_def)
qed

lemma minv_move:
  assumes "minv st" "d < length (ms_vars st)" "s < length (ms_vars st)" "d \<noteq> s"
    "\<forall>a. \<not> pts a (ms_vars st ! d)" "\<forall>a. \<not> pts a m"
  shows "minv (put_var s m (put_var d (ms_vars st ! s) st))"
proof -
  let ?s1 = "put_var d (ms_vars st ! s) st"
  have r: "refs (put_var s m ?s1) a = refs st a" for a
    using refs_put_var [OF assms(2), of "ms_vars st ! s" a] refs_put_var [of s ?s1 m a] assms(3-6) by simp
  have "cell_ok (put_var s m ?s1) a" for a
  proof -
    have "cell_ok st a" using assms(1) by (simp add: minv_def)
    then show ?thesis using assms(3,6) unfolding cell_ok_def r
      by (auto split: option.splits dest!: set_update_D)
  qed
  then show ?thesis using assms(1) by (simp add: minv_def)
qed

lemma sound_efault:
  "minv st \<Longrightarrow> mexec op st = Some (st, M_efault) \<Longrightarrow> vexec op (values_of st) = (values_of st, M_efault) \<Longrightarrow>
   handed op = [] \<Longrightarrow> sound op st"
  by (simp add: sound_def)

lemma invalid_no_pts [simp]: "\<not> pts a (m\<lparr>m_body := Invalid\<rparr>)" "\<not> pts a \<lparr>m_body = Vsm b, m_flags = f\<rparr>"
  by (simp_all add: pts_def)

lemma sound_move:
  assumes "minv st" "usable d st" "usable s st"
  shows "sound (OMove d s) st"
proof (cases "check (ms_vars st ! s) \<and> check (ms_vars st ! d)")
  case False
  then have "mexec (OMove d s) st = Some (st, M_efault)" by (auto simp: msg_move_def msg_close_def)
  then show ?thesis using False assms dead_iff [OF assms(1,2)] dead_iff [OF assms(1,3)]
    by (intro sound_efault) auto
next
  case True
  then obtain st1 where st1: "msg_close d st = Some (st1, M_ok)" "minv st1"
    "ms_vars st1 = (ms_vars st)[d := (ms_vars st ! d)\<lparr>m_body := Invalid\<rparr>]"
    "values_of st1 = (values_of st)[d := Dead]" "mset (ms_freed st1) + live st1 = mset (ms_freed st) + live st"
    using close_ok [OF assms(1,2)] by blast
  let ?m = "\<lparr>m_body = Vsm [], m_flags = 0\<rparr>"
  let ?st = "put_var s ?m (put_var d (ms_vars st1 ! s) st1)"
  have l: "d < length (ms_vars st)" "s < length (ms_vars st)" using assms by (simp_all add: usable_def)
  have e: "mexec (OMove d s) st = Some (?st, M_ok)" using True st1(1) by (simp add: msg_move_def msg_init_def)
  have inv: "minv ?st"
  proof (cases "d = s")
    case True
    then show ?thesis using st1(2,3) l minv_put_plain [of st1 s ?m] by (simp add: put_var_def)
  next
    case False
    then show ?thesis using st1(2,3) l by (intro minv_move) auto
  qed
  have "mval (ms_heap st1) (ms_vars st1 ! s) = values_of st1 ! s" using st1(3) l by (simp add: values_nth)
  then have "values_of ?st = (values_of st)[d := values_of st ! s, s := AMsg 0 []]"
    using st1(4) l by (cases "d = s") (simp_all add: mval_def flags_of_def)
  with e inv st1(3,5) l True dead_iff [OF assms(1,2)] dead_iff [OF assms(1,3)] show ?thesis
    by (auto simp: sound_def)
qed

lemma flags_or_shared: "(f OR msg_shared) AND NOT msg_shared = f AND NOT msg_shared"
  by (rule bit_word_eqI) (auto simp: bit_simps)

text \<open>The second half of \<open>copy\<close>: the source is shared and the object copied.\<close>

lemma share_ok:
  assumes "minv st" "usable s st" "d < length (ms_vars st)" "d \<noteq> s" "\<forall>a. \<not> pts a (ms_vars st ! d)"
  shows "\<exists>st2. share s st = Some st2 \<and> minv (put_var d (ms_vars st2 ! s) st2) \<and>
    length (ms_vars st2) = length (ms_vars st) \<and> ms_freed st2 = ms_freed st \<and> live st2 = live st \<and>
    values_of (put_var d (ms_vars st2 ! s) st2) = (values_of st)[d := values_of st ! s]"
proof (cases "\<exists>a. pts a (ms_vars st ! s)")
  case False
  have s: "s < length (ms_vars st)" using assms(2) by (simp add: usable_def)
  have "\<forall>p. m_body (ms_vars st ! s) \<noteq> Lmsg p"
  proof
    fix p show "m_body (ms_vars st ! s) \<noteq> Lmsg p"
      using False assms(2) by (cases p) (auto simp: usable_def pts_def)
  qed
  then show ?thesis
    using False assms s share_plain [of st s] minv_put_plain [OF assms(1,3,5)]
    by (simp add: values_nth)
next
  case True
  then obtain a where a: "pts a (ms_vars st ! s)" by blast
  have s: "s < length (ms_vars st)" using assms(2) by (simp add: usable_def)
  from share_lmsg [OF assms(1) s a] obtain st2 c m' where
    e: "share s st = Some st2" and c: "ms_heap st a = Some c" and f: "ms_freed st2 = ms_freed st"
    and m': "m_body m' = Lmsg (Some a)"
      "m_flags m' = m_flags (ms_vars st ! s) OR (if is_shared (ms_vars st ! s) then 0 else msg_shared)"
    and v: "ms_vars st2 = (ms_vars st)[s := m']"
    and h: "ms_heap st2 = (ms_heap st)(a \<mapsto> c\<lparr>c_refcnt := of_nat (refs st a + 1)\<rparr>)" by blast
  have "flags_of m' = flags_of (ms_vars st ! s)"
    using m'(2) by (simp add: flags_of_def flags_or_shared split: if_splits)
  then have mv: "mval (ms_heap st2) m' = values_of st ! s"
    using m'(1) a c h s by (simp add: values_nth mval_def pts_def)
  have vm: "map (mval (ms_heap st2)) (ms_vars st) = values_of st"
    using h c by (intro values_heap) auto
  have "values_of st2 = (map (mval (ms_heap st2)) (ms_vars st))[s := mval (ms_heap st2) m']"
    using v by (simp add: values_of_def map_update)
  then have vs: "values_of st2 = values_of st" unfolding vm mv by simp
  have "minv (put_var d (ms_vars st2 ! s) st2)"
    by (rule copy_lmsg_minv [OF assms(1) s assms(3-5) a e])
  then show ?thesis using e f v s vs mv live_same [OF c h] by simp
qed

lemma sound_copy:
  assumes "minv st" "usable d st" "usable s st"
  shows "sound (OCopy d s) st"
proof (cases "check (ms_vars st ! s) \<and> check (ms_vars st ! d)")
  case False
  then have "mexec (OCopy d s) st = Some (st, M_efault)" by (auto simp: msg_copy_def msg_close_def)
  then show ?thesis using False assms dead_iff [OF assms(1,2)] dead_iff [OF assms(1,3)]
    by (intro sound_efault) auto
next
  case True
  then obtain st1 where st1: "msg_close d st = Some (st1, M_ok)" "minv st1"
    "ms_vars st1 = (ms_vars st)[d := (ms_vars st ! d)\<lparr>m_body := Invalid\<rparr>]"
    "values_of st1 = (values_of st)[d := Dead]" "mset (ms_freed st1) + live st1 = mset (ms_freed st) + live st"
    using close_ok [OF assms(1,2)] by blast
  have l: "d < length (ms_vars st)" "s < length (ms_vars st)" using assms by (simp_all add: usable_def)
  note dead = dead_iff [OF assms(1,2)] dead_iff [OF assms(1,3)]
  show ?thesis
  proof (cases "d = s")
    case eq: True
    have "share s st1 = Some st1" using st1(3) l eq by (intro share_plain) simp
    then have "mexec (OCopy d s) st = Some (st1, M_ok)"
      using True st1(1,3) l eq by (simp add: msg_copy_def put_var_def)
    then show ?thesis using st1 True eq dead by (auto simp: sound_def)
  next
    case neq: False
    have "usable s st1" using assms(3) st1(3) neq by (simp add: usable_def)
    with share_ok [of st1 s d] st1(2,3) l neq obtain st2 where st2: "share s st1 = Some st2"
      "minv (put_var d (ms_vars st2 ! s) st2)" "length (ms_vars st2) = length (ms_vars st1)"
      "ms_freed st2 = ms_freed st1" "live st2 = live st1"
      "values_of (put_var d (ms_vars st2 ! s) st2) = (values_of st1)[d := values_of st1 ! s]" by auto
    have "mexec (OCopy d s) st = Some (put_var d (ms_vars st2 ! s) st2, M_ok)"
      using True st1(1) st2(1) by (simp add: msg_copy_def)
    then show ?thesis using st1(3-5) st2(2-6) True neq dead by (auto simp: sound_def)
  qed
qed

lemma disjoint_bits: "f AND g = 0 \<Longrightarrow> bit f n \<Longrightarrow> \<not> bit (g :: 'a::len word) n"
  by (metis bit_and_iff bit_0_eq bot_apply bot_bool_def)

lemma flags_change:
  assumes "f AND msg_shared = 0"
  shows "(x OR f) AND NOT msg_shared = (x AND NOT msg_shared) OR f"
    "(x AND NOT f) AND NOT msg_shared = (x AND NOT msg_shared) AND NOT f"
    "(x OR f) AND msg_shared = x AND msg_shared" "(x AND NOT f) AND msg_shared = x AND msg_shared"
  using disjoint_bits [OF assms] by (intro bit_word_eqI; auto simp: bit_simps)+

text \<open>Changing flags other than \<open>shared\<close>.\<close>

lemma put_flags:
  assumes "minv st" "i < length (ms_vars st)" "is_shared (m\<lparr>m_flags := f\<rparr>) = is_shared m" "m = ms_vars st ! i"
  shows "minv (put_var i (m\<lparr>m_flags := f\<rparr>) st)"
proof -
  let ?m = "m\<lparr>m_flags := f\<rparr>"
  have p: "pts a ?m = pts a m" for a by (simp add: pts_def)
  have r: "refs (put_var i ?m st) a = refs st a" for a
    using refs_put_var_same [OF assms(2), of a ?m] p assms(4) by simp
  have "cell_ok (put_var i ?m st) a" for a
  proof -
    have "cell_ok st a" using assms(1) by (simp add: minv_def)
    moreover have "m \<in> set (ms_vars st)" using assms(2,4) by simp
    ultimately show ?thesis unfolding cell_ok_def r
      by (auto simp: p assms(3) split: option.splits dest!: set_update_D)
  qed
  then show ?thesis using assms(1) by (simp add: minv_def)
qed

lemma mval_flags: "flags_of (m\<lparr>m_flags := f\<rparr>) = g (flags_of m) \<Longrightarrow> mval h (m\<lparr>m_flags := f\<rparr>) = vflags g (mval h m)"
  by (auto simp: mval_def split: mbody.splits option.splits)

lemma sound_flags:
  assumes "minv st" "i < length (ms_vars st)" "f AND msg_shared = 0"
  shows "sound (OSetFlags i f) st" "sound (OResetFlags i f) st"
proof -
  let ?m = "ms_vars st ! i"
  have 1: "minv (put_var i (?m\<lparr>m_flags := m_flags ?m OR f\<rparr>) st)"
    using assms flags_change [OF assms(3)] by (intro put_flags) (simp_all add: is_shared_def)
  have 2: "minv (put_var i (?m\<lparr>m_flags := m_flags ?m AND NOT f\<rparr>) st)"
    using assms flags_change [OF assms(3)] by (intro put_flags) (simp_all add: is_shared_def)
  have v1: "mval (ms_heap st) (?m\<lparr>m_flags := m_flags ?m OR f\<rparr>) = vflags (\<lambda>fl. fl OR f) (mval (ms_heap st) ?m)"
    using flags_change [OF assms(3)] by (intro mval_flags) (simp add: flags_of_def)
  have v2: "mval (ms_heap st) (?m\<lparr>m_flags := m_flags ?m AND NOT f\<rparr>) = vflags (\<lambda>fl. fl AND NOT f) (mval (ms_heap st) ?m)"
    using flags_change [OF assms(3)] by (intro mval_flags) (simp add: flags_of_def)
  show "sound (OSetFlags i f) st" using 1 v1 assms(2) by (simp add: sound_def set_flags_def values_nth)
  show "sound (OResetFlags i f) st" using 2 v2 assms(2) by (simp add: sound_def reset_flags_def values_nth)
qed

lemma plain_flags [simp]: "flags_of \<lparr>m_body = b, m_flags = 0\<rparr> = 0" "\<not> is_shared \<lparr>m_body = b, m_flags = 0\<rparr>"
  by (simp_all add: flags_of_def is_shared_def)

lemma sound_init_size:
  assumes "minv st" "constructible i st" "fresh alloc st"
  shows "sound (OInitSize i junk alloc) st"
proof (cases "length junk \<le> max_vsm_size")
  case True
  then show ?thesis using assms
    by (intro sound_put_plain [where m = "\<lparr>m_body = Vsm junk, m_flags = 0\<rparr>"]) (auto simp: init_size_def mval_def)
next
  case False
  show ?thesis
  proof (cases alloc)
    case None
    with False show ?thesis using assms
      by (intro sound_put_plain [where m = "\<lparr>m_body = Lmsg None, m_flags = 0\<rparr>"]) (auto simp: init_size_def mval_def pts_def)
  next
    case (Some a)
    with False show ?thesis using assms
      by (intro sound_put_new [where a = a and c = "\<lparr>c_data = junk, c_ffn = None, c_refcnt = 0\<rparr>"
          and m = "\<lparr>m_body = Lmsg (Some a), m_flags = 0\<rparr>"]) (auto simp: init_size_def fresh_def ffn_list_def)
  qed
qed

lemma sound_init_data:
  assumes "minv st" "constructible i st" "fresh alloc st"
  shows "sound (OInitData i d ffn alloc) st"
proof (cases ffn)
  case None
  then show ?thesis using assms
    by (intro sound_put_plain [where m = "\<lparr>m_body = Cmsg d, m_flags = 0\<rparr>"]) (auto simp: init_data_def mval_def pts_def)
next
  case (Some f)
  show ?thesis
  proof (cases alloc)
    case None
    with Some show ?thesis using assms
      by (intro sound_put_plain [where m = "\<lparr>m_body = Lmsg None, m_flags = 0\<rparr>"]) (auto simp: init_data_def mval_def pts_def)
  next
    case (Some a)
    with \<open>ffn = Some f\<close> show ?thesis using assms
      by (intro sound_put_new [where a = a and c = "\<lparr>c_data = d, c_ffn = Some f, c_refcnt = 0\<rparr>"
          and m = "\<lparr>m_body = Lmsg (Some a), m_flags = 0\<rparr>"]) (auto simp: init_data_def fresh_def ffn_list_def)
  qed
qed

lemma mexec_sound:
  assumes "minv st" "contract op st"
  shows "sound op st"
proof (cases op)
  case (OInit i)
  with assms show ?thesis
    by (intro sound_put_plain [where m = "\<lparr>m_body = Vsm [], m_flags = 0\<rparr>"]) (auto simp: msg_init_def mval_def)
next
  case (OInitDelim i)
  with assms show ?thesis
    by (intro sound_put_plain [where m = "\<lparr>m_body = Delimiter, m_flags = 0\<rparr>"]) (auto simp: init_delimiter_def mval_def pts_def)
qed (use assms sound_close sound_move sound_copy sound_flags sound_init_size sound_init_data in simp_all)

fun mruns :: "mop list \<Rightarrow> mstate \<Rightarrow> (mstate \<times> mrc list) option" where
  "mruns [] st = Some (st, [])"
| "mruns (op # ops) st =
     (case mexec op st of
        None \<Rightarrow> None
      | Some (st', rc) \<Rightarrow> map_option (\<lambda>(st'', rcs). (st'', rc # rcs)) (mruns ops st'))"

fun vruns :: "mop list \<Rightarrow> mvalue list \<Rightarrow> mvalue list \<times> mrc list" where
  "vruns [] vs = (vs, [])"
| "vruns (op # ops) vs =
     (case vexec op vs of (vs', rc) \<Rightarrow> (case vruns ops vs' of (vs'', rcs) \<Rightarrow> (vs'', rc # rcs)))"

text \<open>Every call keeps its contract in the state in which it is made.\<close>

fun legal :: "mop list \<Rightarrow> mstate \<Rightarrow> bool" where
  "legal [] st = True"
| "legal (op # ops) st \<longleftrightarrow>
     contract op st \<and> (case mexec op st of None \<Rightarrow> True | Some (st', rc) \<Rightarrow> legal ops st')"

text \<open>\<open>n\<close> message objects before their construction.\<close>

definition msg_start :: "nat \<Rightarrow> mstate" where
  "msg_start n =
     \<lparr>ms_vars = replicate n \<lparr>m_body = Invalid, m_flags = 0\<rparr>, ms_heap = (\<lambda>_. None), ms_freed = []\<rparr>"

lemma minv_start: "n < 2 ^ 32 \<Longrightarrow> minv (msg_start n)"
  by (simp add: minv_def cell_ok_def msg_start_def refs_def pts_def)

lemma start_values: "values_of (msg_start n) = replicate n Dead" "live (msg_start n) = {#}" "ms_freed (msg_start n) = []"
  by (simp_all add: msg_start_def values_of_def mval_def live_def dom_def)

lemma mruns_sound:
  assumes "minv st" "legal ops st"
  shows "\<exists>st' rcs. mruns ops st = Some (st', rcs) \<and> minv st' \<and> vruns ops (values_of st) = (values_of st', rcs) \<and>
    mset (ms_freed st') + live st' = mset (ms_freed st) + live st + mset (concat (map handed ops))"
  using assms
proof (induction ops arbitrary: st)
  case (Cons op ops)
  from mexec_sound [of st op] Cons.prems obtain st1 rc where
    s: "mexec op st = Some (st1, rc)" "minv st1" "vexec op (values_of st) = (values_of st1, rc)"
    "mset (ms_freed st1) + live st1 = mset (ms_freed st) + live st + mset (handed op)"
    by (auto simp: sound_def)
  from Cons.IH [of st1] s(1,2) Cons.prems(2) obtain st2 rcs where
    t: "mruns ops st1 = Some (st2, rcs)" "minv st2" "vruns ops (values_of st1) = (values_of st2, rcs)"
    "mset (ms_freed st2) + live st2 = mset (ms_freed st1) + live st1 + mset (concat (map handed ops))" by auto
  have "mset (ms_freed st2) + live st2 = mset (ms_freed st) + live st + mset (concat (map handed (op # ops)))"
    unfolding t(4) s(4) by simp
  with s(1,3) t(1-3) show ?case by auto
qed simp

lemma all_dead_heap:
  assumes "minv st" "\<forall>v\<in>set (values_of st). v = Dead"
  shows "ms_heap st = (\<lambda>_. None)"
proof
  fix a show "ms_heap st a = None"
  proof (rule ccontr)
    assume "ms_heap st a \<noteq> None"
    then obtain c where c: "ms_heap st a = Some c" by blast
    then have "refs st a \<noteq> 0" using assms(1) by (auto simp: minv_def cell_ok_def dest!: spec [of _ a])
    then obtain m where m: "m \<in> set (ms_vars st)" "pts a m" by (auto simp: refs_def filter_empty_conv)
    then have "mval (ms_heap st) m \<noteq> Dead" using c by (simp add: mval_def pts_def)
    with m(1) assms(2) show False by (auto simp: values_of_def)
  qed
qed

section \<open>Added references\<close>

text \<open>\<open>add_refs\<close> undone by \<open>rm_refs\<close> leaves a consistent state with the same values.\<close>

lemma add_refs_rm_refs:
  assumes "minv st" "i < length (ms_vars st)" "pts a (ms_vars st ! i)" "refs st a + n < 2 ^ 32"
  shows "\<exists>st1 st2. add_refs i n st = Some st1 \<and> rm_refs i n st1 = Some (st2, True) \<and>
    (\<forall>c. ms_heap st2 a = Some c \<and> n \<noteq> 0 \<longrightarrow> c_refcnt c = of_nat (refs st a))"
proof (cases "n = 0")
  case False
  obtain c where c: "ms_heap st a = Some c" "1 \<le> refs st a"
    "if is_shared (ms_vars st ! i) then c_refcnt c = of_nat (refs st a) else refs st a = 1"
    using cell_of [OF assms(1-3)] by metis
  let ?m = "ms_vars st ! i"
  let ?m' = "if is_shared ?m then ?m else ?m\<lparr>m_flags := m_flags ?m OR msg_shared\<rparr>"
  let ?c = "c\<lparr>c_refcnt := of_nat (refs st a + n)\<rparr>"
  let ?s1 = "put_content a ?c (put_var i ?m' st)"
  have "add_refs i n st = Some ?s1"
    using False c assms(3) by (auto simp: add_refs_def refcnt_upd_def pts_def Let_def put_var_def add.commute)
  moreover have "(of_nat (refs st a) :: u32) \<noteq> 0"
    using of_nat_u32_eq [of "refs st a" 0] c(2) assms(4) by auto
  then have "rm_refs i n ?s1 = Some (put_content a (?c\<lparr>c_refcnt := of_nat (refs st a)\<rparr>) ?s1, True)"
    using False assms(2,3) is_shared_or [of ?m] by (auto simp: rm_refs_def refcnt_sub_def pts_def Let_def)
  ultimately show ?thesis by auto
qed (simp add: add_refs_def rm_refs_def)

section \<open>Properties\<close>

text \<open>C3. Messages are values: any sequence of operations that keeps their contracts never touches freed
  or null memory, and flags, data and return codes are those of plain values that are copied and
  moved, although long messages share their content: closing one copy, moving it or changing its
  flags is not visible through any other.\<close>

theorem msg_values:
  assumes "n < 2 ^ 32" "legal ops (msg_start n)"
  shows "\<exists>st rcs. mruns ops (msg_start n) = Some (st, rcs) \<and> vruns ops (replicate n Dead) = (values_of st, rcs)"
  using mruns_sound [OF minv_start [OF assms(1)] assms(2)] by (auto simp: start_values)


section \<open>Witnesses\<close>

definition demo_ops :: "mop list" where
  "demo_ops = [OInitData 0 [1, 2, 3] (Some 7) (Some 100), OInit 1, OCopy 1 0, OSetFlags 1 1, OClose 0, OClose 1]"

lemma demo_legal: "legal demo_ops (msg_start 2)"
  by code_simp

theorem msg_values_witness:
  "\<exists>st rcs. mruns demo_ops (msg_start 2) = Some (st, rcs) \<and> vruns demo_ops (replicate 2 Dead) = (values_of st, rcs)"
  using msg_values [of 2 demo_ops] demo_legal by simp


end
