(* ===== verification/Yqueue.thy ===== *)
theory Yqueue
  imports Prelude
begin

text \<open>
  The chunked queue of the control channel, \<open>src/control_channel/yqueue.hpp\<close>, over an explicit heap of
  chunks: a chunk holds \<open>N\<close> elements and links to its neighbours. \<open>None\<close> as a result is an access to
  memory that is not allocated, or a failed \<open>alloc_assert\<close>. The answer of \<open>malloc\<close> is an argument. One
  thread uses \<open>push\<close>/\<open>unpush\<close>/\<open>back\<close>, another one \<open>pop\<close>/\<open>front\<close>; every operation is one step.

  Proved: under the invariant \<open>yq_ok\<close> no operation touches unallocated memory, elements keep their
  addresses and values while they are in the queue, and the destructor frees every chunk.
\<close>

section \<open>Chunks and queue\<close>

type_synonym ptr = "nat \<times> nat"

record 'a chunk =
  ch_values :: "'a list"
  ch_prev :: "nat option"
  ch_next :: "nat option"

record 'a yqueue =
  yq_heap :: "nat \<Rightarrow> 'a chunk option"
  begin_chunk :: nat
  begin_pos :: nat
  back_chunk :: "nat option"
  back_pos :: nat
  end_chunk :: nat
  end_pos :: nat
  spare_chunk :: "nat option"

text \<open>\<open>blank\<close> is what freshly allocated memory holds.\<close>

definition yqueue_t :: "'a chunk \<Rightarrow> nat \<Rightarrow> 'a yqueue" where
  "yqueue_t blank a =
     \<lparr>yq_heap = [a \<mapsto> blank], begin_chunk = a, begin_pos = 0, back_chunk = None, back_pos = 0,
      end_chunk = a, end_pos = 0, spare_chunk = None\<rparr>"

definition yq_front :: "'a yqueue \<Rightarrow> ptr" where
  "yq_front q = (begin_chunk q, begin_pos q)"

definition yq_back :: "'a yqueue \<Rightarrow> ptr option" where
  "yq_back q = map_option (\<lambda>c. (c, back_pos q)) (back_chunk q)"

definition yq_load :: "'a yqueue \<Rightarrow> ptr \<Rightarrow> 'a option" where
  "yq_load q p =
     (case yq_heap q (fst p) of
        None \<Rightarrow> None
      | Some c \<Rightarrow> if snd p < length (ch_values c) then Some (ch_values c ! snd p) else None)"

definition yq_store :: "ptr \<Rightarrow> 'a \<Rightarrow> 'a yqueue \<Rightarrow> 'a yqueue option" where
  "yq_store p v q =
     (case yq_heap q (fst p) of
        None \<Rightarrow> None
      | Some c \<Rightarrow>
          if snd p < length (ch_values c)
          then Some (q\<lparr>yq_heap := (yq_heap q)(fst p \<mapsto> c\<lparr>ch_values := (ch_values c)[snd p := v]\<rparr>)\<rparr>) else None)"

text \<open>\<open>e->next = s; s->prev = e\<close>.\<close>

definition link_chunk :: "nat \<Rightarrow> nat \<Rightarrow> 'a yqueue \<Rightarrow> 'a yqueue option" where
  "link_chunk e s q =
     (case yq_heap q e of
        None \<Rightarrow> None
      | Some ce \<Rightarrow>
          (let h1 = (yq_heap q)(e \<mapsto> ce\<lparr>ch_next := Some s\<rparr>) in
           case h1 s of
             None \<Rightarrow> None
           | Some cs \<Rightarrow> Some (q\<lparr>yq_heap := h1(s \<mapsto> cs\<lparr>ch_prev := Some e\<rparr>)\<rparr>)))"

definition yq_push :: "nat \<Rightarrow> 'a chunk \<Rightarrow> nat option \<Rightarrow> 'a yqueue \<Rightarrow> 'a yqueue option" where
  "yq_push N blank mem q =
     (let q1 = q\<lparr>back_chunk := Some (end_chunk q), back_pos := end_pos q, end_pos := end_pos q + 1\<rparr> in
      if end_pos q1 \<noteq> N then Some q1
      else
        (case spare_chunk q1 of
           Some sc \<Rightarrow>
             map_option (\<lambda>q2. q2\<lparr>end_chunk := sc, end_pos := 0\<rparr>)
               (link_chunk (end_chunk q1) sc (q1\<lparr>spare_chunk := None\<rparr>))
         | None \<Rightarrow>
             (case mem of
                None \<Rightarrow> None
              | Some a \<Rightarrow>
                  map_option (\<lambda>q2. q2\<lparr>end_chunk := a, end_pos := 0\<rparr>)
                    (link_chunk (end_chunk q1) a (q1\<lparr>yq_heap := (yq_heap q1)(a \<mapsto> blank)\<rparr>)))))"

definition free_chunk :: "nat option \<Rightarrow> 'a yqueue \<Rightarrow> 'a yqueue" where
  "free_chunk c q = (case c of None \<Rightarrow> q | Some a \<Rightarrow> q\<lparr>yq_heap := (yq_heap q)(a := None)\<rparr>)"

definition yq_unpush :: "nat \<Rightarrow> 'a yqueue \<Rightarrow> 'a yqueue option" where
  "yq_unpush N q =
     (case (if back_pos q \<noteq> 0 then Some (q\<lparr>back_pos := back_pos q - 1\<rparr>)
            else (case back_chunk q of
                    None \<Rightarrow> None
                  | Some b \<Rightarrow>
                      (case yq_heap q b of
                         None \<Rightarrow> None
                       | Some c \<Rightarrow> Some (q\<lparr>back_pos := N - 1, back_chunk := ch_prev c\<rparr>)))) of
        None \<Rightarrow> None
      | Some q1 \<Rightarrow>
          if end_pos q1 \<noteq> 0 then Some (q1\<lparr>end_pos := end_pos q1 - 1\<rparr>)
          else (case yq_heap q1 (end_chunk q1) of
                  None \<Rightarrow> None
                | Some ce \<Rightarrow>
                    (case ch_prev ce of
                       None \<Rightarrow> None
                     | Some e \<Rightarrow>
                         (case yq_heap q1 e of
                            None \<Rightarrow> None
                          | Some c \<Rightarrow>
                              (let q2 = free_chunk (ch_next c) (q1\<lparr>end_pos := N - 1, end_chunk := e\<rparr>) in
                               Some (q2\<lparr>yq_heap := (yq_heap q2)(e \<mapsto> c\<lparr>ch_next := None\<rparr>)\<rparr>))))))"

definition yq_pop :: "nat \<Rightarrow> 'a yqueue \<Rightarrow> 'a yqueue option" where
  "yq_pop N q =
     (if begin_pos q + 1 = N then
        (case yq_heap q (begin_chunk q) of
           None \<Rightarrow> None
         | Some c \<Rightarrow>
             (case ch_next c of
                None \<Rightarrow> None
              | Some b \<Rightarrow>
                  (case yq_heap q b of
                     None \<Rightarrow> None
                   | Some cb \<Rightarrow>
                       Some (free_chunk (spare_chunk q)
                         (q\<lparr>yq_heap := (yq_heap q)(b \<mapsto> cb\<lparr>ch_prev := None\<rparr>), begin_chunk := b, begin_pos := 0,
                            spare_chunk := Some (begin_chunk q)\<rparr>)))))
      else Some (q\<lparr>begin_pos := begin_pos q + 1\<rparr>))"

text \<open>The loop of the destructor.\<close>

partial_function (option) free_chunks :: "nat \<Rightarrow> nat \<Rightarrow> 'a yqueue \<Rightarrow> 'a yqueue option" where
  "free_chunks b e q =
     (if b = e then Some (free_chunk (Some b) q)
      else (case yq_heap q b of
              None \<Rightarrow> None
            | Some c \<Rightarrow>
                (case ch_next c of None \<Rightarrow> None | Some n \<Rightarrow> free_chunks n e (free_chunk (Some b) q))))"

definition yqueue_destroy :: "'a yqueue \<Rightarrow> 'a yqueue option" where
  "yqueue_destroy q =
     map_option (\<lambda>q1. free_chunk (spare_chunk q1) (q1\<lparr>spare_chunk := None\<rparr>)) (free_chunks (begin_chunk q) (end_chunk q) q)"

section \<open>The invariant\<close>

text \<open>\<open>cs\<close> are the chunks from \<open>begin_chunk\<close> to \<open>end_chunk\<close>, \<open>n\<close> the number of elements; the \<open>k\<close>-th element from
  the front is at \<open>yslot N cs b k\<close>, with \<open>b\<close> the position of the front in its chunk.\<close>

definition yslot :: "nat \<Rightarrow> nat list \<Rightarrow> nat \<Rightarrow> nat \<Rightarrow> ptr" where
  "yslot N cs b k = (cs ! ((b + k) div N), (b + k) mod N)"

definition linked :: "(nat \<Rightarrow> 'a chunk option) \<Rightarrow> nat list \<Rightarrow> bool" where
  "linked h cs \<longleftrightarrow> (\<forall>i. Suc i < length cs \<longrightarrow>
     (\<exists>c d. h (cs ! i) = Some c \<and> ch_next c = Some (cs ! Suc i) \<and> h (cs ! Suc i) = Some d \<and> ch_prev d = Some (cs ! i)))"

definition yq_ok :: "nat \<Rightarrow> nat list \<Rightarrow> nat \<Rightarrow> 'a yqueue \<Rightarrow> bool" where
  "yq_ok N cs n q \<longleftrightarrow>
     distinct cs \<and> cs \<noteq> [] \<and> cs ! 0 = begin_chunk q \<and> cs ! (length cs - 1) = end_chunk q \<and>
     dom (yq_heap q) = set cs \<union> set_option (spare_chunk q) \<and> set cs \<inter> set_option (spare_chunk q) = {} \<and>
     linked (yq_heap q) cs \<and> (\<forall>a c. yq_heap q a = Some c \<longrightarrow> length (ch_values c) = N) \<and>
     begin_pos q < N \<and> end_pos q < N \<and> begin_pos q + n = (length cs - 1) * N + end_pos q \<and>
     (0 < n \<longrightarrow> yq_back q = Some (yslot N cs (begin_pos q) (n - 1)))"

section \<open>Addresses\<close>

lemma yslot_0: "b < N \<Longrightarrow> yslot N cs b 0 = (cs ! 0, b)"
  by (simp add: yslot_def)

lemma yslot_inj:
  assumes "distinct cs" "b + j < length cs * N" "b + k < length cs * N" "yslot N cs b j = yslot N cs b k"
  shows "j = k"
proof -
  have "(b + j) div N < length cs" "(b + k) div N < length cs"
    using assms(2,3) less_mult_imp_div_less by simp_all
  with assms(1,4) have "(b + j) div N = (b + k) div N" "(b + j) mod N = (b + k) mod N"
    by (simp_all add: yslot_def nth_eq_iff_index_eq)
  then have "b + j = b + k" by (metis div_mult_mod_eq)
  then show ?thesis by simp
qed

lemma yslot_append: "b + k < length cs * N \<Longrightarrow> yslot N (cs @ ds) b k = yslot N cs b k"
  by (simp add: yslot_def nth_append less_mult_imp_div_less)

lemma yslot_butlast: "b + k < (length cs - 1) * N \<Longrightarrow> yslot N (butlast cs) b k = yslot N cs b k"
  by (simp add: yslot_def nth_butlast less_mult_imp_div_less)

lemma yslot_tl:
  assumes "0 < N" "N + k < length cs * N"
  shows "yslot N (tl cs) 0 k = yslot N cs (N - 1) (Suc k)"
proof -
  have e: "N - 1 + Suc k = k + N" using assms(1) by simp
  have "Suc (k div N) < length cs" using assms less_mult_imp_div_less [of "k + N" "length cs" N] by (simp add: add.commute)
  then show ?thesis using assms(1) by (simp only: yslot_def e div_add_self2 mod_add_self2) (simp add: nth_tl)
qed

lemma yslot_Suc: "yslot N cs (Suc b) k = yslot N cs b (Suc k)"
  by (simp add: yslot_def)

section \<open>The operations keep the invariant\<close>

lemma yq_bound:
  assumes "yq_ok N cs n q" "k \<le> n"
  shows "begin_pos q + k < length cs * N"
proof -
  obtain m where "length cs = Suc m" using assms(1) by (cases cs) (auto simp: yq_ok_def)
  with assms show ?thesis by (simp add: yq_ok_def)
qed

lemma yq_front_slot: "yq_ok N cs n q \<Longrightarrow> yq_front q = yslot N cs (begin_pos q) 0"
  by (simp add: yq_ok_def yq_front_def yslot_0)

lemma yq_slot_alloc:
  assumes "yq_ok N cs n q" "k \<le> n"
  shows "\<exists>c. yq_heap q (fst (yslot N cs (begin_pos q) k)) = Some c \<and> snd (yslot N cs (begin_pos q) k) < length (ch_values c)"
proof -
  have "(begin_pos q + k) div N < length cs" using yq_bound [OF assms] less_mult_imp_div_less by simp
  then have "cs ! ((begin_pos q + k) div N) \<in> dom (yq_heap q)" using assms(1) by (simp add: yq_ok_def)
  then obtain c where c: "yq_heap q (cs ! ((begin_pos q + k) div N)) = Some c" by auto
  then have "length (ch_values c) = N" "0 < N" using assms(1) by (auto simp: yq_ok_def)
  with c show ?thesis by (simp add: yslot_def)
qed

lemma yq_load_slot: "yq_ok N cs n q \<Longrightarrow> k \<le> n \<Longrightarrow> \<exists>v. yq_load q (yslot N cs (begin_pos q) k) = Some v"
  using yq_slot_alloc by (fastforce simp: yq_load_def)

lemma yqueue_t_ok: "0 < N \<Longrightarrow> length (ch_values blank) = N \<Longrightarrow> yq_ok N [a] 0 (yqueue_t blank a)"
  by (auto simp: yq_ok_def yqueue_t_def linked_def)

lemma linked_cong:
  assumes "linked h cs" "\<And>a c. a \<in> set cs \<Longrightarrow> h a = Some c \<Longrightarrow> \<exists>c'. h' a = Some c' \<and> ch_next c' = ch_next c \<and> ch_prev c' = ch_prev c"
  shows "linked h' cs"
  unfolding linked_def
proof (intro allI impI)
  fix i assume i: "Suc i < length cs"
  with assms(1) obtain c d where "h (cs ! i) = Some c" "ch_next c = Some (cs ! Suc i)" "h (cs ! Suc i) = Some d"
    "ch_prev d = Some (cs ! i)" by (auto simp: linked_def)
  then show "\<exists>c d. h' (cs ! i) = Some c \<and> ch_next c = Some (cs ! Suc i) \<and> h' (cs ! Suc i) = Some d \<and> ch_prev d = Some (cs ! i)"
    using assms(2) [of "cs ! i" c] assms(2) [of "cs ! Suc i" d] i by fastforce
qed

lemma yq_store_ok:
  assumes "yq_ok N cs n q" "k \<le> n"
  shows "\<exists>q'. yq_store (yslot N cs (begin_pos q) k) v q = Some q' \<and> yq_ok N cs n q' \<and> begin_pos q' = begin_pos q \<and>
    dom (yq_heap q') = dom (yq_heap q) \<and> yq_back q' = yq_back q \<and> (\<forall>j\<le>n. yq_load q' (yslot N cs (begin_pos q) j) =
      (if j = k then Some v else yq_load q (yslot N cs (begin_pos q) j)))"
proof -
  let ?p = "yslot N cs (begin_pos q) k"
  obtain c where c: "yq_heap q (fst ?p) = Some c" "snd ?p < length (ch_values c)" using yq_slot_alloc [OF assms] by blast
  let ?q = "q\<lparr>yq_heap := (yq_heap q)(fst ?p \<mapsto> c\<lparr>ch_values := (ch_values c)[snd ?p := v]\<rparr>)\<rparr>"
  have dom: "dom (yq_heap ?q) = dom (yq_heap q)" using c(1) by auto
  have "linked (yq_heap ?q) cs"
    by (rule linked_cong [of "yq_heap q"]) (use assms(1) c(1) in \<open>auto simp: yq_ok_def\<close>)
  then have "yq_ok N cs n ?q" using assms(1) c dom by (auto simp: yq_ok_def yq_back_def split: if_splits)
  moreover have "yq_load ?q (yslot N cs (begin_pos q) j) =
      (if j = k then Some v else yq_load q (yslot N cs (begin_pos q) j))" if "j \<le> n" for j
  proof (cases "j = k")
    case False
    then have "yslot N cs (begin_pos q) j \<noteq> ?p"
      using yslot_inj [of cs "begin_pos q" j N k] yq_bound [OF assms(1)] that assms by (auto simp: yq_ok_def)
    then show ?thesis using False c by (auto simp: yq_load_def prod_eq_iff)
  qed (use c in \<open>simp add: yq_load_def\<close>)
  ultimately show ?thesis using c dom by (auto simp: yq_store_def yq_back_def)
qed

lemma linked_snoc:
  assumes "linked h cs" "cs \<noteq> []" "distinct cs" "s \<notin> set cs" "h (cs ! (length cs - 1)) = Some ce" "h s = Some d"
  shows "linked (h(cs ! (length cs - 1) \<mapsto> ce\<lparr>ch_next := Some s\<rparr>, s \<mapsto> d\<lparr>ch_prev := Some (cs ! (length cs - 1))\<rparr>)) (cs @ [s])"
    (is "linked ?h _")
  unfolding linked_def
proof (intro allI impI)
  fix i assume i: "Suc i < length (cs @ [s])"
  let ?l = "cs ! (length cs - 1)"
  have ls: "?l \<noteq> s" using assms(2,4) nth_mem [of "length cs - 1" cs] by auto
  show "\<exists>c d. ?h ((cs @ [s]) ! i) = Some c \<and> ch_next c = Some ((cs @ [s]) ! Suc i) \<and>
      ?h ((cs @ [s]) ! Suc i) = Some d \<and> ch_prev d = Some ((cs @ [s]) ! i)"
  proof (cases "Suc i < length cs")
    case True
    then obtain c d' where cd: "h (cs ! i) = Some c" "ch_next c = Some (cs ! Suc i)" "h (cs ! Suc i) = Some d'"
      "ch_prev d' = Some (cs ! i)" using assms(1) by (auto simp: linked_def)
    have "cs ! i \<noteq> ?l" "cs ! i \<noteq> s" "cs ! Suc i \<noteq> s"
      using True assms(3,4) nth_mem [of i cs] nth_mem [of "Suc i" cs] by (auto simp: nth_eq_iff_index_eq)
    with True cd assms(5) show ?thesis by (auto simp: nth_append)
  next
    case False
    then have "i = length cs - 1" "Suc i = length cs" using i assms(2) by auto
    with ls assms(2,6) show ?thesis by (simp add: nth_append)
  qed
qed

lemma yq_load_values:
  "map_option ch_values (yq_heap q' (fst p)) = map_option ch_values (yq_heap q (fst p)) \<Longrightarrow> yq_load q' p = yq_load q p"
  by (cases "yq_heap q (fst p)"; cases "yq_heap q' (fst p)") (simp_all add: yq_load_def)

definition yq_fresh :: "nat option \<Rightarrow> 'a yqueue \<Rightarrow> bool" where
  "yq_fresh mem q \<longleftrightarrow> (\<exists>a. mem = Some a \<and> yq_heap q a = None)"

lemma div_mod_last: "r < N \<Longrightarrow> (m * N + r) div N = m \<and> (m * N + r) mod N = r" for r N m :: nat
  by simp

lemma yq_okI:
  assumes "distinct cs" "cs \<noteq> []" "cs ! 0 = begin_chunk q" "cs ! (length cs - 1) = end_chunk q"
    "dom (yq_heap q) = set cs \<union> set_option (spare_chunk q)" "set cs \<inter> set_option (spare_chunk q) = {}"
    "linked (yq_heap q) cs" "\<forall>a c. yq_heap q a = Some c \<longrightarrow> length (ch_values c) = N"
    "begin_pos q < N" "end_pos q < N" "begin_pos q + n = (length cs - 1) * N + end_pos q"
    "0 < n \<longrightarrow> yq_back q = Some (yslot N cs (begin_pos q) (n - 1))"
  shows "yq_ok N cs n q"
  using assms by (simp add: yq_ok_def)

lemma yq_okD:
  assumes "yq_ok N cs n q"
  shows "distinct cs" "cs \<noteq> []" "cs ! 0 = begin_chunk q" "cs ! (length cs - 1) = end_chunk q"
    "dom (yq_heap q) = set cs \<union> set_option (spare_chunk q)" "set cs \<inter> set_option (spare_chunk q) = {}"
    "linked (yq_heap q) cs" "\<forall>a c. yq_heap q a = Some c \<longrightarrow> length (ch_values c) = N"
    "begin_pos q < N" "end_pos q < N" "begin_pos q + n = (length cs - 1) * N + end_pos q"
    "0 < n \<longrightarrow> yq_back q = Some (yslot N cs (begin_pos q) (n - 1))"
  using assms by (simp_all add: yq_ok_def)

text \<open>Appending the chunk \<open>s\<close>, allocated and not yet in the list, to a full last chunk.\<close>

lemma yq_extend:
  assumes "yq_ok N cs n q" "end_pos q + 1 = N" "s \<notin> set cs" "yq_heap q1 s = Some d"
    "\<And>a. a \<in> set cs \<Longrightarrow> yq_heap q1 a = yq_heap q a" "dom (yq_heap q1) = insert s (set cs) \<union> set_option sp"
    "\<forall>a c. yq_heap q1 a = Some c \<longrightarrow> length (ch_values c) = N" "insert s (set cs) \<inter> set_option sp = {}"
    "q1 = q\<lparr>yq_heap := yq_heap q1, back_chunk := Some (end_chunk q), back_pos := end_pos q, end_pos := N, spare_chunk := sp\<rparr>"
  shows "\<exists>q2. link_chunk (end_chunk q) s q1 = Some q2 \<and> yq_ok N (cs @ [s]) (Suc n) (q2\<lparr>end_chunk := s, end_pos := 0\<rparr>) \<and>
    begin_pos q2 = begin_pos q \<and> yq_back (q2\<lparr>end_chunk := s, end_pos := 0\<rparr>) = Some (yslot N cs (begin_pos q) n) \<and>
    (\<forall>j\<le>n. yq_load (q2\<lparr>end_chunk := s, end_pos := 0\<rparr>) (yslot N cs (begin_pos q) j) = yq_load q (yslot N cs (begin_pos q) j))"
proof -
  let ?e = "cs ! (length cs - 1)"
  have e: "?e \<in> set cs" "end_chunk q = ?e" using assms(1) nth_mem [of "length cs - 1" cs] by (simp_all add: yq_ok_def)
  then obtain ce where ce: "yq_heap q ?e = Some ce" using assms(1) by (force simp: yq_ok_def)
  let ?h = "(yq_heap q1)(?e \<mapsto> ce\<lparr>ch_next := Some s\<rparr>, s \<mapsto> d\<lparr>ch_prev := Some ?e\<rparr>)"
  let ?q2 = "q1\<lparr>yq_heap := ?h\<rparr>"
  let ?q3 = "?q2\<lparr>end_chunk := s, end_pos := 0\<rparr>"
  have es: "?e \<noteq> s" using e(1) assms(3) by auto
  have lk: "link_chunk (end_chunk q) s q1 = Some ?q2"
    using ce assms(4,5) e es by (simp add: link_chunk_def Let_def)
  have "linked (yq_heap q1) cs"
    by (rule linked_cong [of "yq_heap q"]) (use assms(1,5) in \<open>auto simp: yq_ok_def\<close>)
  then have l: "linked ?h (cs @ [s])"
    using linked_snoc [of "yq_heap q1" cs s ce d] assms(1,3,4,5) ce e(1) by (simp add: yq_ok_def)
  have dom: "dom ?h = set (cs @ [s]) \<union> set_option sp" using assms(6) e(1) by auto
  have len: "\<forall>a c. ?h a = Some c \<longrightarrow> length (ch_values c) = N"
    using assms(4,7) assms(5) [OF e(1)] ce by auto
  have f: "begin_chunk q1 = begin_chunk q" "begin_pos q1 = begin_pos q" "spare_chunk q1 = sp"
      "back_chunk q1 = Some (end_chunk q)" "back_pos q1 = end_pos q"
    by (subst assms(9); simp)+
  obtain m where m: "length cs = Suc m" using assms(1) by (cases cs) (auto simp: yq_ok_def)
  have cnt: "begin_pos q + n = m * N + (N - 1)" "0 < N" using assms(1,2) m by (auto simp: yq_ok_def)
  then have "(begin_pos q + n) div N = m" "(begin_pos q + n) mod N = N - 1" using div_mod_last [of "N - 1" N m] by simp_all
  then have sl: "yslot N cs (begin_pos q) n = (?e, N - 1)" by (simp add: yslot_def m)
  have bk: "yq_back ?q3 = Some (yslot N cs (begin_pos q) n)" using f e(2) sl assms(2) by (auto simp: yq_back_def)
  have b: "begin_pos q + n < length cs * N" using yq_bound [OF assms(1)] by simp
  have ends: "(cs @ [s]) ! 0 = begin_chunk q" "(cs @ [s]) ! (length (cs @ [s]) - 1) = s"
    using assms(1) by (auto simp: yq_ok_def nth_append)
  have "yq_ok N (cs @ [s]) (Suc n) ?q3"
  proof (rule yq_okI)
    show "begin_pos ?q3 + Suc n = (length (cs @ [s]) - 1) * N + end_pos ?q3" using cnt m f by simp
    show "0 < Suc n \<longrightarrow> yq_back ?q3 = Some (yslot N (cs @ [s]) (begin_pos ?q3) (Suc n - 1))"
      using bk f yslot_append [OF b, of "[s]"] by simp
  qed (use l dom len ends cnt(2) f yq_okD(1,9) [OF assms(1)] assms(3,8) in \<open>simp_all\<close>)
  moreover have "yq_load ?q3 (yslot N cs (begin_pos q) j) = yq_load q (yslot N cs (begin_pos q) j)" if "j \<le> n" for j
  proof -
    have "(begin_pos q + j) div N < length cs" using yq_bound [OF assms(1) that] less_mult_imp_div_less by simp
    then have "fst (yslot N cs (begin_pos q) j) \<in> set cs" by (simp add: yslot_def)
    then show ?thesis using assms(3,5) ce by (intro yq_load_values) auto
  qed
  ultimately show ?thesis using lk bk f(2) by auto
qed

lemma yq_push_ok:
  assumes "yq_ok N cs n q" "yq_fresh mem q" "length (ch_values blank) = N"
  shows "\<exists>q' ds. yq_push N blank mem q = Some q' \<and> yq_ok N (cs @ ds) (Suc n) q' \<and> begin_pos q' = begin_pos q \<and>
    yq_back q' = Some (yslot N cs (begin_pos q) n) \<and>
    (\<forall>j\<le>n. yq_load q' (yslot N cs (begin_pos q) j) = yq_load q (yslot N cs (begin_pos q) j))"
proof (cases "end_pos q + 1 = N")
  case False
  let ?q = "q\<lparr>back_chunk := Some (end_chunk q), back_pos := end_pos q, end_pos := end_pos q + 1\<rparr>"
  obtain m where m: "length cs = Suc m" using assms(1) by (cases cs) (auto simp: yq_ok_def)
  have "begin_pos q + n = m * N + end_pos q" "end_pos q < N" "cs ! m = end_chunk q"
    using assms(1) m by (auto simp: yq_ok_def)
  then have b: "yq_back ?q = Some (yslot N cs (begin_pos q) n)" by (simp add: yslot_def yq_back_def)
  have "yq_ok N cs (Suc n) ?q" using assms(1) False b by (auto simp: yq_ok_def)
  moreover have "yq_load ?q p = yq_load q p" for p by (simp add: yq_load_def)
  ultimately show ?thesis using False b by (intro exI [of _ ?q] exI [of _ "[]"]) (simp add: yq_push_def)
next
  case full: True
  let ?q1 = "q\<lparr>back_chunk := Some (end_chunk q), back_pos := end_pos q, end_pos := N\<rparr>"
  show ?thesis
  proof (cases "spare_chunk q")
    case (Some sc)
    let ?q2 = "?q1\<lparr>spare_chunk := None\<rparr>"
    have sc: "sc \<notin> set cs" "sc \<in> dom (yq_heap q)" "dom (yq_heap q) = insert sc (set cs)"
      using assms(1) Some by (auto simp: yq_ok_def)
    then obtain d where "yq_heap q sc = Some d" by auto
    then have "\<exists>q3. link_chunk (end_chunk q) sc ?q2 = Some q3 \<and> yq_ok N (cs @ [sc]) (Suc n) (q3\<lparr>end_chunk := sc, end_pos := 0\<rparr>) \<and>
      begin_pos q3 = begin_pos q \<and> yq_back (q3\<lparr>end_chunk := sc, end_pos := 0\<rparr>) = Some (yslot N cs (begin_pos q) n) \<and>
      (\<forall>j\<le>n. yq_load (q3\<lparr>end_chunk := sc, end_pos := 0\<rparr>) (yslot N cs (begin_pos q) j) = yq_load q (yslot N cs (begin_pos q) j))"
      using full sc yq_okD(8) [OF assms(1)] by (intro yq_extend [OF assms(1), where sp = None and d = d]) simp_all
    then show ?thesis using full Some by (auto simp: yq_push_def)
  next
    case None
    obtain a where a: "mem = Some a" "yq_heap q a = None" using assms(2) by (auto simp: yq_fresh_def)
    let ?q2 = "?q1\<lparr>yq_heap := (yq_heap q)(a \<mapsto> blank)\<rparr>"
    have dom: "dom (yq_heap q) = set cs" using assms(1) None by (simp add: yq_ok_def)
    with a(2) have "a \<notin> set cs" by (metis domIff)
    then have "\<exists>q3. link_chunk (end_chunk q) a ?q2 = Some q3 \<and> yq_ok N (cs @ [a]) (Suc n) (q3\<lparr>end_chunk := a, end_pos := 0\<rparr>) \<and>
      begin_pos q3 = begin_pos q \<and> yq_back (q3\<lparr>end_chunk := a, end_pos := 0\<rparr>) = Some (yslot N cs (begin_pos q) n) \<and>
      (\<forall>j\<le>n. yq_load (q3\<lparr>end_chunk := a, end_pos := 0\<rparr>) (yslot N cs (begin_pos q) j) = yq_load q (yslot N cs (begin_pos q) j))"
      using full dom None assms(3) yq_okD(8) [OF assms(1)]
      by (intro yq_extend [OF assms(1), where sp = None and d = blank]) auto
    then show ?thesis using full None a(1) by (auto simp: yq_push_def)
  qed
qed

lemma linked_tl: "linked h (c # cs) \<Longrightarrow> linked h cs"
  unfolding linked_def
proof (intro allI impI)
  fix i assume h: "\<forall>i. Suc i < length (c # cs) \<longrightarrow> (\<exists>a d. h ((c # cs) ! i) = Some a \<and> ch_next a = Some ((c # cs) ! Suc i) \<and>
      h ((c # cs) ! Suc i) = Some d \<and> ch_prev d = Some ((c # cs) ! i))" and "Suc i < length cs"
  then show "\<exists>a d. h (cs ! i) = Some a \<and> ch_next a = Some (cs ! Suc i) \<and> h (cs ! Suc i) = Some d \<and> ch_prev d = Some (cs ! i)"
    using spec [OF h, of "Suc i"] by simp
qed

lemma linked_upd_head:
  assumes "linked h (b # cs)" "distinct (b # cs)" "h b = Some c"
  shows "linked (h(b \<mapsto> c\<lparr>ch_prev := x\<rparr>)) (b # cs)"
  unfolding linked_def
proof (intro allI impI)
  fix i assume i: "Suc i < length (b # cs)"
  then obtain a d where ad: "h ((b # cs) ! i) = Some a" "ch_next a = Some ((b # cs) ! Suc i)"
      "h ((b # cs) ! Suc i) = Some d" "ch_prev d = Some ((b # cs) ! i)" using assms(1) unfolding linked_def by blast
  have "(b # cs) ! Suc i \<noteq> b" using assms(2) i by auto
  then show "\<exists>a d. (h(b \<mapsto> c\<lparr>ch_prev := x\<rparr>)) ((b # cs) ! i) = Some a \<and> ch_next a = Some ((b # cs) ! Suc i) \<and>
      (h(b \<mapsto> c\<lparr>ch_prev := x\<rparr>)) ((b # cs) ! Suc i) = Some d \<and> ch_prev d = Some ((b # cs) ! i)"
    using ad assms(3) by auto
qed

lemma yq_pop_ok:
  assumes "yq_ok N cs (Suc n) q"
  shows "\<exists>q' cs'. yq_pop N q = Some q' \<and> yq_ok N cs' n q' \<and> yq_back q' = yq_back q \<and> dom (yq_heap q') \<subseteq> dom (yq_heap q) \<and>
    (\<forall>k\<le>n. yslot N cs' (begin_pos q') k = yslot N cs (begin_pos q) (Suc k) \<and>
      yq_load q' (yslot N cs (begin_pos q) (Suc k)) = yq_load q (yslot N cs (begin_pos q) (Suc k)))"
proof (cases "begin_pos q + 1 = N")
  case False
  let ?q = "q\<lparr>begin_pos := begin_pos q + 1\<rparr>"
  have bk: "yq_back ?q = yq_back q" by (simp add: yq_back_def)
  have "yq_ok N cs n ?q"
  proof (rule yq_okI)
    show "0 < n \<longrightarrow> yq_back ?q = Some (yslot N cs (begin_pos ?q) (n - 1))"
      using bk yq_okD(12) [OF assms] yslot_Suc [of N cs "begin_pos q" "n - 1"] by auto
  qed (use yq_okD [OF assms] False in simp_all)
  moreover have "yq_load ?q p = yq_load q p" for p by (simp add: yq_load_def)
  ultimately show ?thesis
    using False bk by (intro exI [of _ ?q] exI [of _ cs]) (auto simp: yq_pop_def yslot_Suc)
next
  case last: True
  note D = yq_okD [OF assms]
  have "cs = [] \<or> length cs = 1 \<Longrightarrow> False" using D(2,10,11) last by auto
  then obtain o' b rest where cs: "cs = o' # b # rest" by (cases cs; cases "tl cs") auto
  obtain c where c: "yq_heap q o' = Some c" "ch_next c = Some b" using D(7) cs unfolding linked_def by force
  obtain cb where cb: "yq_heap q b = Some cb" using D(7) cs unfolding linked_def by force
  let ?h = "(yq_heap q)(b \<mapsto> cb\<lparr>ch_prev := None\<rparr>)"
  let ?q = "free_chunk (spare_chunk q) (q\<lparr>yq_heap := ?h, begin_chunk := b, begin_pos := 0, spare_chunk := Some o'\<rparr>)"
  have f: "begin_chunk ?q = b" "begin_pos ?q = 0" "spare_chunk ?q = Some o'" "end_chunk ?q = end_chunk q" "end_pos ?q = end_pos q"
      "back_chunk ?q = back_chunk q" "back_pos ?q = back_pos q"
    by (simp_all add: free_chunk_def split: option.split)
  have h: "yq_heap ?q a = ?h a" if "a \<in> set cs" for a
    using that D(6) by (auto simp: free_chunk_def split: option.split)
  have dom: "dom (yq_heap ?q) = set cs" using D(5,6) cs cb by (auto simp: free_chunk_def split: option.splits)
  have pop: "yq_pop N q = Some ?q" using last c cb D(3) cs by (simp add: yq_pop_def)
  have bk: "yq_back ?q = yq_back q" using f by (simp add: yq_back_def)
  have "linked ?h (b # rest)" using linked_upd_head linked_tl D(1,7) cs cb by (metis distinct.simps(2))
  then have lk: "linked (yq_heap ?q) (b # rest)" by (rule linked_cong) (use h cs in auto)
  have sl: "yslot N (b # rest) 0 k = yslot N cs (begin_pos q) (Suc k)" if "k \<le> n" for k
  proof -
    have "N + k < length cs * N" using yq_bound [OF assms, of "Suc k"] that last by simp
    then show ?thesis using yslot_tl [of N k cs] cs last by auto
  qed
  have len: "\<forall>a c. yq_heap ?q a = Some c \<longrightarrow> length (ch_values c) = N"
  proof (intro allI impI)
    fix a c' assume a: "yq_heap ?q a = Some c'"
    then have "a \<in> set cs" using dom by blast
    with a h have "?h a = Some c'" by metis
    then show "length (ch_values c') = N" using D(8) cb by (auto split: if_splits)
  qed
  have "yq_ok N (b # rest) n ?q"
  proof (rule yq_okI)
    show "begin_pos ?q + n = (length (b # rest) - 1) * N + end_pos ?q" using D(11) last cs f by simp
    show "0 < n \<longrightarrow> yq_back ?q = Some (yslot N (b # rest) (begin_pos ?q) (n - 1))" using bk D(12) sl [of "n - 1"] f by auto
  qed (use D(1,4,9,10) cs f dom lk len in \<open>auto split: if_splits\<close>)
  moreover have "yq_load ?q (yslot N cs (begin_pos q) (Suc k)) = yq_load q (yslot N cs (begin_pos q) (Suc k))" if "k \<le> n" for k
  proof -
    have "fst (yslot N cs (begin_pos q) (Suc k)) \<in> set cs"
      using yq_bound [OF assms, of "Suc k"] that less_mult_imp_div_less by (simp add: yslot_def)
    then show ?thesis using h cb by (intro yq_load_values) auto
  qed
  moreover have "dom (yq_heap ?q) \<subseteq> dom (yq_heap q)" using dom D(5) by auto
  ultimately show ?thesis using pop bk sl f(2) by (intro exI [of _ ?q] exI [of _ "b # rest"]) simp
qed

text \<open>Undoing a \<open>push\<close>: the element before the last becomes the last.\<close>

lemma unpush_back:
  assumes "yq_ok N cs (Suc (Suc n)) q"
  shows "\<exists>b p. (if back_pos q \<noteq> 0 then Some (q\<lparr>back_pos := back_pos q - 1\<rparr>)
            else (case back_chunk q of
                    None \<Rightarrow> None
                  | Some b \<Rightarrow>
                      (case yq_heap q b of
                         None \<Rightarrow> None
                       | Some c \<Rightarrow> Some (q\<lparr>back_pos := N - 1, back_chunk := ch_prev c\<rparr>)))) =
      Some (q\<lparr>back_pos := p, back_chunk := Some b\<rparr>) \<and> (b, p) = yslot N cs (begin_pos q) n"
proof -
  note D = yq_okD [OF assms]
  let ?x = "begin_pos q + n"
  have N: "0 < N" using D(9) by simp
  have bk: "back_chunk q = Some (cs ! (Suc ?x div N))" "back_pos q = Suc ?x mod N"
    using D(12) by (auto simp: yq_back_def yslot_def)
  show ?thesis
  proof (cases "Suc ?x mod N = 0")
    case False
    have "Suc ?x div N = ?x div N" "?x mod N = Suc ?x mod N - 1" using False by (auto simp: div_Suc mod_Suc split: if_splits)
    then show ?thesis using bk False by (auto simp: yslot_def)
  next
    case True
    have i: "Suc ?x div N = Suc (?x div N)" using True by (simp add: div_Suc)
    have m: "?x mod N = N - 1" using True N by (auto simp: mod_Suc split: if_splits)
    have "Suc (?x div N) < length cs"
      using yq_bound [OF assms, of "Suc n"] less_mult_imp_div_less [of "Suc ?x" "length cs" N] i by simp
    then obtain d where "yq_heap q (cs ! Suc (?x div N)) = Some d" "ch_prev d = Some (cs ! (?x div N))"
      using D(7) unfolding linked_def by blast
    then show ?thesis using bk True i m by (auto simp: yslot_def)
  qed
qed

lemma linked_butlast:
  assumes "linked h (cs @ [x])" "distinct (cs @ [x])" "cs \<noteq> []" "h (cs ! (length cs - 1)) = Some c"
  shows "linked (h(x := None, cs ! (length cs - 1) \<mapsto> c\<lparr>ch_next := None\<rparr>)) cs"
  unfolding linked_def
proof (intro allI impI)
  fix i assume i: "Suc i < length cs"
  then obtain a d where ad: "h (cs ! i) = Some a" "ch_next a = Some (cs ! Suc i)" "h (cs ! Suc i) = Some d" "ch_prev d = Some (cs ! i)"
    using assms(1) by (auto simp: linked_def nth_append dest!: spec [of _ i])
  have "cs ! i \<noteq> x" "cs ! Suc i \<noteq> x" "cs ! i \<noteq> cs ! (length cs - 1)"
    using i assms(2) nth_mem [of i cs] nth_mem [of "Suc i" cs] by (auto simp: nth_eq_iff_index_eq)
  with ad assms(4) show "\<exists>a d. (h(x := None, cs ! (length cs - 1) \<mapsto> c\<lparr>ch_next := None\<rparr>)) (cs ! i) = Some a \<and>
      ch_next a = Some (cs ! Suc i) \<and> (h(x := None, cs ! (length cs - 1) \<mapsto> c\<lparr>ch_next := None\<rparr>)) (cs ! Suc i) = Some d \<and>
      ch_prev d = Some (cs ! i)" by auto
qed

lemma yq_unpush_ok:
  assumes "yq_ok N cs (Suc (Suc n)) q"
  shows "\<exists>q' cs'. yq_unpush N q = Some q' \<and> yq_ok N cs' (Suc n) q' \<and> begin_pos q' = begin_pos q \<and>
    yq_back q' = Some (yslot N cs (begin_pos q) n) \<and> dom (yq_heap q') \<subseteq> dom (yq_heap q) \<and>
    (\<forall>k\<le>n. yslot N cs' (begin_pos q) k = yslot N cs (begin_pos q) k \<and>
      yq_load q' (yslot N cs (begin_pos q) k) = yq_load q (yslot N cs (begin_pos q) k))"
proof -
  note D = yq_okD [OF assms]
  obtain b p where bk: "(if back_pos q \<noteq> 0 then Some (q\<lparr>back_pos := back_pos q - 1\<rparr>)
            else (case back_chunk q of
                    None \<Rightarrow> None
                  | Some b \<Rightarrow>
                      (case yq_heap q b of
                         None \<Rightarrow> None
                       | Some c \<Rightarrow> Some (q\<lparr>back_pos := N - 1, back_chunk := ch_prev c\<rparr>)))) =
      Some (q\<lparr>back_pos := p, back_chunk := Some b\<rparr>)" "(b, p) = yslot N cs (begin_pos q) n"
    using unpush_back [OF assms] by blast
  show ?thesis
  proof (cases "end_pos q = 0")
    case False
    let ?q = "q\<lparr>back_pos := p, back_chunk := Some b, end_pos := end_pos q - 1\<rparr>"
    have "yq_ok N cs (Suc n) ?q" by (rule yq_okI) (use D bk(2) False in \<open>simp_all add: yq_back_def\<close>)
    moreover have "yq_load ?q x = yq_load q x" for x by (simp add: yq_load_def)
    ultimately show ?thesis using False bk
      by (intro exI [of _ ?q] exI [of _ cs]) (simp add: yq_unpush_def yq_back_def)
  next
    case True
    have "cs = [] \<or> length cs = 1 \<Longrightarrow> False" using D(2,11) True by auto
    then obtain xs x where cs: "cs = xs @ [x]" "xs \<noteq> []" by (cases cs rule: rev_cases) auto
    let ?e = "xs ! (length xs - 1)"
    have "Suc (length xs - 1) < length cs" "Suc (length xs - 1) = length xs" using cs by auto
    then obtain c d where c: "yq_heap q ?e = Some c" "ch_next c = Some x" "yq_heap q x = Some d" "ch_prev d = Some ?e"
      using D(7) cs unfolding linked_def by (force simp: nth_append dest: spec [of _ "length xs - 1"])
    have x: "end_chunk q = x" "x \<notin> set xs" "?e \<in> set xs" using D(1,4) cs nth_mem [of "length xs - 1" xs] by auto
    let ?h = "(yq_heap q)(x := None, ?e \<mapsto> c\<lparr>ch_next := None\<rparr>)"
    let ?q = "q\<lparr>back_pos := p, back_chunk := Some b, end_pos := N - 1, end_chunk := ?e, yq_heap := ?h\<rparr>"
    have un: "yq_unpush N q = Some ?q"
      unfolding yq_unpush_def bk(1) using True c x by (simp add: free_chunk_def Let_def)
    have N: "0 < N" using D(9) by simp
    have cnt: "Suc (Suc (begin_pos q + n)) = length xs * N" using D(11) True cs by simp
    have sl: "yslot N xs (begin_pos q) k = yslot N cs (begin_pos q) k" if "k \<le> n" for k
      using yslot_append [of "begin_pos q" k xs N "[x]"] cnt that cs by simp
    have "yq_ok N xs (Suc n) ?q"
    proof (rule yq_okI)
      show "begin_pos ?q + Suc n = (length xs - 1) * N + end_pos ?q"
        using cnt N cs(2) by (cases xs) auto
      show "linked (yq_heap ?q) xs" using linked_butlast [of "yq_heap q" xs x c] D(1,7) cs c(1) by simp
      show "0 < Suc n \<longrightarrow> yq_back ?q = Some (yslot N xs (begin_pos ?q) (Suc n - 1))" using bk(2) sl by (simp add: yq_back_def)
      show "dom (yq_heap ?q) = set xs \<union> set_option (spare_chunk ?q)" using D(5,6) cs x by auto
      show "xs ! 0 = begin_chunk ?q" using D(3) cs by (simp add: nth_append)
      show "\<forall>a c. yq_heap ?q a = Some c \<longrightarrow> length (ch_values c) = N" using D(8) c(1) by auto
    qed (use D(1,6,9) cs N in auto)
    moreover have "yq_load ?q (yslot N cs (begin_pos q) k) = yq_load q (yslot N cs (begin_pos q) k)" if "k \<le> n" for k
    proof -
      have "(begin_pos q + k) div N < length xs" using cnt that less_mult_imp_div_less [of "begin_pos q + k" "length xs" N] by simp
      then have "fst (yslot N cs (begin_pos q) k) \<in> set xs" using sl [OF that] by (metis fst_conv nth_mem yslot_def)
      then show ?thesis using x(2) c(1) by (intro yq_load_values) auto
    qed
    ultimately show ?thesis using un sl bk(2) x(3) c
      by (intro exI [of _ ?q] exI [of _ xs]) (auto simp: yq_back_def)
  qed
qed

text \<open>The destructor frees every chunk, the spare one included: nothing is leaked or freed twice.\<close>

lemma free_chunks_path:
  assumes "linked (yq_heap q) (c # cs)" "distinct (c # cs)" "set (c # cs) \<subseteq> dom (yq_heap q)"
  shows "\<exists>q'. free_chunks c ((c # cs) ! length cs) q = Some q' \<and> spare_chunk q' = spare_chunk q \<and>
    yq_heap q' = (\<lambda>a. if a \<in> set (c # cs) then None else yq_heap q a)"
  using assms
proof (induction cs arbitrary: c q)
  case Nil
  then show ?case by (subst free_chunks.simps) (auto simp: free_chunk_def)
next
  case (Cons d ds)
  obtain k where k: "yq_heap q c = Some k" "ch_next k = Some d" using Cons.prems(1) unfolding linked_def by force
  let ?q = "free_chunk (Some c) q"
  have "linked (yq_heap q) (d # ds)" using linked_tl Cons.prems(1) by metis
  then have "linked (yq_heap ?q) (d # ds)"
    by (rule linked_cong) (use Cons.prems(2) in \<open>auto simp: free_chunk_def\<close>)
  then have "\<exists>q'. free_chunks d ((d # ds) ! length ds) ?q = Some q' \<and> spare_chunk q' = spare_chunk ?q \<and>
      yq_heap q' = (\<lambda>a. if a \<in> set (d # ds) then None else yq_heap ?q a)"
    by (rule Cons.IH) (use Cons.prems(2,3) in \<open>auto simp: free_chunk_def\<close>)
  moreover have "c \<noteq> (c # d # ds) ! length (d # ds)" using Cons.prems(2) nth_mem [of "length ds" "d # ds"] by auto
  ultimately show ?case using k by (subst free_chunks.simps) (auto simp: free_chunk_def fun_eq_iff)
qed

lemma yqueue_destroy_ok:
  assumes "yq_ok N cs n q"
  shows "\<exists>q'. yqueue_destroy q = Some q' \<and> yq_heap q' = (\<lambda>_. None)"
proof -
  note D = yq_okD [OF assms]
  obtain c ds where cs: "cs = c # ds" using D(2) by (cases cs) auto
  have "\<exists>q'. free_chunks c ((c # ds) ! length ds) q = Some q' \<and> spare_chunk q' = spare_chunk q \<and>
      yq_heap q' = (\<lambda>a. if a \<in> set (c # ds) then None else yq_heap q a)"
    by (rule free_chunks_path) (use D(1,5,7) cs in auto)
  moreover have "begin_chunk q = c" "end_chunk q = (c # ds) ! length ds" using D(3,4) cs by auto
  ultimately obtain q' where q': "free_chunks (begin_chunk q) (end_chunk q) q = Some q'" "spare_chunk q' = spare_chunk q"
    "yq_heap q' = (\<lambda>a. if a \<in> set cs then None else yq_heap q a)" using cs by auto
  have "yq_heap (free_chunk (spare_chunk q') (q'\<lparr>spare_chunk := None\<rparr>)) a = None" for a
    using D(5) q'(2,3) domIff [of a "yq_heap q"] by (auto simp: free_chunk_def split: option.splits)
  then show ?thesis using q' by (auto simp: yqueue_destroy_def)
qed

end
