(* ===== verification/Ypipe.thy ===== *)
theory Ypipe
  imports Yqueue
begin

text \<open>
  The lock-free pipe of the control channel, \<open>src/control_channel/ypipe.hpp\<close> with \<open>atomic_ptr.hpp\<close>, over
  the chunked queue of theory \<open>Yqueue\<close>. The pointers \<open>r\<close>, \<open>w\<close>, \<open>f\<close>, \<open>c\<close> are addresses of elements; every call
  is one step of its thread, and the two threads meet in \<open>c\<close> only.

  Proved: the pipe refines an abstract pipe, a list of flushed items, the completed and the incomplete
  items behind them, and a flag for a sleeping reader (\<open>pipe_rel\<close>); the recycling of chunks, and with it
  of addresses, does not confuse the comparisons of pointers.
\<close>

section \<open>The pipe\<close>

record 'a ypipe =
  yp_queue :: "'a yqueue"
  yp_w :: ptr
  yp_r :: "ptr option"
  yp_f :: ptr
  yp_c :: "ptr option"

text \<open>\<open>atomic_ptr_t::cas\<close>: the new value and the old one, which is returned.\<close>

definition cas :: "ptr option \<Rightarrow> ptr option \<Rightarrow> ptr option \<Rightarrow> ptr option \<times> ptr option" where
  "cas p cmp val = (if p = cmp then val else p, p)"

definition ypipe_t :: "nat \<Rightarrow> 'a chunk \<Rightarrow> nat \<Rightarrow> nat option \<Rightarrow> 'a ypipe option" where
  "ypipe_t N blank a mem =
     (case yq_push N blank mem (yqueue_t blank a) of
        None \<Rightarrow> None
      | Some q \<Rightarrow>
          (case yq_back q of
             None \<Rightarrow> None
           | Some p \<Rightarrow> Some \<lparr>yp_queue = q, yp_w = p, yp_r = Some p, yp_f = p, yp_c = Some p\<rparr>))"

definition yp_write :: "nat \<Rightarrow> 'a chunk \<Rightarrow> nat option \<Rightarrow> 'a \<Rightarrow> bool \<Rightarrow> 'a ypipe \<Rightarrow> 'a ypipe option" where
  "yp_write N blank mem v incomplete y =
     (case yq_back (yp_queue y) of
        None \<Rightarrow> None
      | Some p \<Rightarrow>
          (case yq_store p v (yp_queue y) of
             None \<Rightarrow> None
           | Some q1 \<Rightarrow>
               (case yq_push N blank mem q1 of
                  None \<Rightarrow> None
                | Some q2 \<Rightarrow>
                    if incomplete then Some (y\<lparr>yp_queue := q2\<rparr>)
                    else map_option (\<lambda>p'. y\<lparr>yp_queue := q2, yp_f := p'\<rparr>) (yq_back q2))))"

definition yp_unwrite :: "nat \<Rightarrow> 'a ypipe \<Rightarrow> ('a ypipe \<times> 'a option) option" where
  "yp_unwrite N y =
     (if yq_back (yp_queue y) = Some (yp_f y) then Some (y, None)
      else (case yq_unpush N (yp_queue y) of
              None \<Rightarrow> None
            | Some q \<Rightarrow>
                (case Option.bind (yq_back q) (yq_load q) of
                   None \<Rightarrow> None
                 | Some v \<Rightarrow> Some (y\<lparr>yp_queue := q\<rparr>, Some v))))"

definition yp_flush :: "'a ypipe \<Rightarrow> 'a ypipe \<times> bool" where
  "yp_flush y =
     (if yp_w y = yp_f y then (y, True)
      else (case cas (yp_c y) (Some (yp_w y)) (Some (yp_f y)) of
              (c', old) \<Rightarrow>
                if old \<noteq> Some (yp_w y) then (y\<lparr>yp_c := Some (yp_f y), yp_w := yp_f y\<rparr>, False)
                else (y\<lparr>yp_c := c', yp_w := yp_f y\<rparr>, True)))"

definition yp_check_read :: "'a ypipe \<Rightarrow> 'a ypipe \<times> bool" where
  "yp_check_read y =
     (if yp_r y \<noteq> Some (yq_front (yp_queue y)) \<and> yp_r y \<noteq> None then (y, True)
      else (case cas (yp_c y) (Some (yq_front (yp_queue y))) None of
              (c', old) \<Rightarrow>
                (y\<lparr>yp_c := c', yp_r := old\<rparr>, \<not> (old = Some (yq_front (yp_queue y)) \<or> old = None))))"

definition yp_read :: "nat \<Rightarrow> 'a ypipe \<Rightarrow> ('a ypipe \<times> 'a option) option" where
  "yp_read N y =
     (case yp_check_read y of
        (y1, ok) \<Rightarrow>
          if \<not> ok then Some (y1, None)
          else (case yq_load (yp_queue y1) (yq_front (yp_queue y1)) of
                  None \<Rightarrow> None
                | Some v \<Rightarrow> map_option (\<lambda>q. (y1\<lparr>yp_queue := q\<rparr>, Some v)) (yq_pop N (yp_queue y1))))"

text \<open>\<open>probe\<close> fails its assertion on an empty pipe.\<close>

definition yp_probe :: "('a \<Rightarrow> bool) \<Rightarrow> 'a ypipe \<Rightarrow> ('a ypipe \<times> bool) option" where
  "yp_probe fn y =
     (case yp_check_read y of
        (y1, ok) \<Rightarrow>
          if \<not> ok then None
          else map_option (\<lambda>v. (y1, fn v)) (yq_load (yp_queue y1) (yq_front (yp_queue y1))))"

section \<open>The abstract pipe\<close>

record 'a apipe =
  flushed :: "'a list"
  complete :: "'a list"
  partial :: "'a list"
  asleep :: bool

definition ap_write :: "'a \<Rightarrow> bool \<Rightarrow> 'a apipe \<Rightarrow> 'a apipe" where
  "ap_write v incomplete a =
     (if incomplete then a\<lparr>partial := partial a @ [v]\<rparr>
      else a\<lparr>complete := complete a @ partial a @ [v], partial := []\<rparr>)"

definition ap_unwrite :: "'a apipe \<Rightarrow> 'a apipe \<times> 'a option" where
  "ap_unwrite a =
     (if partial a = [] then (a, None) else (a\<lparr>partial := butlast (partial a)\<rparr>, Some (partial a ! (length (partial a) - 1))))"

definition ap_flush :: "'a apipe \<Rightarrow> 'a apipe \<times> bool" where
  "ap_flush a =
     (if complete a = [] then (a, True)
      else (a\<lparr>flushed := flushed a @ complete a, complete := [], asleep := False\<rparr>, \<not> asleep a))"

definition ap_read :: "'a apipe \<Rightarrow> 'a apipe \<times> 'a option" where
  "ap_read a = (case flushed a of [] \<Rightarrow> (a\<lparr>asleep := True\<rparr>, None) | x # xs \<Rightarrow> (a\<lparr>flushed := xs\<rparr>, Some x))"

definition ap_items :: "'a apipe \<Rightarrow> 'a list" where
  "ap_items a = flushed a @ complete a @ partial a"

definition pipe_at :: "nat \<Rightarrow> nat list \<Rightarrow> 'a ypipe \<Rightarrow> 'a apipe \<Rightarrow> bool" where
  "pipe_at N cs y a \<longleftrightarrow>
     (let q = yp_queue y; s = yslot N cs (begin_pos q) in
      yq_ok N cs (Suc (length (ap_items a))) q \<and>
      (\<forall>k<length (ap_items a). yq_load q (s k) = Some (ap_items a ! k)) \<and>
      yp_w y = s (length (flushed a)) \<and> yp_f y = s (length (flushed a) + length (complete a)) \<and>
      yp_c y = (if asleep a then None else Some (yp_w y)) \<and> (asleep a \<longrightarrow> flushed a = []) \<and>
      (yp_r y \<noteq> None \<longrightarrow> (\<exists>i\<le>length (flushed a). yp_r y = Some (s i))))"

definition pipe_rel :: "nat \<Rightarrow> 'a ypipe \<Rightarrow> 'a apipe \<Rightarrow> bool" where
  "pipe_rel N y a \<longleftrightarrow> (\<exists>cs. pipe_at N cs y a)"

section \<open>The pipe refines the abstract pipe\<close>

lemma pipe_slot_eq:
  assumes "yq_ok N cs n q" "j \<le> n" "k \<le> n"
  shows "yslot N cs (begin_pos q) j = yslot N cs (begin_pos q) k \<longleftrightarrow> j = k"
  using yslot_inj [OF yq_okD(1) [OF assms(1)] yq_bound [OF assms(1,2)] yq_bound [OF assms(1,3)]] by auto

lemma pipe_back:
  assumes "pipe_at N cs y a"
  shows "yq_back (yp_queue y) = Some (yslot N cs (begin_pos (yp_queue y)) (length (ap_items a)))"
  using assms yq_okD(12) by (fastforce simp: pipe_at_def Let_def)

lemma pipe_atI:
  assumes "yq_ok N cs (Suc (length (ap_items a))) (yp_queue y)" "begin_pos (yp_queue y) = b"
    "\<And>k. k < length (ap_items a) \<Longrightarrow> yq_load (yp_queue y) (yslot N cs b k) = Some (ap_items a ! k)"
    "yp_w y = yslot N cs b (length (flushed a))" "yp_f y = yslot N cs b (length (flushed a) + length (complete a))"
    "yp_c y = (if asleep a then None else Some (yp_w y))" "asleep a \<longrightarrow> flushed a = []"
    "yp_r y \<noteq> None \<Longrightarrow> \<exists>i\<le>length (flushed a). yp_r y = Some (yslot N cs b i)"
  shows "pipe_at N cs y a"
  using assms by (simp add: pipe_at_def)

lemma length_items: "length (ap_items a) = length (flushed a) + length (complete a) + length (partial a)"
  by (simp add: ap_items_def)

lemma ypipe_t_rel:
  assumes "0 < N" "length (ch_values blank) = N" "b \<noteq> a"
  shows "\<exists>y. ypipe_t N blank a (Some b) = Some y \<and>
    pipe_rel N y \<lparr>flushed = [], complete = [], partial = [], asleep = False\<rparr>"
proof -
  let ?q = "yqueue_t blank a"
  have "yq_fresh (Some b) ?q" using assms(3) by (simp add: yq_fresh_def yqueue_t_def)
  from yq_push_ok [OF yqueue_t_ok [OF assms(1,2)] this assms(2)]
  obtain q ds where q: "yq_push N blank (Some b) ?q = Some q" "yq_ok N ([a] @ ds) (Suc 0) q" "begin_pos q = begin_pos ?q"
    "yq_back q = Some (yslot N [a] (begin_pos ?q) 0)" by metis
  have "yslot N [a] 0 0 = yslot N ([a] @ ds) 0 0" using assms(1) by (simp add: yslot_def)
  moreover have "begin_pos ?q = 0" by (simp add: yqueue_t_def)
  ultimately show ?thesis using q
    by (auto simp: ypipe_t_def pipe_rel_def pipe_at_def ap_items_def intro!: exI [of _ "a # ds"])
qed

lemma yp_write_rel:
  assumes "pipe_rel N y a" "yq_fresh mem (yp_queue y)" "length (ch_values blank) = N"
  shows "\<exists>y'. yp_write N blank mem v inc y = Some y' \<and> pipe_rel N y' (ap_write v inc a)"
proof -
  obtain cs where p: "pipe_at N cs y a" using assms(1) by (auto simp: pipe_rel_def)
  let ?q = "yp_queue y" and ?n = "length (ap_items a)" and ?s = "yslot N cs (begin_pos (yp_queue y))"
  have q: "yq_ok N cs (Suc ?n) ?q" and ld: "\<forall>k<?n. yq_load ?q (?s k) = Some (ap_items a ! k)"
    using p by (simp_all add: pipe_at_def Let_def)
  obtain q1 where q1: "yq_store (?s ?n) v ?q = Some q1" "yq_ok N cs (Suc ?n) q1" "begin_pos q1 = begin_pos ?q"
    "dom (yq_heap q1) = dom (yq_heap ?q)"
    "\<forall>j\<le>Suc ?n. yq_load q1 (?s j) = (if j = ?n then Some v else yq_load ?q (?s j))"
    using yq_store_ok [OF q, of ?n v] by auto
  have "yq_fresh mem q1" using assms(2) q1(4) unfolding yq_fresh_def by (metis domIff)
  from yq_push_ok [OF q1(2) this assms(3)] q1(3)
  obtain q2 ds where q2: "yq_push N blank mem q1 = Some q2" "yq_ok N (cs @ ds) (Suc (Suc ?n)) q2"
    "begin_pos q2 = begin_pos ?q" "yq_back q2 = Some (?s (Suc ?n))" "\<forall>j\<le>Suc ?n. yq_load q2 (?s j) = yq_load q1 (?s j)"
    by auto
  have sl: "yslot N (cs @ ds) (begin_pos ?q) k = ?s k" if "k \<le> Suc ?n" for k
    using yslot_append yq_bound [OF q that] by simp
  have it: "ap_items (ap_write v inc a) = ap_items a @ [v]" by (simp add: ap_items_def ap_write_def)
  have ld2: "\<forall>k<Suc ?n. yq_load q2 (?s k) = Some ((ap_items a @ [v]) ! k)"
    using q1(5) q2(5) ld by (auto simp: nth_append less_Suc_eq)
  have len: "?n = length (flushed a) + length (complete a) + length (partial a)" by (rule length_items)
  have w: "yp_w y = ?s (length (flushed a))" "yp_f y = ?s (length (flushed a) + length (complete a))"
    "yp_c y = (if asleep a then None else Some (yp_w y))" "asleep a \<longrightarrow> flushed a = []"
    "yp_r y \<noteq> None \<longrightarrow> (\<exists>i\<le>length (flushed a). yp_r y = Some (?s i))"
    using p by (simp_all add: pipe_at_def Let_def)
  let ?y = "if inc then y\<lparr>yp_queue := q2\<rparr> else y\<lparr>yp_queue := q2, yp_f := ?s (Suc ?n)\<rparr>"
  have "yp_write N blank mem v inc y = Some ?y"
    using pipe_back [OF p] q1(1) q2(1,4) by (simp add: yp_write_def)
  moreover have "pipe_at N (cs @ ds) ?y (ap_write v inc a)"
  proof (rule pipe_atI)
    show "yq_ok N (cs @ ds) (Suc (length (ap_items (ap_write v inc a)))) (yp_queue ?y)" using q2(2) it by simp
    show "begin_pos (yp_queue ?y) = begin_pos ?q" using q2(3) by simp
    show "yq_load (yp_queue ?y) (yslot N (cs @ ds) (begin_pos ?q) k) = Some (ap_items (ap_write v inc a) ! k)"
      if "k < length (ap_items (ap_write v inc a))" for k
      using that ld2 it sl by simp
    show "yp_w ?y = yslot N (cs @ ds) (begin_pos ?q) (length (flushed (ap_write v inc a)))"
      using w(1) sl [of "length (flushed a)"] len by (simp add: ap_write_def)
    show "yp_f ?y = yslot N (cs @ ds) (begin_pos ?q) (length (flushed (ap_write v inc a)) + length (complete (ap_write v inc a)))"
      using w(2) sl [of "length (flushed a) + length (complete a)"] sl [of "Suc ?n"] len by (auto simp: ap_write_def add.assoc)
    show "yp_c ?y = (if asleep (ap_write v inc a) then None else Some (yp_w ?y))" using w(3) by (simp add: ap_write_def)
    show "asleep (ap_write v inc a) \<longrightarrow> flushed (ap_write v inc a) = []" using w(4) by (simp add: ap_write_def)
    show "\<exists>i\<le>length (flushed (ap_write v inc a)). yp_r ?y = Some (yslot N (cs @ ds) (begin_pos ?q) i)" if "yp_r ?y \<noteq> None"
    proof -
      have "yp_r y \<noteq> None" using that by (cases inc) simp_all
      then obtain i where i: "i \<le> length (flushed a)" "yp_r y = Some (?s i)" using w(5) by blast
      then show ?thesis using sl [of i] len by (auto simp: ap_write_def intro!: exI [of _ i])
    qed
  qed
  ultimately show ?thesis by (auto simp: pipe_rel_def)
qed

lemma yp_flush_rel:
  assumes "pipe_rel N y a"
  shows "\<exists>y'. yp_flush y = (y', snd (ap_flush a)) \<and> pipe_rel N y' (fst (ap_flush a)) \<and> yp_queue y' = yp_queue y"
proof -
  obtain cs where p: "pipe_at N cs y a" using assms by (auto simp: pipe_rel_def)
  have "yp_w y = yp_f y \<longleftrightarrow> complete a = []"
    using p pipe_slot_eq [of N cs "Suc (length (ap_items a))" "yp_queue y" "length (flushed a)" "length (flushed a) + length (complete a)"]
    by (auto simp: pipe_at_def Let_def length_items)
  note wf = this
  have it: "ap_items (a\<lparr>flushed := flushed a @ complete a, complete := [], asleep := False\<rparr>) = ap_items a"
    by (simp add: ap_items_def)
  show ?thesis
  proof (cases "complete a = []")
    case True
    with wf p show ?thesis by (auto simp: yp_flush_def ap_flush_def pipe_rel_def)
  next
    case False
    let ?y = "y\<lparr>yp_c := Some (yp_f y), yp_w := yp_f y\<rparr>"
    have "yp_c y = (if asleep a then None else Some (yp_w y))" using p by (simp add: pipe_at_def Let_def)
    then have "yp_flush y = (?y, \<not> asleep a)" using wf False by (simp add: yp_flush_def cas_def)
    moreover have "\<exists>i\<le>length (flushed a) + length (complete a). yp_r y = Some (yslot N cs (begin_pos (yp_queue y)) i)" if "yp_r y \<noteq> None"
      using p that trans_le_add1 unfolding pipe_at_def Let_def by metis
    then have "pipe_at N cs ?y (a\<lparr>flushed := flushed a @ complete a, complete := [], asleep := False\<rparr>)"
      using p by (simp add: pipe_at_def Let_def it)
    ultimately show ?thesis using False by (auto simp: ap_flush_def pipe_rel_def)
  qed
qed

lemma yp_check_read_at:
  assumes "pipe_at N cs y a"
  shows "\<exists>y'. yp_check_read y = (y', flushed a \<noteq> []) \<and> yp_queue y' = yp_queue y \<and>
    pipe_at N cs y' (if flushed a = [] then a\<lparr>asleep := True\<rparr> else a) \<and>
    (flushed a \<noteq> [] \<longrightarrow> (\<exists>i\<le>length (flushed a). 0 < i \<and> yp_r y' = Some (yslot N cs (begin_pos (yp_queue y)) i)))"
proof -
  let ?q = "yp_queue y" and ?s = "yslot N cs (begin_pos (yp_queue y))"
  have q: "yq_ok N cs (Suc (length (ap_items a))) ?q" using assms by (simp add: pipe_at_def Let_def)
  have fr: "yq_front ?q = ?s 0" by (rule yq_front_slot [OF q])
  have eq: "?s i = ?s j \<longleftrightarrow> i = j" if "i \<le> length (flushed a)" "j \<le> length (flushed a)" for i j
    using pipe_slot_eq [OF q, of i j] that by (simp add: length_items)
  have it: "ap_items (a\<lparr>asleep := True\<rparr>) = ap_items a" by (simp add: ap_items_def)
  have w: "yp_w y = ?s (length (flushed a))" "yp_c y = (if asleep a then None else Some (yp_w y))" "asleep a \<longrightarrow> flushed a = []"
    using assms by (simp_all add: pipe_at_def Let_def)
  show ?thesis
  proof (cases "yp_r y \<noteq> Some (?s 0) \<and> yp_r y \<noteq> None")
    case True
    then obtain i where i: "i \<le> length (flushed a)" "yp_r y = Some (?s i)"
      using assms by (auto simp: pipe_at_def Let_def)
    with True have "0 < i" by (cases i) auto
    with True i assms show ?thesis by (auto simp: yp_check_read_def fr)
  next
    case False
    show ?thesis
    proof (cases "flushed a = []")
      case True
      then show ?thesis using False w assms it
        by (cases "asleep a") (auto simp: yp_check_read_def fr cas_def pipe_at_def Let_def)
    next
      case nz: False
      then have "?s (length (flushed a)) \<noteq> ?s 0" using eq [of "length (flushed a)" 0] by simp
      then show ?thesis using False w nz assms
        by (auto simp: yp_check_read_def fr cas_def pipe_at_def Let_def intro!: exI [of _ "length (flushed a)"])
    qed
  qed
qed

lemma yp_read_rel:
  assumes "pipe_rel N y a"
  shows "\<exists>y'. yp_read N y = Some (y', snd (ap_read a)) \<and> pipe_rel N y' (fst (ap_read a)) \<and>
    dom (yq_heap (yp_queue y')) \<subseteq> dom (yq_heap (yp_queue y))"
proof -
  obtain cs where p: "pipe_at N cs y a" using assms by (auto simp: pipe_rel_def)
  let ?q = "yp_queue y" and ?s = "yslot N cs (begin_pos (yp_queue y))"
  obtain y1 where y1: "yp_check_read y = (y1, flushed a \<noteq> [])" "yp_queue y1 = ?q"
    "pipe_at N cs y1 (if flushed a = [] then a\<lparr>asleep := True\<rparr> else a)"
    "flushed a \<noteq> [] \<longrightarrow> (\<exists>i\<le>length (flushed a). 0 < i \<and> yp_r y1 = Some (?s i))"
    using yp_check_read_at [OF p] by blast
  show ?thesis
  proof (cases "flushed a")
    case Nil
    then show ?thesis using y1 by (auto simp: yp_read_def ap_read_def pipe_rel_def)
  next
    case (Cons x xs)
    let ?a = "a\<lparr>flushed := xs\<rparr>"
    have p1: "pipe_at N cs y1 a" using y1(3) Cons by simp
    have it: "ap_items a = x # ap_items ?a" using Cons by (simp add: ap_items_def)
    have q: "yq_ok N cs (Suc (Suc (length (ap_items ?a)))) ?q" and ld: "\<forall>k<length (ap_items a). yq_load ?q (?s k) = Some (ap_items a ! k)"
      using p it by (simp_all add: pipe_at_def Let_def)
    from yq_pop_ok [OF q] obtain q' cs' where q': "yq_pop N ?q = Some q'" "yq_ok N cs' (Suc (length (ap_items ?a))) q'"
      "dom (yq_heap q') \<subseteq> dom (yq_heap ?q)"
      "\<forall>k\<le>Suc (length (ap_items ?a)). yslot N cs' (begin_pos q') k = ?s (Suc k) \<and> yq_load q' (?s (Suc k)) = yq_load ?q (?s (Suc k))"
      by blast
    have v: "yq_load ?q (yq_front ?q) = Some x" using ld it yq_front_slot [OF q] by auto
    obtain i where i: "i \<le> length xs" "yp_r y1 = Some (?s (Suc i))" using y1(4) Cons by (auto simp: gr0_conv_Suc)
    have "pipe_at N cs' (y1\<lparr>yp_queue := q'\<rparr>) ?a"
      using p1 q'(2,4) ld it Cons y1(2) i length_items [of ?a]
      by (auto simp: pipe_at_def Let_def)
    then show ?thesis using y1(1,2) v q'(1,3) Cons by (auto simp: yp_read_def ap_read_def pipe_rel_def)
  qed
qed

lemma yp_unwrite_rel:
  assumes "pipe_rel N y a"
  shows "\<exists>y'. yp_unwrite N y = Some (y', snd (ap_unwrite a)) \<and> pipe_rel N y' (fst (ap_unwrite a))"
proof -
  obtain cs where p: "pipe_at N cs y a" using assms by (auto simp: pipe_rel_def)
  let ?q = "yp_queue y" and ?s = "yslot N cs (begin_pos (yp_queue y))"
  have q: "yq_ok N cs (Suc (length (ap_items a))) ?q" and f: "yp_f y = ?s (length (flushed a) + length (complete a))"
    and ld: "\<forall>k<length (ap_items a). yq_load ?q (?s k) = Some (ap_items a ! k)"
    using p by (simp_all add: pipe_at_def Let_def)
  have bf: "yq_back ?q = Some (yp_f y) \<longleftrightarrow> partial a = []"
    using pipe_back [OF p] f pipe_slot_eq [OF q, of "length (ap_items a)" "length (flushed a) + length (complete a)"]
    by (auto simp: length_items)
  show ?thesis
  proof (cases "partial a" rule: rev_cases)
    case Nil
    then show ?thesis using bf assms by (auto simp: yp_unwrite_def ap_unwrite_def)
  next
    case (snoc ps v)
    let ?a = "a\<lparr>partial := ps\<rparr>"
    have it: "ap_items a = ap_items ?a @ [v]" using snoc by (simp add: ap_items_def)
    have q2: "yq_ok N cs (Suc (Suc (length (ap_items ?a)))) ?q" using q it by simp
    from yq_unpush_ok [OF q2] obtain q' cs' where q': "yq_unpush N ?q = Some q'" "yq_ok N cs' (Suc (length (ap_items ?a))) q'"
      "begin_pos q' = begin_pos ?q" "yq_back q' = Some (?s (length (ap_items ?a)))"
      "\<forall>k\<le>length (ap_items ?a). yslot N cs' (begin_pos ?q) k = ?s k \<and> yq_load q' (?s k) = yq_load ?q (?s k)" by blast
    have v: "yq_load q' (?s (length (ap_items ?a))) = Some v" using q'(5) ld it by simp
    have "yq_load q' (?s k) = Some (ap_items ?a ! k)" if "k < length (ap_items ?a)" for k
      using that q'(5) ld it by (simp add: nth_append)
    then have "pipe_at N cs' (y\<lparr>yp_queue := q'\<rparr>) ?a"
      using p q'(2,3,5) length_items [of ?a] snoc
      by (auto simp: pipe_at_def Let_def)
    then show ?thesis using snoc bf q'(1,4) v by (auto simp: yp_unwrite_def ap_unwrite_def pipe_rel_def)
  qed
qed

section \<open>Runs\<close>

datatype 'a pipe_op = PWrite "nat option" 'a bool | PUnwrite | PFlush | PRead

datatype 'a pipe_out = PDone | PFlag bool | PItem "'a option"

fun yp_exec :: "nat \<Rightarrow> 'a chunk \<Rightarrow> 'a pipe_op \<Rightarrow> 'a ypipe \<Rightarrow> ('a ypipe \<times> 'a pipe_out) option" where
  "yp_exec N blank (PWrite mem v inc) y = map_option (\<lambda>y'. (y', PDone)) (yp_write N blank mem v inc y)"
| "yp_exec N blank PUnwrite y = map_option (\<lambda>(y', v). (y', PItem v)) (yp_unwrite N y)"
| "yp_exec N blank PFlush y = Some (case yp_flush y of (y', b) \<Rightarrow> (y', PFlag b))"
| "yp_exec N blank PRead y = map_option (\<lambda>(y', v). (y', PItem v)) (yp_read N y)"

fun ap_exec :: "'a pipe_op \<Rightarrow> 'a apipe \<Rightarrow> 'a apipe \<times> 'a pipe_out" where
  "ap_exec (PWrite mem v inc) a = (ap_write v inc a, PDone)"
| "ap_exec PUnwrite a = (fst (ap_unwrite a), PItem (snd (ap_unwrite a)))"
| "ap_exec PFlush a = (fst (ap_flush a), PFlag (snd (ap_flush a)))"
| "ap_exec PRead a = (fst (ap_read a), PItem (snd (ap_read a)))"

fun yp_run :: "nat \<Rightarrow> 'a chunk \<Rightarrow> 'a pipe_op list \<Rightarrow> 'a ypipe \<Rightarrow> ('a ypipe \<times> 'a pipe_out list) option" where
  "yp_run N blank [] y = Some (y, [])"
| "yp_run N blank (op # ops) y =
     (case yp_exec N blank op y of
        None \<Rightarrow> None
      | Some (y1, out) \<Rightarrow> map_option (\<lambda>(y2, outs). (y2, out # outs)) (yp_run N blank ops y1))"

fun ap_run :: "'a pipe_op list \<Rightarrow> 'a apipe \<Rightarrow> 'a pipe_out list" where
  "ap_run [] a = []"
| "ap_run (op # ops) a = snd (ap_exec op a) # ap_run ops (fst (ap_exec op a))"

text \<open>\<open>malloc\<close> answers every write with memory that is not in use.\<close>

fun malloc_fresh :: "nat \<Rightarrow> 'a chunk \<Rightarrow> 'a pipe_op list \<Rightarrow> 'a ypipe \<Rightarrow> bool" where
  "malloc_fresh N blank [] y \<longleftrightarrow> True"
| "malloc_fresh N blank (op # ops) y \<longleftrightarrow>
     (case op of PWrite mem v inc \<Rightarrow> yq_fresh mem (yp_queue y) | _ \<Rightarrow> True) \<and>
     (case yp_exec N blank op y of None \<Rightarrow> True | Some (y1, out) \<Rightarrow> malloc_fresh N blank ops y1)"

lemma yp_exec_rel:
  assumes "pipe_rel N y a" "length (ch_values blank) = N"
    "case op of PWrite mem v inc \<Rightarrow> yq_fresh mem (yp_queue y) | _ \<Rightarrow> True"
  shows "\<exists>y'. yp_exec N blank op y = Some (y', snd (ap_exec op a)) \<and> pipe_rel N y' (fst (ap_exec op a))"
proof (cases op)
  case (PWrite mem v inc)
  with assms yp_write_rel [of N y a mem blank v inc] show ?thesis by auto
next
  case PUnwrite
  with yp_unwrite_rel [OF assms(1)] show ?thesis by auto
next
  case PFlush
  with yp_flush_rel [OF assms(1)] show ?thesis by auto
next
  case PRead
  with yp_read_rel [OF assms(1)] show ?thesis by auto
qed

lemma yp_run_rel:
  assumes "pipe_rel N y a" "length (ch_values blank) = N" "malloc_fresh N blank ops y"
  shows "\<exists>y' a'. yp_run N blank ops y = Some (y', ap_run ops a) \<and> pipe_rel N y' a'"
  using assms
proof (induction ops arbitrary: y a)
  case (Cons op ops)
  from Cons.prems(3) have fr: "case op of PWrite mem v inc \<Rightarrow> yq_fresh mem (yp_queue y) | _ \<Rightarrow> True" by simp
  obtain y1 where y1: "yp_exec N blank op y = Some (y1, snd (ap_exec op a))" "pipe_rel N y1 (fst (ap_exec op a))"
    using yp_exec_rel [OF Cons.prems(1,2) fr] by blast
  from Cons.prems(3) y1(1) have "malloc_fresh N blank ops y1" by simp
  from Cons.IH [OF y1(2) Cons.prems(2) this] y1(1) show ?case by fastforce
qed auto

section \<open>Properties\<close>

text \<open>C18. The lock-free pipe refines the abstract one: for any sequence in which the writer's and the reader's
  calls are interleaved, every call returns what the abstract pipe returns (items first in first out, only
  flushed ones, \<open>flush\<close> reporting a sleeping reader exactly when its last read found nothing), no memory
  outside the allocated chunks is touched, and the destructor afterwards frees every chunk.\<close>

theorem ypipe_refines:
  assumes "0 < N" "length (ch_values blank) = N" "b \<noteq> a" "ypipe_t N blank a (Some b) = Some y" "malloc_fresh N blank ops y"
  shows "\<exists>y' q'. yp_run N blank ops y = Some (y', ap_run ops \<lparr>flushed = [], complete = [], partial = [], asleep = False\<rparr>) \<and>
    yqueue_destroy (yp_queue y') = Some q' \<and> yq_heap q' = (\<lambda>_. None)"
proof -
  have "pipe_rel N y \<lparr>flushed = [], complete = [], partial = [], asleep = False\<rparr>"
    using ypipe_t_rel [OF assms(1-3)] assms(4) by auto
  from yp_run_rel [OF this assms(2,5)] obtain y' a' where
    y': "yp_run N blank ops y = Some (y', ap_run ops \<lparr>flushed = [], complete = [], partial = [], asleep = False\<rparr>)" "pipe_rel N y' a'"
    by blast
  then obtain cs where "yq_ok N cs (Suc (length (ap_items a'))) (yp_queue y')" by (auto simp: pipe_rel_def pipe_at_def Let_def)
  from yqueue_destroy_ok [OF this] y'(1) show ?thesis by blast
qed

definition demo_chunk :: "nat chunk" where
  "demo_chunk = \<lparr>ch_values = [0, 0], ch_prev = None, ch_next = None\<rparr>"

lemmas yqueue_exec =
  ypipe_t_def yqueue_t_def yq_push_def yq_back_def yq_fresh_def yp_write_def yq_store_def yp_flush_def cas_def yp_read_def
  yp_check_read_def yq_front_def yq_load_def yq_pop_def link_chunk_def free_chunk_def

theorem ypipe_refines_witness:
  "\<exists>y y' q'. ypipe_t 2 demo_chunk 0 (Some 1) = Some y \<and>
     yp_run 2 demo_chunk [PRead, PWrite (Some 1) 7 False, PFlush, PWrite (Some 2) 8 False, PRead, PFlush, PRead, PRead] y =
       Some (y', [PItem None, PDone, PFlag False, PDone, PItem (Some 7), PFlag True, PItem (Some 8), PItem None]) \<and>
     yqueue_destroy (yp_queue y') = Some q' \<and> yq_heap q' = (\<lambda>_. None)"
proof -
  let ?ops = "[PRead, PWrite (Some 1) 7 False, PFlush, PWrite (Some 2) 8 False, PRead, PFlush, PRead, PRead] :: nat pipe_op list"
  let ?y = "the (ypipe_t 2 demo_chunk 0 (Some 1))"
  have y: "ypipe_t 2 demo_chunk 0 (Some 1) = Some ?y"
    by (simp add: yqueue_exec demo_chunk_def)
  have fr: "malloc_fresh 2 demo_chunk ?ops ?y"
    by (simp add: yqueue_exec demo_chunk_def)
  have r: "ap_run ?ops \<lparr>flushed = [], complete = [], partial = [], asleep = False\<rparr> =
      [PItem None, PDone, PFlag False, PDone, PItem (Some 7), PFlag True, PItem (Some 8), PItem None]"
    by (simp add: ap_write_def ap_flush_def ap_read_def)
  have "\<exists>y' q'. yp_run 2 demo_chunk ?ops ?y = Some (y', ap_run ?ops \<lparr>flushed = [], complete = [], partial = [], asleep = False\<rparr>) \<and>
      yqueue_destroy (yp_queue y') = Some q' \<and> yq_heap q' = (\<lambda>_. None)"
    by (rule ypipe_refines [OF _ _ _ y fr]) (simp_all add: demo_chunk_def)
  from this [unfolded r] y show ?thesis by blast
qed

end
