(* ===== verification/Mailbox.thy ===== *)
theory Mailbox
  imports Ypipe
begin

text \<open>
  Mailboxes between the main thread and the other threads of a worker: \<open>src/control_channel/mailbox.cpp\<close>
  over a pipe and a \<open>signaler.cpp\<close>. Any number of threads send, one receives. \<open>send\<close> holds the mutex while
  it writes and flushes, and signals after it has released it; \<open>recv\<close> is cut at the points where other
  threads can run: after the first read, after the signal has been taken back, and at the wait. An
  eventfd is a counter. \<open>pid\<close> is the process that created the mailbox throughout (no fork).

  Proved, for every pipe with the contract \<open>spsc_pipe\<close> and hence for \<open>ypipe_t\<close>: in every interleaving no
  assertion of the mailbox, the signaler or the pipe fails, commands arrive in the order of the sends,
  none is lost or duplicated, and no wakeup is lost.
\<close>

section \<open>Signaler\<close>

definition signaler_send :: "nat \<Rightarrow> nat" where
  "signaler_send n = n + 1"

text \<open>The descriptor is non-blocking: reading a zero counter fails the assertion.\<close>

definition signaler_recv :: "nat \<Rightarrow> nat option" where
  "signaler_recv n = (if n = 0 then None else if n = 2 then Some 1 else if n = 1 then Some 0 else None)"

datatype wait_rc = Signalled | Timed_out | Interrupted

definition signaler_wait :: "nat \<Rightarrow> wait_rc \<Rightarrow> bool" where
  "signaler_wait n rc \<longleftrightarrow> (rc = Signalled \<longrightarrow> 0 < n) \<and> (rc = Timed_out \<longrightarrow> n = 0)"

section \<open>Mailbox\<close>

text \<open>Where the receiving thread is: outside \<open>recv\<close>, in front of \<open>signaler.recv ()\<close>, or waiting.\<close>

datatype recv_pc = Out | Take_signal | Waiting

record ('p, 'c) mailbox =
  mb_cpipe :: 'p
  mb_active :: bool
  mb_signals :: nat
  mb_pc :: recv_pc
  mb_signalling :: nat
  mb_sent :: "'c list"
  mb_got :: "'c list"

text \<open>\<open>mb_signalling\<close> counts the senders that have left the mutex and still have to signal; \<open>mb_sent\<close> and
  \<open>mb_got\<close> record the commands of the completed critical sections and of the calls of \<open>recv\<close> that returned 0.\<close>

definition mailbox_t :: "('p \<Rightarrow> ('p \<times> 'c option) option) \<Rightarrow> 'p \<Rightarrow> ('p, 'c) mailbox option" where
  "mailbox_t rd p =
     (case rd p of
        Some (p', None) \<Rightarrow>
          Some \<lparr>mb_cpipe = p', mb_active = False, mb_signals = 0, mb_pc = Out, mb_signalling = 0, mb_sent = [], mb_got = []\<rparr>
      | _ \<Rightarrow> None)"

definition mb_send_locked ::
  "(nat option \<Rightarrow> 'c \<Rightarrow> 'p \<Rightarrow> 'p option) \<Rightarrow> ('p \<Rightarrow> 'p \<times> bool) \<Rightarrow> nat option \<Rightarrow> 'c \<Rightarrow> ('p, 'c) mailbox \<Rightarrow>
   ('p, 'c) mailbox option" where
  "mb_send_locked wr fl mem c m =
     (case wr mem c (mb_cpipe m) of
        None \<Rightarrow> None
      | Some p \<Rightarrow>
          (case fl p of
             (p', ok) \<Rightarrow>
               (let m1 = m\<lparr>mb_cpipe := p', mb_sent := mb_sent m @ [c]\<rparr> in
                Some (if ok then m1 else m1\<lparr>mb_signalling := mb_signalling m + 1\<rparr>))))"

definition mb_send_signal :: "('p, 'c) mailbox \<Rightarrow> ('p, 'c) mailbox" where
  "mb_send_signal m = m\<lparr>mb_signalling := mb_signalling m - 1, mb_signals := signaler_send (mb_signals m)\<rparr>"

definition mb_recv_begin :: "('p \<Rightarrow> ('p \<times> 'c option) option) \<Rightarrow> ('p, 'c) mailbox \<Rightarrow> ('p, 'c) mailbox option" where
  "mb_recv_begin rd m =
     (if mb_active m then
        (case rd (mb_cpipe m) of
           None \<Rightarrow> None
         | Some (p, Some c) \<Rightarrow> Some (m\<lparr>mb_cpipe := p, mb_got := mb_got m @ [c]\<rparr>)
         | Some (p, None) \<Rightarrow> Some (m\<lparr>mb_cpipe := p, mb_active := False, mb_pc := Take_signal\<rparr>))
      else Some (m\<lparr>mb_pc := Waiting\<rparr>))"

definition mb_recv_take :: "('p, 'c) mailbox \<Rightarrow> ('p, 'c) mailbox option" where
  "mb_recv_take m = map_option (\<lambda>n. m\<lparr>mb_signals := n, mb_pc := Waiting\<rparr>) (signaler_recv (mb_signals m))"

definition mb_recv_wait ::
  "('p \<Rightarrow> ('p \<times> 'c option) option) \<Rightarrow> wait_rc \<Rightarrow> ('p, 'c) mailbox \<Rightarrow> ('p, 'c) mailbox option" where
  "mb_recv_wait rd rc m =
     (if rc = Signalled then
        (case rd (mb_cpipe m) of
           Some (p, Some c) \<Rightarrow> Some (m\<lparr>mb_cpipe := p, mb_active := True, mb_pc := Out, mb_got := mb_got m @ [c]\<rparr>)
         | _ \<Rightarrow> None)
      else Some (m\<lparr>mb_pc := Out\<rparr>))"

section \<open>Interleavings\<close>

datatype 'c mb_event = Send "nat option" 'c | Signal | Recv_begin | Recv_take | Recv_wait wait_rc

fun mb_enabled :: "(nat option \<Rightarrow> 'p \<Rightarrow> bool) \<Rightarrow> 'c mb_event \<Rightarrow> ('p, 'c) mailbox \<Rightarrow> bool" where
  "mb_enabled room (Send mem c) m \<longleftrightarrow> room mem (mb_cpipe m)"
| "mb_enabled room Signal m \<longleftrightarrow> 0 < mb_signalling m"
| "mb_enabled room Recv_begin m \<longleftrightarrow> mb_pc m = Out"
| "mb_enabled room Recv_take m \<longleftrightarrow> mb_pc m = Take_signal"
| "mb_enabled room (Recv_wait rc) m \<longleftrightarrow> mb_pc m = Waiting \<and> signaler_wait (mb_signals m) rc"

fun mb_exec ::
  "(nat option \<Rightarrow> 'c \<Rightarrow> 'p \<Rightarrow> 'p option) \<Rightarrow> ('p \<Rightarrow> 'p \<times> bool) \<Rightarrow> ('p \<Rightarrow> ('p \<times> 'c option) option) \<Rightarrow>
   'c mb_event \<Rightarrow> ('p, 'c) mailbox \<Rightarrow> ('p, 'c) mailbox option" where
  "mb_exec wr fl rd (Send mem c) m = mb_send_locked wr fl mem c m"
| "mb_exec wr fl rd Signal m = Some (mb_send_signal m)"
| "mb_exec wr fl rd Recv_begin m = mb_recv_begin rd m"
| "mb_exec wr fl rd Recv_take m = mb_recv_take m"
| "mb_exec wr fl rd (Recv_wait rc) m = mb_recv_wait rd rc m"

inductive mb_reach ::
  "(nat option \<Rightarrow> 'p \<Rightarrow> bool) \<Rightarrow> (nat option \<Rightarrow> 'c \<Rightarrow> 'p \<Rightarrow> 'p option) \<Rightarrow> ('p \<Rightarrow> 'p \<times> bool) \<Rightarrow>
   ('p \<Rightarrow> ('p \<times> 'c option) option) \<Rightarrow> ('p, 'c) mailbox \<Rightarrow> ('p, 'c) mailbox \<Rightarrow> bool"
  for room wr fl rd m0 where
  start: "mb_reach room wr fl rd m0 m0"
| event: "mb_reach room wr fl rd m0 m \<Longrightarrow> mb_enabled room ev m \<Longrightarrow> mb_exec wr fl rd ev m = Some m' \<Longrightarrow>
    mb_reach room wr fl rd m0 m'"

section \<open>The contract of the pipe\<close>

definition mb_inv :: "('p \<Rightarrow> 'c apipe \<Rightarrow> bool) \<Rightarrow> ('p, 'c) mailbox \<Rightarrow> bool" where
  "mb_inv rel m \<longleftrightarrow>
     (\<exists>a. rel (mb_cpipe m) a \<and> complete a = [] \<and> partial a = [] \<and> mb_sent m = mb_got m @ flushed a \<and>
        (asleep a \<longrightarrow> flushed a = []) \<and>
        (if mb_active m then mb_pc m = Out \<and> \<not> asleep a \<and> mb_signals m = 1 \<and> mb_signalling m = 0
         else (\<not> asleep a \<longrightarrow> flushed a \<noteq> []) \<and>
           mb_signals m + mb_signalling m + (if asleep a then 1 else 0) = (if mb_pc m = Take_signal then 2 else 1) \<and>
           (mb_pc m = Take_signal \<longrightarrow> 1 \<le> mb_signals m)))"

locale spsc_pipe =
  fixes room :: "nat option \<Rightarrow> 'p \<Rightarrow> bool"
    and wr :: "nat option \<Rightarrow> 'c \<Rightarrow> 'p \<Rightarrow> 'p option"
    and fl :: "'p \<Rightarrow> 'p \<times> bool"
    and rd :: "'p \<Rightarrow> ('p \<times> 'c option) option"
    and rel :: "'p \<Rightarrow> 'c apipe \<Rightarrow> bool"
  assumes write_law: "rel p a \<Longrightarrow> room mem p \<Longrightarrow> \<exists>p'. wr mem c p = Some p' \<and> rel p' (ap_write c False a)"
    and flush_law: "rel p a \<Longrightarrow> \<exists>p'. fl p = (p', snd (ap_flush a)) \<and> rel p' (fst (ap_flush a))"
    and read_law: "rel p a \<Longrightarrow> \<exists>p'. rd p = Some (p', snd (ap_read a)) \<and> rel p' (fst (ap_read a))"
begin

lemma mailbox_init:
  assumes "rel p a" "flushed a = []" "complete a = []" "partial a = []"
  shows "\<exists>m. mailbox_t rd p = Some m \<and> mb_inv rel m"
proof -
  obtain p' where p: "rd p = Some (p', None)" "rel p' (a\<lparr>asleep := True\<rparr>)"
    using read_law [OF assms(1)] assms(2) by (auto simp: ap_read_def)
  then show ?thesis
    using assms(2-4) unfolding mailbox_t_def mb_inv_def by (auto intro!: exI [of _ "a\<lparr>asleep := True\<rparr>"])
qed

lemma send_inv:
  assumes "mb_inv rel m" "room mem (mb_cpipe m)"
  shows "\<exists>m'. mb_send_locked wr fl mem c m = Some m' \<and> mb_inv rel m'"
proof -
  obtain a where a: "rel (mb_cpipe m) a" "complete a = []" "partial a = []" "mb_sent m = mb_got m @ flushed a"
    "asleep a \<longrightarrow> flushed a = []"
    "if mb_active m then mb_pc m = Out \<and> \<not> asleep a \<and> mb_signals m = 1 \<and> mb_signalling m = 0
     else (\<not> asleep a \<longrightarrow> flushed a \<noteq> []) \<and>
       mb_signals m + mb_signalling m + (if asleep a then 1 else 0) = (if mb_pc m = Take_signal then 2 else 1) \<and>
       (mb_pc m = Take_signal \<longrightarrow> 1 \<le> mb_signals m)"
    using assms(1) by (auto simp: mb_inv_def)
  let ?a = "a\<lparr>flushed := flushed a @ [c], asleep := False\<rparr>"
  obtain p1 where p1: "wr mem c (mb_cpipe m) = Some p1" "rel p1 (ap_write c False a)" using write_law a(1) assms(2) by blast
  have fl: "ap_flush (ap_write c False a) = (?a, \<not> asleep a)" using a(2,3) by (simp add: ap_flush_def ap_write_def)
  from flush_law [OF p1(2)] obtain p2 where p2: "fl p1 = (p2, \<not> asleep a)" "rel p2 ?a" by (auto simp: fl)
  let ?m = "m\<lparr>mb_cpipe := p2, mb_sent := mb_sent m @ [c],
    mb_signalling := (if asleep a then mb_signalling m + 1 else mb_signalling m)\<rparr>"
  have "mb_send_locked wr fl mem c m = Some ?m" using p1(1) p2(1) by (simp add: mb_send_locked_def Let_def)
  moreover have "mb_inv rel ?m" unfolding mb_inv_def using a p2(2) by (intro exI [of _ ?a]) (auto split: if_splits)
  ultimately show ?thesis by blast
qed

lemma begin_inv:
  assumes "mb_inv rel m" "mb_pc m = Out"
  shows "\<exists>m'. mb_recv_begin rd m = Some m' \<and> mb_inv rel m'"
proof (cases "mb_active m")
  case True
  then obtain a where a: "rel (mb_cpipe m) a" "complete a = []" "partial a = []" "mb_sent m = mb_got m @ flushed a"
    "\<not> asleep a" "mb_signals m = 1" "mb_signalling m = 0" using assms(1) by (auto simp: mb_inv_def)
  obtain p where p: "rd (mb_cpipe m) = Some (p, snd (ap_read a))" "rel p (fst (ap_read a))" using read_law a(1) by blast
  show ?thesis
  proof (cases "flushed a")
    case Nil
    then have "mb_recv_begin rd m = Some (m\<lparr>mb_cpipe := p, mb_active := False, mb_pc := Take_signal\<rparr>)" (is "_ = Some ?m")
      using True p(1) by (simp add: mb_recv_begin_def ap_read_def)
    moreover have "mb_inv rel ?m" unfolding mb_inv_def
      using Nil a p(2) by (intro exI [of _ "a\<lparr>asleep := True\<rparr>"]) (simp add: ap_read_def)
    ultimately show ?thesis by blast
  next
    case (Cons c cs)
    then have "mb_recv_begin rd m = Some (m\<lparr>mb_cpipe := p, mb_got := mb_got m @ [c]\<rparr>)" (is "_ = Some ?m")
      using True p(1) by (simp add: mb_recv_begin_def ap_read_def)
    moreover have "mb_inv rel ?m" unfolding mb_inv_def
      using Cons True a p(2) assms(2) by (intro exI [of _ "a\<lparr>flushed := cs\<rparr>"]) (simp add: ap_read_def)
    ultimately show ?thesis by blast
  qed
next
  case False
  then have "mb_inv rel (m\<lparr>mb_pc := Waiting\<rparr>)" using assms by (simp add: mb_inv_def)
  then show ?thesis using False by (simp add: mb_recv_begin_def)
qed

lemma take_inv:
  assumes "mb_inv rel m" "mb_pc m = Take_signal"
  shows "\<exists>m'. mb_recv_take m = Some m' \<and> mb_inv rel m'"
proof -
  have na: "\<not> mb_active m" using assms by (auto simp: mb_inv_def)
  obtain a where a: "rel (mb_cpipe m) a" "complete a = []" "partial a = []" "mb_sent m = mb_got m @ flushed a"
    "asleep a \<longrightarrow> flushed a = []" "\<not> asleep a \<longrightarrow> flushed a \<noteq> []" "\<not> mb_active m" "1 \<le> mb_signals m"
    "mb_signals m + mb_signalling m + (if asleep a then 1 else 0) = 2"
    using assms na by (auto simp: mb_inv_def)
  then have "mb_signals m = 1 \<or> mb_signals m = 2" by auto
  then have "mb_recv_take m = Some (m\<lparr>mb_signals := mb_signals m - 1, mb_pc := Waiting\<rparr>)" (is "_ = Some ?m")
    by (auto simp: mb_recv_take_def signaler_recv_def)
  moreover have "mb_inv rel ?m" unfolding mb_inv_def using a by (intro exI [of _ a]) auto
  ultimately show ?thesis by blast
qed

lemma wait_inv:
  assumes "mb_inv rel m" "mb_pc m = Waiting" "signaler_wait (mb_signals m) rc"
  shows "\<exists>m'. mb_recv_wait rd rc m = Some m' \<and> mb_inv rel m'"
proof (cases "rc = Signalled")
  case True
  then have "0 < mb_signals m" using assms(3) by (simp add: signaler_wait_def)
  then obtain a where a: "rel (mb_cpipe m) a" "complete a = []" "partial a = []" "mb_sent m = mb_got m @ flushed a"
    "\<not> asleep a" "flushed a \<noteq> []" "mb_signals m = 1" "mb_signalling m = 0"
    using assms(1,2) by (auto simp: mb_inv_def split: if_splits)
  obtain p where p: "rd (mb_cpipe m) = Some (p, snd (ap_read a))" "rel p (fst (ap_read a))" using read_law a(1) by blast
  obtain c cs where f: "flushed a = c # cs" using a(6) by (cases "flushed a") auto
  then have "mb_recv_wait rd rc m = Some (m\<lparr>mb_cpipe := p, mb_active := True, mb_pc := Out, mb_got := mb_got m @ [c]\<rparr>)"
      (is "_ = Some ?m") using True p(1) by (simp add: mb_recv_wait_def ap_read_def)
  moreover have "mb_inv rel ?m" unfolding mb_inv_def
    using f a p(2) by (intro exI [of _ "a\<lparr>flushed := cs\<rparr>"]) (simp add: ap_read_def)
  ultimately show ?thesis by blast
next
  case False
  have "\<not> mb_active m" using assms(1,2) by (auto simp: mb_inv_def)
  then have "mb_inv rel (m\<lparr>mb_pc := Out\<rparr>)" using assms(1,2) by (simp add: mb_inv_def)
  then show ?thesis using False by (simp add: mb_recv_wait_def)
qed

lemma exec_inv:
  assumes "mb_inv rel m" "mb_enabled room ev m"
  shows "\<exists>m'. mb_exec wr fl rd ev m = Some m' \<and> mb_inv rel m'"
proof (cases ev)
  case Signal
  with assms show ?thesis by (auto simp: mb_send_signal_def signaler_send_def mb_inv_def split: if_splits)
qed (use assms send_inv begin_inv take_inv wait_inv in auto)

lemma reach_inv:
  assumes "mb_reach room wr fl rd m0 m" "mb_inv rel m0"
  shows "mb_inv rel m"
  using assms
proof (induction rule: mb_reach.induct)
  case (event m ev m')
  then show ?case using exec_inv by fastforce
qed

lemma no_lost_wakeup:
  assumes "mb_inv rel m" "mb_pc m = Waiting" "mb_signals m = 0" "mb_signalling m = 0"
  shows "mb_got m = mb_sent m"
  using assms by (auto simp: mb_inv_def split: if_splits)

end

section \<open>The command pipe keeps the contract\<close>

definition command_pipe_granularity :: nat where "command_pipe_granularity = 16"

definition cp_write :: "'c chunk \<Rightarrow> nat option \<Rightarrow> 'c \<Rightarrow> 'c ypipe \<Rightarrow> 'c ypipe option" where
  "cp_write blank mem c = yp_write command_pipe_granularity blank mem c False"

definition cp_read :: "'c ypipe \<Rightarrow> ('c ypipe \<times> 'c option) option" where
  "cp_read = yp_read command_pipe_granularity"

definition cp_room :: "nat option \<Rightarrow> 'c ypipe \<Rightarrow> bool" where
  "cp_room mem y = yq_fresh mem (yp_queue y)"

definition cp_rel :: "'c chunk \<Rightarrow> 'c ypipe \<Rightarrow> 'c apipe \<Rightarrow> bool" where
  "cp_rel blank y a \<longleftrightarrow> length (ch_values blank) = command_pipe_granularity \<and> pipe_rel command_pipe_granularity y a"

interpretation cpipe: spsc_pipe cp_room "cp_write blank" yp_flush cp_read "cp_rel blank" for blank
proof
  fix p a mem c
  assume "cp_rel blank p a" "cp_room mem p"
  then show "\<exists>p'. cp_write blank mem c p = Some p' \<and> cp_rel blank p' (ap_write c False a)"
    using yp_write_rel by (fastforce simp: cp_rel_def cp_room_def cp_write_def)
next
  fix p a assume "cp_rel blank p a"
  then show "\<exists>p'. yp_flush p = (p', snd (ap_flush a)) \<and> cp_rel blank p' (fst (ap_flush a))"
    using yp_flush_rel by (fastforce simp: cp_rel_def)
next
  fix p a assume "cp_rel blank p a"
  then show "\<exists>p'. cp_read p = Some (p', snd (ap_read a)) \<and> cp_rel blank p' (fst (ap_read a))"
    using yp_read_rel by (fastforce simp: cp_rel_def cp_read_def)
qed

lemma mailbox_start:
  assumes "length (ch_values blank) = command_pipe_granularity" "b \<noteq> a"
  shows "\<exists>y m. ypipe_t command_pipe_granularity blank a (Some b) = Some y \<and> mailbox_t cp_read y = Some m \<and>
    mb_inv (cp_rel blank) m"
proof -
  obtain y where y: "ypipe_t command_pipe_granularity blank a (Some b) = Some y"
    "pipe_rel command_pipe_granularity y \<lparr>flushed = [], complete = [], partial = [], asleep = False\<rparr>"
    using ypipe_t_rel [of command_pipe_granularity blank b a] assms by (auto simp: command_pipe_granularity_def)
  then have "cp_rel blank y \<lparr>flushed = [], complete = [], partial = [], asleep = False\<rparr>" using assms(1) by (simp add: cp_rel_def)
  from cpipe.mailbox_init [OF this] y(1) show ?thesis by auto
qed

section \<open>Properties\<close>

text \<open>C5. Mailboxes are reliable and live in every interleaving of any number of senders with the receiver: a
  step never fails an assertion nor touches memory outside the queue's chunks; the commands received are
  the first commands sent, in order; and a receiver that waits with no signal in sight has received
  everything that was sent.\<close>

theorem mailbox_reliable:
  assumes "length (ch_values blank) = command_pipe_granularity" "b \<noteq> a"
    "ypipe_t command_pipe_granularity blank a (Some b) = Some y" "mailbox_t cp_read y = Some m0"
    "mb_reach cp_room (cp_write blank) yp_flush cp_read m0 m"
  shows "(\<forall>ev. mb_enabled cp_room ev m \<longrightarrow> (\<exists>m'. mb_exec (cp_write blank) yp_flush cp_read ev m = Some m')) \<and>
    (\<exists>rest. mb_sent m = mb_got m @ rest) \<and>
    (mb_pc m = Waiting \<and> mb_signals m = 0 \<and> mb_signalling m = 0 \<longrightarrow> mb_got m = mb_sent m)"
proof -
  have "mb_inv (cp_rel blank) m0" using mailbox_start [OF assms(1,2)] assms(3,4) by auto
  from cpipe.reach_inv [OF assms(5) this] have inv: "mb_inv (cp_rel blank) m" .
  then have "\<exists>rest. mb_sent m = mb_got m @ rest" by (auto simp: mb_inv_def)
  then show ?thesis using cpipe.exec_inv [OF inv] cpipe.no_lost_wakeup [OF inv] by blast
qed

definition demo_command_chunk :: "nat chunk" where
  "demo_command_chunk = \<lparr>ch_values = replicate 16 0, ch_prev = None, ch_next = None\<rparr>"

theorem mailbox_reliable_witness:
  "\<exists>m0 m. (\<exists>y. ypipe_t command_pipe_granularity demo_command_chunk 0 (Some 1) = Some y \<and> mailbox_t cp_read y = Some m0) \<and>
     mb_reach cp_room (cp_write demo_command_chunk) yp_flush cp_read m0 m \<and> mb_sent m = [5] \<and> mb_signalling m = 1 \<and>
     (\<exists>m'. mb_exec (cp_write demo_command_chunk) yp_flush cp_read Signal m = Some m')"
proof -
  have len: "length (ch_values demo_command_chunk) = command_pipe_granularity"
    by (simp add: demo_command_chunk_def command_pipe_granularity_def)
  obtain y m0 where y: "ypipe_t command_pipe_granularity demo_command_chunk 0 (Some 1) = Some y" "mailbox_t cp_read y = Some m0"
    "mb_inv (cp_rel demo_command_chunk) m0"
    using mailbox_start [OF len, of 1 0] by auto
  have y_eq: "y = the (ypipe_t command_pipe_granularity demo_command_chunk 0 (Some 1))" using y(1) by simp
  have m0: "m0 = the (mailbox_t cp_read y)" using y(2) by simp
  obtain m where m: "mb_exec (cp_write demo_command_chunk) yp_flush cp_read (Send (Some 1) 5) m0 = Some m" "mb_signalling m = 1" "mb_sent m = [5]"
    unfolding m0 y_eq
    by (simp add: mailbox_t_def cp_read_def cp_write_def mb_send_locked_def yqueue_exec demo_command_chunk_def
        command_pipe_granularity_def)
  have "mb_enabled cp_room (Send (Some 1) 5) m0"
    unfolding m0 y_eq
    by (simp add: mailbox_t_def cp_read_def cp_room_def yqueue_exec demo_command_chunk_def command_pipe_granularity_def)
  then have r: "mb_reach cp_room (cp_write demo_command_chunk) yp_flush cp_read m0 m"
    using m(1) by (rule mb_reach.event [OF mb_reach.start])
  have "mb_enabled cp_room Signal m" using m(2) by simp
  then have "\<exists>m'. mb_exec (cp_write demo_command_chunk) yp_flush cp_read Signal m = Some m'"
    using mailbox_reliable [OF len _ y(1,2) r] by blast
  with y(1,2) r m(2,3) show ?thesis by blast
qed

end
