(* ===== verification/Worker.thy ===== *)
theory Worker
  imports Prelude
begin

text \<open>
  The life of a worker: \<open>Worker::Start\<close> (\<open>src/thread/worker.hpp\<close>) and \<open>ThreadBase\<close> (\<open>src/thread/thread.cpp\<close>).
  The main thread creates the threads, waits for each to be ready, lets them run, serves their backup
  requests while it polls them, and finally has them clean up one after the other. Threads and main
  thread talk through two mailboxes per thread, here queues (theory \<open>Mailbox\<close> proves that mailboxes are
  reliable queues); every send, receive or poll is one step. What a thread does in its main handler is
  left open but for the backups a compute thread may request there. Threads are numbered in the order in
  which the main thread treats them: 0 is the thread towards the upstream, then the compute threads, then
  the thread towards the downstream, if there is one. \<open>T_dead\<close> and \<open>W_dead\<close> are failed assertions on the type of
  a command.

  Proved: no assertion ever fails; when a compute thread continues after a backup, its item has been
  handed to the backup client; and from every reachable state the worker can run to its end.
\<close>

section \<open>Commands and threads\<close>

datatype cmd_type = Ct_any | Ct_ready | Ct_clean | Ct_finish | Ct_backup | Ct_more | Ct_done

record 'b command =
  c_type :: cmd_type
  c_item :: "'b option"

definition cmd_of :: "cmd_type \<Rightarrow> 'b command" where
  "cmd_of t = \<lparr>c_type = t, c_item = None\<rparr>"

datatype thread_pc =
    T_new | T_init | T_wait_ready | T_main | T_wait_backup | T_wait_clean | T_finish | T_end | T_dead

text \<open>\<open>t_out\<close> is \<open>thread_to_main_\<close>, \<open>t_in\<close> is \<open>main_to_thread_\<close>; \<open>t_asked\<close> records the backups requested.\<close>

record 'b thread =
  t_pc :: thread_pc
  t_compute :: bool
  t_out :: "'b command list"
  t_in :: "'b command list"
  t_asked :: "'b list"

definition ThreadBase :: "bool \<Rightarrow> 'b thread" where
  "ThreadBase compute = \<lparr>t_pc = T_new, t_compute = compute, t_out = [], t_in = [], t_asked = []\<rparr>"

definition NotifyWorker :: "'b command \<Rightarrow> 'b thread \<Rightarrow> 'b thread" where
  "NotifyWorker c t = t\<lparr>t_out := t_out t @ [c]\<rparr>"

definition NotifyThread :: "cmd_type \<Rightarrow> 'b thread \<Rightarrow> 'b thread" where
  "NotifyThread ty t = t\<lparr>t_in := t_in t @ [cmd_of ty]\<rparr>"

text \<open>\<open>WaitWorker (type, true)\<close>, then \<open>next\<close>; \<open>None\<close> while the mailbox is empty.\<close>

definition WaitWorker :: "cmd_type \<Rightarrow> thread_pc \<Rightarrow> 'b thread \<Rightarrow> 'b thread option" where
  "WaitWorker ty nxt t =
     (case t_in t of
        [] \<Rightarrow> None
      | c # cs \<Rightarrow> Some (t\<lparr>t_in := cs, t_pc := (if c_type c = ty then nxt else T_dead)\<rparr>))"

text \<open>\<open>thread_fun\<close>, one step. In the main handler the thread asks for a backup of \<open>b\<close> (\<open>Some b\<close>) or ends (\<open>None\<close>).\<close>

definition thread_fun :: "'b option \<Rightarrow> 'b thread \<Rightarrow> 'b thread option" where
  "thread_fun choice t =
     (case t_pc t of
        T_init \<Rightarrow> Some ((NotifyWorker (cmd_of Ct_ready) t)\<lparr>t_pc := T_wait_ready\<rparr>)
      | T_wait_ready \<Rightarrow> WaitWorker Ct_ready T_main t
      | T_main \<Rightarrow>
          (case choice of
             Some b \<Rightarrow>
               if t_compute t
               then Some ((NotifyWorker \<lparr>c_type = Ct_backup, c_item = Some b\<rparr> t)
                            \<lparr>t_pc := T_wait_backup, t_asked := t_asked t @ [b]\<rparr>)
               else None
           | None \<Rightarrow> Some ((NotifyWorker (cmd_of Ct_finish) t)\<lparr>t_pc := T_wait_clean\<rparr>))
      | T_wait_backup \<Rightarrow> WaitWorker Ct_backup T_main t
      | T_wait_clean \<Rightarrow> WaitWorker Ct_clean T_finish t
      | T_finish \<Rightarrow> Some ((NotifyWorker (cmd_of Ct_finish) t)\<lparr>t_pc := T_end\<rparr>)
      | _ \<Rightarrow> None)"

section \<open>The main thread\<close>

datatype worker_pc =
    W_create nat | W_await nat | W_go nat | W_poll nat | W_down | W_clean nat | W_last nat | W_join nat | W_done | W_dead

text \<open>\<open>w_polled\<close> is \<open>num_compute_thread_ + 1\<close>, \<open>w_down\<close> whether there is a \<open>down_thread_\<close>; \<open>w_saved\<close> records the calls
  of \<open>MakeBackup\<close> with the thread that asked.\<close>

record 'b worker =
  w_pc :: worker_pc
  w_polled :: nat
  w_down :: bool
  w_stop :: nat
  w_threads :: "nat \<Rightarrow> 'b thread"
  w_saved :: "(nat \<times> 'b) list"

definition w_count :: "'b worker \<Rightarrow> nat" where
  "w_count w = w_polled w + (if w_down w then 1 else 0)"

definition new_Worker :: "nat \<Rightarrow> bool \<Rightarrow> 'b worker" where
  "new_Worker n down =
     \<lparr>w_pc = W_create 0, w_polled = n + 1, w_down = down, w_stop = 0,
      w_threads = (\<lambda>i. ThreadBase (0 < i \<and> i \<le> n)), w_saved = []\<rparr>"

definition upd_thread :: "nat \<Rightarrow> ('b thread \<Rightarrow> 'b thread) \<Rightarrow> 'b worker \<Rightarrow> 'b worker" where
  "upd_thread i f w = w\<lparr>w_threads := (w_threads w)(i := f (w_threads w i))\<rparr>"

text \<open>\<open>WaitThread (type)\<close>: takes the next command of thread \<open>i\<close>, which must be of this type; \<open>None\<close> while there is none.\<close>

definition WaitThread :: "nat \<Rightarrow> cmd_type \<Rightarrow> worker_pc \<Rightarrow> 'b worker \<Rightarrow> 'b worker option" where
  "WaitThread i ty nxt w =
     (case t_out (w_threads w i) of
        [] \<Rightarrow> None
      | c # cs \<Rightarrow>
          Some ((upd_thread i (\<lambda>t. t\<lparr>t_out := cs\<rparr>) w)\<lparr>w_pc := (if c_type c = ty then nxt else W_dead)\<rparr>))"

definition next_poll :: "nat \<Rightarrow> 'b worker \<Rightarrow> worker_pc" where
  "next_poll i w =
     (if i + 1 < w_polled w then W_poll (i + 1)
      else if w_stop w = w_polled w then (if w_down w then W_down else W_clean 0)
      else W_poll 0)"

text \<open>One non-blocking \<open>WaitThread (&cmd, false)\<close> of the loop with its case analysis; thread 0 gets no answer to a
  backup.\<close>

definition poll_thread :: "nat \<Rightarrow> 'b worker \<Rightarrow> 'b worker" where
  "poll_thread i w =
     (case t_out (w_threads w i) of
        [] \<Rightarrow> w\<lparr>w_pc := next_poll i w\<rparr>
      | c # cs \<Rightarrow>
          (let w1 = upd_thread i (\<lambda>t. t\<lparr>t_out := cs\<rparr>) w in
           if c_type c = Ct_finish then
             (let w2 = w1\<lparr>w_stop := w_stop w + 1\<rparr> in w2\<lparr>w_pc := next_poll i w2\<rparr>)
           else if c_type c = Ct_backup then
             (let w2 = w1\<lparr>w_saved := w_saved w @ (case c_item c of None \<Rightarrow> [] | Some b \<Rightarrow> [(i, b)])\<rparr>;
                  w3 = (if i = 0 then w2 else upd_thread i (NotifyThread Ct_backup) w2)
              in w3\<lparr>w_pc := next_poll i w3\<rparr>)
           else w1\<lparr>w_pc := W_dead\<rparr>))"

definition Start :: "'b worker \<Rightarrow> 'b worker option" where
  "Start w =
     (let n = w_count w in
      case w_pc w of
        W_create i \<Rightarrow> Some ((upd_thread i (\<lambda>t. t\<lparr>t_pc := T_init\<rparr>) w)\<lparr>w_pc := W_await i\<rparr>)
      | W_await i \<Rightarrow> WaitThread i Ct_ready (if i + 1 < n then W_create (i + 1) else W_go 0) w
      | W_go i \<Rightarrow>
          Some ((upd_thread i (NotifyThread Ct_ready) w)\<lparr>w_pc := (if i + 1 < n then W_go (i + 1) else W_poll 0)\<rparr>)
      | W_poll i \<Rightarrow> Some (poll_thread i w)
      | W_down \<Rightarrow> WaitThread (w_polled w) Ct_finish (W_clean 0) w
      | W_clean i \<Rightarrow> Some ((upd_thread i (NotifyThread Ct_clean) w)\<lparr>w_pc := W_last i\<rparr>)
      | W_last i \<Rightarrow> WaitThread i Ct_finish (if i + 1 < n then W_clean (i + 1) else W_join 0) w
      | W_join i \<Rightarrow>
          if t_pc (w_threads w i) = T_end then Some (w\<lparr>w_pc := (if i + 1 < n then W_join (i + 1) else W_done)\<rparr>) else None
      | W_done \<Rightarrow> None
      | W_dead \<Rightarrow> None)"

inductive worker_step :: "'b worker \<Rightarrow> 'b worker \<Rightarrow> bool" where
  main: "Start w = Some w' \<Longrightarrow> worker_step w w'"
| thread: "i < w_count w \<Longrightarrow> thread_fun choice (w_threads w i) = Some t \<Longrightarrow>
    worker_step w (w\<lparr>w_threads := (w_threads w)(i := t)\<rparr>)"

inductive_cases worker_stepE: "worker_step w w'"

section \<open>The invariant\<close>

text \<open>How far the main thread has got with a thread.\<close>

datatype view = V_new | V_await | V_ready | V_run | V_fin | V_clean | V_end

fun thread_ok :: "view \<Rightarrow> 'b thread \<Rightarrow> bool" where
  "thread_ok V_new t \<longleftrightarrow> t_pc t = T_new \<and> t_out t = [] \<and> t_in t = []"
| "thread_ok V_await t \<longleftrightarrow> t_in t = [] \<and> (t_pc t = T_init \<and> t_out t = [] \<or> t_pc t = T_wait_ready \<and> t_out t = [cmd_of Ct_ready])"
| "thread_ok V_ready t \<longleftrightarrow> t_pc t = T_wait_ready \<and> t_out t = [] \<and> t_in t = []"
| "thread_ok V_run t \<longleftrightarrow>
     t_pc t = T_wait_ready \<and> t_out t = [] \<and> t_in t = [cmd_of Ct_ready] \<or>
     t_pc t = T_main \<and> t_out t = [] \<and> t_in t = [] \<or>
     t_compute t \<and> t_pc t = T_wait_backup \<and> t_out t = [] \<and> t_in t = [cmd_of Ct_backup] \<or>
     t_compute t \<and> t_pc t = T_wait_backup \<and> t_in t = [] \<and>
       (\<exists>bs b. t_asked t = bs @ [b] \<and> t_out t = [\<lparr>c_type = Ct_backup, c_item = Some b\<rparr>]) \<or>
     t_pc t = T_wait_clean \<and> t_out t = [cmd_of Ct_finish] \<and> t_in t = []"
| "thread_ok V_fin t \<longleftrightarrow> t_pc t = T_wait_clean \<and> t_out t = [] \<and> t_in t = []"
| "thread_ok V_clean t \<longleftrightarrow>
     t_pc t = T_wait_clean \<and> t_out t = [] \<and> t_in t = [cmd_of Ct_clean] \<or>
     t_pc t = T_finish \<and> t_out t = [] \<and> t_in t = [] \<or>
     t_pc t = T_end \<and> t_out t = [cmd_of Ct_finish] \<and> t_in t = []"
| "thread_ok V_end t \<longleftrightarrow> t_pc t = T_end \<and> t_out t = [] \<and> t_in t = []"

text \<open>The backups of a thread that have not been saved yet.\<close>

definition unsaved :: "'b thread \<Rightarrow> 'b list" where
  "unsaved t = concat (map (\<lambda>c. case c_item c of None \<Rightarrow> [] | Some b \<Rightarrow> [b]) (t_out t))"

definition saved_of :: "nat \<Rightarrow> 'b worker \<Rightarrow> 'b list" where
  "saved_of i w = map snd (filter (\<lambda>p. fst p = i) (w_saved w))"

fun view_of :: "'b worker \<Rightarrow> nat set \<Rightarrow> worker_pc \<Rightarrow> nat \<Rightarrow> view" where
  "view_of w F (W_create k) i = (if i < k then V_ready else V_new)"
| "view_of w F (W_await k) i = (if i < k then V_ready else if i = k then V_await else V_new)"
| "view_of w F (W_go k) i = (if i < k then V_run else V_ready)"
| "view_of w F (W_poll k) i = (if i \<in> F then V_fin else V_run)"
| "view_of w F W_down i = (if i < w_polled w then V_fin else V_run)"
| "view_of w F (W_clean k) i = (if i < k then V_end else V_fin)"
| "view_of w F (W_last k) i = (if i < k then V_end else if i = k then V_clean else V_fin)"
| "view_of w F _ i = V_end"

fun pc_ok :: "'b worker \<Rightarrow> nat set \<Rightarrow> worker_pc \<Rightarrow> bool" where
  "pc_ok w F (W_create k) \<longleftrightarrow> k < w_count w \<and> w_stop w = 0"
| "pc_ok w F (W_await k) \<longleftrightarrow> k < w_count w \<and> w_stop w = 0"
| "pc_ok w F (W_go k) \<longleftrightarrow> k < w_count w \<and> w_stop w = 0"
| "pc_ok w F (W_poll k) \<longleftrightarrow> k < w_polled w \<and> F \<subseteq> {..<w_polled w} \<and> w_stop w = card F"
| "pc_ok w F W_down \<longleftrightarrow> w_down w"
| "pc_ok w F (W_clean k) \<longleftrightarrow> k < w_count w"
| "pc_ok w F (W_last k) \<longleftrightarrow> k < w_count w"
| "pc_ok w F (W_join k) \<longleftrightarrow> k < w_count w"
| "pc_ok w F W_done \<longleftrightarrow> True"
| "pc_ok w F W_dead \<longleftrightarrow> False"

definition worker_inv :: "'b worker \<Rightarrow> bool" where
  "worker_inv w \<longleftrightarrow>
     0 < w_polled w \<and> (\<forall>i. t_compute (w_threads w i) \<longleftrightarrow> 0 < i \<and> i < w_polled w) \<and>
     (\<exists>F. pc_ok w F (w_pc w) \<and> (\<forall>i<w_count w. thread_ok (view_of w F (w_pc w) i) (w_threads w i))) \<and>
     (\<forall>i<w_count w. t_asked (w_threads w i) = saved_of i w @ unsaved (w_threads w i))"

lemma worker_invI:
  assumes "0 < w_polled w" "\<And>i. t_compute (w_threads w i) \<longleftrightarrow> 0 < i \<and> i < w_polled w" "pc_ok w F (w_pc w)"
    "\<And>i. i < w_count w \<Longrightarrow> thread_ok (view_of w F (w_pc w) i) (w_threads w i)"
    "\<And>i. i < w_count w \<Longrightarrow> t_asked (w_threads w i) = saved_of i w @ unsaved (w_threads w i)"
  shows "worker_inv w"
  unfolding worker_inv_def using assms by blast

lemma worker_invD:
  assumes "worker_inv w"
  shows "0 < w_polled w" "t_compute (w_threads w i) \<longleftrightarrow> 0 < i \<and> i < w_polled w"
    "i < w_count w \<Longrightarrow> t_asked (w_threads w i) = saved_of i w @ unsaved (w_threads w i)"
  using assms by (auto simp: worker_inv_def)

lemma new_Worker_inv: "worker_inv (new_Worker n down)"
  by (auto simp: worker_inv_def new_Worker_def ThreadBase_def w_count_def saved_of_def unsaved_def)

lemma thread_fun_ok:
  assumes "thread_ok v t" "thread_fun ch t = Some t'"
  shows "thread_ok v t' \<and> t_compute t' = t_compute t \<and> (t_asked t = s @ unsaved t \<longrightarrow> t_asked t' = s @ unsaved t')"
proof (cases "t_pc t")
  case T_init
  with assms show ?thesis by (cases v) (auto simp: thread_fun_def NotifyWorker_def cmd_of_def unsaved_def)
next
  case T_wait_ready
  with assms have r: "v = V_run" "t_out t = []" "t_in t = [cmd_of Ct_ready]"
    by (cases v; simp add: thread_fun_def WaitWorker_def)+
  have "t' = t\<lparr>t_in := [], t_pc := T_main\<rparr>" using assms(2) T_wait_ready r(3) by (simp add: thread_fun_def WaitWorker_def cmd_of_def)
  then show ?thesis using r by (simp add: unsaved_def)
next
  case T_main
  with assms(1) have r: "v = V_run" "t_out t = []" "t_in t = []" by (cases v; simp)+
  show ?thesis
  proof (cases ch)
    case None
    then have "t' = t\<lparr>t_out := [cmd_of Ct_finish], t_pc := T_wait_clean\<rparr>"
      using assms(2) T_main r by (simp add: thread_fun_def NotifyWorker_def)
    then show ?thesis using r by (simp add: unsaved_def cmd_of_def)
  next
    case (Some b)
    then have "t_compute t" "t' = t\<lparr>t_out := [\<lparr>c_type = Ct_backup, c_item = Some b\<rparr>], t_pc := T_wait_backup, t_asked := t_asked t @ [b]\<rparr>"
      using assms(2) T_main r by (simp_all add: thread_fun_def NotifyWorker_def split: if_splits)
    then show ?thesis using r by (simp add: unsaved_def)
  qed
next
  case T_wait_backup
  with assms have r: "v = V_run" "t_out t = []" "t_in t = [cmd_of Ct_backup]"
    by (cases v; auto simp: thread_fun_def WaitWorker_def)+
  have "t' = t\<lparr>t_in := [], t_pc := T_main\<rparr>" using assms(2) T_wait_backup r(3) by (simp add: thread_fun_def WaitWorker_def cmd_of_def)
  then show ?thesis using r by (simp add: unsaved_def)
next
  case T_wait_clean
  with assms have r: "v = V_clean" "t_out t = []" "t_in t = [cmd_of Ct_clean]"
    by (cases v; auto simp: thread_fun_def WaitWorker_def)+
  have "t' = t\<lparr>t_in := [], t_pc := T_finish\<rparr>" using assms(2) T_wait_clean r(3) by (simp add: thread_fun_def WaitWorker_def cmd_of_def)
  then show ?thesis using r by (simp add: unsaved_def)
next
  case T_finish
  with assms show ?thesis by (cases v) (auto simp: thread_fun_def NotifyWorker_def cmd_of_def unsaved_def)
qed (use assms(2) in \<open>simp_all add: thread_fun_def\<close>)

lemma thread_step_inv:
  assumes "worker_inv w" "i < w_count w" "thread_fun ch (w_threads w i) = Some t"
  shows "worker_inv (w\<lparr>w_threads := (w_threads w)(i := t)\<rparr>)"
proof -
  let ?w = "w\<lparr>w_threads := (w_threads w)(i := t)\<rparr>"
  obtain F where F: "pc_ok w F (w_pc w)" "\<forall>j<w_count w. thread_ok (view_of w F (w_pc w) j) (w_threads w j)"
    using assms(1) by (auto simp: worker_inv_def)
  have v: "view_of ?w F pc = view_of w F pc" "pc_ok ?w F pc = pc_ok w F pc" for pc
    by (cases pc; auto simp: w_count_def)+
  have ok: "thread_ok (view_of w F (w_pc w) i) (w_threads w i)" using F(2) assms(2) by blast
  have s: "t_asked (w_threads w i) = saved_of i w @ unsaved (w_threads w i)" using assms(1,2) by (simp add: worker_inv_def)
  note t = thread_fun_ok [OF ok assms(3)]
  have a: "t_asked t = saved_of i w @ unsaved t" using t s by blast
  have c: "w_count ?w = w_count w" "saved_of j ?w = saved_of j w" for j by (simp_all add: w_count_def saved_of_def)
  show ?thesis
  proof (rule worker_invI)
    show "pc_ok ?w F (w_pc ?w)" using F(1) v by simp
    show "thread_ok (view_of ?w F (w_pc ?w) j) (w_threads ?w j)" if "j < w_count ?w" for j
      using that F(2) t v c by simp
    show "t_asked (w_threads ?w j) = saved_of j ?w @ unsaved (w_threads ?w j)" if "j < w_count ?w" for j
      using that a c worker_invD(3) [OF assms(1)] by simp
  qed (use t worker_invD(1,2) [OF assms(1)] in simp_all)
qed

text \<open>The main thread changes one thread and moves on.\<close>

lemma main_step_inv:
  assumes "worker_inv w" "pc_ok w F (w_pc w)" "\<forall>j<w_count w. thread_ok (view_of w F (w_pc w) j) (w_threads w j)"
    "w' = w\<lparr>w_pc := pc', w_stop := st, w_threads := (w_threads w)(i := t), w_saved := w_saved w @ sv\<rparr>"
    "pc_ok w' F' pc'" "i < w_count w" "thread_ok (view_of w' F' pc' i) t" "t_compute t = t_compute (w_threads w i)"
    "\<And>j. j < w_count w \<Longrightarrow> j \<noteq> i \<Longrightarrow> thread_ok (view_of w F (w_pc w) j) (w_threads w j) \<Longrightarrow>
      thread_ok (view_of w' F' pc' j) (w_threads w j)"
    "t_asked t = t_asked (w_threads w i)" "unsaved (w_threads w i) = map snd sv @ unsaved t" "\<forall>p\<in>set sv. fst p = i"
  shows "worker_inv w'"
proof -
  have c: "w_count w' = w_count w" "w_polled w' = w_polled w" "w_pc w' = pc'" "w_threads w' = (w_threads w)(i := t)"
    using assms(4) by (simp_all add: w_count_def)
  have sv: "saved_of j w' = saved_of j w @ (if j = i then map snd sv else [])" for j
    using assms(4,12) by (auto simp: saved_of_def filter_empty_conv)
  show ?thesis
  proof (rule worker_invI)
    show "0 < w_polled w'" using c worker_invD(1) [OF assms(1)] by simp
    show "t_compute (w_threads w' j) \<longleftrightarrow> 0 < j \<and> j < w_polled w'" for j
      using c assms(8) worker_invD(2) [OF assms(1)] by simp
    show "pc_ok w' F' (w_pc w')" using assms(5) c by simp
    show "thread_ok (view_of w' F' (w_pc w') j) (w_threads w' j)" if "j < w_count w'" for j
      using that assms(3,7,9) c by simp
    show "t_asked (w_threads w' j) = saved_of j w' @ unsaved (w_threads w' j)" if "j < w_count w'" for j
      using that c sv assms(10,11) worker_invD(3) [OF assms(1), of j] by (cases "j = i") simp_all
  qed
qed

lemma count_pos: "worker_inv w \<Longrightarrow> 0 < w_count w" "w_polled w \<le> w_count w"
  using worker_invD(1) by (fastforce simp: w_count_def)+

lemma card_full: "F \<subseteq> {..<n} \<Longrightarrow> card F = n \<Longrightarrow> F = {..<n}" for n :: nat
  by (metis card_lessThan card_subset_eq finite_lessThan)

text \<open>Where the poll loop goes next: \<open>F\<close> are the threads that have finished.\<close>

lemma next_poll_ok:
  assumes "0 < w_polled w" "i < w_polled w" "F \<subseteq> {..<w_polled w}" "w_stop w = card F"
  shows "pc_ok w F (next_poll i w)"
    "\<And>j. j < w_count w \<Longrightarrow> thread_ok (if j \<in> F then V_fin else V_run) t \<Longrightarrow> thread_ok (view_of w F (next_poll i w) j) t"
proof -
  show "pc_ok w F (next_poll i w)" using assms by (auto simp: next_poll_def w_count_def)
next
  fix j assume j: "j < w_count w" "thread_ok (if j \<in> F then V_fin else V_run) t"
  show "thread_ok (view_of w F (next_poll i w) j) t"
  proof (cases "i + 1 < w_polled w \<or> w_stop w \<noteq> w_polled w")
    case True
    then show ?thesis using j by (auto simp: next_poll_def)
  next
    case False
    then have "F = {..<w_polled w}" using card_full assms(3,4) by metis
    then show ?thesis using j False by (auto simp: next_poll_def w_count_def)
  qed
qed

lemma view_cong:
  "w_polled w' = w_polled w \<Longrightarrow> view_of w' F pc = view_of w F pc"
  "w_polled w' = w_polled w \<Longrightarrow> w_down w' = w_down w \<Longrightarrow> w_stop w' = w_stop w \<Longrightarrow> pc_ok w' F pc = pc_ok w F pc"
  "w_polled w' = w_polled w \<Longrightarrow> w_down w' = w_down w \<Longrightarrow> w_stop w' = w_stop w \<Longrightarrow> next_poll i w' = next_poll i w"
  by (cases pc; auto simp: w_count_def next_poll_def)+

lemma poll_inv:
  assumes "worker_inv w" "w_pc w = W_poll i"
  shows "worker_inv (poll_thread i w)"
proof -
  obtain F where F: "i < w_polled w" "F \<subseteq> {..<w_polled w}" "w_stop w = card F"
    "\<forall>j<w_count w. thread_ok (if j \<in> F then V_fin else V_run) (w_threads w j)"
    using assms by (auto simp: worker_inv_def)
  have pc: "pc_ok w F (w_pc w)" "\<forall>j<w_count w. thread_ok (view_of w F (w_pc w) j) (w_threads w j)" using F assms(2) by simp_all
  have i: "i < w_count w" using F(1) by (simp add: w_count_def)
  have ti: "thread_ok (if i \<in> F then V_fin else V_run) (w_threads w i)" using F(4) i by blast
  have P: "0 < w_polled w" using worker_invD(1) [OF assms(1)] .
  let ?t = "w_threads w i"
  show ?thesis
  proof (cases "t_out ?t")
    case Nil
    let ?w = "w\<lparr>w_pc := next_poll i w\<rparr>"
    have v: "view_of ?w F pc = view_of w F pc" "pc_ok ?w F pc = pc_ok w F pc" for pc by (rule view_cong; simp)+
    have np: "pc_ok w F (next_poll i w)"
      "\<And>j. j < w_count w \<Longrightarrow> thread_ok (view_of w F (next_poll i w) j) (w_threads w j)"
      using next_poll_ok [OF P F(1-3)] F(4) by blast+
    have "worker_inv ?w"
      by (rule main_step_inv [where w = w and F = F and F' = F and i = i and t = ?t and st = "w_stop w" and sv = "[]"
            and pc' = "next_poll i w"])
        (use assms pc i np v in simp_all)
    then show ?thesis using Nil by (simp add: poll_thread_def)
  next
    case (Cons c cs)
    with ti have nF: "i \<notin> F" by (auto split: if_splits)
    with ti have run: "thread_ok V_run ?t" by simp
    show ?thesis
    proof (cases "t_pc ?t = T_wait_clean")
      case True
      with run Cons have c: "c = cmd_of Ct_finish" "cs = []" "t_in ?t = []" by auto
      let ?F = "insert i F"
      let ?w1 = "w\<lparr>w_threads := (w_threads w)(i := ?t\<lparr>t_out := []\<rparr>), w_stop := w_stop w + 1\<rparr>"
      let ?w = "?w1\<lparr>w_pc := next_poll i ?w1\<rparr>"
      have v: "view_of ?w ?F pc = view_of ?w1 ?F pc" "pc_ok ?w ?F pc = pc_ok ?w1 ?F pc" for pc by (rule view_cong; simp)+
      have cF: "card ?F = card F + 1" using nF F(2) finite_subset by fastforce
      have cnt: "w_count ?w1 = w_count w" by (simp add: w_count_def)
      have n: "pc_ok ?w1 ?F (next_poll i ?w1)"
        "\<And>j t. j < w_count ?w1 \<Longrightarrow> thread_ok (if j \<in> ?F then V_fin else V_run) t \<Longrightarrow> thread_ok (view_of ?w1 ?F (next_poll i ?w1) j) t"
        by (rule next_poll_ok; use P F cF in simp)+
      have n1: "pc_ok ?w ?F (next_poll i ?w1)" unfolding v(2) by (rule n(1))
      have nj: "thread_ok (view_of ?w ?F (next_poll i ?w1) j) (w_threads w j)" if "j < w_count w" "j \<noteq> i" for j
      proof -
        have "thread_ok (if j \<in> ?F then V_fin else V_run) (w_threads w j)" using F(4) that by simp
        then show ?thesis unfolding v(1) using n(2) that cnt by metis
      qed
      have "thread_ok (if i \<in> ?F then V_fin else V_run) (?t\<lparr>t_out := []\<rparr>)" using True c by simp
      then have ni: "thread_ok (view_of ?w ?F (next_poll i ?w1) i) (?t\<lparr>t_out := []\<rparr>)" unfolding v(1) using n(2) i cnt by metis
      have "worker_inv ?w"
        by (rule main_step_inv [where w = w and F = F and F' = ?F and i = i and t = "?t\<lparr>t_out := []\<rparr>" and st = "w_stop w + 1"
              and sv = "[]" and pc' = "next_poll i ?w1"])
          (use assms(1) pc i n1 nj ni c Cons in \<open>simp_all add: unsaved_def cmd_of_def\<close>)
      moreover have "poll_thread i w = ?w"
        using Cons c by (simp add: poll_thread_def upd_thread_def cmd_of_def Let_def)
      ultimately show ?thesis by simp
    next
      case False
      with run Cons obtain b bs where c: "c = \<lparr>c_type = Ct_backup, c_item = Some b\<rparr>" "cs = []" "t_in ?t = []" "t_compute ?t"
          "t_pc ?t = T_wait_backup" by auto
      have i0: "i \<noteq> 0" using c(4) worker_invD(2) [OF assms(1)] by simp
      let ?t' = "?t\<lparr>t_out := [], t_in := [cmd_of Ct_backup]\<rparr>"
      let ?w1 = "w\<lparr>w_threads := (w_threads w)(i := ?t'), w_saved := w_saved w @ [(i, b)]\<rparr>"
      let ?w = "?w1\<lparr>w_pc := next_poll i w\<rparr>"
      have v: "view_of ?w F pc = view_of w F pc" "pc_ok ?w F pc = pc_ok w F pc" "next_poll i ?w1 = next_poll i w" for pc
        by (rule view_cong; simp)+
      have nj: "thread_ok (view_of ?w F (next_poll i w) j) (w_threads w j)" if "j < w_count w" for j
        unfolding v(1) using next_poll_ok(2) [OF P F(1-3) that] F(4) that by blast
      have "thread_ok (if i \<in> F then V_fin else V_run) ?t'" using c nF by simp
      then have ni: "thread_ok (view_of ?w F (next_poll i w) i) ?t'" unfolding v(1) using next_poll_ok(2) [OF P F(1-3) i] by blast
      have "worker_inv ?w"
        by (rule main_step_inv [where w = w and F = F and F' = F and i = i and t = ?t' and st = "w_stop w"
              and sv = "[(i, b)]" and pc' = "next_poll i w"])
          (use assms pc i next_poll_ok(1) [OF P F(1-3)] nj ni c Cons in \<open>simp_all add: unsaved_def v(2)\<close>)
      moreover have "poll_thread i w = ?w"
        using Cons c i0 v(3) by (simp add: poll_thread_def upd_thread_def NotifyThread_def Let_def next_poll_def)
      ultimately show ?thesis by simp
    qed
  qed
qed

text \<open>A step of the main thread outside the poll loop.\<close>

lemma move_inv:
  assumes "worker_inv w" "pc_ok w F (w_pc w)" "\<forall>j<w_count w. thread_ok (view_of w F (w_pc w) j) (w_threads w j)"
    "pc_ok w {} pc'" "i < w_count w" "thread_ok (view_of w {} pc' i) t" "t_compute t = t_compute (w_threads w i)"
    "\<And>j. j < w_count w \<Longrightarrow> j \<noteq> i \<Longrightarrow> view_of w {} pc' j = view_of w F (w_pc w) j"
    "t_asked t = t_asked (w_threads w i)" "unsaved t = unsaved (w_threads w i)"
  shows "worker_inv (w\<lparr>w_threads := (w_threads w)(i := t), w_pc := pc'\<rparr>)" (is "worker_inv ?w")
proof -
  have v: "view_of ?w {} pc = view_of w {} pc" "pc_ok ?w {} pc = pc_ok w {} pc" for pc by (rule view_cong; simp)+
  show ?thesis
    by (rule main_step_inv [OF assms(1-3), where st = "w_stop w" and sv = "[]" and i = i and t = t and pc' = pc' and F' = "{}"])
      (use assms(4-10) in \<open>simp_all add: v\<close>)
qed

lemma Start_inv:
  assumes "worker_inv w" "Start w = Some w'"
  shows "worker_inv w'"
proof -
  obtain F where pc: "pc_ok w F (w_pc w)" "\<forall>j<w_count w. thread_ok (view_of w F (w_pc w) j) (w_threads w j)"
    using assms(1) by (auto simp: worker_inv_def)
  note inv = move_inv [OF assms(1) pc]
  have n0: "0 < w_count w" "w_polled w \<le> w_count w" "0 < w_polled w" using count_pos worker_invD(1) assms(1) by auto
  show ?thesis
  proof (cases "w_pc w")
    case (W_create i)
    have ok: "thread_ok V_new (w_threads w i)" "i < w_count w" using pc W_create by auto
    have "worker_inv (w\<lparr>w_threads := (w_threads w)(i := (w_threads w i)\<lparr>t_pc := T_init\<rparr>), w_pc := W_await i\<rparr>)"
      by (rule inv) (use W_create ok pc(1) in \<open>simp_all add: unsaved_def\<close>)
    then show ?thesis using assms(2) W_create by (simp add: Start_def upd_thread_def)
  next
    case (W_await i)
    have ok: "thread_ok V_await (w_threads w i)" "i < w_count w" "w_stop w = 0" using pc W_await by auto
    obtain c cs where c: "t_out (w_threads w i) = c # cs" using assms(2) W_await
      by (auto simp: Start_def WaitThread_def split: list.splits)
    with ok have e: "c = cmd_of Ct_ready" "cs = []" "t_pc (w_threads w i) = T_wait_ready" "t_in (w_threads w i) = []" by auto
    let ?pc = "if i + 1 < w_count w then W_create (i + 1) else W_go 0"
    have "worker_inv (w\<lparr>w_threads := (w_threads w)(i := (w_threads w i)\<lparr>t_out := []\<rparr>), w_pc := ?pc\<rparr>)"
      by (rule inv) (use W_await c e ok n0 in \<open>auto simp: unsaved_def cmd_of_def\<close>)
    then show ?thesis using assms(2) W_await c e by (simp add: Start_def WaitThread_def upd_thread_def cmd_of_def)
  next
    case (W_go i)
    have ok: "thread_ok V_ready (w_threads w i)" "i < w_count w" "w_stop w = 0" using pc W_go by auto
    let ?pc = "if i + 1 < w_count w then W_go (i + 1) else W_poll 0"
    have "worker_inv (w\<lparr>w_threads := (w_threads w)(i := (w_threads w i)\<lparr>t_in := [cmd_of Ct_ready]\<rparr>), w_pc := ?pc\<rparr>)"
      by (rule inv) (use W_go ok n0 in \<open>auto simp: unsaved_def\<close>)
    then show ?thesis using assms(2) W_go ok by (simp add: Start_def NotifyThread_def upd_thread_def)
  next
    case (W_poll i)
    then show ?thesis using poll_inv [OF assms(1)] assms(2) by (simp add: Start_def)
  next
    case W_down
    let ?i = "w_polled w"
    have d: "w_down w" "w_polled w < w_count w" using pc W_down by (auto simp: w_count_def)
    have ok: "thread_ok V_run (w_threads w ?i)" using pc(2) [rule_format, OF d(2)] W_down by simp
    obtain c cs where c: "t_out (w_threads w ?i) = c # cs" using assms(2) W_down
      by (auto simp: Start_def WaitThread_def split: list.splits)
    have "\<not> t_compute (w_threads w ?i)" using worker_invD(2) [OF assms(1)] by simp
    with ok c have e: "c = cmd_of Ct_finish" "cs = []" "t_pc (w_threads w ?i) = T_wait_clean" "t_in (w_threads w ?i) = []"
      by auto
    have o: "view_of w {} (W_clean 0) j = view_of w F (w_pc w) j" if "j < w_count w" "j \<noteq> ?i" for j
      using that d W_down by (simp add: w_count_def)
    have "worker_inv (w\<lparr>w_threads := (w_threads w)(?i := (w_threads w ?i)\<lparr>t_out := []\<rparr>), w_pc := W_clean 0\<rparr>)"
      by (rule inv [OF _ d(2) _ _ o]) (use c e n0 in \<open>simp_all add: unsaved_def cmd_of_def\<close>)
    then show ?thesis using assms(2) W_down c e by (simp add: Start_def WaitThread_def upd_thread_def cmd_of_def)
  next
    case (W_clean i)
    have ok: "thread_ok V_fin (w_threads w i)" "i < w_count w" using pc W_clean by auto
    have "worker_inv (w\<lparr>w_threads := (w_threads w)(i := (w_threads w i)\<lparr>t_in := [cmd_of Ct_clean]\<rparr>), w_pc := W_last i\<rparr>)"
      by (rule inv) (use W_clean ok in \<open>simp_all add: unsaved_def\<close>)
    then show ?thesis using assms(2) W_clean ok by (simp add: Start_def NotifyThread_def upd_thread_def)
  next
    case (W_last i)
    have ok: "thread_ok V_clean (w_threads w i)" "i < w_count w" using pc W_last by auto
    obtain c cs where c: "t_out (w_threads w i) = c # cs" using assms(2) W_last
      by (auto simp: Start_def WaitThread_def split: list.splits)
    with ok have e: "c = cmd_of Ct_finish" "cs = []" "t_pc (w_threads w i) = T_end" "t_in (w_threads w i) = []" by auto
    let ?pc = "if i + 1 < w_count w then W_clean (i + 1) else W_join 0"
    have "worker_inv (w\<lparr>w_threads := (w_threads w)(i := (w_threads w i)\<lparr>t_out := []\<rparr>), w_pc := ?pc\<rparr>)"
      by (rule inv) (use W_last c e ok n0 in \<open>auto simp: unsaved_def cmd_of_def\<close>)
    then show ?thesis using assms(2) W_last c e by (simp add: Start_def WaitThread_def upd_thread_def cmd_of_def)
  next
    case (W_join i)
    let ?pc = "if i + 1 < w_count w then W_join (i + 1) else W_done"
    have ok: "thread_ok V_end (w_threads w i)" "i < w_count w" using pc W_join by auto
    have "worker_inv (w\<lparr>w_threads := (w_threads w)(i := w_threads w i), w_pc := ?pc\<rparr>)"
      by (rule inv) (use W_join ok in simp_all)
    then show ?thesis using assms(2) W_join ok by (simp add: Start_def)
  qed (use assms(2) in \<open>simp_all add: Start_def\<close>)
qed

lemma worker_step_inv: "worker_step w w' \<Longrightarrow> worker_inv w \<Longrightarrow> worker_inv w'"
  by (erule worker_stepE) (auto intro: Start_inv thread_step_inv)

section \<open>Running to the end\<close>

text \<open>A measure that some step decreases in every state: the position of the main thread, then the work left in
  the threads, then the way of the poll loop to the next thread with a message.\<close>

fun pos_of :: "nat \<Rightarrow> worker_pc \<Rightarrow> nat" where
  "pos_of n (W_create k) = 2 * k"
| "pos_of n (W_await k) = 2 * k + 1"
| "pos_of n (W_go k) = 2 * n + k"
| "pos_of n (W_poll k) = 3 * n"
| "pos_of n W_down = 3 * n + 1"
| "pos_of n (W_clean k) = 3 * n + 2 + 2 * k"
| "pos_of n (W_last k) = 3 * n + 3 + 2 * k"
| "pos_of n (W_join k) = 5 * n + 2 + k"
| "pos_of n W_done = 6 * n + 2"
| "pos_of n W_dead = 0"

definition phase :: "'b worker \<Rightarrow> nat" where
  "phase w = 6 * w_count w + 2 - pos_of (w_count w) (w_pc w)"

fun pc_rank :: "thread_pc \<Rightarrow> nat" where
  "pc_rank T_new = 20" | "pc_rank T_init = 18" | "pc_rank T_wait_ready = 14" | "pc_rank T_wait_backup = 13"
| "pc_rank T_main = 12" | "pc_rank T_wait_clean = 8" | "pc_rank T_finish = 6" | "pc_rank T_end = 2" | "pc_rank T_dead = 0"

definition thread_work :: "'b thread \<Rightarrow> nat" where
  "thread_work t = pc_rank (t_pc t) + 2 * length (t_out t) + length (t_in t)"

definition work :: "'b worker \<Rightarrow> nat" where
  "work w = (\<Sum>i<w_count w. thread_work (w_threads w i))"

definition msg_ahead :: "nat \<Rightarrow> 'b worker \<Rightarrow> bool" where
  "msg_ahead k w \<longleftrightarrow> (\<exists>j. k \<le> j \<and> j < w_polled w \<and> t_out (w_threads w j) \<noteq> [])"

definition pollway :: "'b worker \<Rightarrow> nat" where
  "pollway w =
     (case w_pc w of
        W_poll k \<Rightarrow> w_polled w - k + (if msg_ahead k w then 0 else w_polled w + 1)
      | _ \<Rightarrow> 0)"

definition closer :: "('b worker \<times> 'b worker) set" where
  "closer = measures [phase, work, pollway]"

lemma thread_fun_work: "thread_fun None t = Some t' \<Longrightarrow> thread_work t' < thread_work t"
  by (cases "t_pc t")
    (auto simp: thread_fun_def WaitWorker_def NotifyWorker_def thread_work_def split: list.splits)

lemma thread_stuck:
  assumes "thread_ok v t" "v \<in> {V_await, V_run, V_clean}" "thread_fun None t = None"
  shows "t_out t \<noteq> []"
  using assms by (auto simp: thread_fun_def WaitWorker_def split: thread_pc.splits)

lemma work_upd: "i < w_count w \<Longrightarrow> thread_work t < thread_work (w_threads w i) \<Longrightarrow>
    (\<Sum>j<w_count w. thread_work (((w_threads w)(i := t)) j)) < work w"
  unfolding work_def by (rule sum_strict_mono_ex1) auto

lemma thread_closer:
  assumes "i < w_count w" "thread_fun None (w_threads w i) = Some t"
  shows "\<exists>w'. worker_step w w' \<and> (w', w) \<in> closer"
proof -
  let ?w = "w\<lparr>w_threads := (w_threads w)(i := t)\<rparr>"
  have "worker_step w ?w" by (rule worker_step.thread [OF assms])
  moreover have "work ?w < work w"
    using work_upd [OF assms(1) thread_fun_work [OF assms(2)]] by (simp add: work_def w_count_def)
  ultimately show ?thesis by (intro exI [of _ ?w] conjI) (simp_all add: closer_def phase_def w_count_def)
qed

lemma main_closer:
  assumes "Start w = Some w'" "w_count w' = w_count w" "pos_of (w_count w) (w_pc w) < pos_of (w_count w) (w_pc w')"
    "pos_of (w_count w) (w_pc w) < 6 * w_count w + 2"
  shows "\<exists>w'. worker_step w w' \<and> (w', w) \<in> closer"
  using worker_step.main [OF assms(1)] assms(2-4) by (auto simp: closer_def phase_def)

lemma upd_count [simp]: "w_count (upd_thread i f w) = w_count w" "w_count (w\<lparr>w_pc := pc\<rparr>) = w_count w"
  by (simp_all add: w_count_def upd_thread_def)

text \<open>The main thread waits for a thread: either that thread can go on, or it has sent what is waited for.\<close>

lemma wait_closer:
  assumes "i < w_count w" "thread_ok v (w_threads w i)" "v \<in> {V_await, V_run, V_clean}"
    "Start w = WaitThread i ty nxt w" "\<And>c cs. t_out (w_threads w i) = c # cs \<Longrightarrow> c_type c = ty"
    "pos_of (w_count w) (w_pc w) < pos_of (w_count w) nxt" "pos_of (w_count w) (w_pc w) < 6 * w_count w + 2"
  shows "\<exists>w'. worker_step w w' \<and> (w', w) \<in> closer"
proof (cases "thread_fun None (w_threads w i)")
  case None
  then obtain c cs where c: "t_out (w_threads w i) = c # cs" using thread_stuck [OF assms(2,3)] by (cases "t_out (w_threads w i)") auto
  let ?w = "(upd_thread i (\<lambda>t. t\<lparr>t_out := cs\<rparr>) w)\<lparr>w_pc := nxt\<rparr>"
  have "Start w = Some ?w" using c assms(4) assms(5) [OF c] by (simp add: WaitThread_def)
  then show ?thesis by (rule main_closer) (use assms(6,7) in simp_all)
qed (use thread_closer assms(1) in blast)

lemma next_poll_cases:
  assumes "i < w_polled w"
  shows "pos_of (w_count w) (W_poll i) < pos_of (w_count w) (next_poll i w) \<or>
    next_poll i w = W_poll (i + 1) \<and> i + 1 < w_polled w \<or> next_poll i w = W_poll 0 \<and> i + 1 = w_polled w \<and> w_stop w \<noteq> w_polled w"
  using assms by (auto simp: next_poll_def)

lemma poll_message_closer:
  assumes "worker_inv w" "w_pc w = W_poll i" "t_out (w_threads w i) = c # cs" "i < w_polled w"
  shows "(poll_thread i w, w) \<in> closer"
proof -
  obtain F where F: "\<forall>j<w_count w. thread_ok (if j \<in> F then V_fin else V_run) (w_threads w j)"
    using assms(1,2) by (auto simp: worker_inv_def)
  have i: "i < w_count w" using assms(4) by (simp add: w_count_def)
  with F assms(3) have run: "thread_ok V_run (w_threads w i)" by (metis list.distinct(1) thread_ok.simps(5))
  have c: "cs = []" "c = cmd_of Ct_finish \<or> (\<exists>b. c = \<lparr>c_type = Ct_backup, c_item = Some b\<rparr>) \<and> t_compute (w_threads w i)"
    using run assms(3) by auto
  have i0: "t_compute (w_threads w i) \<Longrightarrow> i \<noteq> 0" using worker_invD(2) [OF assms(1)] by simp
  let ?t = "if c = cmd_of Ct_finish then (w_threads w i)\<lparr>t_out := []\<rparr>
    else (w_threads w i)\<lparr>t_out := [], t_in := t_in (w_threads w i) @ [cmd_of Ct_backup]\<rparr>"
  have thr: "w_threads (poll_thread i w) = (w_threads w)(i := ?t)" "w_count (poll_thread i w) = w_count w"
    using assms(3) c i0 by (auto simp: poll_thread_def upd_thread_def NotifyThread_def cmd_of_def Let_def w_count_def)
  have "thread_work ?t < thread_work (w_threads w i)" using assms(3) c by (auto simp: thread_work_def)
  from work_upd [OF i this] have "work (poll_thread i w) < work w" by (simp add: work_def thr)
  moreover have "\<exists>st. w_pc (poll_thread i w) = next_poll i (w\<lparr>w_stop := st\<rparr>)"
  proof (cases "c = cmd_of Ct_finish")
    case True
    then show ?thesis using assms(3) c(1)
      by (intro exI [of _ "w_stop w + 1"]) (simp add: poll_thread_def cmd_of_def Let_def upd_thread_def next_poll_def)
  next
    case False
    then obtain b where "c = \<lparr>c_type = Ct_backup, c_item = Some b\<rparr>" "i \<noteq> 0" using c i0 by auto
    then show ?thesis using assms(3) c(1)
      by (intro exI [of _ "w_stop w"]) (simp add: poll_thread_def Let_def upd_thread_def next_poll_def)
  qed
  then obtain st where st: "w_pc (poll_thread i w) = next_poll i (w\<lparr>w_stop := st\<rparr>)" by blast
  have "phase (poll_thread i w) \<le> phase w"
    unfolding phase_def thr(2) st using next_poll_cases [of i "w\<lparr>w_stop := st\<rparr>"] assms(2,4) by (auto simp: w_count_def)
  ultimately show ?thesis by (auto simp: closer_def)
qed

lemma poll_idle_closer:
  assumes "w_pc w = W_poll i" "i < w_polled w" "t_out (w_threads w i) = []"
    "w_stop w \<noteq> w_polled w \<Longrightarrow> \<exists>j<w_polled w. t_out (w_threads w j) \<noteq> []"
  shows "(poll_thread i w, w) \<in> closer"
proof -
  let ?w = "w\<lparr>w_pc := next_poll i w\<rparr>"
  have eq: "poll_thread i w = ?w" using assms(3) by (simp add: poll_thread_def)
  have same: "work ?w = work w" by (simp add: work_def)
  consider "pos_of (w_count w) (w_pc w) < pos_of (w_count w) (next_poll i w)"
    | "next_poll i w = W_poll (i + 1)" "i + 1 < w_polled w" | "next_poll i w = W_poll 0" "i + 1 = w_polled w" "w_stop w \<noteq> w_polled w"
    using next_poll_cases [OF assms(2)] assms(1) by auto
  then show ?thesis
  proof cases
    case 1
    then show ?thesis using eq assms(1) by (auto simp: closer_def phase_def w_count_def)
  next
    case 2
    have "msg_ahead i w = msg_ahead (i + 1) w"
      using assms(3) unfolding msg_ahead_def by (metis Suc_eq_plus1 Suc_leD le_neq_implies_less less_eq_Suc_le)
    moreover have "msg_ahead (i + 1) ?w = msg_ahead (i + 1) w" by (simp add: msg_ahead_def)
    ultimately have "pollway ?w < pollway w" using 2 assms(1,2) by (auto simp: pollway_def)
    then show ?thesis using eq same assms(1) 2 by (auto simp: closer_def phase_def)
  next
    case 3
    have "\<not> msg_ahead i w"
      using 3(2) assms(3) unfolding msg_ahead_def by (metis Suc_eq_plus1 leD le_neq_implies_less not_less_eq)
    moreover have "msg_ahead 0 ?w" using assms(4) 3(3) by (auto simp: msg_ahead_def)
    ultimately have "pollway ?w < pollway w" using 3 assms(1) by (simp add: pollway_def)
    then show ?thesis using eq same assms(1) 3 by (auto simp: closer_def phase_def)
  qed
qed

lemma poll_closer:
  assumes "worker_inv w" "w_pc w = W_poll i"
  shows "\<exists>w'. worker_step w w' \<and> (w', w) \<in> closer"
proof (cases "\<exists>j<w_polled w. thread_fun None (w_threads w j) \<noteq> None")
  case True
  then obtain j t where j: "j < w_polled w" "thread_fun None (w_threads w j) = Some t" by blast
  have "j < w_count w" using j(1) count_pos(2) [of w] by simp
  from thread_closer [OF this j(2)] show ?thesis .
next
  case False
  obtain F where F: "i < w_polled w" "F \<subseteq> {..<w_polled w}" "w_stop w = card F"
    "\<forall>j<w_count w. thread_ok (if j \<in> F then V_fin else V_run) (w_threads w j)"
    using assms by (auto simp: worker_inv_def)
  have step: "worker_step w (poll_thread i w)" by (rule worker_step.main) (simp add: Start_def assms(2))
  show ?thesis
  proof (cases "t_out (w_threads w i)")
    case Nil
    have "\<exists>j<w_polled w. t_out (w_threads w j) \<noteq> []" if ne: "w_stop w \<noteq> w_polled w"
    proof -
      have "F \<noteq> {..<w_polled w}" using ne F(3) by auto
      then obtain j where j: "j < w_polled w" "j \<notin> F" using F(2) by auto
      then have "j < w_count w" using count_pos(2) [of w] by simp
      with F(4) j(2) have "thread_ok (if j \<in> F then V_fin else V_run) (w_threads w j)" by blast
      with j(2) have "thread_ok V_run (w_threads w j)" by (simp only: if_False)
      from thread_stuck [OF this] False j(1) show ?thesis by blast
    qed
    from poll_idle_closer [OF assms(2) F(1) Nil this] step show ?thesis by blast
  next
    case (Cons c cs)
    from poll_message_closer [OF assms Cons F(1)] step show ?thesis by blast
  qed
qed

lemma worker_progress:
  assumes "worker_inv w" "w_pc w \<noteq> W_done"
  shows "\<exists>w'. worker_step w w' \<and> (w', w) \<in> closer"
proof -
  obtain F where pc: "pc_ok w F (w_pc w)" "\<forall>j<w_count w. thread_ok (view_of w F (w_pc w) j) (w_threads w j)"
    using assms(1) by (auto simp: worker_inv_def)
  let ?n = "w_count w"
  show ?thesis
  proof (cases "w_pc w")
    case (W_create i)
    show ?thesis by (rule main_closer [of w "(upd_thread i (\<lambda>t. t\<lparr>t_pc := T_init\<rparr>) w)\<lparr>w_pc := W_await i\<rparr>"])
      (use pc(1) W_create in \<open>auto simp: Start_def\<close>)
  next
    case (W_await i)
    have ok: "thread_ok V_await (w_threads w i)" "i < ?n" using pc W_await by auto
    show ?thesis
      by (rule wait_closer [OF ok(2,1), of Ct_ready "if i + 1 < ?n then W_create (i + 1) else W_go 0"])
        (use W_await ok in \<open>auto simp: Start_def cmd_of_def\<close>)
  next
    case (W_go i)
    show ?thesis
      by (rule main_closer [of w "(upd_thread i (NotifyThread Ct_ready) w)\<lparr>w_pc := (if i + 1 < ?n then W_go (i + 1) else W_poll 0)\<rparr>"])
        (use pc(1) W_go in \<open>auto simp: Start_def\<close>)
  next
    case (W_poll i)
    then show ?thesis using poll_closer [OF assms(1)] by blast
  next
    case W_down
    have d: "w_polled w < ?n" using pc(1) W_down by (simp add: w_count_def)
    have ok: "thread_ok V_run (w_threads w (w_polled w))" using pc(2) [rule_format, OF d] W_down by simp
    have "\<not> t_compute (w_threads w (w_polled w))" using worker_invD(2) [OF assms(1)] by simp
    then show ?thesis
      using ok by (intro wait_closer [OF d ok, of Ct_finish "W_clean 0"]) (use W_down in \<open>auto simp: Start_def cmd_of_def\<close>)
  next
    case (W_clean i)
    show ?thesis by (rule main_closer [of w "(upd_thread i (NotifyThread Ct_clean) w)\<lparr>w_pc := W_last i\<rparr>"])
      (use pc(1) W_clean in \<open>auto simp: Start_def\<close>)
  next
    case (W_last i)
    have ok: "thread_ok V_clean (w_threads w i)" "i < ?n" using pc W_last by auto
    show ?thesis
      by (rule wait_closer [OF ok(2,1), of Ct_finish "if i + 1 < ?n then W_clean (i + 1) else W_join 0"])
        (use W_last ok in \<open>auto simp: Start_def cmd_of_def\<close>)
  next
    case (W_join i)
    have "thread_ok V_end (w_threads w i)" using pc W_join by auto
    then show ?thesis
      by (intro main_closer [of w "w\<lparr>w_pc := (if i + 1 < ?n then W_join (i + 1) else W_done)\<rparr>"])
        (use pc(1) W_join in \<open>auto simp: Start_def\<close>)
  qed (use assms(2) pc(1) in auto)
qed

lemma wf_closer: "wf closer"
  by (simp add: closer_def)

lemma worker_ends:
  assumes "worker_inv w"
  shows "\<exists>w'. worker_step\<^sup>*\<^sup>* w w' \<and> w_pc w' = W_done"
  using assms
proof (induction w rule: wf_induct_rule [OF wf_closer])
  case (1 w)
  show ?case
  proof (cases "w_pc w = W_done")
    case False
    then obtain w' where w': "worker_step w w'" "(w', w) \<in> closer" using worker_progress "1.prems" by blast
    with "1.IH" [OF w'(2)] worker_step_inv "1.prems" obtain w'' where "worker_step\<^sup>*\<^sup>* w' w''" "w_pc w'' = W_done" by blast
    with w'(1) show ?thesis by (meson converse_rtranclp_into_rtranclp)
  qed auto
qed

lemma reach_worker_inv: "worker_step\<^sup>*\<^sup>* (new_Worker n down) w \<Longrightarrow> worker_inv w"
  by (induction rule: rtranclp_induct) (auto intro: new_Worker_inv worker_step_inv)

section \<open>Properties\<close>


text \<open>C7. The protocol has no dead ends: from every state the worker can get into, it can run to the end of
  \<open>Start\<close>, all threads finished and joined.\<close>

theorem worker_can_finish:
  assumes "worker_step\<^sup>*\<^sup>* (new_Worker n down) w"
  shows "\<exists>w'. worker_step\<^sup>*\<^sup>* w w' \<and> w_pc w' = W_done \<and> (\<forall>i<w_count w'. t_pc (w_threads w' i) = T_end)"
proof -
  have inv: "worker_inv w" by (rule reach_worker_inv [OF assms])
  from worker_ends [OF this] obtain w' where w': "worker_step\<^sup>*\<^sup>* w w'" "w_pc w' = W_done" by blast
  have "worker_inv w'" by (rule reach_worker_inv [OF rtranclp_trans [OF assms w'(1)]])
  with w' show ?thesis by (auto simp: worker_inv_def)
qed

lemma first_step: "worker_step\<^sup>*\<^sup>* (new_Worker 1 True)
    ((upd_thread 0 (\<lambda>t. t\<lparr>t_pc := T_init\<rparr>) (new_Worker 1 True :: nat worker))\<lparr>w_pc := W_await 0\<rparr>)"
  by (rule r_into_rtranclp, rule worker_step.main) (simp add: Start_def new_Worker_def)


theorem worker_can_finish_witness:
  "\<exists>w w' :: nat worker. worker_step\<^sup>*\<^sup>* (new_Worker 1 True) w \<and> w_pc w = W_await 0 \<and> worker_step\<^sup>*\<^sup>* w w' \<and> w_pc w' = W_done"
proof -
  let ?w = "(upd_thread 0 (\<lambda>t. t\<lparr>t_pc := T_init\<rparr>) (new_Worker 1 True :: nat worker))\<lparr>w_pc := W_await 0\<rparr>"
  obtain w' where "worker_step\<^sup>*\<^sup>* ?w w'" "w_pc w' = W_done" using worker_can_finish [OF first_step] by blast
  then show ?thesis using first_step by (intro exI [of _ ?w] exI [of _ w']) simp
qed

end
