(* ===== verification/Poller.thy ===== *)
theory Poller
  imports Prelude "HOL-Library.Monad_Syntax" "HOL-Library.Multiset"
begin

text \<open>
  The poller of an I/O thread: timers (\<open>src/net/poller_base.cpp\<close>), the clock (\<open>src/net/clock.cpp\<close>), registration of
  file descriptors and the event loop (\<open>src/net/epoll.cpp\<close>). A poll entry is an index of a heap in which \<open>delete\<close>
  leaves \<open>None\<close>; the kernel's interest set is a map from descriptors to entry and event mask. The callbacks of
  the registered objects are a parameter: they change their own state and the poller. The clock is read once
  per round of the loop. \<open>None\<close> is a failed assertion, a use of freed memory or a loop that never ends.

  Proved: due timers fire in the order of their expiration, each once; with callbacks that keep to the
  contract of the locale \<open>poll_clients\<close> the loop never fails, never hands an event to a removed entry and frees every removed
  entry exactly once.
\<close>

section \<open>Clock\<close>

record clk =
  last_tsc :: u64
  last_time :: u64

definition clock_precision :: u64 where "clock_precision = 1000000"

definition now_us :: "u64 \<Rightarrow> u64 \<Rightarrow> u64" where
  "now_us sec usec = sec * 1000000 + usec"

definition rdtsc :: u64 where "rdtsc = 0"

definition new_clock :: "u64 \<Rightarrow> clk" where
  "new_clock us = \<lparr>last_tsc = rdtsc, last_time = us div 1000\<rparr>"

text \<open>\<open>us\<close> is what \<open>now_us\<close> returns if it is called.\<close>

definition now_ms :: "u64 \<Rightarrow> clk \<Rightarrow> u64 \<times> clk" where
  "now_ms us c =
     (let tsc = rdtsc in
      if tsc = 0 then (us div 1000, c)
      else if tsc - last_tsc c \<le> clock_precision div 2 \<and> tsc \<ge> last_tsc c then (last_time c, c)
      else (us div 1000, \<lparr>last_tsc = tsc, last_time = us div 1000\<rparr>))"

lemma now_ms_eq: "now_ms us c = (us div 1000, c)"
  by (simp add: now_ms_def rdtsc_def)

section \<open>State\<close>

text \<open>A timer has the identity of its node in the multimap.\<close>

record 's timer =
  t_exp :: u64
  t_node :: nat
  t_sink :: 's
  t_id :: int

record 's entry =
  pe_fd :: int
  pe_events :: u32
  pe_sink :: 's

record 's poller =
  p_now :: u64
  p_timers :: "'s timer list"
  p_next :: nat
  p_heap :: "'s entry option list"
  p_set :: "int \<Rightarrow> (nat \<times> u32) option"
  p_retired :: "nat list"
  p_stopping :: bool

definition epoll_t :: "u64 \<Rightarrow> 's poller" where
  "epoll_t now = \<lparr>p_now = now, p_timers = [], p_next = 0, p_heap = [], p_set = (\<lambda>fd. None), p_retired = [], p_stopping = False\<rparr>"

definition retired_fd :: int where "retired_fd = -1"
definition EPOLLIN :: u32 where "EPOLLIN = 1"
definition EPOLLOUT :: u32 where "EPOLLOUT = 4"
definition EPOLLERR :: u32 where "EPOLLERR = 8"
definition EPOLLHUP :: u32 where "EPOLLHUP = 16"

section \<open>Timers\<close>

text \<open>\<open>std::multimap::insert\<close> puts a node behind those with the same key.\<close>

definition timers_insert :: "'s timer \<Rightarrow> 's timer list \<Rightarrow> 's timer list" where
  "timers_insert t ts = takeWhile (\<lambda>x. t_exp x \<le> t_exp t) ts @ t # dropWhile (\<lambda>x. t_exp x \<le> t_exp t) ts"

definition add_timer :: "int \<Rightarrow> 's \<Rightarrow> int \<Rightarrow> 's poller \<Rightarrow> 's poller" where
  "add_timer timeout sink i p =
     p\<lparr>p_timers := timers_insert \<lparr>t_exp = p_now p + word_of_int timeout, t_node = p_next p, t_sink = sink, t_id = i\<rparr> (p_timers p),
       p_next := p_next p + 1\<rparr>"

fun cancel_loop :: "'s \<Rightarrow> int \<Rightarrow> 's timer list \<Rightarrow> 's timer list option" where
  "cancel_loop sink i [] = None"
| "cancel_loop sink i (t # ts) =
     (if t_sink t = sink \<and> t_id t = i then Some ts else map_option (\<lambda>xs. t # xs) (cancel_loop sink i ts))"

definition cancel_timer :: "'s \<Rightarrow> int \<Rightarrow> 's poller \<Rightarrow> 's poller option" where
  "cancel_timer sink i p = map_option (\<lambda>ts. p\<lparr>p_timers := ts\<rparr>) (cancel_loop sink i (p_timers p))"

datatype 's poll_event = In_event 's | Out_event 's | Timer_event 's int

text \<open>The iterator is the node \<open>Some n\<close> or the end; erasing or advancing a node that is gone is undefined.\<close>

definition first_node :: "'s timer list \<Rightarrow> nat option" where
  "first_node ts = (case ts of [] \<Rightarrow> None | t # _ \<Rightarrow> Some (t_node t))"

definition erase_node :: "nat \<Rightarrow> 's poller \<Rightarrow> 's poller" where
  "erase_node n p = p\<lparr>p_timers := [t\<leftarrow>p_timers p. t_node t \<noteq> n]\<rparr>"

partial_function (option) timers_loop ::
  "('s poll_event \<Rightarrow> 'w \<Rightarrow> 's poller \<Rightarrow> ('w \<times> 's poller \<times> bool) option) \<Rightarrow> u64 \<Rightarrow> nat option \<Rightarrow> 'w \<Rightarrow> 's poller \<Rightarrow>
   ('w \<times> 's poller \<times> u64) option" where
  "timers_loop cb current it w p =
     (case it of
        None \<Rightarrow> Some (w, p, 0)
      | Some n \<Rightarrow>
          (case dropWhile (\<lambda>t. t_node t \<noteq> n) (p_timers p) of
             [] \<Rightarrow> None
           | t # _ \<Rightarrow>
               if t_exp t > current then Some (w, p, t_exp t - current)
               else (case cb (Timer_event (t_sink t) (t_id t)) w p of
                       None \<Rightarrow> None
                     | Some (w1, p1, b) \<Rightarrow>
                         (case dropWhile (\<lambda>t. t_node t \<noteq> n) (p_timers p1) of
                            [] \<Rightarrow> None
                          | _ # rest \<Rightarrow> timers_loop cb current (first_node rest) w1 (erase_node n p1)))))"

definition execute_timers ::
  "('s poll_event \<Rightarrow> 'w \<Rightarrow> 's poller \<Rightarrow> ('w \<times> 's poller \<times> bool) option) \<Rightarrow> 'w \<Rightarrow> 's poller \<Rightarrow> ('w \<times> 's poller \<times> u64) option" where
  "execute_timers cb w p =
     (if p_timers p = [] then Some (w, p, 0) else timers_loop cb (p_now p) (first_node (p_timers p)) w p)"

section \<open>Descriptors\<close>

text \<open>\<open>epoll_ctl\<close>: adding a registered descriptor fails, changing or removing an unregistered one too, as does any operation
  on a negative descriptor.\<close>

definition add_fd :: "int \<Rightarrow> 's \<Rightarrow> 's poller \<Rightarrow> ('s poller \<times> nat) option" where
  "add_fd fd sink p =
     (let h = length (p_heap p) in
      if fd < 0 \<or> p_set p fd \<noteq> None then None
      else Some (p\<lparr>p_heap := p_heap p @ [Some \<lparr>pe_fd = fd, pe_events = 0, pe_sink = sink\<rparr>], p_set := (p_set p)(fd \<mapsto> (h, 0))\<rparr>, h))"

definition deref :: "nat \<Rightarrow> 's poller \<Rightarrow> 's entry option" where
  "deref h p = (if h < length (p_heap p) then p_heap p ! h else None)"

definition rm_fd :: "nat \<Rightarrow> 's poller \<Rightarrow> 's poller option" where
  "rm_fd h p =
     (case deref h p of
        None \<Rightarrow> None
      | Some e \<Rightarrow>
          if p_set p (pe_fd e) = None then None
          else Some (p\<lparr>p_set := (p_set p)(pe_fd e := None), p_heap := (p_heap p)[h := Some (e\<lparr>pe_fd := retired_fd\<rparr>)],
                       p_retired := p_retired p @ [h]\<rparr>))"

definition mod_events :: "(u32 \<Rightarrow> u32) \<Rightarrow> nat \<Rightarrow> 's poller \<Rightarrow> 's poller option" where
  "mod_events f h p =
     (case deref h p of
        None \<Rightarrow> None
      | Some e \<Rightarrow>
          if p_set p (pe_fd e) = None then None
          else Some (p\<lparr>p_heap := (p_heap p)[h := Some (e\<lparr>pe_events := f (pe_events e)\<rparr>)],
                       p_set := (p_set p)(pe_fd e \<mapsto> (h, f (pe_events e)))\<rparr>))"

definition set_pollin :: "nat \<Rightarrow> 's poller \<Rightarrow> 's poller option" where
  "set_pollin = mod_events (\<lambda>e. or e EPOLLIN)"

definition reset_pollin :: "nat \<Rightarrow> 's poller \<Rightarrow> 's poller option" where
  "reset_pollin = mod_events (\<lambda>e. and e (not EPOLLIN))"

definition set_pollout :: "nat \<Rightarrow> 's poller \<Rightarrow> 's poller option" where
  "set_pollout = mod_events (\<lambda>e. or e EPOLLOUT)"

definition reset_pollout :: "nat \<Rightarrow> 's poller \<Rightarrow> 's poller option" where
  "reset_pollout = mod_events (\<lambda>e. and e (not EPOLLOUT))"

section \<open>The event loop\<close>

definition max_io_events :: nat where "max_io_events = 256"

text \<open>\<open>epoll_wait\<close> returns the entries of ready descriptors that are registered, at most \<open>max_io_events\<close>, with the events that were asked
  for; errors and hang-ups are always reported.\<close>

definition waited :: "(int \<times> u32) list \<Rightarrow> 's poller \<Rightarrow> (nat \<times> u32) list" where
  "waited ready p =
     concat (map (\<lambda>(fd, ev). case p_set p fd of None \<Rightarrow> [] | Some (h, m) \<Rightarrow> [(h, and ev (or m (or EPOLLERR EPOLLHUP)))])
       (take max_io_events ready))"

definition wait_timeout :: "u64 \<Rightarrow> int" where
  "wait_timeout t = (let i = sint (ucast t :: 32 word) in if i \<noteq> 0 then i else -1)"

definition poll_call ::
  "('s poll_event \<Rightarrow> 'w \<Rightarrow> 's poller \<Rightarrow> ('w \<times> 's poller \<times> bool) option) \<Rightarrow> bool \<Rightarrow> ('s \<Rightarrow> 's poll_event) \<Rightarrow> nat \<Rightarrow>
   'w \<times> 's poller \<Rightarrow> ('w \<times> 's poller) option" where
  "poll_call cb cond mk h = (\<lambda>(w, p).
     (case deref h p of
        None \<Rightarrow> None
      | Some e \<Rightarrow>
          if pe_fd e = retired_fd \<or> \<not> cond then Some (w, p)
          else (case cb (mk (pe_sink e)) w p of
                  None \<Rightarrow> None
                | Some (w1, p1, b) \<Rightarrow> Some (w1, p1\<lparr>p_stopping := p_stopping p1 \<or> b\<rparr>))))"

text \<open>One event: each of the three tests first looks whether the entry has been removed; once it has, the
  later tests see that too.\<close>

definition dispatch ::
  "('s poll_event \<Rightarrow> 'w \<Rightarrow> 's poller \<Rightarrow> ('w \<times> 's poller \<times> bool) option) \<Rightarrow> nat \<times> u32 \<Rightarrow> 'w \<times> 's poller \<Rightarrow> ('w \<times> 's poller) option" where
  "dispatch cb = (\<lambda>(h, ev) wp.
     do { wp1 \<leftarrow> poll_call cb (and ev (or EPOLLERR EPOLLHUP) \<noteq> 0) In_event h wp;
          wp2 \<leftarrow> poll_call cb (and ev EPOLLOUT \<noteq> 0) Out_event h wp1;
          poll_call cb (and ev EPOLLIN \<noteq> 0) In_event h wp2 })"

fun dispatch_all ::
  "('s poll_event \<Rightarrow> 'w \<Rightarrow> 's poller \<Rightarrow> ('w \<times> 's poller \<times> bool) option) \<Rightarrow> (nat \<times> u32) list \<Rightarrow> 'w \<times> 's poller \<Rightarrow>
   ('w \<times> 's poller) option" where
  "dispatch_all cb [] wp = Some wp"
| "dispatch_all cb (ev # evs) wp = do { wp1 \<leftarrow> dispatch cb ev wp; dispatch_all cb evs wp1 }"

fun delete_entries :: "nat list \<Rightarrow> 's entry option list \<Rightarrow> 's entry option list option" where
  "delete_entries [] heap = Some heap"
| "delete_entries (h # hs) heap =
     (if h < length heap \<and> heap ! h \<noteq> None then delete_entries hs (heap[h := None]) else None)"

definition free_retired :: "'s poller \<Rightarrow> 's poller option" where
  "free_retired p = map_option (\<lambda>heap. p\<lparr>p_heap := heap, p_retired := []\<rparr>) (delete_entries (p_retired p) (p_heap p))"

text \<open>A round: the clock reading, and what \<open>epoll_wait\<close> gives, \<open>None\<close> for \<open>EINTR\<close>.\<close>

definition loop_round ::
  "('s poll_event \<Rightarrow> 'w \<Rightarrow> 's poller \<Rightarrow> ('w \<times> 's poller \<times> bool) option) \<Rightarrow> u64 \<times> (int \<times> u32) list option \<Rightarrow>
   'w \<times> 's poller \<Rightarrow> ('w \<times> 's poller) option" where
  "loop_round cb = (\<lambda>(now, ready) (w, p).
     do { (w1, p1, t) \<leftarrow> execute_timers cb w (p\<lparr>p_now := now\<rparr>);
          case ready of
            None \<Rightarrow> Some (w1, p1)
          | Some evs \<Rightarrow>
              do { (w2, p2) \<leftarrow> dispatch_all cb (waited evs p1) (w1, p1);
                   p3 \<leftarrow> free_retired p2;
                   Some (w2, p3) } })"

fun poll_loop ::
  "('s poll_event \<Rightarrow> 'w \<Rightarrow> 's poller \<Rightarrow> ('w \<times> 's poller \<times> bool) option) \<Rightarrow> (u64 \<times> (int \<times> u32) list option) list \<Rightarrow>
   'w \<times> 's poller \<Rightarrow> ('w \<times> 's poller) option" where
  "poll_loop cb [] wp = Some wp"
| "poll_loop cb (r # rs) wp = (if p_stopping (snd wp) then Some wp else do { wp1 \<leftarrow> loop_round cb r wp; poll_loop cb rs wp1 })"

section \<open>Invariant\<close>

text \<open>Nodes are numbered as they are added.\<close>

definition earlier :: "'s timer \<Rightarrow> 's timer \<Rightarrow> bool" where
  "earlier a b \<longleftrightarrow> t_exp a < t_exp b \<or> (t_exp a = t_exp b \<and> t_node a < t_node b)"

definition timers_ok :: "'s poller \<Rightarrow> bool" where
  "timers_ok p \<longleftrightarrow> sorted_wrt earlier (p_timers p) \<and> distinct (map t_node (p_timers p)) \<and> (\<forall>t\<in>set (p_timers p). t_node t < p_next p)"

definition poll_inv :: "'s poller \<Rightarrow> bool" where
  "poll_inv p \<longleftrightarrow>
     (\<forall>fd h ev. p_set p fd = Some (h, ev) \<longleftrightarrow> 0 \<le> fd \<and> (\<exists>s. deref h p = Some \<lparr>pe_fd = fd, pe_events = ev, pe_sink = s\<rparr>)) \<and>
     distinct (p_retired p) \<and>
     (\<forall>h. h \<in> set (p_retired p) \<longleftrightarrow> (\<exists>e. deref h p = Some e \<and> pe_fd e = retired_fd)) \<and>
     (\<forall>h e. deref h p = Some e \<longrightarrow> 0 \<le> pe_fd e \<or> pe_fd e = retired_fd) \<and> timers_ok p"

text \<open>What a callback may do to the entries: retire them, and add new ones.\<close>

definition keeps :: "'s poller \<Rightarrow> 's poller \<Rightarrow> bool" where
  "keeps p p' \<longleftrightarrow> p_now p' = p_now p \<and> length (p_heap p) \<le> length (p_heap p') \<and>
     (\<forall>h e. deref h p = Some e \<longrightarrow> (\<exists>e'. deref h p' = Some e' \<and> pe_sink e' = pe_sink e \<and> (pe_fd e' = pe_fd e \<or> pe_fd e' = retired_fd)))"

lemma keeps_refl [simp]: "keeps p p"
  by (simp add: keeps_def)

lemma keeps_trans: "keeps p q \<Longrightarrow> keeps q r \<Longrightarrow> keeps p r"
  unfolding keeps_def by (smt (verit) le_trans)

lemma deref_simps [simp]:
  "deref h (p\<lparr>p_timers := a\<rparr>) = deref h p" "deref h (p\<lparr>p_next := b\<rparr>) = deref h p" "deref h (p\<lparr>p_set := c\<rparr>) = deref h p"
  "deref h (p\<lparr>p_retired := d\<rparr>) = deref h p" "deref h (p\<lparr>p_stopping := x\<rparr>) = deref h p" "deref h (p\<lparr>p_now := y\<rparr>) = deref h p"
  by (simp_all add: deref_def)

lemma deref_append:
  "deref k (p\<lparr>p_heap := p_heap p @ [Some e]\<rparr>) = (if k = length (p_heap p) then Some e else deref k p)"
  by (auto simp: deref_def nth_append)

lemma deref_bound: "deref h p = Some e \<Longrightarrow> h < length (p_heap p)"
  by (simp add: deref_def split: if_splits)

lemma add_fd_ok:
  assumes "poll_inv p" "0 \<le> fd" "p_set p fd = None"
  shows "\<exists>p'. add_fd fd sink p = Some (p', length (p_heap p)) \<and> poll_inv p' \<and> keeps p p' \<and> p_timers p' = p_timers p \<and>
    p_set p' = (p_set p)(fd \<mapsto> (length (p_heap p), 0)) \<and> p_now p' = p_now p \<and> p_stopping p' = p_stopping p \<and>
    (\<forall>k. deref k p' = (if k = length (p_heap p) then Some \<lparr>pe_fd = fd, pe_events = 0, pe_sink = sink\<rparr> else deref k p))"
proof -
  let ?h = "length (p_heap p)"
  let ?p = "p\<lparr>p_heap := p_heap p @ [Some \<lparr>pe_fd = fd, pe_events = 0, pe_sink = sink\<rparr>], p_set := (p_set p)(fd \<mapsto> (?h, 0))\<rparr>"
  have d: "deref k ?p = (if k = ?h then Some \<lparr>pe_fd = fd, pe_events = 0, pe_sink = sink\<rparr> else deref k p)" for k
    using deref_append [of k p] by simp
  have none: "deref ?h p = None" by (simp add: deref_def)
  have "deref k p \<noteq> Some \<lparr>pe_fd = fd, pe_events = ev, pe_sink = s\<rparr>" for k ev s
    using assms unfolding poll_inv_def by (metis option.distinct(1))
  then have "poll_inv ?p" using assms none unfolding poll_inv_def d
    by (auto simp: timers_ok_def retired_fd_def split: if_splits)
  moreover have "keeps p ?p" using none unfolding keeps_def d by auto
  moreover have "add_fd fd sink p = Some (?p, ?h)" using assms by (simp add: add_fd_def Let_def)
  ultimately show ?thesis using d by (intro exI [of _ ?p]) auto
qed

lemma poll_inv_entry:
  assumes "poll_inv p" "deref h p = Some e" "pe_fd e \<noteq> retired_fd"
  shows "0 \<le> pe_fd e" "p_set p (pe_fd e) = Some (h, pe_events e)"
proof -
  show "0 \<le> pe_fd e" using assms by (auto simp: poll_inv_def)
  moreover have "e = \<lparr>pe_fd = pe_fd e, pe_events = pe_events e, pe_sink = pe_sink e\<rparr>" by simp
  ultimately show "p_set p (pe_fd e) = Some (h, pe_events e)" using assms unfolding poll_inv_def by metis
qed

lemma poll_inv_set:
  assumes "poll_inv p" "p_set p fd = Some (h, ev)"
  shows "\<exists>s. deref h p = Some \<lparr>pe_fd = fd, pe_events = ev, pe_sink = s\<rparr> \<and> 0 \<le> fd"
  using assms unfolding poll_inv_def by blast

lemma rm_fd_ok:
  assumes "poll_inv p" "deref h p = Some e" "pe_fd e \<noteq> retired_fd"
  shows "\<exists>p'. rm_fd h p = Some p' \<and> poll_inv p' \<and> keeps p p' \<and> p_timers p' = p_timers p \<and> p_set p' = (p_set p)(pe_fd e := None) \<and>
    p_now p' = p_now p \<and> p_stopping p' = p_stopping p \<and>
    (\<forall>k. deref k p' = (if k = h then Some (e\<lparr>pe_fd := retired_fd\<rparr>) else deref k p))"
proof -
  let ?p = "p\<lparr>p_set := (p_set p)(pe_fd e := None), p_heap := (p_heap p)[h := Some (e\<lparr>pe_fd := retired_fd\<rparr>)], p_retired := p_retired p @ [h]\<rparr>"
  have d: "deref k ?p = (if k = h then Some (e\<lparr>pe_fd := retired_fd\<rparr>) else deref k p)" for k
    using deref_bound [OF assms(2)] by (simp add: deref_def)
  note fd = poll_inv_entry [OF assms]
  have r: "h \<notin> set (p_retired p)" using assms by (auto simp: poll_inv_def)
  have set: "p_set p f = Some (k, ev) \<longleftrightarrow> 0 \<le> f \<and> (\<exists>s. deref k p = Some \<lparr>pe_fd = f, pe_events = ev, pe_sink = s\<rparr>)" for f k ev
    using assms(1) by (simp add: poll_inv_def)
  have "((p_set p)(pe_fd e := None)) f = Some (k, ev) \<longleftrightarrow> 0 \<le> f \<and> (\<exists>s. deref k ?p = Some \<lparr>pe_fd = f, pe_events = ev, pe_sink = s\<rparr>)" for f k ev
  proof (cases "f = pe_fd e")
    case True
    have "deref k p = Some \<lparr>pe_fd = pe_fd e, pe_events = ev, pe_sink = s\<rparr> \<Longrightarrow> k = h" for s using set [of "pe_fd e" k ev] fd by auto
    then show ?thesis using True d fd(1) by (cases e) (auto simp: retired_fd_def)
  next
    case False
    then show ?thesis using set [of f k ev] d [of k] assms(2) by (cases e) (auto simp: retired_fd_def)
  qed
  moreover have "timers_ok ?p" using assms(1) by (simp add: poll_inv_def timers_ok_def)
  ultimately have "poll_inv ?p" using assms r unfolding poll_inv_def d by (auto split: if_splits)
  moreover have "keeps p ?p" using assms unfolding keeps_def d by auto
  moreover have "rm_fd h p = Some ?p" using assms fd by (simp add: rm_fd_def)
  ultimately show ?thesis using d by (intro exI [of _ ?p]) auto
qed

lemma mod_events_ok:
  assumes "poll_inv p" "deref h p = Some e" "pe_fd e \<noteq> retired_fd"
  shows "\<exists>p'. mod_events f h p = Some p' \<and> poll_inv p' \<and> keeps p p' \<and> p_timers p' = p_timers p \<and>
    p_set p' = (p_set p)(pe_fd e \<mapsto> (h, f (pe_events e))) \<and> p_now p' = p_now p \<and> p_stopping p' = p_stopping p \<and>
    (\<forall>k. deref k p' = (if k = h then Some (e\<lparr>pe_events := f (pe_events e)\<rparr>) else deref k p))"
proof -
  let ?p = "p\<lparr>p_heap := (p_heap p)[h := Some (e\<lparr>pe_events := f (pe_events e)\<rparr>)], p_set := (p_set p)(pe_fd e \<mapsto> (h, f (pe_events e)))\<rparr>"
  have d: "deref k ?p = (if k = h then Some (e\<lparr>pe_events := f (pe_events e)\<rparr>) else deref k p)" for k
    using deref_bound [OF assms(2)] by (simp add: deref_def)
  note fd = poll_inv_entry [OF assms]
  have set: "p_set p g = Some (k, ev) \<longleftrightarrow> 0 \<le> g \<and> (\<exists>s. deref k p = Some \<lparr>pe_fd = g, pe_events = ev, pe_sink = s\<rparr>)" for g k ev
    using assms(1) by (simp add: poll_inv_def)
  have "((p_set p)(pe_fd e \<mapsto> (h, f (pe_events e)))) g = Some (k, ev) \<longleftrightarrow>
      0 \<le> g \<and> (\<exists>s. deref k ?p = Some \<lparr>pe_fd = g, pe_events = ev, pe_sink = s\<rparr>)" for g k ev
  proof (cases "g = pe_fd e")
    case True
    have "deref k p = Some \<lparr>pe_fd = pe_fd e, pe_events = ev', pe_sink = s\<rparr> \<Longrightarrow> k = h" for s ev' using set [of "pe_fd e" k ev'] fd by auto
    then show ?thesis using True d fd(1) by (cases e) auto
  next
    case False
    then show ?thesis using set [of g k ev] d [of k] assms(2) by (cases e) auto
  qed
  moreover have "timers_ok ?p" using assms(1) by (simp add: poll_inv_def timers_ok_def)
  ultimately have "poll_inv ?p" using assms fd unfolding poll_inv_def d by (auto split: if_splits)
  moreover have "keeps p ?p" using assms unfolding keeps_def d by auto
  moreover have "mod_events f h p = Some ?p" using assms fd by (simp add: mod_events_def)
  ultimately show ?thesis using d by (intro exI [of _ ?p]) auto
qed

lemma set_timers_insert [simp]: "set (timers_insert t ts) = Set.insert t (set ts)"
proof -
  have "set ts = set (takeWhile (\<lambda>x. t_exp x \<le> t_exp t) ts @ dropWhile (\<lambda>x. t_exp x \<le> t_exp t) ts)" by simp
  then show ?thesis unfolding timers_insert_def set_append by auto
qed

lemma sorted_timers_insert:
  "sorted_wrt earlier ts \<Longrightarrow> \<forall>x\<in>set ts. t_node x < t_node t \<Longrightarrow> sorted_wrt earlier (timers_insert t ts)"
proof (induction ts)
  case (Cons x ts)
  show ?case
  proof (cases "t_exp x \<le> t_exp t")
    case True
    then have "timers_insert t (x # ts) = x # timers_insert t ts" by (simp add: timers_insert_def)
    moreover have "earlier x t" using True Cons.prems(2) by (auto simp: earlier_def)
    ultimately show ?thesis using Cons by simp
  next
    case False
    then have "timers_insert t (x # ts) = t # x # ts" by (simp add: timers_insert_def)
    moreover have "earlier t y" if "y \<in> set (x # ts)" for y
      using that False Cons.prems(1) by (auto simp: earlier_def not_le intro: order_less_trans)
    ultimately show ?thesis using Cons.prems(1) by simp
  qed
qed (simp add: timers_insert_def)

lemma sorted_exp: "sorted_wrt earlier ts \<Longrightarrow> sorted (map t_exp ts)"
  by (induction ts) (auto simp: earlier_def intro: less_imp_le)

lemma distinct_timers_insert: "distinct (map t_node (timers_insert t ts)) \<longleftrightarrow> t_node t \<notin> t_node ` set ts \<and> distinct (map t_node ts)"
proof (induction ts)
  case (Cons x ts)
  show ?case
  proof (cases "t_exp x \<le> t_exp t")
    case True
    then have "timers_insert t (x # ts) = x # timers_insert t ts" by (simp add: timers_insert_def)
    with Cons show ?thesis by auto
  qed (simp add: timers_insert_def)
qed (simp add: timers_insert_def)

lemma add_timer_ok:
  fixes p :: "'s poller" and timeout i :: int and sink :: 's
  assumes "poll_inv p"
  defines "t \<equiv> \<lparr>t_exp = p_now p + word_of_int timeout, t_node = p_next p, t_sink = sink, t_id = i\<rparr>"
  shows "poll_inv (add_timer timeout sink i p)" "keeps p (add_timer timeout sink i p)"
    "p_timers (add_timer timeout sink i p) = timers_insert t (p_timers p)"
    "deref h (add_timer timeout sink i p) = deref h p" "p_set (add_timer timeout sink i p) = p_set p"
    "p_now (add_timer timeout sink i p) = p_now p" "t_node t \<notin> t_node ` set (p_timers p)"
proof -
  have d: "deref h (add_timer timeout sink i p) = deref h p" for h by (simp add: add_timer_def)
  have t: "timers_ok p" using assms(1) by (simp add: poll_inv_def)
  then have n: "t_node t \<notin> t_node ` set (p_timers p)" by (auto simp: timers_ok_def t_def)
  have "timers_ok (add_timer timeout sink i p)"
    using t n by (auto simp: timers_ok_def add_timer_def t_def sorted_timers_insert distinct_timers_insert less_Suc_eq)
  with assms(1) show "poll_inv (add_timer timeout sink i p)" unfolding poll_inv_def d by (simp add: add_timer_def)
  show "keeps p (add_timer timeout sink i p)" unfolding keeps_def d by (simp add: add_timer_def)
  show "t_node t \<notin> t_node ` set (p_timers p)" using n .
qed (simp_all add: add_timer_def t_def)

lemma cancel_loop_eq:
  assumes "\<exists>t\<in>set ts. t_sink t = sink \<and> t_id t = i"
  shows "\<exists>xs t ys. ts = xs @ t # ys \<and> t_sink t = sink \<and> t_id t = i \<and> cancel_loop sink i ts = Some (xs @ ys)"
  using assms
proof (induction ts)
  case (Cons x ts)
  show ?case
  proof (cases "t_sink x = sink \<and> t_id x = i")
    case True
    then show ?thesis by (intro exI [of _ "[]"]) auto
  next
    case False
    with Cons obtain xs t ys where "ts = xs @ t # ys" "t_sink t = sink" "t_id t = i" "cancel_loop sink i ts = Some (xs @ ys)" by auto
    with False show ?thesis by (intro exI [of _ "x # xs"]) auto
  qed
qed simp

lemma cancel_timer_ok:
  assumes "poll_inv p" "\<exists>t\<in>set (p_timers p). t_sink t = sink \<and> t_id t = i"
  shows "\<exists>p' xs t ys. cancel_timer sink i p = Some p' \<and> poll_inv p' \<and> keeps p p' \<and> p' = p\<lparr>p_timers := xs @ ys\<rparr> \<and>
    p_timers p = xs @ t # ys \<and> t_sink t = sink \<and> t_id t = i"
proof -
  from cancel_loop_eq [OF assms(2)] obtain xs t ys where
    c: "p_timers p = xs @ t # ys" "t_sink t = sink" "t_id t = i" "cancel_loop sink i (p_timers p) = Some (xs @ ys)" by blast
  have "timers_ok (p\<lparr>p_timers := xs @ ys\<rparr>)" using assms(1) c(1) by (auto simp: poll_inv_def timers_ok_def sorted_wrt_append)
  then have "poll_inv (p\<lparr>p_timers := xs @ ys\<rparr>)" using assms(1) by (simp add: poll_inv_def)
  then show ?thesis using c by (intro exI [of _ "p\<lparr>p_timers := xs @ ys\<rparr>"] exI [of _ xs] exI [of _ t] exI [of _ ys]) (simp add: cancel_timer_def keeps_def)
qed

section \<open>The loop with well-behaved clients\<close>

text \<open>The contract: \<open>outs\<close> are the sinks that may ask for output events, \<open>good\<close> is the clients' invariant. It may speak of entries and timers, of the retired entries only as
  such. A timer callback runs while its timer is still in the map; the timers it adds are due later.\<close>

definition registered :: "'s \<Rightarrow> 's poller \<Rightarrow> bool" where
  "registered s p \<longleftrightarrow> (\<exists>h e. deref h p = Some e \<and> pe_sink e = s \<and> pe_fd e \<noteq> retired_fd)"

definition adds_later :: "'s poller \<Rightarrow> 's poller \<Rightarrow> bool" where
  "adds_later p p' \<longleftrightarrow> (\<forall>t\<in>set (p_timers p'). t \<in> set (p_timers p) \<or> p_now p < t_exp t)"

lemma free_deref:
  assumes "distinct hs" "\<forall>h\<in>set hs. h < length heap \<and> heap ! h \<noteq> None"
  shows "\<exists>heap'. delete_entries hs heap = Some heap' \<and> length heap' = length heap \<and>
    (\<forall>k<length heap. heap' ! k = (if k \<in> set hs then None else heap ! k))"
  using assms
proof (induction hs arbitrary: heap)
  case (Cons h hs)
  have "\<forall>k\<in>set hs. k < length (heap[h := None]) \<and> heap[h := None] ! k \<noteq> None"
    using Cons.prems by (auto simp: nth_list_update)
  with Cons.IH [of "heap[h := None]"] Cons.prems obtain heap' where
    "delete_entries hs (heap[h := None]) = Some heap'" "length heap' = length heap"
    "\<forall>k<length heap. heap' ! k = (if k \<in> set hs then None else heap[h := None] ! k)" by auto
  then show ?case using Cons.prems by (auto simp: nth_list_update)
qed simp

text \<open>Freeing the retired entries: all of them are there, and what remains are the registered ones.\<close>

lemma free_retired_ok:
  assumes "poll_inv p"
  shows "\<exists>p'. free_retired p = Some p' \<and> poll_inv p' \<and> p_retired p' = [] \<and> p_timers p' = p_timers p \<and> p_now p' = p_now p \<and>
    p_set p' = p_set p \<and> p_stopping p' = p_stopping p \<and>
    (\<forall>k. deref k p' = (case deref k p of None \<Rightarrow> None | Some e \<Rightarrow> if pe_fd e = retired_fd then None else Some e))"
proof -
  have r: "h \<in> set (p_retired p) \<longleftrightarrow> (\<exists>e. deref h p = Some e \<and> pe_fd e = retired_fd)" "distinct (p_retired p)" for h
    using assms by (simp_all add: poll_inv_def)
  then have "\<forall>h\<in>set (p_retired p). h < length (p_heap p) \<and> p_heap p ! h \<noteq> None" by (auto simp: deref_def split: if_splits)
  from free_deref [OF r(2) this] obtain heap where heap: "delete_entries (p_retired p) (p_heap p) = Some heap" "length heap = length (p_heap p)"
    "\<forall>k<length (p_heap p). heap ! k = (if k \<in> set (p_retired p) then None else p_heap p ! k)" by blast
  let ?p = "p\<lparr>p_heap := heap, p_retired := []\<rparr>"
  have "deref k ?p = (if k \<in> set (p_retired p) then None else deref k p)" for k using heap by (simp add: deref_def)
  then have d: "deref k ?p = (case deref k p of None \<Rightarrow> None | Some e \<Rightarrow> if pe_fd e = retired_fd then None else Some e)" for k
    using r(1) [of k] by (auto split: option.split)
  have "poll_inv ?p" using assms unfolding poll_inv_def d by (auto simp: timers_ok_def retired_fd_def split: option.splits if_splits)
  then show ?thesis using heap(1) d by (intro exI [of _ ?p]) (simp add: free_retired_def)
qed

lemma erase_node_inv: "poll_inv p \<Longrightarrow> poll_inv (erase_node n p)"
  by (auto simp: poll_inv_def erase_node_def timers_ok_def sorted_wrt_filter distinct_map_filter)

lemma and_out: "and (and ev (or m (or EPOLLERR EPOLLHUP))) EPOLLOUT = and ev (and m EPOLLOUT)"
proof -
  have "and (or m (or EPOLLERR EPOLLHUP)) EPOLLOUT = and m EPOLLOUT"
    by (simp add: EPOLLERR_def EPOLLHUP_def EPOLLOUT_def bit.conj_disj_distrib2)
  then show ?thesis by (simp add: and.assoc)
qed

lemma waited_set: "(h, ev) \<in> set (waited ready p) \<Longrightarrow> \<exists>fd m. p_set p fd = Some (h, m) \<and> (and ev EPOLLOUT \<noteq> 0 \<longrightarrow> and m EPOLLOUT \<noteq> 0)"
  by (auto simp: waited_def and_out split: option.splits) (metis and_zero_eq and_out)

locale poll_clients =
  fixes cb :: "'s poll_event \<Rightarrow> 'w \<Rightarrow> 's poller \<Rightarrow> ('w \<times> 's poller \<times> bool) option"
    and good :: "'w \<Rightarrow> 's poller \<Rightarrow> bool"
    and outs :: "'s \<Rightarrow> bool"
  assumes good_inv: "good w p \<Longrightarrow> poll_inv p"
    and in_ok: "good w p \<Longrightarrow> registered s p \<Longrightarrow> \<exists>w' p' b. cb (In_event s) w p = Some (w', p', b) \<and> good w' p' \<and> keeps p p'"
    and good_out: "good w p \<Longrightarrow> deref h p = Some e \<Longrightarrow> and (pe_events e) EPOLLOUT \<noteq> 0 \<Longrightarrow> outs (pe_sink e)"
    and out_ok: "good w p \<Longrightarrow> registered s p \<Longrightarrow> outs s \<Longrightarrow> \<exists>w' p' b. cb (Out_event s) w p = Some (w', p', b) \<and> good w' p' \<and> keeps p p'"
    and timer_ok: "good w p \<Longrightarrow> p_timers p = t # ts \<Longrightarrow> t_exp t \<le> p_now p \<Longrightarrow> \<exists>w' p' b ts'. cb (Timer_event (t_sink t) (t_id t)) w p = Some (w', p', b) \<and>
      p_timers p' = t # ts' \<and> t_node t \<notin> t_node ` set ts' \<and> good w' (erase_node (t_node t) p') \<and> keeps p p' \<and> adds_later p p'"
    and good_now: "good w p \<Longrightarrow> now < 2 ^ 63 \<Longrightarrow> good w (p\<lparr>p_now := now\<rparr>)"
    and good_stop: "good w p \<Longrightarrow> good w (p\<lparr>p_stopping := b\<rparr>)"
    and good_free: "good w p \<Longrightarrow> free_retired p = Some p' \<Longrightarrow> good w p'"
begin

lemma loop_from_first:
  assumes "good w p" "p_now p = current"
  shows "\<exists>w' p' t. timers_loop cb current (first_node (p_timers p)) w p = Some (w', p', t) \<and> good w' p' \<and> keeps p p' \<and>
    (case p_timers p' of [] \<Rightarrow> t = 0 | x # xs \<Rightarrow> current < t_exp x \<and> t = t_exp x - current)"
  using assms
proof (induction "length (filter (\<lambda>t. t_exp t \<le> current) (p_timers p))" arbitrary: w p rule: less_induct)
  case less
  show ?case
  proof (cases "p_timers p")
    case Nil
    then show ?thesis using less.prems by (simp add: first_node_def timers_loop.simps)
  next
    case (Cons t ts)
    show ?thesis
    proof (cases "t_exp t > current")
      case True
      then show ?thesis using less.prems Cons by (simp add: first_node_def timers_loop.simps)
    next
      case False
      from timer_ok [OF less.prems(1) Cons] False less.prems(2) obtain w1 p1 b ts1 where
        cb: "cb (Timer_event (t_sink t) (t_id t)) w p = Some (w1, p1, b)" and p1: "p_timers p1 = t # ts1" "t_node t \<notin> t_node ` set ts1"
        and g: "good w1 (erase_node (t_node t) p1)" and k: "keeps p p1" "adds_later p p1" by (auto simp: not_less)
      have e: "p_timers (erase_node (t_node t) p1) = ts1" using p1 by (simp add: erase_node_def filter_id_conv image_iff) metis
      have now: "p_now (erase_node (t_node t) p1) = current" using k(1) less.prems(2) by (simp add: erase_node_def keeps_def)
      have "distinct ts1" using good_inv [OF g] e by (auto simp: poll_inv_def timers_ok_def distinct_map)
      moreover have "set (filter (\<lambda>t. t_exp t \<le> current) ts1) \<subset> set (filter (\<lambda>t. t_exp t \<le> current) (p_timers p))"
        using k(2) p1 Cons False less.prems(2) by (auto simp: adds_later_def)
      ultimately have "length (filter (\<lambda>t. t_exp t \<le> current) ts1) < card (set (filter (\<lambda>t. t_exp t \<le> current) (p_timers p)))"
        using psubset_card_mono [OF finite_set] distinct_card [of "filter (\<lambda>t. t_exp t \<le> current) ts1"] distinct_filter by metis
      also have "\<dots> \<le> length (filter (\<lambda>t. t_exp t \<le> current) (p_timers p))" by (rule card_length)
      finally have "length (filter (\<lambda>t. t_exp t \<le> current) ts1) < length (filter (\<lambda>t. t_exp t \<le> current) (p_timers p))" .
      with less.hyps [OF _ g now] e obtain w' p' tm where
        r: "timers_loop cb current (first_node ts1) w1 (erase_node (t_node t) p1) = Some (w', p', tm)" "good w' p'"
          "keeps (erase_node (t_node t) p1) p'"
          "case p_timers p' of [] \<Rightarrow> tm = 0 | x # xs \<Rightarrow> current < t_exp x \<and> tm = t_exp x - current" by auto
      have "keeps p (erase_node (t_node t) p1)" using k(1) by (simp add: keeps_def erase_node_def)
      from keeps_trans [OF this r(3)] r cb p1 Cons False show ?thesis
        by (subst timers_loop.simps) (simp add: first_node_def)
    qed
  qed
qed

lemma execute_ok:
  assumes "good w p"
  shows "\<exists>w' p' t. execute_timers cb w p = Some (w', p', t) \<and> good w' p' \<and> keeps p p' \<and>
    (case p_timers p' of [] \<Rightarrow> t = 0 | x # xs \<Rightarrow> p_now p < t_exp x \<and> t = t_exp x - p_now p)"
  using loop_from_first [OF assms refl] assms by (simp add: execute_timers_def)

lemma keeps_deref: "keeps p p' \<Longrightarrow> deref h p \<noteq> None \<Longrightarrow> deref h p' \<noteq> None"
  by (auto simp: keeps_def)

lemma keeps_outs:
  assumes "keeps p p'" "deref h p \<noteq> None" "c \<longrightarrow> (\<forall>e. deref h p = Some e \<longrightarrow> outs (pe_sink e))"
  shows "c \<longrightarrow> (\<forall>e. deref h p' = Some e \<longrightarrow> outs (pe_sink e))"
proof -
  obtain e where e: "deref h p = Some e" using assms(2) by blast
  then obtain e' where "deref h p' = Some e'" "pe_sink e' = pe_sink e" using assms(1) by (auto simp: keeps_def)
  then show ?thesis using assms(3) e by simp
qed

lemma poll_call_ok:
  assumes "good w p" "deref h p \<noteq> None" and mk: "mk = In_event \<or> mk = Out_event \<and> (cond \<longrightarrow> (\<forall>e. deref h p = Some e \<longrightarrow> outs (pe_sink e)))"
  shows "\<exists>w' p'. poll_call cb cond mk h (w, p) = Some (w', p') \<and> good w' p' \<and> keeps p p'"
proof -
  obtain e where e: "deref h p = Some e" using assms(2) by blast
  show ?thesis
  proof (cases "pe_fd e = retired_fd \<or> \<not> cond")
    case True
    then show ?thesis using assms(1) e by (simp add: poll_call_def)
  next
    case False
    then have "registered (pe_sink e) p" using e by (auto simp: registered_def)
    from in_ok [OF assms(1) this] out_ok [OF assms(1) this] mk False e obtain w' p' b where
      r: "cb (mk (pe_sink e)) w p = Some (w', p', b)" "good w' p'" "keeps p p'" by auto
    have "keeps p (p'\<lparr>p_stopping := x\<rparr>)" for x using r(3) by (simp add: keeps_def)
    with r False e good_stop [OF r(2)] show ?thesis by (simp add: poll_call_def)
  qed
qed

lemma dispatch_ok:
  assumes "good w p" "deref h p \<noteq> None" and out: "and ev EPOLLOUT \<noteq> 0 \<longrightarrow> (\<forall>e. deref h p = Some e \<longrightarrow> outs (pe_sink e))"
  shows "\<exists>w' p'. dispatch cb (h, ev) (w, p) = Some (w', p') \<and> good w' p' \<and> keeps p p'"
proof -
  let ?call = "\<lambda>m mk. poll_call cb (and ev m \<noteq> 0) mk h"
  from poll_call_ok [OF assms(1,2), of In_event "and ev (or EPOLLERR EPOLLHUP) \<noteq> 0"] obtain w1 p1 where
    1: "?call (or EPOLLERR EPOLLHUP) In_event (w, p) = Some (w1, p1)" "good w1 p1" "keeps p p1" by blast
  have "and ev EPOLLOUT \<noteq> 0 \<longrightarrow> (\<forall>e. deref h p1 = Some e \<longrightarrow> outs (pe_sink e))" using keeps_outs [OF 1(3) assms(2) out] .
  with poll_call_ok [OF 1(2) keeps_deref [OF 1(3) assms(2)], of Out_event "and ev EPOLLOUT \<noteq> 0"] obtain w2 p2 where
    2: "?call EPOLLOUT Out_event (w1, p1) = Some (w2, p2)" "good w2 p2" "keeps p1 p2" by blast
  note k = keeps_trans [OF 1(3) 2(3)]
  from poll_call_ok [OF 2(2) keeps_deref [OF k assms(2)], of In_event "and ev EPOLLIN \<noteq> 0"] obtain w3 p3 where
    3: "?call EPOLLIN In_event (w2, p2) = Some (w3, p3)" "good w3 p3" "keeps p2 p3" by blast
  from keeps_trans [OF k 3(3)] 1(1) 2(1) 3(1,2) show ?thesis by (simp add: dispatch_def)
qed

lemma dispatch_all_ok:
  assumes "good w p" "\<forall>(h, ev)\<in>set evs. deref h p \<noteq> None \<and> (and ev EPOLLOUT \<noteq> 0 \<longrightarrow> (\<forall>e. deref h p = Some e \<longrightarrow> outs (pe_sink e)))"
  shows "\<exists>w' p'. dispatch_all cb evs (w, p) = Some (w', p') \<and> good w' p'"
  using assms
proof (induction evs arbitrary: w p)
  case (Cons a evs)
  obtain h ev where a: "a = (h, ev)" by fastforce
  from dispatch_ok [OF Cons.prems(1), of h ev] Cons.prems(2) a obtain w1 p1 where
    1: "dispatch cb (h, ev) (w, p) = Some (w1, p1)" "good w1 p1" "keeps p p1" by auto
  have "\<forall>(h, ev)\<in>set evs. deref h p1 \<noteq> None \<and> (and ev EPOLLOUT \<noteq> 0 \<longrightarrow> (\<forall>e. deref h p1 = Some e \<longrightarrow> outs (pe_sink e)))"
  proof (intro ballI, clarify)
    fix k v assume "(k, v) \<in> set evs"
    then have "deref k p \<noteq> None" "and v EPOLLOUT \<noteq> 0 \<longrightarrow> (\<forall>e. deref k p = Some e \<longrightarrow> outs (pe_sink e))" using Cons.prems(2) by auto
    then show "deref k p1 \<noteq> None \<and> (and v EPOLLOUT \<noteq> 0 \<longrightarrow> (\<forall>e. deref k p1 = Some e \<longrightarrow> outs (pe_sink e)))"
      using keeps_deref [OF 1(3)] keeps_outs [OF 1(3)] by blast
  qed
  from Cons.IH [OF 1(2) this] 1(1) a show ?case by simp
qed simp

lemma round_ok:
  assumes "good w p" "now < 2 ^ 63"
  shows "\<exists>w' p'. loop_round cb (now, ready) (w, p) = Some (w', p') \<and> good w' p' \<and> (ready \<noteq> None \<longrightarrow> p_retired p' = [])"
proof -
  from execute_ok [OF good_now [OF assms]] obtain w1 p1 t where
    1: "execute_timers cb w (p\<lparr>p_now := now\<rparr>) = Some (w1, p1, t)" "good w1 p1" by blast
  show ?thesis
  proof (cases ready)
    case None
    then show ?thesis using 1 by (simp add: loop_round_def)
  next
    case (Some evs)
    have "\<forall>(h, ev)\<in>set (waited evs p1). deref h p1 \<noteq> None \<and> (and ev EPOLLOUT \<noteq> 0 \<longrightarrow> (\<forall>e. deref h p1 = Some e \<longrightarrow> outs (pe_sink e)))"
    proof (intro ballI, clarify)
      fix h ev assume "(h, ev) \<in> set (waited evs p1)"
      from waited_set [OF this] obtain fd m where m: "p_set p1 fd = Some (h, m)" "and ev EPOLLOUT \<noteq> 0 \<longrightarrow> and m EPOLLOUT \<noteq> 0" by blast
      from poll_inv_set [OF good_inv [OF 1(2)] m(1)] obtain s where s: "deref h p1 = Some \<lparr>pe_fd = fd, pe_events = m, pe_sink = s\<rparr>" by blast
      with good_out [OF 1(2) s] m(2) show "deref h p1 \<noteq> None \<and> (and ev EPOLLOUT \<noteq> 0 \<longrightarrow> (\<forall>e. deref h p1 = Some e \<longrightarrow> outs (pe_sink e)))" by auto
    qed
    from dispatch_all_ok [OF 1(2) this] obtain w2 p2 where 2: "dispatch_all cb (waited evs p1) (w1, p1) = Some (w2, p2)" "good w2 p2" by blast
    from free_retired_ok [OF good_inv [OF 2(2)]] obtain p3 where 3: "free_retired p2 = Some p3" "p_retired p3 = []" by blast
    show ?thesis using 1(1) 2(1) 3 good_free [OF 2(2) 3(1)] Some by (simp add: loop_round_def)
  qed
qed

lemma loop_ok:
  assumes "good w p" "\<forall>(now, ready)\<in>set script. now < 2 ^ 63"
  shows "\<exists>w' p'. poll_loop cb script (w, p) = Some (w', p') \<and> good w' p'"
  using assms
proof (induction script arbitrary: w p)
  case (Cons r script)
  obtain now ready where r: "r = (now, ready)" by fastforce
  from round_ok [OF Cons.prems(1), of now ready] Cons.prems(2) r obtain w1 p1 where
    1: "loop_round cb r (w, p) = Some (w1, p1)" "good w1 p1" by auto
  from Cons.IH [OF 1(2)] Cons.prems 1(1) show ?case by auto
qed simp

end

section \<open>Timers fire in order\<close>

text \<open>Sinks that record the call and add the timers \<open>f\<close> gives: timeout, sink and id.\<close>

definition add_timers :: "(int \<times> 's \<times> int) list \<Rightarrow> 's poller \<Rightarrow> 's poller" where
  "add_timers = fold (\<lambda>(timeout, s, i). add_timer timeout s i)"

fun firing ::
  "('s \<Rightarrow> int \<Rightarrow> (int \<times> 's \<times> int) list) \<Rightarrow> 's poll_event \<Rightarrow> ('s \<times> int) list \<Rightarrow> 's poller \<Rightarrow> (('s \<times> int) list \<times> 's poller \<times> bool) option" where
  "firing f (Timer_event s i) fired p = Some (fired @ [(s, i)], add_timers (f s i) p, False)"
| "firing f _ fired p = Some (fired, p, False)"

definition t_key :: "'s timer \<Rightarrow> u64 \<times> 's \<times> int" where
  "t_key t = (t_exp t, t_sink t, t_id t)"

definition later_keys :: "u64 \<Rightarrow> (int \<times> 's \<times> int) list \<Rightarrow> (u64 \<times> 's \<times> int) list" where
  "later_keys now = map (\<lambda>(timeout, s, i). (now + word_of_int timeout, s, i))"

lemma timers_insert_head: "t_exp t \<le> t_exp x \<Longrightarrow> timers_insert x (t # ts) = t # timers_insert x ts"
  by (simp add: timers_insert_def)

lemma filter_timers_insert: "\<not> P x \<Longrightarrow> filter P (timers_insert x ts) = filter P ts"
proof -
  assume "\<not> P x"
  have "filter P ts = filter P (takeWhile (\<lambda>y. t_exp y \<le> t_exp x) ts) @ filter P (dropWhile (\<lambda>y. t_exp y \<le> t_exp x) ts)"
    by (simp flip: filter_append)
  with \<open>\<not> P x\<close> show ?thesis by (simp add: timers_insert_def)
qed

lemma mset_timers_insert: "mset (timers_insert x ts) = add_mset x (mset ts)"
proof -
  have "mset ts = mset (takeWhile (\<lambda>y. t_exp y \<le> t_exp x) ts) + mset (dropWhile (\<lambda>y. t_exp y \<le> t_exp x) ts)"
    by (simp flip: mset_append)
  then show ?thesis by (simp add: timers_insert_def)
qed

lemma later_exp:
  assumes "now < (2 :: u64) ^ 63" "0 < timeout" "timeout < 2 ^ 31"
  shows "now < now + word_of_int timeout"
proof -
  have "uint (word_of_int timeout :: u64) = timeout" using assms by (simp add: uint_word_of_int)
  moreover have "uint now < 2 ^ 63" using assms(1) by (simp add: word_less_def)
  ultimately show ?thesis using assms by (simp add: word_less_def uint_word_ariths)
qed

text \<open>Adding later timers leaves the due ones and the head of the list as they are.\<close>

lemma add_timers_ok:
  assumes "poll_inv p" "p_now p < 2 ^ 63" "\<forall>(timeout, s, i)\<in>set as. 0 < timeout \<and> timeout < 2 ^ 31"
    "p_timers p = t # ts" "t_exp t \<le> p_now p"
  shows "\<exists>ts'. p_timers (add_timers as p) = t # ts' \<and> poll_inv (add_timers as p) \<and> p_now (add_timers as p) = p_now p \<and>
    filter (\<lambda>t. t_exp t \<le> p_now p) ts' = filter (\<lambda>t. t_exp t \<le> p_now p) ts \<and>
    image_mset t_key (mset (filter (\<lambda>t. p_now p < t_exp t) ts')) = image_mset t_key (mset (filter (\<lambda>t. p_now p < t_exp t) ts)) + mset (later_keys (p_now p) as)"
  using assms
proof (induction as arbitrary: p ts)
  case Nil
  then show ?case by (simp add: add_timers_def later_keys_def)
next
  case (Cons a as)
  obtain timeout s i where a: "a = (timeout, s, i)" by (metis surj_pair)
  let ?p = "add_timer timeout s i p"
  let ?x = "\<lparr>t_exp = p_now p + word_of_int timeout, t_node = p_next p, t_sink = s, t_id = i\<rparr>"
  have late: "p_now p < t_exp ?x" using later_exp [OF Cons.prems(2)] Cons.prems(3) a by simp
  note ok = add_timer_ok [OF Cons.prems(1), where timeout = timeout and sink = s and i = i]
  have head: "p_timers ?p = t # timers_insert ?x ts" using ok(3) Cons.prems(4,5) late by (simp add: timers_insert_head)
  from Cons.IH [OF ok(1) _ _ head] Cons.prems ok(6) obtain ts' where
    "p_timers (add_timers as ?p) = t # ts'" "poll_inv (add_timers as ?p)" "p_now (add_timers as ?p) = p_now p"
    "filter (\<lambda>t. t_exp t \<le> p_now p) ts' = filter (\<lambda>t. t_exp t \<le> p_now p) (timers_insert ?x ts)"
    "image_mset t_key (mset (filter (\<lambda>t. p_now p < t_exp t) ts')) = image_mset t_key (mset (filter (\<lambda>t. p_now p < t_exp t) (timers_insert ?x ts))) + mset (later_keys (p_now p) as)" by auto
  moreover have "t_key ?x = (p_now p + word_of_int timeout, s, i)" by (simp add: t_key_def)
  ultimately show ?case using late
    by (auto simp: add_timers_def a filter_timers_insert mset_timers_insert later_keys_def)
qed

definition due :: "'s poller \<Rightarrow> 's timer list" where
  "due p = filter (\<lambda>t. t_exp t \<le> p_now p) (p_timers p)"

lemma firing_loop:
  assumes "poll_inv p" "p_now p < 2 ^ 63" "\<forall>s i. \<forall>(timeout, s', i')\<in>set (f s i). 0 < timeout \<and> timeout < 2 ^ 31"
  shows "\<exists>p' t. timers_loop (firing f) (p_now p) (first_node (p_timers p)) fired p =
      Some (fired @ map (\<lambda>t. (t_sink t, t_id t)) (due p), p', t) \<and> poll_inv p' \<and> p_now p' = p_now p \<and>
    (case p_timers p' of [] \<Rightarrow> t = 0 | x # xs \<Rightarrow> p_now p < t_exp x \<and> t = t_exp x - p_now p) \<and>
    image_mset t_key (mset (p_timers p')) = image_mset t_key (mset (filter (\<lambda>t. p_now p < t_exp t) (p_timers p))) +
      mset (concat (map (\<lambda>t. later_keys (p_now p) (f (t_sink t) (t_id t))) (due p)))"
  using assms(1,2)
proof (induction "length (due p)" arbitrary: p fired)
  case 0
  then have late: "\<forall>t\<in>set (p_timers p). p_now p < t_exp t" by (auto simp: due_def filter_empty_conv not_le)
  then have "filter (\<lambda>t. p_now p < t_exp t) (p_timers p) = p_timers p" by (simp add: filter_id_conv)
  then show ?case using 0 late by (cases "p_timers p") (auto simp: first_node_def due_def timers_loop.simps)
next
  case (Suc n)
  from Suc.hyps(2) obtain t ts where t: "p_timers p = t # ts" by (cases "p_timers p") (auto simp: due_def)
  have srt: "sorted (map t_exp (p_timers p))" using Suc.prems(1) by (simp add: poll_inv_def timers_ok_def sorted_exp)
  have "\<exists>x\<in>set (p_timers p). t_exp x \<le> p_now p" using Suc.hyps(2) filter_empty_conv by (fastforce simp: due_def)
  then have exp: "t_exp t \<le> p_now p" using srt t by auto
  let ?as = "f (t_sink t) (t_id t)"
  let ?p1 = "add_timers ?as p"
  from add_timers_ok [OF Suc.prems _ t exp, of ?as] assms(3) obtain ts' where
    p1: "p_timers ?p1 = t # ts'" "poll_inv ?p1" "p_now ?p1 = p_now p"
      "filter (\<lambda>t. t_exp t \<le> p_now p) ts' = filter (\<lambda>t. t_exp t \<le> p_now p) ts"
      "image_mset t_key (mset (filter (\<lambda>t. p_now p < t_exp t) ts')) = image_mset t_key (mset (filter (\<lambda>t. p_now p < t_exp t) ts)) + mset (later_keys (p_now p) ?as)" by blast
  let ?p2 = "erase_node (t_node t) ?p1"
  have node: "t_node t \<notin> t_node ` set ts'" using p1(1,2) by (auto simp: poll_inv_def timers_ok_def)
  then have p2: "p_timers ?p2 = ts'" using p1(1) by (simp add: erase_node_def filter_id_conv image_iff) metis
  have now2: "p_now ?p2 = p_now p" using p1(3) by (simp add: erase_node_def)
  have inv2: "poll_inv ?p2" using p1(2) by (rule erase_node_inv)
  have due: "due p = t # due ?p2" using t exp p1(4) p2 now2 by (simp add: due_def)
  have "p_now ?p2 < 2 ^ 63" using Suc.prems(2) now2 by simp
  with Suc.hyps(1) [OF _ inv2, of "fired @ [(t_sink t, t_id t)]"] Suc.hyps(2) due obtain p' tm where
    r: "timers_loop (firing f) (p_now ?p2) (first_node (p_timers ?p2)) (fired @ [(t_sink t, t_id t)]) ?p2 =
        Some ((fired @ [(t_sink t, t_id t)]) @ map (\<lambda>t. (t_sink t, t_id t)) (due ?p2), p', tm)" "poll_inv p'" "p_now p' = p_now ?p2"
      "case p_timers p' of [] \<Rightarrow> tm = 0 | x # xs \<Rightarrow> p_now ?p2 < t_exp x \<and> tm = t_exp x - p_now ?p2"
      "image_mset t_key (mset (p_timers p')) = image_mset t_key (mset (filter (\<lambda>t. p_now ?p2 < t_exp t) (p_timers ?p2))) +
        mset (concat (map (\<lambda>t. later_keys (p_now ?p2) (f (t_sink t) (t_id t))) (due ?p2)))" by auto
  have "timers_loop (firing f) (p_now p) (first_node (p_timers p)) fired p =
      timers_loop (firing f) (p_now p) (first_node ts') (fired @ [(t_sink t, t_id t)]) ?p2"
    using t exp p1(1) by (subst timers_loop.simps) (simp add: first_node_def leD)
  moreover have "filter (\<lambda>t. p_now p < t_exp t) (p_timers p) = filter (\<lambda>t. p_now p < t_exp t) ts" using t exp by simp
  ultimately show ?case using r [unfolded now2 p2] p1(5) due by (intro exI [of _ p'] exI [of _ tm]) (simp add: ac_simps)
qed

section \<open>Properties\<close>

text \<open>C14. Timers: \<open>execute_timers\<close> fires exactly the timers that are due, each once and in the order of their expiration (timers
  with the same expiration in the order they were added), even when the sinks add new timers meanwhile; the others and
  the added ones stay, sorted. It returns the time until the next one, at least one millisecond, or 0 if there is
  none, and the wait that follows is neither cut short nor, below \<open>2 ^ 31\<close> milliseconds, distorted by the conversion to \<open>int\<close>.\<close>

theorem timers_fire_in_order:
  assumes "poll_inv p" "p_now p < 2 ^ 63" "\<forall>s i. \<forall>(timeout, s', i')\<in>set (f s i). 0 < timeout \<and> timeout < 2 ^ 31"
  shows "\<exists>p' t. execute_timers (firing f) [] p = Some (map (\<lambda>t. (t_sink t, t_id t)) (due p), p', t) \<and>
    sorted_wrt earlier (due p) \<and> sorted_wrt earlier (p_timers p') \<and>
    image_mset t_key (mset (p_timers p')) = image_mset t_key (mset (filter (\<lambda>t. p_now p < t_exp t) (p_timers p))) +
      mset (concat (map (\<lambda>t. later_keys (p_now p) (f (t_sink t) (t_id t))) (due p))) \<and>
    (case p_timers p' of [] \<Rightarrow> t = 0 \<and> wait_timeout t = -1
     | x # xs \<Rightarrow> 0 < t \<and> t = t_exp x - p_now p \<and> (t < 2 ^ 31 \<longrightarrow> wait_timeout t = uint t))"
proof -
  have wt: "0 < t \<Longrightarrow> t < 2 ^ 31 \<Longrightarrow> wait_timeout t = uint t" for t :: u64
  proof -
    assume t: "0 < t" "t < 2 ^ 31"
    then have u: "0 < uint t" "uint t < 2 ^ 31" by (simp_all add: word_less_def)
    have "sint (ucast t :: 32 word) = signed_take_bit 31 (uint t)" by (simp add: sint_uint unsigned_ucast_eq take_bit_int_eq_self u(2) order_less_trans [OF u(2)] signed_take_bit_eq_if_positive)
    also have "\<dots> = uint t" using u by (simp add: signed_take_bit_int_eq_self)
    finally show "wait_timeout t = uint t" using u(1) by (simp add: wait_timeout_def Let_def)
  qed
  have srt: "sorted_wrt earlier (due p)" using assms(1) by (simp add: due_def poll_inv_def timers_ok_def sorted_wrt_filter)
  from firing_loop [OF assms, of "[]"] obtain p' t where
    r: "timers_loop (firing f) (p_now p) (first_node (p_timers p)) [] p = Some (map (\<lambda>t. (t_sink t, t_id t)) (due p), p', t)" "poll_inv p'"
      "case p_timers p' of [] \<Rightarrow> t = 0 | x # xs \<Rightarrow> p_now p < t_exp x \<and> t = t_exp x - p_now p"
      "image_mset t_key (mset (p_timers p')) = image_mset t_key (mset (filter (\<lambda>t. p_now p < t_exp t) (p_timers p))) +
        mset (concat (map (\<lambda>t. later_keys (p_now p) (f (t_sink t) (t_id t))) (due p)))" by auto
  have ex: "execute_timers (firing f) [] p = timers_loop (firing f) (p_now p) (first_node (p_timers p)) [] p"
    by (simp add: execute_timers_def first_node_def timers_loop.simps due_def)
  have pos: "a < b \<Longrightarrow> 0 < b - a" for a b :: u64 by (metis eq_iff_diff_eq_0 order_less_irrefl word_gt_0)
  have w0: "wait_timeout 0 = -1" by (simp add: wait_timeout_def)
  show ?thesis using r srt ex pos w0 wt by (intro exI [of _ p'] exI [of _ t]) (auto simp: poll_inv_def timers_ok_def split: list.splits)
qed

lemma epoll_t_inv: "poll_inv (epoll_t now)"
  by (simp add: poll_inv_def epoll_t_def deref_def timers_ok_def)

theorem timers_fire_in_order_witness:
  "\<exists>p' t. execute_timers (firing (\<lambda>s i. if i = 1 then [(10, s, 2)] else [])) []
      (add_timer 5 ''a'' 3 (add_timer 0 ''b'' 1 (epoll_t 100))) = Some ([(''b'', 1)], p', t) \<and> 0 < t \<and> length (p_timers p') = 2"
proof -
  let ?p = "add_timer 5 ''a'' 3 (add_timer 0 ''b'' 1 (epoll_t 100))"
  let ?f = "\<lambda>(s :: string) i :: int. if i = 1 then [(10 :: int, s, 2 :: int)] else []"
  have inv: "poll_inv ?p" by (intro add_timer_ok epoll_t_inv)
  have p: "map t_key (p_timers ?p) = [(100, ''b'', 1), (105, ''a'', 3)]" "p_now ?p = 100"
    by (simp_all add: add_timer_def epoll_t_def timers_insert_def t_key_def)
  have due: "map (\<lambda>t. (t_sink t, t_id t)) (due ?p) = [(''b'', 1)]" "length (filter (\<lambda>t. p_now ?p < t_exp t) (p_timers ?p)) = 1"
    by (simp_all add: due_def add_timer_def epoll_t_def timers_insert_def)
  have "\<forall>s i. \<forall>(timeout, s', i')\<in>set (?f s i). 0 < timeout \<and> timeout < 2 ^ 31" "p_now ?p < 2 ^ 63" by (auto simp: p(2))
  from timers_fire_in_order [OF inv this(2,1)] obtain p' t where
    r: "execute_timers (firing ?f) [] ?p = Some ([(''b'', 1)], p', t)"
      "image_mset t_key (mset (p_timers p')) = image_mset t_key (mset (filter (\<lambda>t. p_now ?p < t_exp t) (p_timers ?p))) +
        mset (concat (map (\<lambda>t. later_keys (p_now ?p) (?f (t_sink t) (t_id t))) (due ?p)))"
      "case p_timers p' of [] \<Rightarrow> t = 0 \<and> wait_timeout t = -1
       | x # xs \<Rightarrow> 0 < t \<and> t = t_exp x - p_now ?p \<and> (t < 2 ^ 31 \<longrightarrow> wait_timeout t = uint t)" unfolding due(1) by blast
  from due(1) have "concat (map (\<lambda>t. later_keys (p_now ?p) (?f (t_sink t) (t_id t))) (due ?p)) = [(110, ''b'', 2)]"
    by (auto simp: map_eq_Cons_conv p(2) later_keys_def)
  with arg_cong [OF r(2), of size] due(2) have len: "length (p_timers p') = 2" by (simp del: mset_filter)
  with r(3) have "0 < t" by (cases "p_timers p'") auto
  with r(1) len show ?thesis by blast
qed

end
