(* ===== verification/Io_World.thy ===== *)
theory Io_World
  imports Poller Options
begin

text \<open>
  The clients of the poller of an I/O thread: the connecters, listeners and engines of the thread and the open
  descriptors of the process. What system calls return is in a stream of environments, one for each callback.
  Of an engine (theory \<open>Engine\<close>) only its use of the poller is here: it registers its descriptor, changes its event
  mask and unregisters.

  The invariant relates every client to what the poller has of it: its live entries and its timers. The
  lemmas about one operation of the poller keep it for all other clients.
\<close>

section \<open>State\<close>

text \<open>\<open>cn_connected\<close> records that the connecter has handed its connection to an engine; the code has no such field.\<close>

datatype sink = Conn nat | Eng nat | Lst nat

fun wants_out :: "sink \<Rightarrow> bool" where
  "wants_out (Lst l) = False" | "wants_out (Conn i) = True" | "wants_out (Eng j) = True"

record conn =
  cn_worker_id :: int
  cn_opt :: options
  cn_s :: int
  cn_handle :: nat
  cn_handle_valid :: bool
  cn_delayed_start :: bool
  cn_timer_started :: bool
  cn_ivl :: int
  cn_connected :: bool

record lst =
  ls_opt :: options
  ls_s :: int
  ls_handle :: nat
  ls_num_out :: nat

record eng =
  en_fd :: int
  en_handle :: nat
  en_registered :: bool

datatype reaction = Set_in | Reset_in | Set_out | Reset_out | Remove | Unplug

record env =
  ev_socket :: int
  ev_connect :: int
  ev_soerr :: int
  ev_random :: u32
  ev_sends :: "int list"
  ev_engine :: "reaction list"
  ev_stop :: bool
  ev_accept :: int
  ev_peer :: sockaddr
  ev_recvs :: "int list"
  ev_worker :: int

record world =
  w_conns :: "conn list"
  w_lsts :: "lst list"
  w_engs :: "eng list"
  w_open :: "int list"
  w_env :: "nat \<Rightarrow> env"
  w_tick :: nat

text \<open>A thread starts without clients.\<close>

definition empty_world :: "int list \<Rightarrow> (nat \<Rightarrow> env) \<Rightarrow> world" where
  "empty_world fds E = \<lparr>w_conns = [], w_lsts = [], w_engs = [], w_open = fds, w_env = E, w_tick = 0\<rparr>"

definition reconnect_timer_id :: int where "reconnect_timer_id = 1"

definition EINTR :: int where "EINTR = 4"

definition EINPROGRESS :: int where "EINPROGRESS = 115"

text \<open>\<open>ECONNREFUSED, ECONNRESET, ETIMEDOUT, EHOSTUNREACH, ENETUNREACH, ENETDOWN, EINVAL\<close>\<close>

definition network_errors :: "int list" where
  "network_errors = [111, 104, 110, 113, 101, 100, 22]"

text \<open>A new descriptor is the lowest one that is not open.\<close>

definition new_fd :: "int list \<Rightarrow> int" where
  "new_fd fds = hd (filter (\<lambda>fd. fd \<notin> set fds) (map int [0..<Suc (length fds)]))"

text \<open>The engine's use of the poller. When its input has stopped it removes its entry and stays; when it unplugs it is
  deleted and its descriptor closed.\<close>

fun eng_react :: "reaction list \<Rightarrow> eng \<times> world \<times> sink poller \<Rightarrow> (eng \<times> world \<times> sink poller) option" where
  "eng_react [] (en, w, p) = Some (en, w, p)"
| "eng_react (r # rs) (en, w, p) =
     (if \<not> en_registered en then Some (en, w, p)
      else case r of
        Set_in \<Rightarrow> do { p1 \<leftarrow> set_pollin (en_handle en) p; eng_react rs (en, w, p1) }
      | Reset_in \<Rightarrow> do { p1 \<leftarrow> reset_pollin (en_handle en) p; eng_react rs (en, w, p1) }
      | Set_out \<Rightarrow> do { p1 \<leftarrow> set_pollout (en_handle en) p; eng_react rs (en, w, p1) }
      | Reset_out \<Rightarrow> do { p1 \<leftarrow> reset_pollout (en_handle en) p; eng_react rs (en, w, p1) }
      | Remove \<Rightarrow> do { p1 \<leftarrow> rm_fd (en_handle en) p; eng_react rs (en\<lparr>en_registered := False\<rparr>, w, p1) }
      | Unplug \<Rightarrow>
          do { p1 \<leftarrow> rm_fd (en_handle en) p;
               if en_fd en \<in> set (w_open w)
               then eng_react rs (en\<lparr>en_registered := False\<rparr>, w\<lparr>w_open := remove1 (en_fd en) (w_open w)\<rparr>, p1) else None })"

definition plug_engine :: "int \<Rightarrow> reaction list \<Rightarrow> world \<Rightarrow> sink poller \<Rightarrow> (world \<times> sink poller) option" where
  "plug_engine fd rs w p =
     do { (p1, h) \<leftarrow> add_fd fd (Eng (length (w_engs w))) p;
          (en, w1, p2) \<leftarrow> eng_react rs (\<lparr>en_fd = fd, en_handle = h, en_registered = True\<rparr>, w, p1);
          Some (w1\<lparr>w_engs := w_engs w1 @ [en]\<rparr>, p2) }"

section \<open>Views of the poller\<close>

text \<open>What the poller has of one sink: its live entries with their descriptors, and the ids of its timers.\<close>

definition entries :: "'s \<Rightarrow> 's poller \<Rightarrow> (nat \<times> int) set" where
  "entries s p = {(h, fd). \<exists>e. deref h p = Some e \<and> pe_sink e = s \<and> pe_fd e = fd \<and> fd \<noteq> retired_fd}"

text \<open>\<open>x\<close> is the node of the timer that is being executed, if any: it is still in the map but does not count.\<close>

definition tids :: "nat option \<Rightarrow> 's \<Rightarrow> 's poller \<Rightarrow> int list" where
  "tids x s p = map t_id (filter (\<lambda>t. t_sink t = s \<and> Some (t_node t) \<noteq> x) (p_timers p))"

lemma entries_deref: "(h, fd) \<in> entries s p \<longleftrightarrow> (\<exists>e. deref h p = Some e \<and> pe_sink e = s \<and> pe_fd e = fd \<and> fd \<noteq> retired_fd)"
  by (simp add: entries_def)

lemma entries_cong: "(\<And>h. deref h p' = deref h p) \<Longrightarrow> entries s p' = entries s p"
  by (simp add: entries_def)

lemma registered_entries: "registered s p \<longleftrightarrow> entries s p \<noteq> {}"
  by (auto simp: registered_def entries_def)

lemma add_fd_view:
  assumes "poll_inv p" "0 \<le> fd" "p_set p fd = None"
  shows "\<exists>p' h. add_fd fd sink p = Some (p', h) \<and> poll_inv p' \<and> keeps p p' \<and> p_timers p' = p_timers p \<and> p_now p' = p_now p \<and>
    entries sink p' = Set.insert (h, fd) (entries sink p) \<and> (\<forall>s. s \<noteq> sink \<longrightarrow> entries s p' = entries s p)"
proof -
  from add_fd_ok [OF assms, of sink] obtain p' where
    p': "add_fd fd sink p = Some (p', length (p_heap p))" "poll_inv p'" "keeps p p'" "p_timers p' = p_timers p" "p_now p' = p_now p"
      "\<forall>k. deref k p' = (if k = length (p_heap p) then Some \<lparr>pe_fd = fd, pe_events = 0, pe_sink = sink\<rparr> else deref k p)" by blast
  have none: "(length (p_heap p), f) \<notin> entries s p" for f s by (simp add: entries_def deref_def)
  have "(h, f) \<in> entries s p' \<longleftrightarrow> (if h = length (p_heap p) then s = sink \<and> f = fd else (h, f) \<in> entries s p)" for h f s
    using p'(6) assms(2) by (auto simp: entries_def retired_fd_def)
  then have "entries sink p' = Set.insert (length (p_heap p), fd) (entries sink p) \<and> (\<forall>s. s \<noteq> sink \<longrightarrow> entries s p' = entries s p)"
    using none by (auto split: if_splits)
  then show ?thesis using p' by auto
qed

lemma rm_fd_view:
  assumes "poll_inv p" "(h, fd) \<in> entries sink p"
  shows "\<exists>p'. rm_fd h p = Some p' \<and> poll_inv p' \<and> keeps p p' \<and> p_timers p' = p_timers p \<and> p_now p' = p_now p \<and>
    entries sink p' = entries sink p - {(h, fd)} \<and> (\<forall>s. s \<noteq> sink \<longrightarrow> entries s p' = entries s p)"
proof -
  from assms(2) obtain e where e: "deref h p = Some e" "pe_sink e = sink" "pe_fd e = fd" "fd \<noteq> retired_fd" by (auto simp: entries_def)
  with rm_fd_ok [OF assms(1) e(1)] obtain p' where
    p': "rm_fd h p = Some p'" "poll_inv p'" "keeps p p'" "p_timers p' = p_timers p" "p_now p' = p_now p"
      "\<forall>k. deref k p' = (if k = h then Some (e\<lparr>pe_fd := retired_fd\<rparr>) else deref k p)" by blast
  then have "entries s p' = entries s p - (if s = sink then {(h, fd)} else {})" for s
    using e by (auto simp: entries_def split: if_splits)
  then show ?thesis using p' by auto
qed

lemma mod_events_view:
  assumes "poll_inv p" "(h, fd) \<in> entries sink p"
  shows "\<exists>p'. mod_events f h p = Some p' \<and> poll_inv p' \<and> keeps p p' \<and> p_timers p' = p_timers p \<and> p_now p' = p_now p \<and>
    (\<forall>s. entries s p' = entries s p)"
proof -
  from assms(2) obtain e where e: "deref h p = Some e" "pe_sink e = sink" "pe_fd e = fd" "fd \<noteq> retired_fd" by (auto simp: entries_def)
  with mod_events_ok [OF assms(1) e(1), of f] obtain p' where
    p': "mod_events f h p = Some p'" "poll_inv p'" "keeps p p'" "p_timers p' = p_timers p" "p_now p' = p_now p"
      "\<forall>k. deref k p' = (if k = h then Some (e\<lparr>pe_events := f (pe_events e)\<rparr>) else deref k p)" by blast
  then have "entries s p' = entries s p" for s using e by (auto simp: entries_def split: if_splits)
  then show ?thesis using p' by auto
qed

lemma add_timer_view:
  assumes "poll_inv p" "tids x sink p = []" "\<forall>n. x = Some n \<longrightarrow> n < p_next p"
  shows "tids x sink (add_timer timeout sink i p) = [i]" "s \<noteq> sink \<Longrightarrow> tids x s (add_timer timeout sink i p) = tids x s p"
    "entries s' (add_timer timeout sink i p) = entries s' p"
proof -
  note ok = add_timer_ok [OF assms(1), where timeout = timeout and sink = sink and i = i]
  let ?P = "\<lambda>t. t_sink t = sink \<and> Some (t_node t) \<noteq> x"
  have no: "\<forall>t\<in>set (p_timers p). \<not> ?P t" using assms(2) by (auto simp: tids_def filter_empty_conv)
  then have "filter ?P (takeWhile Q (p_timers p)) = []" "filter ?P (dropWhile Q (p_timers p)) = []" for Q
    by (auto simp: filter_empty_conv dest: set_takeWhileD set_dropWhileD)
  moreover have "Some (p_next p) \<noteq> x" using assms(3) by auto
  ultimately show "tids x sink (add_timer timeout sink i p) = [i]" using ok(3) by (simp add: tids_def timers_insert_def)
  show "s \<noteq> sink \<Longrightarrow> tids x s (add_timer timeout sink i p) = tids x s p" using ok(3) by (simp add: tids_def filter_timers_insert)
  show "entries s' (add_timer timeout sink i p) = entries s' p" using ok(4) by (intro entries_cong)
qed

lemma set_fd_entries:
  assumes "poll_inv p" "p_set p fd = Some (h, ev)"
  shows "\<exists>s. (h, fd) \<in> entries s p"
proof -
  have "p_set p fd = Some (h, ev) \<longleftrightarrow> 0 \<le> fd \<and> (\<exists>s. deref h p = Some \<lparr>pe_fd = fd, pe_events = ev, pe_sink = s\<rparr>)"
    using assms(1) unfolding poll_inv_def by blast
  then obtain s where "0 \<le> fd" "deref h p = Some \<lparr>pe_fd = fd, pe_events = ev, pe_sink = s\<rparr>" using assms(2) by blast
  then show ?thesis by (auto simp: entries_def retired_fd_def)
qed

lemma entries_unique:
  assumes "poll_inv p" "(h, fd) \<in> entries s p" "(h', fd) \<in> entries s' p"
  shows "h' = h" "s' = s"
proof -
  from assms(2,3) obtain e e' where e: "deref h p = Some e" "pe_fd e = fd" "pe_sink e = s" "deref h' p = Some e'" "pe_fd e' = fd" "pe_sink e' = s'"
    "fd \<noteq> retired_fd" unfolding entries_deref by blast
  have "p_set p fd = Some (h, pe_events e)" using poll_inv_entry(2) [OF assms(1) e(1)] e(2,7) by simp
  moreover have "p_set p fd = Some (h', pe_events e')" using poll_inv_entry(2) [OF assms(1) e(4)] e(5,7) by simp
  ultimately show "h' = h" by simp
  with e(1,4) have "e' = e" by simp
  with e(3,6) show "s' = s" by simp
qed

lemma new_fd_fresh: "new_fd fds \<notin> set fds" "0 \<le> new_fd fds"
proof -
  let ?xs = "filter (\<lambda>fd. fd \<notin> set fds) (map int [0..<Suc (length fds)])"
  have "?xs \<noteq> []"
  proof
    assume "?xs = []"
    then have "set (map int [0..<Suc (length fds)]) \<subseteq> set fds" by (auto simp: filter_empty_conv simp del: upt_Suc)
    then have "card (set (map int [0..<Suc (length fds)])) \<le> card (set fds)" by (intro card_mono) simp_all
    moreover have "card (set (map int [0..<Suc (length fds)])) = Suc (length fds)" by (simp add: card_image del: upt_Suc)
    ultimately show False using card_length [of fds] by linarith
  qed
  then have "new_fd fds \<in> set ?xs" unfolding new_fd_def by (rule hd_in_set)
  then show "new_fd fds \<notin> set fds" "0 \<le> new_fd fds" by (auto simp del: upt_Suc)
qed

section \<open>Invariant\<close>

text \<open>What the clients rely on: \<open>reconnect_ivl\<close> is positive, the intervals are small enough for doubling and adding
  not to overflow; system calls fail with the errors they document, \<open>send\<close> takes the worker id at some time and \<open>recv\<close> gives
  it, and a peer is one of the workers the listener has out-callbacks for.\<close>

definition ivl_ok :: "conn \<Rightarrow> bool" where
  "ivl_ok c \<longleftrightarrow> (let r = o_reconnect_ivl (cn_opt c); m = max r (o_reconnect_ivl_max (cn_opt c)) in
     0 < r \<and> 2 * m < 2 ^ 31 \<and> r \<le> cn_ivl c \<and> cn_ivl c \<le> m)"

text \<open>\<open>EAGAIN, EINTR, ECONNABORTED, EPROTO, ENOBUFS, ENOMEM, EMFILE, ENFILE\<close>\<close>

definition accept_errors :: "int list" where
  "accept_errors = [11, 4, 103, 71, 105, 12, 24, 23]"

definition env_ok :: "env \<Rightarrow> bool" where
  "env_ok e \<longleftrightarrow> ev_socket e \<noteq> EINPROGRESS \<and> (ev_soerr e = 0 \<or> ev_soerr e \<in> set network_errors) \<and> 4 \<in> set (ev_sends e) \<and>
     (ev_accept e = 0 \<or> ev_accept e \<in> set accept_errors) \<and> 4 \<in> set (ev_recvs e)"

definition conn_ok :: "conn \<Rightarrow> (nat \<times> int) set \<Rightarrow> int list \<Rightarrow> bool" where
  "conn_ok c E T \<longleftrightarrow> E = (if cn_handle_valid c then {(cn_handle c, cn_s c)} else {}) \<and>
     T = (if cn_timer_started c then [reconnect_timer_id] else []) \<and>
     (cn_handle_valid c \<longleftrightarrow> cn_s c \<noteq> retired_fd) \<and> \<not> (cn_handle_valid c \<and> cn_timer_started c) \<and>
     (cn_connected c \<longleftrightarrow> \<not> cn_handle_valid c \<and> \<not> cn_timer_started c) \<and> ivl_ok c"

definition eng_ok :: "eng \<Rightarrow> (nat \<times> int) set \<Rightarrow> int list \<Rightarrow> bool" where
  "eng_ok en E T \<longleftrightarrow> E = (if en_registered en then {(en_handle en, en_fd en)} else {}) \<and> T = []"

definition lst_ok :: "lst \<Rightarrow> (nat \<times> int) set \<Rightarrow> int list \<Rightarrow> bool" where
  "lst_ok l E T \<longleftrightarrow> E = {(ls_handle l, ls_s l)} \<and> T = [] \<and> (\<forall>f\<in>set (o_tcp_accept_filters (ls_opt l)). addr_mask f \<noteq> -1)"

fun sink_ok :: "nat option \<Rightarrow> world \<Rightarrow> sink poller \<Rightarrow> sink \<Rightarrow> bool" where
  "sink_ok x w p (Conn i) =
     (if i < length (w_conns w) then conn_ok (w_conns w ! i) (entries (Conn i) p) (tids x (Conn i) p)
      else entries (Conn i) p = {} \<and> tids x (Conn i) p = [])"
| "sink_ok x w p (Eng j) =
     (if j < length (w_engs w) then eng_ok (w_engs w ! j) (entries (Eng j) p) (tids x (Eng j) p)
      else entries (Eng j) p = {} \<and> tids x (Eng j) p = [])"
| "sink_ok x w p (Lst l) =
     (if l < length (w_lsts w) then lst_ok (w_lsts w ! l) (entries (Lst l) p) (tids x (Lst l) p)
      else entries (Lst l) p = {} \<and> tids x (Lst l) p = [])"

definition outs_ok :: "sink poller \<Rightarrow> bool" where
  "outs_ok p \<longleftrightarrow> (\<forall>h e. deref h p = Some e \<longrightarrow> and (pe_events e) EPOLLOUT \<noteq> 0 \<longrightarrow> wants_out (pe_sink e))"

definition base_ok :: "nat option \<Rightarrow> world \<Rightarrow> sink poller \<Rightarrow> bool" where
  "base_ok x w p \<longleftrightarrow> poll_inv p \<and> p_now p < 2 ^ 63 \<and> (\<forall>s h fd. (h, fd) \<in> entries s p \<longrightarrow> fd \<in> set (w_open w)) \<and>
     (\<forall>n. env_ok (w_env w n)) \<and> (\<forall>n. x = Some n \<longrightarrow> n < p_next p) \<and> outs_ok p \<and>
     (\<forall>l\<in>set (w_lsts w). \<forall>n. 0 \<le> ev_worker (w_env w n) \<and> ev_worker (w_env w n) < int (ls_num_out l))"

definition others :: "nat option \<Rightarrow> sink set \<Rightarrow> world \<Rightarrow> sink poller \<Rightarrow> bool" where
  "others x X w p \<longleftrightarrow> base_ok x w p \<and> (\<forall>s. s \<notin> X \<longrightarrow> sink_ok x w p s)"

definition io_good :: "nat \<times> lst list \<Rightarrow> world \<Rightarrow> sink poller \<Rightarrow> bool" where
  "io_good n w p \<longleftrightarrow> (length (w_conns w), w_lsts w) = n \<and> base_ok None w p \<and> (\<forall>s. sink_ok None w p s)"

lemma base_ok_inv: "base_ok x w p \<Longrightarrow> poll_inv p"
  by (simp add: base_ok_def)

lemma unopened_free:
  assumes "base_ok x w p" "fd \<notin> set (w_open w)"
  shows "p_set p fd = None"
proof (cases "p_set p fd")
  case (Some a)
  obtain h ev where "a = (h, ev)" by fastforce
  with set_fd_entries [OF base_ok_inv [OF assms(1)], of fd h ev] Some assms show ?thesis by (auto simp: base_ok_def)
qed simp

lemma sink_ok_cong:
  assumes "entries s p' = entries s p" "tids x s p' = tids x s p" "w_conns w' = w_conns w" "w_engs w' = w_engs w" "w_lsts w' = w_lsts w" "sink_ok x w p s"
  shows "sink_ok x w' p' s"
  using assms by (cases s) simp_all

section \<open>Operations of the poller keep the invariant\<close>

text \<open>What a step of one client leaves alone.\<close>

definition same_world :: "world \<Rightarrow> world \<Rightarrow> bool" where
  "same_world w w' \<longleftrightarrow> w_conns w' = w_conns w \<and> w_lsts w' = w_lsts w \<and> w_env w' = w_env w"

lemma others_inv: "others x X w p \<Longrightarrow> poll_inv p"
  by (simp add: others_def base_ok_def)

lemma others_cong:
  assumes "others x X w p" "poll_inv p'" "p_now p' = p_now p" "p_timers p' = p_timers p" "p_next p' = p_next p"
    "\<And>s. s \<notin> X \<Longrightarrow> entries s p' = entries s p" "\<And>s h fd. (h, fd) \<in> entries s p' \<Longrightarrow> fd \<in> set (w_open w)" "outs_ok p'"
  shows "others x X w p'"
proof -
  have t: "tids x s p' = tids x s p" for s using assms(4) by (simp add: tids_def)
  have "base_ok x w p'" using assms(1-3,5,7,8) by (auto simp: others_def base_ok_def)
  moreover have "sink_ok x w p' s" if "s \<notin> X" for s
    using sink_ok_cong [of s p' p x w w] assms(1) assms(6) [OF that] t that by (simp add: others_def)
  ultimately show ?thesis by (simp add: others_def)
qed

lemma p_next_ops:
  "add_fd fd s p = Some (p', h) \<Longrightarrow> p_next p' = p_next p" "rm_fd h p = Some p' \<Longrightarrow> p_next p' = p_next p"
  "mod_events f h p = Some p' \<Longrightarrow> p_next p' = p_next p"
  by (auto simp: add_fd_def rm_fd_def mod_events_def Let_def split: if_splits option.splits)

lemma outs_ops:
  assumes "outs_ok p"
  shows "add_fd fd s p = Some (p', h) \<Longrightarrow> outs_ok p'" "rm_fd h p = Some p' \<Longrightarrow> outs_ok p'"
    "mod_events f h p = Some p' \<Longrightarrow> deref h p = Some e \<Longrightarrow> wants_out (pe_sink e) \<or> (\<forall>v. and v EPOLLOUT = 0 \<longrightarrow> and (f v) EPOLLOUT = 0) \<Longrightarrow> outs_ok p'"
proof -
  have old: "wants_out (pe_sink e)" if "deref k p = Some e" "and (pe_events e) EPOLLOUT \<noteq> 0" for k e
    using assms that by (auto simp: outs_ok_def)
  show "outs_ok p'" if "add_fd fd s p = Some (p', h)"
  proof -
    have "deref k p' = Some e \<Longrightarrow> deref k p = Some e \<or> pe_events e = 0" for k e
      using that by (auto simp: add_fd_def deref_def nth_append Let_def split: if_splits)
    then show ?thesis unfolding outs_ok_def using old by fastforce
  qed
  show "outs_ok p'" if "rm_fd h p = Some p'"
  proof -
    have "deref k p' = Some e \<Longrightarrow> \<exists>e'. deref k p = Some e' \<and> pe_events e' = pe_events e \<and> pe_sink e' = pe_sink e" for k e
      using that by (auto simp: rm_fd_def deref_def nth_list_update split: if_splits option.splits)
    then show ?thesis unfolding outs_ok_def using old by metis
  qed
  show "outs_ok p'" if "mod_events f h p = Some p'" "deref h p = Some e" "wants_out (pe_sink e) \<or> (\<forall>v. and v EPOLLOUT = 0 \<longrightarrow> and (f v) EPOLLOUT = 0)"
  proof -
    have "deref k p' = Some e' \<Longrightarrow> deref k p = Some e' \<or> e' = e\<lparr>pe_events := f (pe_events e)\<rparr>" for k e'
      using that(1,2) by (auto simp: mod_events_def deref_def nth_list_update split: if_splits option.splits)
    moreover have "and (f (pe_events e)) EPOLLOUT \<noteq> 0 \<Longrightarrow> wants_out (pe_sink e)" using that(2,3) old by blast
    ultimately show ?thesis unfolding outs_ok_def using old by fastforce
  qed
qed

lemma others_outs: "others x X w p \<Longrightarrow> outs_ok p"
  by (simp add: others_def base_ok_def)

lemma others_close:
  assumes "others x X w p" "\<And>s h. (h, fd) \<notin> entries s p"
  shows "others x X (w\<lparr>w_open := remove1 fd (w_open w)\<rparr>) p"
proof -
  have "f \<in> set (remove1 fd (w_open w))" if "(h, f) \<in> entries s p" for s h f
    using that assms by (auto simp: others_def base_ok_def intro: in_set_remove1 [THEN iffD2])
  moreover have "sink_ok x (w\<lparr>w_open := z\<rparr>) p s = sink_ok x w p s" for z s by (cases s) simp_all
  ultimately show ?thesis using assms(1) by (auto simp: others_def base_ok_def)
qed

text \<open>A descriptor that is opened is free in the poller.\<close>

lemma others_open:
  assumes "others x X w p" "fd = new_fd (w_open w)"
  shows "others x X (w\<lparr>w_open := fd # w_open w\<rparr>) p" "p_set p fd = None" "(h, fd) \<notin> entries s p" "0 \<le> fd" "fd \<noteq> retired_fd"
proof -
  note fresh = new_fd_fresh [of "w_open w", folded assms(2)]
  have "sink_ok x (w\<lparr>w_open := z\<rparr>) p s = sink_ok x w p s" for z s by (cases s) simp_all
  then show "others x X (w\<lparr>w_open := fd # w_open w\<rparr>) p" using assms(1) by (auto simp: others_def base_ok_def)
  show "p_set p fd = None" using unopened_free [of x w p fd] assms(1) fresh(1) by (simp add: others_def)
  show "(h, fd) \<notin> entries s p" using assms(1) fresh(1) by (auto simp: others_def base_ok_def)
  show "0 \<le> fd" "fd \<noteq> retired_fd" using fresh(2) by (simp_all add: retired_fd_def)
qed

text \<open>The descriptors of live entries are open, also after an operation on one entry.\<close>

lemma others_add_fd:
  assumes "others x X w p" "sink \<in> X" "0 \<le> fd" "fd \<in> set (w_open w)" "p_set p fd = None"
  shows "\<exists>p' h. add_fd fd sink p = Some (p', h) \<and> others x X w p' \<and> keeps p p' \<and> p_timers p' = p_timers p \<and> p_now p' = p_now p \<and>
    entries sink p' = Set.insert (h, fd) (entries sink p) \<and> (\<forall>s. s \<noteq> sink \<longrightarrow> entries s p' = entries s p)"
proof -
  have op: "\<And>s h f. (h, f) \<in> entries s p \<Longrightarrow> f \<in> set (w_open w)" using assms(1) by (auto simp: others_def base_ok_def)
  from add_fd_view [OF others_inv [OF assms(1)] assms(3,5), of sink] obtain p' h where
    p': "add_fd fd sink p = Some (p', h)" "poll_inv p'" "keeps p p'" "p_timers p' = p_timers p" "p_now p' = p_now p"
      "entries sink p' = Set.insert (h, fd) (entries sink p)" "\<forall>s. s \<noteq> sink \<longrightarrow> entries s p' = entries s p" by blast
  have "others x X w p'"
  proof (rule others_cong [OF assms(1) p'(2,5,4) p_next_ops(1) [OF p'(1)]])
    show "entries s p' = entries s p" if "s \<notin> X" for s using that p'(7) assms(2) by auto
    show "f \<in> set (w_open w)" if "(k, f) \<in> entries s p'" for s k f
      using that p'(6,7) op assms(4) by (cases "s = sink") auto
    show "outs_ok p'" using outs_ops(1) [OF others_outs [OF assms(1)] p'(1)] .
  qed
  with p' show ?thesis by blast
qed

lemma others_rm_fd:
  assumes "others x X w p" "sink \<in> X" "(h, fd) \<in> entries sink p"
  shows "\<exists>p'. rm_fd h p = Some p' \<and> others x X w p' \<and> keeps p p' \<and> p_timers p' = p_timers p \<and> p_now p' = p_now p \<and>
    entries sink p' = entries sink p - {(h, fd)} \<and> (\<forall>s. s \<noteq> sink \<longrightarrow> entries s p' = entries s p) \<and> (\<forall>s k. (k, fd) \<notin> entries s p')"
proof -
  have op: "\<And>s h f. (h, f) \<in> entries s p \<Longrightarrow> f \<in> set (w_open w)" using assms(1) by (auto simp: others_def base_ok_def)
  from rm_fd_view [OF others_inv [OF assms(1)] assms(3)] obtain p' where
    p': "rm_fd h p = Some p'" "poll_inv p'" "keeps p p'" "p_timers p' = p_timers p" "p_now p' = p_now p"
      "entries sink p' = entries sink p - {(h, fd)}" "\<forall>s. s \<noteq> sink \<longrightarrow> entries s p' = entries s p" by blast
  have sub: "entries s p' \<subseteq> entries s p" for s using p'(6,7) by (cases "s = sink") auto
  have "others x X w p'"
  proof (rule others_cong [OF assms(1) p'(2,5,4) p_next_ops(2) [OF p'(1)]])
    show "entries s p' = entries s p" if "s \<notin> X" for s using that p'(7) assms(2) by auto
    show "f \<in> set (w_open w)" if "(k, f) \<in> entries s p'" for s k f using that sub op by blast
    show "outs_ok p'" using outs_ops(2) [OF others_outs [OF assms(1)] p'(1)] .
  qed
  moreover have "(k, fd) \<notin> entries s p'" for s k
    using entries_unique [OF others_inv [OF assms(1)] assms(3), of k s] sub [of s] p'(6) by auto
  ultimately show ?thesis using p' by blast
qed

lemma others_mod_events:
  assumes "others x X w p" "(h, fd) \<in> entries sink p" "wants_out sink \<or> (\<forall>v. and v EPOLLOUT = 0 \<longrightarrow> and (f v) EPOLLOUT = 0)"
  shows "\<exists>p'. mod_events f h p = Some p' \<and> others x X w p' \<and> keeps p p' \<and> p_timers p' = p_timers p \<and> p_now p' = p_now p \<and>
    (\<forall>s. entries s p' = entries s p)"
proof -
  from mod_events_view [OF others_inv [OF assms(1)] assms(2)] obtain p' where
    p': "mod_events f h p = Some p'" "poll_inv p'" "keeps p p'" "p_timers p' = p_timers p" "p_now p' = p_now p" "\<forall>s. entries s p' = entries s p" by blast
  obtain e where "deref h p = Some e" "pe_sink e = sink" using assms(2) by (auto simp: entries_def)
  then have "outs_ok p'" using outs_ops(3) [OF others_outs [OF assms(1)] p'(1)] assms(3) by blast
  then have "others x X w p'" using p'(6) assms(1)
    by (intro others_cong [OF assms(1) p'(2,5,4) p_next_ops(3) [OF p'(1)]]) (auto simp: others_def base_ok_def)
  with p' show ?thesis by blast
qed

definition eng_entries :: "eng \<Rightarrow> (nat \<times> int) set" where
  "eng_entries en = (if en_registered en then {(en_handle en, en_fd en)} else {})"

lemma eng_react_ok:
  assumes "others x X w p" "Eng j \<in> X" "entries (Eng j) p = eng_entries en"
  shows "\<exists>en' w' p'. eng_react rs (en, w, p) = Some (en', w', p') \<and> others x X w' p' \<and> keeps p p' \<and> p_timers p' = p_timers p \<and>
    entries (Eng j) p' = eng_entries en' \<and> (\<forall>s. s \<noteq> Eng j \<longrightarrow> entries s p' = entries s p) \<and> same_world w w' \<and> w_engs w' = w_engs w"
  using assms
proof (induction rs arbitrary: en w p)
  case Nil
  then show ?case by (simp add: same_world_def)
next
  case (Cons r rs)
  show ?case
  proof (cases "en_registered en")
    case False
    then show ?thesis using Cons.prems by (simp add: same_world_def)
  next
    case True
    then have en: "(en_handle en, en_fd en) \<in> entries (Eng j) p" using Cons.prems(3) by (simp add: eng_entries_def)
    have mod: ?thesis if "eng_react (r # rs) (en, w, p) = do { p1 \<leftarrow> mod_events f (en_handle en) p; eng_react rs (en, w, p1) }" for f
    proof -
      from others_mod_events [OF Cons.prems(1) en, of f] wants_out.simps(3) [of j] obtain p1 where
        p1: "mod_events f (en_handle en) p = Some p1" "others x X w p1" "keeps p p1" "p_timers p1 = p_timers p" "\<forall>s. entries s p1 = entries s p" by blast
      from Cons.IH [OF p1(2) Cons.prems(2), of en] Cons.prems(3) p1(5) obtain en' w' p' where
        "eng_react rs (en, w, p1) = Some (en', w', p')" "others x X w' p'" "keeps p1 p'" "p_timers p' = p_timers p1"
        "entries (Eng j) p' = eng_entries en'" "\<forall>s. s \<noteq> Eng j \<longrightarrow> entries s p' = entries s p1" "same_world w w'" "w_engs w' = w_engs w" by auto
      with that p1 keeps_trans [OF p1(3)] show ?thesis by auto
    qed
    from others_rm_fd [OF Cons.prems(1,2) en] obtain p1 where
      p1: "rm_fd (en_handle en) p = Some p1" "others x X w p1" "keeps p p1" "p_timers p1 = p_timers p"
        "entries (Eng j) p1 = {}" "\<forall>s. s \<noteq> Eng j \<longrightarrow> entries s p1 = entries s p" "\<forall>s k. (k, en_fd en) \<notin> entries s p1"
      using Cons.prems(3) True by (auto simp: eng_entries_def)
    let ?en = "en\<lparr>en_registered := False\<rparr>"
    have stop: "eng_react rs (?en, w', p1) = Some (?en, w', p1)" for w' by (cases rs) simp_all
    have "en_fd en \<in> set (w_open w)" using Cons.prems(1) en by (auto simp: others_def base_ok_def)
    moreover have "eng_entries ?en = {}" by (simp add: eng_entries_def)
    ultimately have gone: ?thesis if "r = Remove \<or> r = Unplug"
      using that True p1 stop others_close [OF p1(2)] by (auto simp: same_world_def)
    show ?thesis
    proof (cases r)
      case Set_in
      then show ?thesis using True by (intro mod [of "\<lambda>e. or e EPOLLIN"]) (simp add: set_pollin_def)
    next
      case Reset_in
      then show ?thesis using True by (intro mod [of "\<lambda>e. and e (not EPOLLIN)"]) (simp add: reset_pollin_def)
    next
      case Set_out
      then show ?thesis using True by (intro mod [of "\<lambda>e. or e EPOLLOUT"]) (simp add: set_pollout_def)
    next
      case Reset_out
      then show ?thesis using True by (intro mod [of "\<lambda>e. and e (not EPOLLOUT)"]) (simp add: reset_pollout_def)
    next
      case Remove
      then show ?thesis by (intro gone) simp
    next
      case Unplug
      then show ?thesis by (intro gone) simp
    qed
  qed
qed

lemma plug_engine_ok:
  assumes "others x X w p" "0 \<le> fd" "fd \<in> set (w_open w)" "p_set p fd = None" "\<forall>j. Eng j \<notin> X"
  shows "\<exists>w' p'. plug_engine fd rs w p = Some (w', p') \<and> others x X w' p' \<and> keeps p p' \<and> p_timers p' = p_timers p \<and>
    (\<forall>s\<in>X. entries s p' = entries s p) \<and> same_world w w'"
proof -
  let ?j = "length (w_engs w)"
  let ?X = "Set.insert (Eng ?j) X"
  have w0: "others x ?X w p" using assms(1) by (auto simp: others_def)
  have none: "entries (Eng ?j) p = {}" "tids x (Eng ?j) p = []" using assms(1,5) by (auto simp: others_def dest: spec [of _ "Eng ?j"])
  from others_add_fd [OF w0 _ assms(2-4), of "Eng ?j"] none obtain p1 h where
    p1: "add_fd fd (Eng ?j) p = Some (p1, h)" "others x ?X w p1" "keeps p p1" "p_timers p1 = p_timers p"
      "entries (Eng ?j) p1 = {(h, fd)}" "\<forall>s. s \<noteq> Eng ?j \<longrightarrow> entries s p1 = entries s p" by auto
  let ?en = "\<lparr>en_fd = fd, en_handle = h, en_registered = True\<rparr>"
  have "entries (Eng ?j) p1 = eng_entries ?en" using p1(5) by (simp add: eng_entries_def)
  from eng_react_ok [OF p1(2) _ this, of rs] obtain en' w1 p2 where
    r: "eng_react rs (?en, w, p1) = Some (en', w1, p2)" "others x ?X w1 p2" "keeps p1 p2" "p_timers p2 = p_timers p1"
      "entries (Eng ?j) p2 = eng_entries en'" "\<forall>s. s \<noteq> Eng ?j \<longrightarrow> entries s p2 = entries s p1" "same_world w w1" "w_engs w1 = w_engs w" by blast
  let ?w = "w1\<lparr>w_engs := w_engs w1 @ [en']\<rparr>"
  have t: "tids x (Eng ?j) p2 = []" using none(2) r(4) p1(4) by (simp add: tids_def)
  have "sink_ok x ?w p2 s" if "s \<notin> X" for s
  proof (cases "s = Eng ?j")
    case True
    then show ?thesis using r(5,8) t by (simp add: eng_ok_def eng_entries_def)
  next
    case False
    then have "sink_ok x w1 p2 s" using r(2) that by (auto simp: others_def)
    with False r(8) show ?thesis by (cases s) (auto simp: nth_append split: if_splits)
  qed
  moreover have "base_ok x ?w p2" using r(2) by (auto simp: others_def base_ok_def)
  ultimately have "others x X ?w p2" by (simp add: others_def)
  moreover have "\<forall>s\<in>X. entries s p2 = entries s p" using p1(6) r(6) assms(5) by metis
  ultimately show ?thesis using p1(1,3,4) r(1,3,4,7) keeps_trans [OF p1(3) r(3)] by (simp add: plug_engine_def same_world_def)
qed

text \<open>Back to the whole world.\<close>

lemma others_put_conn:
  assumes "others x {Conn i} w p" "i < length (w_conns w)" "conn_ok c (entries (Conn i) p) (tids x (Conn i) p)"
  shows "base_ok x (w\<lparr>w_conns := (w_conns w)[i := c]\<rparr>) p" "sink_ok x (w\<lparr>w_conns := (w_conns w)[i := c]\<rparr>) p s"
proof -
  show "base_ok x (w\<lparr>w_conns := (w_conns w)[i := c]\<rparr>) p" using assms(1) by (simp add: others_def base_ok_def)
  show "sink_ok x (w\<lparr>w_conns := (w_conns w)[i := c]\<rparr>) p s"
  proof (cases "s = Conn i")
    case True
    then show ?thesis using assms(2,3) by simp
  next
    case False
    then have "sink_ok x w p s" using assms(1) by (simp add: others_def)
    with False show ?thesis by (cases s) auto
  qed
qed

lemma others_put_lst:
  assumes "others x {Lst l} w p" "l < length (w_lsts w)" "lst_ok (w_lsts w ! l) (entries (Lst l) p) (tids x (Lst l) p)"
  shows "sink_ok x w p s"
  using assms by (cases "s = Lst l") (simp_all add: others_def)

lemma others_tick: "others x X (w\<lparr>w_tick := n\<rparr>) p = others x X w p"
proof -
  have "sink_ok x (w\<lparr>w_tick := n\<rparr>) p s = sink_ok x w p s" for s by (cases s) simp_all
  then show ?thesis by (simp add: others_def base_ok_def)
qed

lemma good_others: "io_good n w p \<Longrightarrow> others None X w p"
  by (simp add: io_good_def others_def)

end
