(* ===== verification/Tcp_Connecter.thy ===== *)
theory Tcp_Connecter
  imports Io_World
begin

text \<open>
  The connecter of a down thread: \<open>src/net/tcp_connecter.cpp\<close>, a client of the poller. Signed arithmetic wraps around at 32
  bits. \<open>None\<close> is a failed assertion, a division by zero or a loop that never ends.

  Proved: a connecter keeps the invariant of the I/O thread, and its delays stay within the configured bounds.
\<close>

section \<open>Operations\<close>

definition s32 :: "int \<Rightarrow> int" where
  "s32 i = sint (word_of_int i :: u32)"

definition tcp_connecter_t :: "int \<Rightarrow> options \<Rightarrow> bool \<Rightarrow> conn" where
  "tcp_connecter_t worker_id opt delayed =
     \<lparr>cn_worker_id = worker_id, cn_opt = opt, cn_s = retired_fd, cn_handle = 0, cn_handle_valid = False,
      cn_delayed_start = delayed, cn_timer_started = False, cn_ivl = o_reconnect_ivl opt, cn_connected = False\<rparr>"

text \<open>The operations of connecter \<open>i\<close> work on its own state, the world and the poller.\<close>

type_synonym conn_state = "conn \<times> world \<times> sink poller"

definition cn_close :: "conn_state \<Rightarrow> conn_state option" where
  "cn_close = (\<lambda>(c, w, p).
     if cn_s c = retired_fd \<or> cn_s c \<notin> set (w_open w) then None
     else Some (c\<lparr>cn_s := retired_fd\<rparr>, w\<lparr>w_open := remove1 (cn_s c) (w_open w)\<rparr>, p))"

text \<open>The result is the return value with \<open>errno\<close>.\<close>

definition cn_open :: "env \<Rightarrow> conn_state \<Rightarrow> (conn_state \<times> int \<times> int) option" where
  "cn_open e = (\<lambda>(c, w, p).
     if cn_s c \<noteq> retired_fd then None
     else if ev_socket e \<noteq> 0 then Some ((c, w, p), -1, ev_socket e)
     else
       (let fd = new_fd (w_open w); c1 = c\<lparr>cn_s := fd\<rparr>; w1 = w\<lparr>w_open := fd # w_open w\<rparr> in
        if ev_connect e = 0 then Some ((c1, w1, p), 0, 0)
        else Some ((c1, w1, p), -1, if ev_connect e = EINTR then EINPROGRESS else ev_connect e)))"

definition cn_connect :: "env \<Rightarrow> conn_state \<Rightarrow> (conn_state \<times> int) option" where
  "cn_connect e = (\<lambda>(c, w, p).
     if ev_soerr e \<noteq> 0 then (if ev_soerr e \<in> set network_errors then Some ((c, w, p), retired_fd) else None)
     else Some ((c\<lparr>cn_s := retired_fd\<rparr>, w, p), cn_s c))"

definition get_new_reconnect_ivl :: "u32 \<Rightarrow> conn \<Rightarrow> (conn \<times> int) option" where
  "get_new_reconnect_ivl rnd c =
     (let ivl = o_reconnect_ivl (cn_opt c); ivl_max = o_reconnect_ivl_max (cn_opt c) in
      if ivl = 0 then None
      else
        (let this_interval = sint ((word_of_int (cn_ivl c) :: u32) + rnd mod word_of_int ivl) in
         if ivl_max > 0 \<and> ivl_max > ivl
         then (let next_ivl = s32 (cn_ivl c * 2) in
               Some (c\<lparr>cn_ivl := if next_ivl \<ge> ivl_max then ivl_max else next_ivl\<rparr>, this_interval))
         else Some (c, this_interval)))"

definition add_reconnect_timer :: "nat \<Rightarrow> env \<Rightarrow> conn_state \<Rightarrow> conn_state option" where
  "add_reconnect_timer i e = (\<lambda>(c, w, p).
     do { (c1, rc_ivl) \<leftarrow> get_new_reconnect_ivl (ev_random e) c;
          Some (c1\<lparr>cn_timer_started := True\<rparr>, w, add_timer rc_ivl (Conn i) reconnect_timer_id p) })"

definition cn_terminate :: "nat \<Rightarrow> conn_state \<Rightarrow> conn_state option" where
  "cn_terminate i = (\<lambda>(c, w, p).
     do { (c1, p1) \<leftarrow> (if cn_timer_started c
            then map_option (\<lambda>p'. (c\<lparr>cn_timer_started := False\<rparr>, p')) (cancel_timer (Conn i) reconnect_timer_id p) else Some (c, p));
          (c2, p2) \<leftarrow> (if cn_handle_valid c1
            then map_option (\<lambda>p'. (c1\<lparr>cn_handle_valid := False\<rparr>, p')) (rm_fd (cn_handle c1) p1) else Some (c1, p1));
          if cn_s c2 \<noteq> retired_fd then cn_close (c2, w, p2) else Some (c2, w, p2) })"

text \<open>The loop around \<open>send\<close> ends with a call that takes all four bytes of the worker id.\<close>

fun send_worker_id :: "int list \<Rightarrow> unit option" where
  "send_worker_id [] = None"
| "send_worker_id (n # ns) = (if n = 4 then Some () else send_worker_id ns)"

definition cn_out_event :: "nat \<Rightarrow> env \<Rightarrow> conn_state \<Rightarrow> conn_state option" where
  "cn_out_event i e = (\<lambda>cwp.
     do { ((c, w, p), fd) \<leftarrow> cn_connect e cwp;
          p1 \<leftarrow> rm_fd (cn_handle c) p;
          let c1 = c\<lparr>cn_handle_valid := False\<rparr>;
          if fd = retired_fd then do { s \<leftarrow> cn_close (c1, w, p1); add_reconnect_timer i e s }
          else do { _ \<leftarrow> send_worker_id (ev_sends e);
                    (w2, p2) \<leftarrow> plug_engine fd (ev_engine e) w p1;
                    cn_terminate i (c1\<lparr>cn_connected := True\<rparr>, w2, p2) } })"

definition start_connecting :: "nat \<Rightarrow> env \<Rightarrow> conn_state \<Rightarrow> conn_state option" where
  "start_connecting i e = (\<lambda>cwp.
     do { ((c, w, p), rc, errno) \<leftarrow> cn_open e cwp;
          if rc = 0 then
            do { (p1, h) \<leftarrow> add_fd (cn_s c) (Conn i) p;
                 cn_out_event i e (c\<lparr>cn_handle := h, cn_handle_valid := True\<rparr>, w, p1) }
          else if rc = -1 \<and> errno = EINPROGRESS then
            do { (p1, h) \<leftarrow> add_fd (cn_s c) (Conn i) p;
                 p2 \<leftarrow> set_pollout h p1;
                 Some (c\<lparr>cn_handle := h, cn_handle_valid := True\<rparr>, w, p2) }
          else
            do { s \<leftarrow> (if cn_s c \<noteq> retired_fd then cn_close (c, w, p) else Some (c, w, p));
                 add_reconnect_timer i e s } })"

definition process_plug :: "nat \<Rightarrow> env \<Rightarrow> conn_state \<Rightarrow> conn_state option" where
  "process_plug i e = (\<lambda>(c, w, p). if cn_delayed_start c then add_reconnect_timer i e (c, w, p) else start_connecting i e (c, w, p))"

definition cn_timer_event :: "nat \<Rightarrow> env \<Rightarrow> int \<Rightarrow> conn_state \<Rightarrow> conn_state option" where
  "cn_timer_event i e tid = (\<lambda>(c, w, p).
     if tid \<noteq> reconnect_timer_id then None else start_connecting i e (c\<lparr>cn_timer_started := False\<rparr>, w, p))"

section \<open>Each operation keeps the invariant\<close>

lemma cn_close_ok:
  assumes "others x X w p" "cn_s c \<noteq> retired_fd" "cn_s c \<in> set (w_open w)" "\<And>s h. (h, cn_s c) \<notin> entries s p"
  shows "\<exists>w'. cn_close (c, w, p) = Some (c\<lparr>cn_s := retired_fd\<rparr>, w', p) \<and> others x X w' p \<and> same_world w w'"
  using assms others_close [OF assms(1,4)] by (simp add: cn_close_def same_world_def)

lemma word_mod_interval:
  assumes "0 < r" "r < 2 ^ 31" "0 \<le> c" "c + r < 2 ^ 31"
  shows "c \<le> sint ((word_of_int c :: u32) + rnd mod word_of_int r)" "sint ((word_of_int c :: u32) + rnd mod word_of_int r) < c + r"
proof -
  have b: "0 \<le> uint rnd mod r" "uint rnd mod r < r" using assms(1) by simp_all
  have "uint (word_of_int r :: u32) = r" "uint (word_of_int c :: u32) = c" using assms by (simp_all add: uint_word_of_int)
  moreover have "uint (rnd mod word_of_int r :: u32) = uint rnd mod uint (word_of_int r :: u32)" by (simp add: uint_mod)
  ultimately have "uint ((word_of_int c :: u32) + rnd mod word_of_int r) = c + uint rnd mod r"
    using assms(3,4) b by (simp add: uint_word_ariths mod_pos_pos_trivial)
  moreover have "0 \<le> c + uint rnd mod r" "c + uint rnd mod r < 2 ^ 31" using assms(3,4) b by simp_all
  ultimately have "sint ((word_of_int c :: u32) + rnd mod word_of_int r) = c + uint rnd mod r"
    by (simp add: sint_uint signed_take_bit_int_eq_self)
  with b show "c \<le> sint ((word_of_int c :: u32) + rnd mod word_of_int r)" "sint ((word_of_int c :: u32) + rnd mod word_of_int r) < c + r" by simp_all
qed

lemma s32_id: "- (2 ^ 31) \<le> i \<Longrightarrow> i < 2 ^ 31 \<Longrightarrow> s32 i = i"
  by (simp add: s32_def signed_of_int signed_take_bit_int_eq_self)

text \<open>The new interval lies within the configured bounds.\<close>

lemma get_new_reconnect_ivl_ok:
  assumes "ivl_ok c"
  shows "\<exists>v t. get_new_reconnect_ivl rnd c = Some (c\<lparr>cn_ivl := v\<rparr>, t) \<and> ivl_ok (c\<lparr>cn_ivl := v\<rparr>) \<and> cn_ivl c \<le> v \<and>
    cn_ivl c \<le> t \<and> t < cn_ivl c + o_reconnect_ivl (cn_opt c) \<and> 0 < t \<and> t < 2 ^ 31"
proof -
  let ?r = "o_reconnect_ivl (cn_opt c)" and ?mx = "o_reconnect_ivl_max (cn_opt c)"
  have b: "0 < ?r" "2 * max ?r ?mx < 2 ^ 31" "?r \<le> cn_ivl c" "cn_ivl c \<le> max ?r ?mx" using assms by (simp_all add: ivl_ok_def Let_def)
  then have lt: "?r < 2 ^ 31" "0 \<le> cn_ivl c" "cn_ivl c + ?r < 2 ^ 31" "cn_ivl c * 2 < 2 ^ 31" by auto
  note w = word_mod_interval [OF b(1) lt(1-3), of rnd]
  define v where "v = (if ?mx > 0 \<and> ?mx > ?r then (if cn_ivl c * 2 \<ge> ?mx then ?mx else cn_ivl c * 2) else cn_ivl c)"
  have s: "s32 (cn_ivl c * 2) = cn_ivl c * 2" using lt by (intro s32_id) simp_all
  have "c\<lparr>cn_ivl := cn_ivl c\<rparr> = c" by simp
  then have "get_new_reconnect_ivl rnd c = Some (c\<lparr>cn_ivl := v\<rparr>, sint ((word_of_int (cn_ivl c) :: u32) + rnd mod word_of_int ?r))"
    using b(1) by (simp add: get_new_reconnect_ivl_def Let_def s v_def)
  moreover have "ivl_ok (c\<lparr>cn_ivl := v\<rparr>)" using b by (auto simp: ivl_ok_def Let_def v_def)
  moreover have "cn_ivl c \<le> v" using b by (auto simp: max_def v_def)
  ultimately show ?thesis using w b(1,3) lt(3)
    by (intro exI [of _ v] exI [of _ "sint ((word_of_int (cn_ivl c) :: u32) + rnd mod word_of_int ?r)"]) linarith
qed

text \<open>A timer that is added is later than now and the executing one stays at the head.\<close>

definition adds_one :: "'s poller \<Rightarrow> 's poller \<Rightarrow> bool" where
  "adds_one p p' \<longleftrightarrow> p_timers p' = p_timers p \<or>
     (\<exists>t. p_timers p' = timers_insert t (p_timers p) \<and> p_now p < t_exp t \<and> t_node t \<notin> t_node ` set (p_timers p))"

lemma add_reconnect_timer_ok:
  assumes "others x X w p" "Conn i \<in> X" "ivl_ok c" "tids x (Conn i) p = []"
  shows "\<exists>c' p'. add_reconnect_timer i e (c, w, p) = Some (c', w, p') \<and> others x X w p' \<and> keeps p p' \<and> adds_one p p' \<and>
    entries (Conn i) p' = entries (Conn i) p \<and> tids x (Conn i) p' = [reconnect_timer_id] \<and> ivl_ok c' \<and> cn_timer_started c' \<and>
    cn_s c' = cn_s c \<and> cn_handle_valid c' = cn_handle_valid c \<and> cn_handle c' = cn_handle c \<and> cn_connected c' = cn_connected c"
proof -
  from get_new_reconnect_ivl_ok [OF assms(3), of "ev_random e"] obtain v t where
    v: "get_new_reconnect_ivl (ev_random e) c = Some (c\<lparr>cn_ivl := v\<rparr>, t)" "ivl_ok (c\<lparr>cn_ivl := v\<rparr>)" "0 < t" "t < 2 ^ 31" by blast
  let ?p = "add_timer t (Conn i) reconnect_timer_id p"
  have inv: "poll_inv p" and x: "\<forall>n. x = Some n \<longrightarrow> n < p_next p" and now: "p_now p < 2 ^ 63"
    using assms(1) by (auto simp: others_def base_ok_def)
  note ok = add_timer_ok [OF inv, where timeout = t and sink = "Conn i" and i = reconnect_timer_id]
  note view = add_timer_view [OF inv assms(4) x, where timeout = t and i = reconnect_timer_id]
  have "base_ok x w ?p"
    using assms(1) ok(1,4,6) view(3) by (auto simp: others_def base_ok_def outs_ok_def) (auto simp: add_timer_def less_Suc_eq)
  moreover have "sink_ok x w ?p s" if "s \<notin> X" for s
  proof -
    have "s \<noteq> Conn i" using that assms(2) by auto
    then show ?thesis using sink_ok_cong [of s ?p p x w w] view that assms(1) by (simp add: others_def)
  qed
  ultimately have "others x X w ?p" by (simp add: others_def)
  moreover have "adds_one p ?p" using ok(3,7) later_exp [OF now v(3,4)] by (auto simp: adds_one_def)
  moreover have "ivl_ok (c\<lparr>cn_ivl := v, cn_timer_started := True\<rparr>)" using v(2) by (simp add: ivl_ok_def)
  ultimately show ?thesis using v(1) view(1,3) ok(2) by (simp add: add_reconnect_timer_def)
qed

text \<open>A connecter that is connected, about to connect, or waiting for its timer.\<close>

lemma cn_out_event_ok:
  assumes oth: "others x {Conn i} w p" and env: "env_ok e"
    and c: "entries (Conn i) p = {(cn_handle c, cn_s c)}" "tids x (Conn i) p = []" "\<not> cn_timer_started c" "ivl_ok c" "\<not> cn_connected c"
  shows "\<exists>c' w' p'. cn_out_event i e (c, w, p) = Some (c', w', p') \<and> others x {Conn i} w' p' \<and> keeps p p' \<and> adds_one p p' \<and>
    same_world w w' \<and> conn_ok c' (entries (Conn i) p') (tids x (Conn i) p')"
proof -
  have s: "cn_s c \<noteq> retired_fd" "cn_s c \<in> set (w_open w)" "0 \<le> cn_s c"
  proof -
    have m: "(cn_handle c, cn_s c) \<in> entries (Conn i) p" using c(1) by simp
    then obtain en where "deref (cn_handle c) p = Some en" "pe_fd en = cn_s c" "cn_s c \<noteq> retired_fd" by (auto simp: entries_def)
    then show "cn_s c \<noteq> retired_fd" "0 \<le> cn_s c" using poll_inv_entry(1) [OF others_inv [OF oth]] by metis+
    show "cn_s c \<in> set (w_open w)" using oth m by (auto simp: others_def base_ok_def)
  qed
  from others_rm_fd [OF oth _, of "Conn i" "cn_handle c" "cn_s c"] c(1) obtain p1 where
    p1: "rm_fd (cn_handle c) p = Some p1" "others x {Conn i} w p1" "keeps p p1" "p_timers p1 = p_timers p" "p_now p1 = p_now p"
      "entries (Conn i) p1 = {}" "\<forall>s k. (k, cn_s c) \<notin> entries s p1" by auto
  have t1: "tids x (Conn i) p1 = []" using c(2) p1(4) by (simp add: tids_def)
  show ?thesis
  proof (cases "ev_soerr e = 0")
    case False
    let ?c = "c\<lparr>cn_handle_valid := False\<rparr>"
    from cn_close_ok [OF p1(2), of ?c] s p1(7) obtain w2 where
      w2: "cn_close (?c, w, p1) = Some (?c\<lparr>cn_s := retired_fd\<rparr>, w2, p1)" "others x {Conn i} w2 p1" "same_world w w2" by auto
    have "ivl_ok (?c\<lparr>cn_s := retired_fd\<rparr>)" using c(4) by (simp add: ivl_ok_def)
    from add_reconnect_timer_ok [OF w2(2) _ this t1, of e] obtain c' p' where
      r: "add_reconnect_timer i e (?c\<lparr>cn_s := retired_fd\<rparr>, w2, p1) = Some (c', w2, p')" "others x {Conn i} w2 p'" "keeps p1 p'" "adds_one p1 p'"
        "entries (Conn i) p' = {}" "tids x (Conn i) p' = [reconnect_timer_id]" "ivl_ok c'" "cn_timer_started c'" "cn_s c' = retired_fd" "\<not> cn_handle_valid c'" "\<not> cn_connected c'"
      using p1(6) c(5) by auto
    have "adds_one p p'" using r(4) p1(4,5) by (simp add: adds_one_def)
    moreover have "ev_soerr e \<in> set network_errors" using False env by (simp add: env_ok_def)
    ultimately show ?thesis using False p1(1) w2(1,3) r(1,2) keeps_trans [OF p1(3) r(3)] r(5-11)
      by (simp add: cn_out_event_def cn_connect_def conn_ok_def)
  next
    case True
    let ?c = "c\<lparr>cn_s := retired_fd, cn_handle_valid := False\<rparr>"
    have sent: "send_worker_id ns = Some ()" if "4 \<in> set ns" for ns using that by (induction ns) auto
    have "p_set p1 (cn_s c) = None"
      using set_fd_entries [OF others_inv [OF p1(2)], of "cn_s c"] p1(7) by (cases "p_set p1 (cn_s c)") auto
    from plug_engine_ok [OF p1(2) s(3,2) this, of "ev_engine e"] p1(6) obtain w2 p2 where
      r: "plug_engine (cn_s c) (ev_engine e) w p1 = Some (w2, p2)" "others x {Conn i} w2 p2" "keeps p1 p2" "p_timers p2 = p_timers p1"
        "entries (Conn i) p2 = {}" "same_world w w2" by auto
    have "tids x (Conn i) p2 = []" "adds_one p p2" using t1 r(4) p1(4) by (simp_all add: tids_def adds_one_def)
    moreover have "ivl_ok (?c\<lparr>cn_connected := True\<rparr>)" using c(4) by (simp add: ivl_ok_def)
    moreover have "4 \<in> set (ev_sends e)" using env by (simp add: env_ok_def)
    ultimately show ?thesis using True s(1) p1(1) r(1,2,5,6) keeps_trans [OF p1(3) r(3)] sent c(3)
      by (simp add: cn_out_event_def cn_connect_def cn_terminate_def conn_ok_def)
  qed
qed

lemma adds_one_same: "p_timers p1 = p_timers p \<Longrightarrow> p_now p1 = p_now p \<Longrightarrow> adds_one p1 p' = adds_one p p'"
  by (simp add: adds_one_def)

lemma start_connecting_ok:
  assumes oth: "others x {Conn i} w p" and env: "env_ok e"
    and c: "entries (Conn i) p = {}" "tids x (Conn i) p = []" "cn_s c = retired_fd" "\<not> cn_handle_valid c" "\<not> cn_timer_started c" "ivl_ok c" "\<not> cn_connected c"
  shows "\<exists>c' w' p'. start_connecting i e (c, w, p) = Some (c', w', p') \<and> others x {Conn i} w' p' \<and> keeps p p' \<and> adds_one p p' \<and>
    same_world w w' \<and> conn_ok c' (entries (Conn i) p') (tids x (Conn i) p')"
proof (cases "ev_socket e = 0")
  case False
  from add_reconnect_timer_ok [OF oth _ c(6,2), of e] obtain c' p' where
    r: "add_reconnect_timer i e (c, w, p) = Some (c', w, p')" "others x {Conn i} w p'" "keeps p p'" "adds_one p p'"
      "entries (Conn i) p' = {}" "tids x (Conn i) p' = [reconnect_timer_id]" "ivl_ok c'" "cn_timer_started c'" "cn_s c' = retired_fd" "\<not> cn_handle_valid c'" "\<not> cn_connected c'"
    using c by auto
  have "ev_socket e \<noteq> EINPROGRESS" using env by (simp add: env_ok_def)
  then show ?thesis using False r c(3) by (simp add: start_connecting_def cn_open_def same_world_def conn_ok_def)
next
  case True
  let ?fd = "new_fd (w_open w)"
  let ?c = "c\<lparr>cn_s := ?fd\<rparr>" and ?w = "w\<lparr>w_open := ?fd # w_open w\<rparr>"
  note fresh = others_open [OF oth refl]
  note w1 = fresh(1) and fd = fresh(5)
  from others_add_fd [OF w1 _ fresh(4) _ fresh(2), of "Conn i"] c(1) obtain p1 h where
    p1: "add_fd ?fd (Conn i) p = Some (p1, h)" "others x {Conn i} ?w p1" "keeps p p1" "p_timers p1 = p_timers p" "p_now p1 = p_now p"
      "entries (Conn i) p1 = {(h, ?fd)}" by auto
  have t1: "tids x (Conn i) p1 = []" using c(2) p1(4) by (simp add: tids_def)
  let ?c1 = "?c\<lparr>cn_handle := h, cn_handle_valid := True\<rparr>"
  have ivl: "ivl_ok ?c" "ivl_ok ?c1" "ivl_ok (?c\<lparr>cn_s := retired_fd\<rparr>)" using c(6) by (simp_all add: ivl_ok_def)
  let ?err = "if ev_connect e = EINTR then EINPROGRESS else ev_connect e"
  consider "ev_connect e = 0" | "ev_connect e \<noteq> 0" "?err = EINPROGRESS" | "ev_connect e \<noteq> 0" "?err \<noteq> EINPROGRESS" by blast
  then show ?thesis
  proof cases
    case 1
    from cn_out_event_ok [OF p1(2) env, of ?c1] p1(6) t1 c(5,7) ivl(2) obtain c' w' p' where
      r: "cn_out_event i e (?c1, ?w, p1) = Some (c', w', p')" "others x {Conn i} w' p'" "keeps p1 p'" "adds_one p1 p'" "same_world ?w w'"
        "conn_ok c' (entries (Conn i) p') (tids x (Conn i) p')" by auto
    then show ?thesis using True 1 c(3) p1(1) keeps_trans [OF p1(3) r(3)] adds_one_same [OF p1(4,5)]
      by (simp add: start_connecting_def cn_open_def Let_def same_world_def)
  next
    case 2
    from others_mod_events [OF p1(2), of h ?fd "Conn i" "\<lambda>e. or e EPOLLOUT"] p1(6) obtain p2 where
      r: "set_pollout h p1 = Some p2" "others x {Conn i} ?w p2" "keeps p1 p2" "p_timers p2 = p_timers p1" "entries (Conn i) p2 = {(h, ?fd)}"
      by (auto simp: set_pollout_def)
    have "tids x (Conn i) p2 = []" "adds_one p p2" using t1 r(4) p1(4) by (simp_all add: tids_def adds_one_def)
    then show ?thesis using True 2 c(3-5,7) p1(1) r(1,2,5) keeps_trans [OF p1(3) r(3)] fd ivl(2)
      by (simp add: start_connecting_def cn_open_def Let_def same_world_def conn_ok_def)
  next
    case 3
    from cn_close_ok [OF w1, of ?c] fd fresh(3) obtain w2 where
      w2: "cn_close (?c, ?w, p) = Some (?c\<lparr>cn_s := retired_fd\<rparr>, w2, p)" "others x {Conn i} w2 p" "same_world ?w w2" by auto
    from add_reconnect_timer_ok [OF w2(2) _ ivl(3) c(2), of e] obtain c' p' where
      r: "add_reconnect_timer i e (?c\<lparr>cn_s := retired_fd\<rparr>, w2, p) = Some (c', w2, p')" "others x {Conn i} w2 p'" "keeps p p'" "adds_one p p'"
        "entries (Conn i) p' = {}" "tids x (Conn i) p' = [reconnect_timer_id]" "ivl_ok c'" "cn_timer_started c'" "cn_s c' = retired_fd" "\<not> cn_handle_valid c'" "\<not> cn_connected c'"
      using c by auto
    then show ?thesis using True 3 c(3) fd w2(1,3)
      by (simp add: start_connecting_def cn_open_def Let_def same_world_def conn_ok_def split: if_splits)
  qed
qed

section \<open>Properties\<close>

text \<open>The delays of successive reconnections.\<close>

fun backoffs :: "u32 list \<Rightarrow> conn \<Rightarrow> int list option" where
  "backoffs [] c = Some []"
| "backoffs (rnd # rnds) c = do { (c1, t) \<leftarrow> get_new_reconnect_ivl rnd c; ts \<leftarrow> backoffs rnds c1; Some (t # ts) }"

definition backoff_base :: "options \<Rightarrow> nat \<Rightarrow> int" where
  "backoff_base opt k =
     (if o_reconnect_ivl_max opt > o_reconnect_ivl opt then min (o_reconnect_ivl opt * 2 ^ k) (o_reconnect_ivl_max opt) else o_reconnect_ivl opt)"

lemma next_backoff:
  assumes "ivl_ok c" "cn_ivl c = backoff_base (cn_opt c) k"
  shows "\<exists>c' t. get_new_reconnect_ivl rnd c = Some (c', t) \<and> ivl_ok c' \<and> cn_opt c' = cn_opt c \<and> cn_ivl c' = backoff_base (cn_opt c) (Suc k) \<and>
    backoff_base (cn_opt c) k \<le> t \<and> t < backoff_base (cn_opt c) k + o_reconnect_ivl (cn_opt c)"
proof -
  let ?r = "o_reconnect_ivl (cn_opt c)" and ?m = "o_reconnect_ivl_max (cn_opt c)"
  have b: "0 < ?r" "2 * max ?r ?m < 2 ^ 31" "?r \<le> cn_ivl c" "cn_ivl c \<le> max ?r ?m" using assms(1) by (simp_all add: ivl_ok_def Let_def)
  from get_new_reconnect_ivl_ok [OF assms(1), of rnd] obtain v t where
    v: "get_new_reconnect_ivl rnd c = Some (c\<lparr>cn_ivl := v\<rparr>, t)" "ivl_ok (c\<lparr>cn_ivl := v\<rparr>)" "cn_ivl c \<le> t" "t < cn_ivl c + ?r" by blast
  have s: "s32 (cn_ivl c * 2) = cn_ivl c * 2" using b by (intro s32_id) auto
  have "v = (if ?m > 0 \<and> ?m > ?r then (if cn_ivl c * 2 \<ge> ?m then ?m else cn_ivl c * 2) else cn_ivl c)"
    using v(1) b(1) by (auto simp: get_new_reconnect_ivl_def Let_def s split: if_splits dest: arg_cong [where f = cn_ivl])
  also have "\<dots> = backoff_base (cn_opt c) (Suc k)" using assms(2) b(1) by (auto simp: backoff_base_def min_def)
  finally show ?thesis using v assms(2) by auto
qed

text \<open>Reconnection backs off exponentially: the k-th delay is the configured interval doubled k times, cut at the configured
  maximum, plus a random part below the configured interval; it is always positive and never overflows.\<close>

theorem reconnect_backoff:
  assumes "0 < o_reconnect_ivl opt" "2 * max (o_reconnect_ivl opt) (o_reconnect_ivl_max opt) < 2 ^ 31"
  shows "\<exists>ts. backoffs rnds (tcp_connecter_t worker_id opt delayed) = Some ts \<and> length ts = length rnds \<and>
    (\<forall>k<length ts. backoff_base opt k \<le> ts ! k \<and> ts ! k < backoff_base opt k + o_reconnect_ivl opt \<and> 0 < ts ! k \<and> ts ! k < 2 ^ 31)"
proof -
  have base: "0 < backoff_base opt k \<and> backoff_base opt k + o_reconnect_ivl opt < 2 ^ 31" for k
    using assms by (auto simp: backoff_base_def)
  have run: "\<exists>ts. backoffs rnds c = Some ts \<and> length ts = length rnds \<and>
      (\<forall>k<length ts. backoff_base opt (j + k) \<le> ts ! k \<and> ts ! k < backoff_base opt (j + k) + o_reconnect_ivl opt)"
    if "ivl_ok c" "cn_opt c = opt" "cn_ivl c = backoff_base opt j" for c j
    using that
  proof (induction rnds arbitrary: c j)
    case (Cons rnd rnds)
    from next_backoff [OF Cons.prems(1), of j rnd] Cons.prems(2,3) obtain c' t where
      1: "get_new_reconnect_ivl rnd c = Some (c', t)" "ivl_ok c'" "cn_opt c' = opt" "cn_ivl c' = backoff_base opt (Suc j)"
        "backoff_base opt j \<le> t" "t < backoff_base opt j + o_reconnect_ivl opt" by auto
    from Cons.IH [OF 1(2-4)] obtain ts where 2: "backoffs rnds c' = Some ts" "length ts = length rnds"
      "\<forall>k<length ts. backoff_base opt (Suc j + k) \<le> ts ! k \<and> ts ! k < backoff_base opt (Suc j + k) + o_reconnect_ivl opt" by blast
    have "backoff_base opt (j + k) \<le> (t # ts) ! k \<and> (t # ts) ! k < backoff_base opt (j + k) + o_reconnect_ivl opt" if "k < Suc (length ts)" for k
      using that 1(5,6) 2(3) by (cases k) auto
    then show ?case using 1(1) 2(1,2) by auto
  qed simp
  let ?c = "tcp_connecter_t worker_id opt delayed"
  have "ivl_ok ?c" "cn_opt ?c = opt" "cn_ivl ?c = backoff_base opt 0"
    using assms by (auto simp: ivl_ok_def tcp_connecter_t_def backoff_base_def)
  from run [OF this] obtain ts where ts: "backoffs rnds ?c = Some ts" "length ts = length rnds"
    "\<forall>k<length ts. backoff_base opt k \<le> ts ! k \<and> ts ! k < backoff_base opt k + o_reconnect_ivl opt" by auto
  have "0 < ts ! k \<and> ts ! k < 2 ^ 31" if "k < length ts" for k using ts(3) that base [of k] by force
  with ts show ?thesis by blast
qed

definition backoff_opt :: options where
  "backoff_opt = (options_t [])\<lparr>o_reconnect_ivl_max := 250\<rparr>"

theorem reconnect_backoff_witness:
  "\<exists>ts. backoffs [7, 150, 3] (tcp_connecter_t 1 backoff_opt False) = Some ts \<and> length ts = 3 \<and>
    100 \<le> ts ! 0 \<and> ts ! 0 < 200 \<and> 200 \<le> ts ! 1 \<and> ts ! 1 < 300 \<and> 250 \<le> ts ! 2 \<and> ts ! 2 < 350"
proof -
  have o: "o_reconnect_ivl backoff_opt = 100" "o_reconnect_ivl_max backoff_opt = 250" by (simp_all add: backoff_opt_def options_t_def)
  then have b: "backoff_base backoff_opt 0 = 100" "backoff_base backoff_opt 1 = 200" "backoff_base backoff_opt 2 = 250" by (simp_all add: backoff_base_def)
  from reconnect_backoff [of backoff_opt "[7, 150, 3]" 1 False] o obtain ts where
    ts: "backoffs [7, 150, 3] (tcp_connecter_t 1 backoff_opt False) = Some ts" "length ts = 3"
    "\<forall>k<3. backoff_base backoff_opt k \<le> ts ! k \<and> ts ! k < backoff_base backoff_opt k + 100" by auto
  from ts(3) [rule_format, of 0] ts(3) [rule_format, of 1] ts(3) [rule_format, of 2] ts(1,2) show ?thesis unfolding b by auto
qed

end
