(* ===== verification/Tcp_Listener.thy ===== *)
theory Tcp_Listener
  imports Io_World
begin

text \<open>
  The listener of an up thread: \<open>src/net/tcp_listener.cpp\<close>, a client of the poller. It accepts a connection, checks it
  against the filters, reads the number of the worker at the other end and hands the connection to a new engine.
  \<open>None\<close> is a failed assertion, an index out of range or a loop that never ends.

  Proved: a failed \<open>set_address\<close> leaves no descriptor behind, unless \<open>errno\<close> was stale; an event of the listener keeps the
  invariant of the I/O thread.
\<close>

section \<open>Operations\<close>

definition EAFNOSUPPORT :: int where "EAFNOSUPPORT = 97"

definition tcp_listener_t :: "nat \<Rightarrow> options \<Rightarrow> lst" where
  "tcp_listener_t num_out opt = \<lparr>ls_opt = opt, ls_s = retired_fd, ls_handle = 0, ls_num_out = num_out\<rparr>"

definition ls_close :: "lst \<times> world \<Rightarrow> (lst \<times> world) option" where
  "ls_close = (\<lambda>(l, w).
     if ls_s l = retired_fd \<or> ls_s l \<notin> set (w_open w) then None
     else Some (l\<lparr>ls_s := retired_fd\<rparr>, w\<lparr>w_open := remove1 (ls_s l) (w_open w)\<rparr>))"

text \<open>The results of the system calls of \<open>set_address\<close>: \<open>errno\<close> before the first call of \<open>socket\<close>, and the error of each call
  (0: it succeeds).\<close>

record listen_env =
  le_errno :: int
  le_socket :: int
  le_socket2 :: int
  le_bind :: int
  le_listen :: int

definition ls_socket :: "int \<Rightarrow> lst \<times> world \<Rightarrow> lst \<times> world" where
  "ls_socket err = (\<lambda>(l, w).
     if err \<noteq> 0 then (l\<lparr>ls_s := -1\<rparr>, w)
     else (let fd = new_fd (w_open w) in (l\<lparr>ls_s := fd\<rparr>, w\<lparr>w_open := fd # w_open w\<rparr>)))"

text \<open>The second call of \<open>resolve\<close> asks for IPv6 again.\<close>

definition set_address ::
  "(string \<Rightarrow> bool \<Rightarrow> aerrno + sockaddr) \<Rightarrow> listen_env \<Rightarrow> string \<Rightarrow> lst \<times> world \<Rightarrow> ((lst \<times> world) \<times> int) option" where
  "set_address res e addr = (\<lambda>(l, w).
     case tcp_resolve res addr (o_ipv6 (ls_opt l)) of
       Inl _ \<Rightarrow> Some ((l, w), -1)
     | Inr a \<Rightarrow>
         (let lw1 = ls_socket (le_socket e) (l, w);
              errno = (if le_socket e \<noteq> 0 then le_socket e else le_errno e);
              again = sa_family a = AF_INET6 \<and> errno = EAFNOSUPPORT \<and> o_ipv6 (ls_opt l) in
          case (if again then map_sum id (\<lambda>_. ls_socket (le_socket2 e) lw1) (tcp_resolve res addr True) else Inr lw1) of
            Inl _ \<Rightarrow> Some (lw1, -1)
          | Inr lw2 \<Rightarrow>
              if ls_s (fst lw2) = -1 then Some (lw2, -1)
              else if le_bind e \<noteq> 0 \<or> le_listen e \<noteq> 0 then map_option (\<lambda>lw. (lw, -1)) (ls_close lw2)
              else Some (lw2, 0)))"

definition ls_get_address :: "(sockaddr \<Rightarrow> string option) \<Rightarrow> (sockaddr \<times> nat) option \<Rightarrow> int \<times> string" where
  "ls_get_address gni sockname =
     (case sockname of
        None \<Rightarrow> (-1, [])
      | Some (ss, sl) \<Rightarrow> (case tcp_to_string gni (tcp_address_of ss sl) of None \<Rightarrow> (-1, []) | Some s \<Rightarrow> (0, s)))"

definition ls_set_poller :: "nat \<Rightarrow> lst \<times> sink poller \<Rightarrow> (lst \<times> sink poller) option" where
  "ls_set_poller i = (\<lambda>(l, p).
     do { (p1, h) \<leftarrow> add_fd (ls_s l) (Lst i) p;
          p2 \<leftarrow> set_pollin h p1;
          Some (l\<lparr>ls_handle := h\<rparr>, p2) })"

definition ls_process_term :: "lst \<times> world \<times> sink poller \<Rightarrow> (lst \<times> world \<times> sink poller) option" where
  "ls_process_term = (\<lambda>(l, w, p).
     do { p1 \<leftarrow> rm_fd (ls_handle l) p;
          (l1, w1) \<leftarrow> ls_close (l, w);
          Some (l1, w1, p1) })"

fun filters_match :: "address_mask list \<Rightarrow> sockaddr \<Rightarrow> bool option" where
  "filters_match [] ss = Some False"
| "filters_match (f # fs) ss =
     do { m \<leftarrow> match_address f ss;
          if m then Some True else filters_match fs ss }"

definition ls_accept :: "env \<Rightarrow> lst \<Rightarrow> world \<Rightarrow> (int \<times> world) option" where
  "ls_accept e l w =
     (if ls_s l = retired_fd then None
      else if ev_accept e \<noteq> 0 then (if ev_accept e \<in> set accept_errors then Some (retired_fd, w) else None)
      else
        (let sock = new_fd (w_open w); w1 = w\<lparr>w_open := sock # w_open w\<rparr> in
         if o_tcp_accept_filters (ls_opt l) \<noteq> [] then
           do { matched \<leftarrow> filters_match (o_tcp_accept_filters (ls_opt l)) (ev_peer e);
                Some (if matched then (sock, w1) else (retired_fd, w1\<lparr>w_open := remove1 sock (w_open w1)\<rparr>)) }
         else Some (sock, w1)))"

text \<open>The loop around \<open>recv\<close> ends with a call that gives all four bytes of the worker's number.\<close>

fun recv_worker :: "int \<Rightarrow> int list \<Rightarrow> int option" where
  "recv_worker worker [] = None"
| "recv_worker worker (n # ns) = (if n = 4 then Some worker else recv_worker worker ns)"

definition ls_in_event :: "env \<Rightarrow> lst \<Rightarrow> world \<times> sink poller \<Rightarrow> (world \<times> sink poller) option" where
  "ls_in_event e l = (\<lambda>(w, p).
     do { (fd, w1) \<leftarrow> ls_accept e l w;
          if fd = retired_fd then Some (w1, p)
          else do { peer_worker \<leftarrow> recv_worker (ev_worker e) (ev_recvs e);
                    if 0 \<le> peer_worker \<and> peer_worker < int (ls_num_out l) then plug_engine fd (ev_engine e) w1 p else None } })"

section \<open>Listening\<close>

lemma ls_socket_ok:
  assumes "ls_socket err (l, w) = (l', w')"
  shows "err \<noteq> 0 \<Longrightarrow> l' = l\<lparr>ls_s := -1\<rparr> \<and> w' = w"
    "err = 0 \<Longrightarrow> l' = l\<lparr>ls_s := new_fd (w_open w)\<rparr> \<and> w' = w\<lparr>w_open := new_fd (w_open w) # w_open w\<rparr>"
  using assms by (simp_all add: ls_socket_def Let_def)

lemma set_address_ok:
  assumes "tcp_resolve res addr (o_ipv6 (ls_opt l)) = Inr a" "le_socket e = 0" "le_errno e \<noteq> EAFNOSUPPORT" "le_bind e = 0" "le_listen e = 0"
  shows "set_address res e addr (l, w) = Some ((l\<lparr>ls_s := new_fd (w_open w)\<rparr>, w\<lparr>w_open := new_fd (w_open w) # w_open w\<rparr>), 0)"
proof -
  have "new_fd (w_open w) \<noteq> -1" using new_fd_fresh(2) [of "w_open w"] by linarith
  then show ?thesis using assms by (simp add: set_address_def ls_socket_def Let_def)
qed

text \<open>A failure leaves no descriptor open, unless an earlier call had left \<open>EAFNOSUPPORT\<close> in \<open>errno\<close>.\<close>

lemma set_address_error:
  assumes "ls_s l = retired_fd" "le_errno e \<noteq> EAFNOSUPPORT" "set_address res e addr (l, w) = Some ((l', w'), rc)" "rc \<noteq> 0"
  shows "rc = -1" "ls_s l' = retired_fd" "w_open w' = w_open w"
  using assms new_fd_fresh(2) [of "w_open w"]
  by (auto simp: set_address_def ls_socket_def ls_close_def retired_fd_def Let_def split: sum.splits if_splits)

lemma ls_close_socket:
  assumes "ls_s (fst (ls_socket err lw)) \<noteq> -1"
  shows "\<exists>r. ls_close (ls_socket err lw) = Some r"
  using assms by (cases lw) (auto simp: ls_socket_def ls_close_def retired_fd_def Let_def split: if_splits)

lemma set_address_returns: "\<exists>r. set_address res e addr (l, w) = Some r"
proof (cases "tcp_resolve res addr (o_ipv6 (ls_opt l))")
  case (Inr a)
  let ?again = "sa_family a = AF_INET6 \<and> (if le_socket e \<noteq> 0 then le_socket e else le_errno e) = EAFNOSUPPORT \<and> o_ipv6 (ls_opt l)"
  show ?thesis
  proof (cases ?again)
    case True
    then show ?thesis using Inr ls_close_socket [of "le_socket2 e" "ls_socket (le_socket e) (l, w)"]
      by (cases "tcp_resolve res addr True") (auto simp: set_address_def Let_def simp del: not_None_eq)
  next
    case False
    then have "set_address res e addr (l, w) = (let lw = ls_socket (le_socket e) (l, w) in
      if ls_s (fst lw) = -1 then Some (lw, -1) else if le_bind e \<noteq> 0 \<or> le_listen e \<noteq> 0 then map_option (\<lambda>lw. (lw, -1)) (ls_close lw) else Some (lw, 0))"
      using Inr by (simp only: set_address_def Let_def prod.case sum.case if_False)
    then show ?thesis using ls_close_socket [of "le_socket e" "(l, w)"] by (auto simp: Let_def)
  qed
qed (simp add: set_address_def)

section \<open>Accepting\<close>

lemma match_address_defined: "addr_mask f \<noteq> -1 \<Longrightarrow> match_address f ss \<noteq> None"
  by (simp add: match_address_def Let_def del: not_None_eq)

lemma filters_match_ok: "\<forall>f\<in>set fs. addr_mask f \<noteq> -1 \<Longrightarrow> filters_match fs ss = Some (\<exists>f\<in>set fs. match_address f ss = Some True)"
proof (induction fs)
  case (Cons f fs)
  then obtain b where "match_address f ss = Some b" using match_address_defined [of f ss] by auto
  with Cons show ?case by simp
qed simp

lemma recv_worker_ok: "4 \<in> set ns \<Longrightarrow> recv_worker worker ns = Some worker"
  by (induction ns) auto

lemma ls_accept_ok:
  assumes "others x X w p" "env_ok e" "ls_s l \<noteq> retired_fd" "\<forall>f\<in>set (o_tcp_accept_filters (ls_opt l)). addr_mask f \<noteq> -1"
  shows "ls_accept e l w = Some (retired_fd, w) \<or>
    ls_accept e l w = Some (new_fd (w_open w), w\<lparr>w_open := new_fd (w_open w) # w_open w\<rparr>)"
  using assms filters_match_ok [OF assms(4), of "ev_peer e"] by (auto simp: ls_accept_def env_ok_def Let_def)

lemma ls_in_event_ok:
  assumes oth: "others x {Lst i} w p" and e: "env_ok e" "0 \<le> ev_worker e" "ev_worker e < int (ls_num_out l)"
    and l: "ls_s l \<noteq> retired_fd" "\<forall>f\<in>set (o_tcp_accept_filters (ls_opt l)). addr_mask f \<noteq> -1"
  shows "\<exists>w' p'. ls_in_event e l (w, p) = Some (w', p') \<and> others x {Lst i} w' p' \<and> keeps p p' \<and> p_timers p' = p_timers p \<and>
    entries (Lst i) p' = entries (Lst i) p \<and> same_world w w'"
proof -
  let ?fd = "new_fd (w_open w)"
  let ?w = "w\<lparr>w_open := ?fd # w_open w\<rparr>"
  note fresh = others_open [OF oth refl]
  from plug_engine_ok [OF fresh(1,4) _ fresh(2), of "ev_engine e"] obtain w' p' where
    r: "plug_engine ?fd (ev_engine e) ?w p = Some (w', p')" "others x {Lst i} w' p'" "keeps p p'" "p_timers p' = p_timers p"
      "entries (Lst i) p' = entries (Lst i) p" "same_world ?w w'" by auto
  moreover have "recv_worker (ev_worker e) (ev_recvs e) = Some (ev_worker e)" using e(1) by (simp add: env_ok_def recv_worker_ok)
  ultimately show ?thesis using ls_accept_ok [OF oth e(1) l] fresh(5) e(2,3) oth keeps_refl [of p]
    by (auto simp: ls_in_event_def same_world_def)
qed

lemma ls_set_poller_ok:
  assumes "others x {Lst i} w p" "0 \<le> ls_s l" "ls_s l \<in> set (w_open w)" "p_set p (ls_s l) = None" "entries (Lst i) p = {}"
  shows "\<exists>h p'. ls_set_poller i (l, p) = Some (l\<lparr>ls_handle := h\<rparr>, p') \<and> others x {Lst i} w p' \<and> p_timers p' = p_timers p \<and>
    entries (Lst i) p' = {(h, ls_s l)}"
proof -
  from others_add_fd [OF assms(1) _ assms(2-4), of "Lst i"] assms(5) obtain p1 h where
    p1: "add_fd (ls_s l) (Lst i) p = Some (p1, h)" "others x {Lst i} w p1" "p_timers p1 = p_timers p" "entries (Lst i) p1 = {(h, ls_s l)}" by auto
  have out: "and (or v EPOLLIN) EPOLLOUT = and v EPOLLOUT" for v :: u32
    by (simp add: bit.conj_disj_distrib2 EPOLLIN_def EPOLLOUT_def)
  from others_mod_events [OF p1(2), of h "ls_s l" "Lst i" "\<lambda>v. or v EPOLLIN"] p1(4) out obtain p2 where
    "mod_events (\<lambda>v. or v EPOLLIN) h p1 = Some p2" "others x {Lst i} w p2" "p_timers p2 = p_timers p1" "entries (Lst i) p2 = {(h, ls_s l)}" by auto
  with p1 show ?thesis by (simp add: ls_set_poller_def set_pollin_def)
qed

lemma ls_process_term_ok:
  assumes "others x {Lst i} w p" "entries (Lst i) p = {(ls_handle l, ls_s l)}" "ls_s l \<noteq> retired_fd"
  shows "\<exists>w' p'. ls_process_term (l, w, p) = Some (l\<lparr>ls_s := retired_fd\<rparr>, w', p') \<and> others x {Lst i} w' p' \<and> entries (Lst i) p' = {} \<and>
    w_open w' = remove1 (ls_s l) (w_open w)"
proof -
  from others_rm_fd [OF assms(1), of "Lst i" "ls_handle l" "ls_s l"] assms(2) obtain p' where
    p': "rm_fd (ls_handle l) p = Some p'" "others x {Lst i} w p'" "entries (Lst i) p' = {}" "\<forall>s k. (k, ls_s l) \<notin> entries s p'" by auto
  moreover have "ls_s l \<in> set (w_open w)" using assms(1,2) by (auto simp: others_def base_ok_def)
  ultimately show ?thesis using others_close [OF p'(2), of "ls_s l"] assms(3) by (simp add: ls_process_term_def ls_close_def)
qed

end
