(* ===== verification/Io_Threads.thy ===== *)
theory Io_Threads
  imports Tcp_Connecter Tcp_Listener
begin

text \<open>
  The I/O threads: the callbacks of the clients of the poller, and initialisation and main loop of the down thread
  (\<open>src/thread/down_thread_net.hpp\<close>), which connects to the workers downstream, and of the up thread
  (\<open>up_thread_net.hpp\<close>), which listens for the workers upstream. The interpretation \<open>io\<close> shows that connecters,
  listeners and engines keep to the contract of the poller, so that the threads never fail.
\<close>

section \<open>Callbacks\<close>

text \<open>The callbacks, as the poller calls them.\<close>

definition with_conn :: "nat \<Rightarrow> (env \<Rightarrow> conn_state \<Rightarrow> conn_state option) \<Rightarrow> world \<Rightarrow> sink poller \<Rightarrow> (world \<times> sink poller \<times> bool) option" where
  "with_conn i f w p =
     (if i < length (w_conns w) then
        do { (c, w1, p1) \<leftarrow> f (w_env w (w_tick w)) (w_conns w ! i, w\<lparr>w_tick := w_tick w + 1\<rparr>, p);
             Some (w1\<lparr>w_conns := (w_conns w1)[i := c]\<rparr>, p1, False) }
      else None)"

definition with_eng :: "nat \<Rightarrow> world \<Rightarrow> sink poller \<Rightarrow> (world \<times> sink poller \<times> bool) option" where
  "with_eng j w p =
     (if j < length (w_engs w) then
        do { (en, w1, p1) \<leftarrow> eng_react (ev_engine (w_env w (w_tick w))) (w_engs w ! j, w\<lparr>w_tick := w_tick w + 1\<rparr>, p);
             Some (w1\<lparr>w_engs := (w_engs w1)[j := en]\<rparr>, p1, ev_stop (w_env w (w_tick w))) }
      else None)"

definition with_lst :: "nat \<Rightarrow> world \<Rightarrow> sink poller \<Rightarrow> (world \<times> sink poller \<times> bool) option" where
  "with_lst i w p =
     (if i < length (w_lsts w) then
        do { (w1, p1) \<leftarrow> ls_in_event (w_env w (w_tick w)) (w_lsts w ! i) (w\<lparr>w_tick := w_tick w + 1\<rparr>, p);
             Some (w1, p1, False) }
      else None)"

fun io_callback :: "sink poll_event \<Rightarrow> world \<Rightarrow> sink poller \<Rightarrow> (world \<times> sink poller \<times> bool) option" where
  "io_callback (In_event (Conn i)) w p = with_conn i (cn_out_event i) w p"
| "io_callback (Out_event (Conn i)) w p = with_conn i (cn_out_event i) w p"
| "io_callback (Timer_event (Conn i) tid) w p = with_conn i (\<lambda>e. cn_timer_event i e tid) w p"
| "io_callback (In_event (Eng j)) w p = with_eng j w p"
| "io_callback (Out_event (Eng j)) w p = with_eng j w p"
| "io_callback (Timer_event (Eng j) tid) w p = None"
| "io_callback (In_event (Lst l)) w p = with_lst l w p"
| "io_callback (Out_event (Lst l)) w p = None"
| "io_callback (Timer_event (Lst l) tid) w p = None"

section \<open>The down thread\<close>

text \<open>Addresses are \<open>protocol://address\<close>; \<open>gai\<close> is \<open>getaddrinfo\<close>, as in theory \<open>Tcp_Address\<close>.\<close>

fun find_sep :: "string \<Rightarrow> (string \<times> string) option" where
  "find_sep [] = None"
| "find_sep (ch # cs) =
     (if take 3 (ch # cs) = ''://'' then Some ([], drop 3 (ch # cs)) else map_option (\<lambda>(a, b). (ch # a, b)) (find_sep cs))"

definition parse_uri :: "string \<Rightarrow> (string \<times> string) option" where
  "parse_uri uri =
     (case find_sep uri of
        None \<Rightarrow> None
      | Some (protocol, address) \<Rightarrow> if protocol = [] \<or> address = [] then None else Some (protocol, address))"

definition check_protocol :: "string \<Rightarrow> int" where
  "check_protocol protocol = (if protocol \<noteq> ''tcp'' then -1 else 0)"

definition dt_Connect :: "(string \<Rightarrow> bool \<Rightarrow> gai_error + sockaddr) \<Rightarrow> int \<Rightarrow> options \<Rightarrow> string \<Rightarrow> world \<times> sink poller \<Rightarrow> (world \<times> sink poller) option" where
  "dt_Connect gai worker_id opt addr = (\<lambda>(w, p).
     do { (protocol, address) \<leftarrow> parse_uri addr;
          if check_protocol protocol \<noteq> 0 \<or> isl (tcp_resolve (resolve_hostname gai) address (o_ipv6 opt)) then None
          else do { (c, w1, p1) \<leftarrow> start_connecting (length (w_conns w)) (w_env w (w_tick w))
                      (tcp_connecter_t worker_id opt False, w\<lparr>w_tick := w_tick w + 1\<rparr>, p);
                    Some (w1\<lparr>w_conns := w_conns w1 @ [c]\<rparr>, p1) } })"

fun dt_connect_all ::
  "(string \<Rightarrow> bool \<Rightarrow> gai_error + sockaddr) \<Rightarrow> int \<Rightarrow> options \<Rightarrow> string list \<Rightarrow> world \<times> sink poller \<Rightarrow> (world \<times> sink poller) option" where
  "dt_connect_all gai worker_id opt [] wp = Some wp"
| "dt_connect_all gai worker_id opt (addr # addrs) wp =
     do { wp1 \<leftarrow> dt_Connect gai worker_id opt addr wp; dt_connect_all gai worker_id opt addrs wp1 }"

definition dt_ThreadInitHandler ::
  "(string \<Rightarrow> bool \<Rightarrow> gai_error + sockaddr) \<Rightarrow> int \<Rightarrow> options \<Rightarrow> nat \<Rightarrow> string list \<Rightarrow> world \<times> sink poller \<Rightarrow> (world \<times> sink poller) option" where
  "dt_ThreadInitHandler gai worker_id opt num_downstream addrs wp =
     (if num_downstream \<noteq> length addrs then None else dt_connect_all gai worker_id opt addrs wp)"

text \<open>Initialisation and main loop of the thread, with a new poller.\<close>

definition down_thread ::
  "(string \<Rightarrow> bool \<Rightarrow> gai_error + sockaddr) \<Rightarrow> int \<Rightarrow> options \<Rightarrow> nat \<Rightarrow> string list \<Rightarrow> (nat \<Rightarrow> env) \<Rightarrow> int list \<Rightarrow> u64 \<Rightarrow> (u64 \<times> (int \<times> u32) list option) list \<Rightarrow>
   (world \<times> sink poller) option" where
  "down_thread gai worker_id opt num_downstream addrs E fds now script =
     do { wp \<leftarrow> dt_ThreadInitHandler gai worker_id opt num_downstream addrs
            (empty_world fds E, epoll_t now);
          poll_loop io_callback script wp }"

section \<open>The up thread\<close>

text \<open>\<open>nics\<close> is the list \<open>getifaddrs\<close> gives. A listener that cannot listen is deleted and the program exits.\<close>

definition ut_ThreadInitHandler ::
  "(string \<times> sockaddr option) list \<Rightarrow> (string \<Rightarrow> bool \<Rightarrow> gai_error + sockaddr) \<Rightarrow> options \<Rightarrow> nat \<Rightarrow> string \<Rightarrow> listen_env \<Rightarrow> u64 \<Rightarrow> world \<Rightarrow>
   (world \<times> sink poller) option" where
  "ut_ThreadInitHandler nics gai opt num_upstream listen_addr e now w =
     do { (protocol, address) \<leftarrow> parse_uri listen_addr;
          if check_protocol protocol \<noteq> 0 then None
          else do { ((l, w1), rc) \<leftarrow> set_address (resolve_interface nics gai) e address (tcp_listener_t num_upstream opt, w);
                    if rc \<noteq> 0 then None
                    else do { (l1, p1) \<leftarrow> ls_set_poller (length (w_lsts w1)) (l, epoll_t now);
                              Some (w1\<lparr>w_lsts := w_lsts w1 @ [l1]\<rparr>, p1) } } }"

definition up_thread ::
  "(string \<times> sockaddr option) list \<Rightarrow> (string \<Rightarrow> bool \<Rightarrow> gai_error + sockaddr) \<Rightarrow> options \<Rightarrow> nat \<Rightarrow> string \<Rightarrow> listen_env \<Rightarrow> (nat \<Rightarrow> env) \<Rightarrow> int list \<Rightarrow> u64 \<Rightarrow>
   (u64 \<times> (int \<times> u32) list option) list \<Rightarrow> (world \<times> sink poller) option" where
  "up_thread nics gai opt num_upstream listen_addr e E fds now script =
     do { wp \<leftarrow> ut_ThreadInitHandler nics gai opt num_upstream listen_addr e now (empty_world fds E);
          poll_loop io_callback script wp }"

lemma find_sep_append: "CHR '':'' \<notin> set a \<Longrightarrow> find_sep (a @ ''://'' @ b) = Some (a, b)"
  by (induction a) auto

lemma parse_uri_text: "CHR '':'' \<notin> set a \<Longrightarrow> a \<noteq> [] \<Longrightarrow> b \<noteq> [] \<Longrightarrow> parse_uri (a @ ''://'' @ b) = Some (a, b)"
  using find_sep_append [of a b] by (simp add: parse_uri_def)

section \<open>The clients keep the contract\<close>

lemma with_conn_ok:
  assumes w: "others x {Conn i} w p" "i < length (w_conns w)"
    and step: "\<And>w1. others x {Conn i} w1 p \<Longrightarrow> env_ok (w_env w (w_tick w)) \<Longrightarrow>
      \<exists>c' w' p'. f (w_env w (w_tick w)) (w_conns w ! i, w1, p) = Some (c', w', p') \<and> others x {Conn i} w' p' \<and> keeps p p' \<and>
        adds_one p p' \<and> same_world w1 w' \<and> conn_ok c' (entries (Conn i) p') (tids x (Conn i) p')"
  shows "\<exists>w' p'. with_conn i f w p = Some (w', p', False) \<and> base_ok x w' p' \<and> (\<forall>s. sink_ok x w' p' s) \<and> keeps p p' \<and> adds_one p p' \<and>
    length (w_conns w') = length (w_conns w) \<and> w_lsts w' = w_lsts w"
proof -
  have "env_ok (w_env w (w_tick w))" using w(1) by (simp add: others_def base_ok_def)
  with step [of "w\<lparr>w_tick := w_tick w + 1\<rparr>"] w(1) obtain c' w' p' where
    r: "f (w_env w (w_tick w)) (w_conns w ! i, w\<lparr>w_tick := w_tick w + 1\<rparr>, p) = Some (c', w', p')" "others x {Conn i} w' p'" "keeps p p'" "adds_one p p'"
      "same_world w w'" "conn_ok c' (entries (Conn i) p') (tids x (Conn i) p')" by (auto simp: others_tick same_world_def)
  then have "i < length (w_conns w')" using w(2) by (simp add: same_world_def)
  from others_put_conn [OF r(2) this r(6)] r(1,3,4,5) w(2) show ?thesis by (auto simp: with_conn_def same_world_def)
qed

lemma conn_event_ok:
  assumes "io_good n w p" "entries (Conn i) p \<noteq> {}"
  shows "\<exists>w' p'. with_conn i (cn_out_event i) w p = Some (w', p', False) \<and> io_good n w' p' \<and> keeps p p'"
proof -
  have i: "i < length (w_conns w)" and c: "conn_ok (w_conns w ! i) (entries (Conn i) p) (tids None (Conn i) p)"
    using assms by (auto simp: io_good_def dest: spec [of _ "Conn i"] split: if_splits)
  then have "entries (Conn i) p = {(cn_handle (w_conns w ! i), cn_s (w_conns w ! i))}" "tids None (Conn i) p = []"
    "\<not> cn_timer_started (w_conns w ! i)" "ivl_ok (w_conns w ! i)" "\<not> cn_connected (w_conns w ! i)"
    using assms(2) by (auto simp: conn_ok_def split: if_splits)
  from with_conn_ok [OF good_others [OF assms(1)] i, of "cn_out_event i"] cn_out_event_ok [OF _ _ this] assms(1)
  show ?thesis by (auto simp: io_good_def)
qed

lemma eng_event_ok:
  assumes "io_good n w p" "entries (Eng j) p \<noteq> {}"
  shows "\<exists>w' p' b. with_eng j w p = Some (w', p', b) \<and> io_good n w' p' \<and> keeps p p'"
proof -
  have j: "j < length (w_engs w)" and en: "entries (Eng j) p = eng_entries (w_engs w ! j)" "tids None (Eng j) p = []"
    using assms by (auto simp: io_good_def eng_ok_def eng_entries_def dest: spec [of _ "Eng j"] split: if_splits)
  let ?w = "w\<lparr>w_tick := w_tick w + 1\<rparr>"
  have "others None {Eng j} ?w p" using good_others [OF assms(1)] by (simp add: others_tick)
  from eng_react_ok [OF this _ en(1), of "ev_engine (w_env w (w_tick w))"] obtain en' w' p' where
    r: "eng_react (ev_engine (w_env w (w_tick w))) (w_engs w ! j, ?w, p) = Some (en', w', p')" "others None {Eng j} w' p'" "keeps p p'"
      "p_timers p' = p_timers p" "entries (Eng j) p' = eng_entries en'" "same_world ?w w'" "w_engs w' = w_engs ?w" by blast
  let ?w' = "w'\<lparr>w_engs := (w_engs w')[j := en']\<rparr>"
  have "sink_ok None ?w' p' s" for s
  proof (cases "s = Eng j")
    case True
    have "tids None (Eng j) p' = []" using en(2) r(4) by (simp add: tids_def)
    with True j r(5,7) show ?thesis by (simp add: eng_ok_def eng_entries_def)
  next
    case False
    then have "sink_ok None w' p' s" using r(2) by (simp add: others_def)
    with False show ?thesis by (cases s) auto
  qed
  moreover have "base_ok None ?w' p'" using r(2) by (simp add: others_def base_ok_def)
  ultimately show ?thesis using r(1,3,6) j assms(1) by (auto simp: with_eng_def io_good_def same_world_def)
qed

lemma lst_event_ok:
  assumes "io_good n w p" "entries (Lst i) p \<noteq> {}"
  shows "\<exists>w' p' b. with_lst i w p = Some (w', p', b) \<and> io_good n w' p' \<and> keeps p p'"
proof -
  have i: "i < length (w_lsts w)" and l: "lst_ok (w_lsts w ! i) (entries (Lst i) p) (tids None (Lst i) p)"
    using assms by (auto simp: io_good_def dest: spec [of _ "Lst i"] split: if_splits)
  let ?w = "w\<lparr>w_tick := w_tick w + 1\<rparr>" and ?e = "w_env w (w_tick w)" and ?l = "w_lsts w ! i"
  have s: "ls_s ?l \<noteq> retired_fd" "\<forall>f\<in>set (o_tcp_accept_filters (ls_opt ?l)). addr_mask f \<noteq> -1"
  proof -
    have "(ls_handle ?l, ls_s ?l) \<in> entries (Lst i) p" using l by (simp add: lst_ok_def)
    then show "ls_s ?l \<noteq> retired_fd" by (auto simp: entries_def)
  qed (use l in \<open>simp add: lst_ok_def\<close>)
  have e: "env_ok ?e" "0 \<le> ev_worker ?e" "ev_worker ?e < int (ls_num_out ?l)" using assms(1) nth_mem [OF i] by (auto simp: io_good_def base_ok_def)
  have "others None {Lst i} ?w p" using good_others [OF assms(1)] by (simp add: others_tick)
  from ls_in_event_ok [OF this e s] obtain w' p' where
    r: "ls_in_event ?e ?l (?w, p) = Some (w', p')" "others None {Lst i} w' p'" "keeps p p'" "p_timers p' = p_timers p"
      "entries (Lst i) p' = entries (Lst i) p" "same_world ?w w'" by blast
  have "tids None (Lst i) p' = tids None (Lst i) p" using r(4) by (simp add: tids_def)
  with others_put_lst [OF r(2)] i l r(5,6) have "sink_ok None w' p' s" for s by (simp add: same_world_def)
  then show ?thesis using r(1,2,3,6) i assms(1) by (auto simp: with_lst_def io_good_def others_def same_world_def)
qed

text \<open>A timer: it belongs to a connecter that has no entry and no other timer.\<close>

lemma timer_event_ok:
  assumes g: "io_good n w p" and t: "p_timers p = t # ts" "t_exp t \<le> p_now p"
  shows "\<exists>w' p' ts'. io_callback (Timer_event (t_sink t) (t_id t)) w p = Some (w', p', False) \<and> p_timers p' = t # ts' \<and>
    t_node t \<notin> t_node ` set ts' \<and> io_good n w' (erase_node (t_node t) p') \<and> keeps p p' \<and> adds_later p p'"
proof -
  let ?x = "Some (t_node t)"
  have inv: "poll_inv p" using g by (simp add: io_good_def base_ok_def)
  have nt: "t_node t \<notin> t_node ` set ts" "t_node t < p_next p" using inv t(1) by (auto simp: poll_inv_def timers_ok_def)
  have nn: "y \<in> set ts \<Longrightarrow> t_node y \<noteq> t_node t" for y using nt(1) by (metis imageI)
  have tid: "tids None (t_sink t) p = t_id t # tids ?x (t_sink t) p" using t(1) nn
    by (auto simp: tids_def intro!: arg_cong [where f = "map t_id"] filter_cong)
  have "sink_ok None w p (t_sink t)" using g by (simp add: io_good_def)
  with tid obtain i where i: "t_sink t = Conn i" "i < length (w_conns w)" "conn_ok (w_conns w ! i) (entries (Conn i) p) (tids None (Conn i) p)"
    by (cases "t_sink t") (auto simp: eng_ok_def lst_ok_def split: if_splits)
  then have c: "t_id t = reconnect_timer_id" "tids ?x (Conn i) p = []" "entries (Conn i) p = {}" "cn_s (w_conns w ! i) = retired_fd"
    "\<not> cn_handle_valid (w_conns w ! i)" "ivl_ok (w_conns w ! i)" "\<not> cn_connected (w_conns w ! i)"
    using tid by (auto simp: conn_ok_def split: if_splits)
  have oth: "others ?x {Conn i} w p"
  proof -
    have "tids ?x s p = tids None s p" if "s \<noteq> Conn i" for s using that i(1) t(1) nn
      by (auto simp: tids_def intro!: arg_cong [where f = "map t_id"] filter_cong)
    then have "sink_ok ?x w p s" if "s \<noteq> Conn i" for s using that g by (cases s) (auto simp: io_good_def dest: spec [of _ s])
    moreover have "base_ok ?x w p" using g nt(2) by (simp add: io_good_def base_ok_def)
    ultimately show ?thesis by (simp add: others_def)
  qed
  let ?f = "\<lambda>e. cn_timer_event i e (t_id t)"
  from with_conn_ok [OF oth i(2), of ?f] start_connecting_ok [of ?x i _ p "w_env w (w_tick w)" "(w_conns w ! i)\<lparr>cn_timer_started := False\<rparr>"] c
  obtain w' p' where r: "with_conn i ?f w p = Some (w', p', False)" "base_ok ?x w' p'" "\<forall>s. sink_ok ?x w' p' s" "keeps p p'" "adds_one p p'" "length (w_conns w') = length (w_conns w)" "w_lsts w' = w_lsts w"
    by (auto simp: cn_timer_event_def ivl_ok_def)
  obtain ts' where ts': "p_timers p' = t # ts'" "t_node t \<notin> t_node ` set ts'" "\<forall>y\<in>set ts'. y \<in> set ts \<or> p_now p < t_exp y"
  proof (cases "p_timers p' = p_timers p")
    case False
    with r(5) obtain y where y: "p_timers p' = timers_insert y (t # ts)" "p_now p < t_exp y" "t_node y \<notin> t_node ` set (t # ts)"
      by (auto simp: adds_one_def t(1))
    then have "p_timers p' = t # timers_insert y ts" using t(2) by (simp add: timers_insert_head)
    with y(2,3) nt(1) show ?thesis by (intro that [of "timers_insert y ts"]) auto
  qed (use t(1) nt(1) that [of ts] in auto)
  let ?p = "erase_node (t_node t) p'"
  have ent: "entries s ?p = entries s p'" for s by (intro entries_cong) (simp add: erase_node_def)
  have tds: "tids None s ?p = tids ?x s p'" for s
    by (auto simp: tids_def erase_node_def intro!: arg_cong [where f = "map t_id"] filter_cong)
  have "sink_ok None w' ?p s" for s using r(3) by (cases s) (auto simp: ent tds dest: spec [of _ s])
  moreover have "base_ok None w' ?p" using r(2) erase_node_inv by (auto simp: base_ok_def ent outs_ok_def) (simp_all add: erase_node_def)
  ultimately have "io_good n w' ?p" using g r(6,7) by (simp add: io_good_def)
  moreover have "adds_later p p'" using ts' t(1) by (auto simp: adds_later_def)
  ultimately show ?thesis using r(1,4) ts'(1,2) i(1) by simp
qed

interpretation io: poll_clients io_callback "io_good n" wants_out for n
proof unfold_locales
  fix w p s assume g: "io_good n w p"
  show "poll_inv p" using g by (simp add: io_good_def base_ok_def)
  assume "registered s p"
  then have r: "entries s p \<noteq> {}" by (simp add: registered_entries)
  show "\<exists>w' p' b. io_callback (In_event s) w p = Some (w', p', b) \<and> io_good n w' p' \<and> keeps p p'"
  proof (cases s)
    case (Conn i)
    then show ?thesis using conn_event_ok [OF g, of i] r by auto
  next
    case (Eng j)
    then show ?thesis using eng_event_ok [OF g, of j] r by simp
  next
    case (Lst i)
    then show ?thesis using lst_event_ok [OF g, of i] r by simp
  qed
  show "\<exists>w' p' b. io_callback (Out_event s) w p = Some (w', p', b) \<and> io_good n w' p' \<and> keeps p p'" if "wants_out s"
    using that
  proof (cases s)
    case (Conn i)
    then show ?thesis using conn_event_ok [OF g, of i] r by auto
  next
    case (Eng j)
    then show ?thesis using eng_event_ok [OF g, of j] r by simp
  qed simp
next
  fix w p h e assume "io_good n w p" "deref h p = Some e" "and (pe_events e) EPOLLOUT \<noteq> 0"
  then show "wants_out (pe_sink e)" by (simp add: io_good_def base_ok_def outs_ok_def)
next
  fix w p t ts assume "io_good n w p" "p_timers p = t # ts" "t_exp t \<le> p_now p"
  from timer_event_ok [OF this]
  show "\<exists>w' p' b ts'. io_callback (Timer_event (t_sink t) (t_id t)) w p = Some (w', p', b) \<and> p_timers p' = t # ts' \<and>
      t_node t \<notin> t_node ` set ts' \<and> io_good n w' (erase_node (t_node t) p') \<and> keeps p p' \<and> adds_later p p'" by blast
next
  fix w p and now :: u64 assume g: "io_good n w p" "now < 2 ^ 63"
  have "entries s (p\<lparr>p_now := now\<rparr>) = entries s p" "tids None s (p\<lparr>p_now := now\<rparr>) = tids None s p" for s
    by (simp_all add: entries_def tids_def)
  moreover have "poll_inv (p\<lparr>p_now := now\<rparr>) = poll_inv p" by (simp add: poll_inv_def timers_ok_def)
  moreover have "sink_ok None w (p\<lparr>p_now := now\<rparr>) s = sink_ok None w p s" for s by (cases s) (simp_all add: calculation(1,2))
  ultimately show "io_good n w (p\<lparr>p_now := now\<rparr>)" using g by (simp add: io_good_def base_ok_def outs_ok_def)
next
  fix w p b assume g: "io_good n w p"
  have "entries s (p\<lparr>p_stopping := b\<rparr>) = entries s p" "tids None s (p\<lparr>p_stopping := b\<rparr>) = tids None s p" for s
    by (simp_all add: entries_def tids_def)
  moreover have "poll_inv (p\<lparr>p_stopping := b\<rparr>) = poll_inv p" by (simp add: poll_inv_def timers_ok_def)
  moreover have "sink_ok None w (p\<lparr>p_stopping := b\<rparr>) s = sink_ok None w p s" for s by (cases s) (simp_all add: calculation(1,2))
  ultimately show "io_good n w (p\<lparr>p_stopping := b\<rparr>)" using g by (simp add: io_good_def base_ok_def outs_ok_def)
next
  fix w p p' assume g: "io_good n w p" and f: "free_retired p = Some p'"
  have "poll_inv p" using g by (simp add: io_good_def base_ok_def)
  from free_retired_ok [OF this] f have p': "poll_inv p'" "p_timers p' = p_timers p" "p_now p' = p_now p"
    "\<forall>k. deref k p' = (case deref k p of None \<Rightarrow> None | Some e \<Rightarrow> if pe_fd e = retired_fd then None else Some e)" by auto
  have "entries s p' = entries s p" for s using p'(4) by (auto simp: entries_def split: option.splits if_splits)
  moreover have "tids None s p' = tids None s p" for s using p'(2) by (simp add: tids_def)
  moreover have "sink_ok None w p' s = sink_ok None w p s" for s by (cases s) (simp_all add: calculation)
  moreover have "outs_ok p'" if "outs_ok p" using that p'(4) by (auto simp: outs_ok_def split: option.splits if_splits)
  ultimately show "io_good n w p'" using g p' by (simp add: io_good_def base_ok_def)
qed

lemma dt_Connect_ok:
  assumes g: "io_good (n, ls) w p" and addr: "parse_uri addr = Some (''tcp'', a)" "\<not> isl (tcp_resolve (resolve_hostname gai) a (o_ipv6 opt))" and opt: "ivl_ok (tcp_connecter_t worker_id opt False)"
  shows "\<exists>w' p'. dt_Connect gai worker_id opt addr (w, p) = Some (w', p') \<and> io_good (Suc n, ls) w' p'"
proof -
  let ?i = "length (w_conns w)" and ?c = "tcp_connecter_t worker_id opt False" and ?w = "w\<lparr>w_tick := w_tick w + 1\<rparr>"
  have none: "entries (Conn ?i) p = {}" "tids None (Conn ?i) p = []" using g by (auto simp: io_good_def dest: spec [of _ "Conn ?i"])
  have e: "env_ok (w_env w (w_tick w))" using g by (simp add: io_good_def base_ok_def)
  have "others None {Conn ?i} ?w p" using good_others [OF g] by (simp add: others_tick)
  from start_connecting_ok [OF this e none, of ?c] opt obtain c' w' p' where
    r: "start_connecting ?i (w_env w (w_tick w)) (?c, ?w, p) = Some (c', w', p')" "others None {Conn ?i} w' p'"
      "same_world ?w w'" "conn_ok c' (entries (Conn ?i) p') (tids None (Conn ?i) p')" by (auto simp: tcp_connecter_t_def)
  let ?w' = "w'\<lparr>w_conns := w_conns w' @ [c']\<rparr>"
  have len: "length (w_conns w') = ?i" using r(3) by (simp add: same_world_def)
  have "sink_ok None ?w' p' s" for s
  proof (cases "s = Conn ?i")
    case True
    then show ?thesis using r(4) len by (simp add: nth_append)
  next
    case False
    then have "sink_ok None w' p' s" using r(2) by (simp add: others_def)
    with False len show ?thesis by (cases s) (auto simp: nth_append split: if_splits)
  qed
  moreover have "base_ok None ?w' p'" using r(2) by (simp add: others_def base_ok_def)
  ultimately have "io_good (Suc n, ls) ?w' p'" using len g r(3) by (simp add: io_good_def same_world_def)
  then show ?thesis using r(1,3) addr by (simp add: dt_Connect_def check_protocol_def same_world_def)
qed

lemma dt_init_ok:
  assumes "io_good (n, ls) w p" "\<forall>addr\<in>set addrs. \<exists>a. parse_uri addr = Some (''tcp'', a) \<and> \<not> isl (tcp_resolve (resolve_hostname gai) a (o_ipv6 opt))" "ivl_ok (tcp_connecter_t worker_id opt False)"
  shows "\<exists>w' p'. dt_connect_all gai worker_id opt addrs (w, p) = Some (w', p') \<and> io_good (n + length addrs, ls) w' p'"
  using assms
proof (induction addrs arbitrary: n w p)
  case (Cons addr addrs)
  from Cons.prems(2) obtain a where "parse_uri addr = Some (''tcp'', a)" "\<not> isl (tcp_resolve (resolve_hostname gai) a (o_ipv6 opt))" by auto
  from dt_Connect_ok [where gai = gai, OF Cons.prems(1) this Cons.prems(3)] obtain w1 p1 where
    1: "dt_Connect gai worker_id opt addr (w, p) = Some (w1, p1)" "io_good (Suc n, ls) w1 p1" by blast
  from Cons.IH [OF 1(2) _ Cons.prems(3)] Cons.prems(2) 1(1) show ?case by auto
qed simp

lemma io_good_start:
  assumes "\<forall>n. env_ok (E n)" "now < 2 ^ 63"
  shows "io_good (0, []) (empty_world fds E) (epoll_t now)"
proof -
  have e: "entries s (epoll_t now) = {}" "tids None s (epoll_t now) = []" for s :: sink by (simp_all add: entries_def tids_def epoll_t_def deref_def)
  have "sink_ok None (empty_world fds E) (epoll_t now) s" for s by (cases s) (simp_all add: e empty_world_def)
  then show ?thesis using assms e epoll_t_inv by (simp add: io_good_def base_ok_def empty_world_def) (simp add: epoll_t_def outs_ok_def deref_def)
qed

text \<open>The listener of an up thread registers its descriptor.\<close>

lemma ut_init_ok:
  assumes E: "\<forall>n. env_ok (E n) \<and> 0 \<le> ev_worker (E n) \<and> ev_worker (E n) < int num" "now < 2 ^ 63"
    and addr: "parse_uri listen_addr = Some (''tcp'', a)" "tcp_resolve (resolve_interface nics gai) a (o_ipv6 opt) = Inr sa"
    and e: "le_socket e = 0" "le_errno e \<noteq> EAFNOSUPPORT" "le_bind e = 0" "le_listen e = 0"
    and opt: "\<forall>f\<in>set (o_tcp_accept_filters opt). addr_mask f \<noteq> -1"
  shows "\<exists>w p l. ut_ThreadInitHandler nics gai opt num listen_addr e now (empty_world fds E) = Some (w, p) \<and> io_good (0, [l]) w p \<and>
    ls_s l = new_fd fds"
proof -
  let ?fd = "new_fd fds" and ?start = "empty_world fds E" and ?poller = "epoll_t now :: sink poller"
  let ?w = "?start\<lparr>w_open := ?fd # fds\<rparr>" and ?l = "(tcp_listener_t num opt)\<lparr>ls_s := ?fd\<rparr>"
  have w0: "w_open ?start = fds" "w_lsts ?start = []" "w_lsts ?w = []" "w_env ?w = E" "w_conns ?w = []" by (simp_all add: empty_world_def)
  have "\<forall>n. env_ok (E n)" using E(1) by blast
  from others_open [OF good_others [OF io_good_start [OF this E(2), of fds], of "{Lst 0}"], of ?fd] w0(1)
  have o: "others None {Lst 0} ?w ?poller" "p_set ?poller ?fd = None" "0 \<le> ?fd" "?fd \<noteq> retired_fd" by simp_all
  have "entries (Lst 0) ?poller = {}" by (simp add: entries_def epoll_t_def deref_def)
  from ls_set_poller_ok [of None 0 ?w ?poller ?l, OF o(1) _ _ _ this] o(2,3) obtain h p where
    p: "ls_set_poller 0 (?l, ?poller) = Some (?l\<lparr>ls_handle := h\<rparr>, p)" "others None {Lst 0} ?w p" "p_timers p = p_timers ?poller" "entries (Lst 0) p = {(h, ?fd)}"
    by auto
  let ?lst = "?l\<lparr>ls_handle := h\<rparr>"
  let ?world = "?w\<lparr>w_lsts := [?lst]\<rparr>"
  have "sink_ok None ?world p s" for s
  proof (cases "s = Lst 0")
    case True
    have "tids None (Lst 0) p = []" using p(3) by (simp add: tids_def epoll_t_def)
    with True p(4) opt show ?thesis by (simp add: lst_ok_def tcp_listener_t_def)
  next
    case False
    then have "sink_ok None ?w p s" using p(2) by (simp add: others_def)
    with False w0(3) show ?thesis by (cases s) auto
  qed
  moreover have "base_ok None ?world p" using p(2) E(1) w0(4) by (simp add: others_def base_ok_def tcp_listener_t_def)
  ultimately have "io_good (0, [?lst]) ?world p" using w0(5) by (simp add: io_good_def)
  moreover have "set_address (resolve_interface nics gai) e a (tcp_listener_t num opt, ?start) = Some ((?l, ?w), 0)"
    using set_address_ok [of "resolve_interface nics gai" a "tcp_listener_t num opt" sa e ?start] addr(2) e w0(1) by (simp add: tcp_listener_t_def)
  ultimately show ?thesis using addr(1) p(1) w0(2,3)
    by (intro exI [of _ ?world] exI [of _ p] exI [of _ ?lst]) (simp add: ut_ThreadInitHandler_def check_protocol_def)
qed

section \<open>Properties\<close>


text \<open>A connection that is refused first and then made.\<close>

definition refused_env :: "nat \<Rightarrow> env" where
  "refused_env n = \<lparr>ev_socket = 0, ev_connect = EINPROGRESS, ev_soerr = (if n = 1 then 111 else 0), ev_random = 7, ev_sends = [4],
     ev_engine = [Set_in, Set_out], ev_stop = False, ev_accept = 0, ev_peer = any_addr False, ev_recvs = [4], ev_worker = 0\<rparr>"

definition local_gai :: "string \<Rightarrow> bool \<Rightarrow> gai_error + sockaddr" where
  "local_gai host ip6 = Inr (any_addr ip6)"



text \<open>Two connections, the first of which is aborted.\<close>

definition aborted_env :: "nat \<Rightarrow> env" where
  "aborted_env n = \<lparr>ev_socket = 0, ev_connect = 0, ev_soerr = 0, ev_random = 7, ev_sends = [4], ev_engine = [Set_in, Set_out], ev_stop = False,
     ev_accept = (if n = 0 then 103 else 0), ev_peer = any_addr False, ev_recvs = [4], ev_worker = 0\<rparr>"

definition listen_env0 :: listen_env where
  "listen_env0 = \<lparr>le_errno = 0, le_socket = 0, le_socket2 = 0, le_bind = 0, le_listen = 0\<rparr>"


end
