(* ===== verification/Start_Up.thy ===== *)
theory Start_Up
  imports C_Text "HOL-Library.Monad_Syntax"
begin

text \<open>
  What happens before the threads of a worker run: the configuration (\<open>src/config.cpp\<close>, \<open>src/config.hpp\<close>), the programs that build a worker
  from it (\<open>apps/count_min/cm_worker.cpp\<close>, \<open>merge_worker.cpp\<close>) and the part of \<open>Worker::Start\<close> (\<open>src/thread/worker.hpp\<close>) that numbers the threads and
  assigns processors to them. The parser of ini files is a library; its functions are a parameter. The result \<open>None\<close> is an access outside of an array
  or through a null or wild pointer.

  Proved: under which name a parameter is looked up, which depends on memory the constructor does not initialise; which thread gets which processor
  (the last compute thread of the list gets none); and that threads have a number of their own before they are created.
\<close>

section \<open>Configuration\<close>

definition MAX_LINE_SIZE :: nat where "MAX_LINE_SIZE = 1024"

text \<open>A dictionary pointer that was never assigned is \<open>Wild\<close>.\<close>

datatype 'd dict_ptr = Wild | Ptr "'d option"

record 'd config =
  cf_dict :: "'d dict_ptr"
  cf_section_name :: bytes

record 'd ini =
  ini_load :: "bytes \<Rightarrow> 'd option"
  ini_getstring :: "'d option \<Rightarrow> bytes \<Rightarrow> bytes option \<Rightarrow> bytes option"
  ini_getint :: "'d option \<Rightarrow> bytes \<Rightarrow> int \<Rightarrow> int"
  ini_getdouble :: "'d option \<Rightarrow> bytes \<Rightarrow> real \<Rightarrow> real"
  ini_getboolean :: "'d option \<Rightarrow> bytes \<Rightarrow> int \<Rightarrow> int"

definition strlen :: "bytes \<Rightarrow> nat option" where
  "strlen m = (if 0 \<in> set m then Some (length (cstr m)) else None)"

text \<open>The buffer has one byte for the terminating zero.\<close>

definition strconcat :: "bytes option \<Rightarrow> bytes option \<Rightarrow> bytes option option" where
  "strconcat a b =
     (case a of
        None \<Rightarrow> Some b
      | Some x \<Rightarrow>
          (case b of None \<Rightarrow> Some None | Some y \<Rightarrow> if length x + length y \<le> MAX_LINE_SIZE then Some (Some (x @ y)) else None))"

text \<open>\<open>mem\<close> is what the array \<open>section_name_\<close> holds when the object is allocated.\<close>

definition set_section :: "bytes \<Rightarrow> bytes \<Rightarrow> bytes option" where
  "set_section mem name =
     do { let m1 = blit mem 0 (name @ [0]);
          k \<leftarrow> strlen m1;
          let m2 = m1[k := 58];
          k' \<leftarrow> strlen m2;
          if k' + 1 < MAX_LINE_SIZE then Some (m2[k' + 1 := 0]) else None }"

definition Config :: "'d ini \<Rightarrow> bytes \<Rightarrow> bytes option \<Rightarrow> bytes \<Rightarrow> 'd config option" where
  "Config ini mem ininame section_name =
     (case ininame of
        None \<Rightarrow> Some \<lparr>cf_dict = Wild, cf_section_name = mem\<rparr>
      | Some f \<Rightarrow>
          (let d = ini_load ini f in
           if d = None \<or> MAX_LINE_SIZE < length section_name + 2 then Some \<lparr>cf_dict = Ptr d, cf_section_name = mem\<rparr>
           else do { m \<leftarrow> set_section mem section_name; Some \<lparr>cf_dict = Ptr d, cf_section_name = m\<rparr> }))"

definition getInstance :: "'d ini \<Rightarrow> bytes \<Rightarrow> bytes option \<Rightarrow> bytes \<Rightarrow> 'd config option \<Rightarrow> 'd config option" where
  "getInstance ini mem ininame section_name instance' =
     (case instance' of None \<Rightarrow> Config ini mem ininame section_name | Some c \<Rightarrow> Some c)"

definition lookup_key :: "('d option \<Rightarrow> bytes \<Rightarrow> 'v \<Rightarrow> 'v) \<Rightarrow> 'd config \<Rightarrow> bytes \<Rightarrow> 'v \<Rightarrow> 'v option" where
  "lookup_key f c key notfound =
     do { strlen (cf_section_name c);
          k \<leftarrow> strconcat (Some (cstr (cf_section_name c))) (Some key);
          case cf_dict c of Wild \<Rightarrow> None | Ptr d \<Rightarrow> map_option (\<lambda>x. f d x notfound) k }"

definition getstring :: "'d ini \<Rightarrow> 'd config \<Rightarrow> bytes \<Rightarrow> bytes option \<Rightarrow> bytes option option" where
  "getstring ini = lookup_key (ini_getstring ini)"

definition getint :: "'d ini \<Rightarrow> 'd config \<Rightarrow> bytes \<Rightarrow> int \<Rightarrow> int option" where
  "getint ini = lookup_key (ini_getint ini)"

definition getdouble :: "'d ini \<Rightarrow> 'd config \<Rightarrow> bytes \<Rightarrow> real \<Rightarrow> real option" where
  "getdouble ini = lookup_key (ini_getdouble ini)"

definition getboolean :: "'d ini \<Rightarrow> 'd config \<Rightarrow> bytes \<Rightarrow> int \<Rightarrow> int option" where
  "getboolean ini = lookup_key (ini_getboolean ini)"

definition get_ull :: "'d ini \<Rightarrow> 'd config \<Rightarrow> bytes \<Rightarrow> u64 \<Rightarrow> u64 option" where
  "get_ull ini c key notfound =
     do { s \<leftarrow> getstring ini c key None; Some (case s of None \<Rightarrow> notfound | Some t \<Rightarrow> strtoull t) }"

text \<open>The colon takes the place of the zero \<open>strcpy\<close> wrote, so the second \<open>strlen\<close> continues in the uninitialised rest of the array.\<close>

lemma set_section_string:
  assumes "length mem = MAX_LINE_SIZE" "0 \<notin> set name" "length name + 2 \<le> MAX_LINE_SIZE"
    and g: "g = cstr (drop (length name + 1) mem)" "length name + length g + 2 < MAX_LINE_SIZE"
  shows "\<exists>m. set_section mem name = Some m \<and> 0 \<in> set m \<and> cstr m = name @ 58 # g"
proof -
  let ?r = "drop (length name + 1) mem"
  have m1: "blit mem 0 (name @ [0]) = name @ 0 # ?r" using assms(1,3) by (simp add: blit_eq)
  have z: "0 \<in> set ?r"
  proof (rule ccontr)
    assume "0 \<notin> set ?r"
    then have "g = ?r" unfolding g(1) cstr_def by (auto intro!: takeWhile_eq_all_conv [THEN iffD2])
    then have "length name + length g + 1 = MAX_LINE_SIZE" using assms(1,3) by simp
    with g(2) show False by linarith
  qed
  then obtain r' where r': "?r = g @ 0 # r'" unfolding g(1) using cstr_split by blast
  have g0: "0 \<notin> set g" unfolding g(1) by (rule cstr_no_zero)
  let ?m2 = "(name @ 58 # g) @ 0 # r'"
  have s1: "strlen (name @ 0 # ?r) = Some (length name)" using assms(2) by (simp add: strlen_def)
  have u: "(name @ 0 # ?r)[length name := 58] = ?m2" using r' by (simp add: list_update_append)
  have n0: "0 \<notin> set (name @ 58 # g)" using assms(2) g0 by simp
  have s2: "strlen ?m2 = Some (length name + 1 + length g)" using cstr_terminated [OF n0] by (simp add: strlen_def)
  have "set_section mem name = Some (?m2[length name + 1 + length g + 1 := 0])"
    unfolding set_section_def m1 Let_def s1 Option.bind.bind_lunit u s2 using g(2) by simp
  moreover have "?m2[length name + 1 + length g + 1 := 0] = (name @ 58 # g) @ 0 # r'[0 := 0]"
    by (simp add: list_update_append split: nat.split)
  ultimately show ?thesis using cstr_terminated [OF n0] by (metis in_set_conv_decomp)
qed


text \<open>Looking up a parameter of a section.\<close>

lemma lookup_key_section:
  assumes "length mem = MAX_LINE_SIZE" "0 \<notin> set name" "length name + 2 \<le> MAX_LINE_SIZE" "ini_load ini f = Some d"
    and g: "g = cstr (drop (length name + 1) mem)" "length name + length g + 2 < MAX_LINE_SIZE"
  shows "\<exists>c. Config ini mem (Some f) name = Some c \<and>
    (\<forall>(get :: 'd option \<Rightarrow> bytes \<Rightarrow> 'v \<Rightarrow> 'v) key notfound. length name + 1 + length g + length key \<le> MAX_LINE_SIZE \<longrightarrow>
      lookup_key get c key notfound = Some (get (Some d) (name @ 58 # g @ key) notfound))"
proof -
  from set_section_string [OF assms(1-3) g] obtain m where m: "set_section mem name = Some m" "0 \<in> set m" "cstr m = name @ 58 # g" by blast
  let ?c = "\<lparr>cf_dict = Ptr (Some d), cf_section_name = m\<rparr>"
  have "Config ini mem (Some f) name = Some ?c" using assms(3,4) m(1) by (simp add: Config_def Let_def)
  moreover have "lookup_key get ?c key notfound = Some (get (Some d) (name @ 58 # g @ key) notfound)"
    if "length name + 1 + length g + length key \<le> MAX_LINE_SIZE" for get :: "'d option \<Rightarrow> bytes \<Rightarrow> 'v \<Rightarrow> 'v" and key notfound
    using that m(2,3) by (simp add: lookup_key_def strlen_def strconcat_def)
  ultimately show ?thesis by blast
qed

section \<open>Building a worker\<close>

record thr =
  th_wid :: int
  th_tid :: int
  th_cpu :: int

definition new_thr :: thr where "new_thr = \<lparr>th_wid = -1, th_tid = -1, th_cpu = -1\<rparr>"

text \<open>\<open>wk_pinned\<close> is the processor the main thread is pinned to.\<close>

record wk =
  wk_id :: int
  wk_num :: int
  wk_compute :: "thr list"
  wk_up :: "thr option"
  wk_down :: "thr option"
  wk_pinned :: "int option"

definition mk_Worker :: "int \<Rightarrow> int \<Rightarrow> wk" where
  "mk_Worker id' n = \<lparr>wk_id = id', wk_num = n, wk_compute = [], wk_up = None, wk_down = None, wk_pinned = None\<rparr>"

definition AddUpThread :: "thr \<Rightarrow> wk \<Rightarrow> wk" where "AddUpThread t w = w\<lparr>wk_up := Some t\<rparr>"

definition AddDownThread :: "thr \<Rightarrow> wk \<Rightarrow> wk" where "AddDownThread t w = w\<lparr>wk_down := Some t\<rparr>"

definition AddComputeThread :: "thr \<Rightarrow> wk \<Rightarrow> wk" where "AddComputeThread t w = w\<lparr>wk_compute := wk_compute w @ [t]\<rparr>"

text \<open>How a program ends before the worker starts, or what it starts: the worker, the addresses it connects to or listens at, and the recovery flag.\<close>

datatype 'a outcome = Exit int | Abort | Run 'a

text \<open>\<open>sprintf (tmp, "%d", i)\<close> with ten bytes for \<open>tmp\<close>\<close>

fun downstream_addrs :: "'d ini \<Rightarrow> 'd config \<Rightarrow> nat \<Rightarrow> bytes option list option" where
  "downstream_addrs ini c 0 = Some []"
| "downstream_addrs ini c (Suc i) =
     do { as \<leftarrow> downstream_addrs ini c i;
          a \<leftarrow> (if length (decimal i) < 10 then getstring ini c (ascii ''downstream_addr'' @ decimal i) None else None);
          Some (as @ [a]) }"

definition cm_main :: "'d ini \<Rightarrow> bytes \<Rightarrow> bytes list \<Rightarrow> (wk \<times> bytes option list \<times> int) outcome option" where
  "cm_main ini mem argv =
     (if length argv \<noteq> 4 then Some (Exit (-1))
      else do { c \<leftarrow> getInstance ini mem (Some (argv ! 1)) (argv ! 2) None;
                n \<leftarrow> getint ini c (ascii ''num_compute_threads'') 0;
                if n = 0 then Some (Exit (-1))
                else do { id' \<leftarrow> getint ini c (ascii ''worker_id'') (-1);
                          if id' < 0 then Some Abort
                          else do { let w1 = AddUpThread new_thr (mk_Worker id' n);
                                    nd \<leftarrow> getint ini c (ascii ''num_downstreams'') 0;
                                    let w2 = (AddComputeThread new_thr ^^ nat n) w1;
                                    if nd = 0 then Some (Run (w2, [], atoi (argv ! 3)))
                                    else do { as \<leftarrow> downstream_addrs ini c (nat nd);
                                              Some (Run (AddDownThread new_thr w2, as, atoi (argv ! 3))) } } } })"

definition merge_main :: "'d ini \<Rightarrow> bytes \<Rightarrow> bytes list \<Rightarrow> (wk \<times> bytes option list \<times> int) outcome option" where
  "merge_main ini mem argv =
     (if length argv \<noteq> 4 then Some (Exit (-1))
      else do { c \<leftarrow> getInstance ini mem (Some (argv ! 1)) (argv ! 2) None;
                n \<leftarrow> getint ini c (ascii ''num_compute_threads'') 0;
                if n = 0 then Some (Exit (-1))
                else do { id' \<leftarrow> getint ini c (ascii ''worker_id'') (-1);
                          if id' < 0 then Some Abort
                          else do { a \<leftarrow> getstring ini c (ascii ''listen_addr'') None;
                                    if a = None then Some (Exit (-1))
                                    else do { num_in \<leftarrow> getint ini c (ascii ''num_upstreams'') 0;
                                              let w1 = AddUpThread new_thr (mk_Worker id' n);
                                              Some (Run ((AddComputeThread new_thr ^^ nat n) w1, [a], atoi (argv ! 3))) } } } })"

section \<open>Numbers and processors of the threads\<close>

text \<open>\<open>strtok\<close> until there is no token.\<close>

function tokens :: "u8 \<Rightarrow> bytes \<Rightarrow> bytes list" where
  "tokens d s =
     (let s1 = dropWhile (\<lambda>b. b = d) s in
      if s1 = [] then [] else takeWhile (\<lambda>b. b \<noteq> d) s1 # tokens d (dropWhile (\<lambda>b. b \<noteq> d) s1))"
  by auto

termination
proof (relation "measure (\<lambda>(d, s). length s)")
  fix d s and s1 :: bytes
  assume s1: "s1 = dropWhile (\<lambda>b. b = d) s" "s1 \<noteq> []"
  obtain x xs where x: "s1 = x # xs" using s1(2) by (cases s1) auto
  have "x \<noteq> d" using hd_dropWhile [of "\<lambda>b. b = d" s] s1 x by (metis list.sel(1))
  then have "length (dropWhile (\<lambda>b. b \<noteq> d) s1) < length s1" using length_dropWhile_le [of "\<lambda>b. b \<noteq> d" xs] by (simp add: x)
  also have "\<dots> \<le> length s" unfolding s1(1) by (rule length_dropWhile_le)
  finally show "((d, dropWhile (\<lambda>b. b \<noteq> d) s1), (d, s)) \<in> measure (\<lambda>(d, s). length s)" by simp
qed simp

declare tokens.simps [simp del]

text \<open>The loop over the commas of the second token; \<open>s\<close> is the rest from \<open>start\<close> on.\<close>

function cpu_loop :: "bytes \<Rightarrow> nat \<Rightarrow> thr list \<Rightarrow> thr list option" where
  "cpu_loop s index ts =
     (if 44 \<notin> set s then Some ts
      else if index < length ts
      then cpu_loop (tl (dropWhile (\<lambda>b. b \<noteq> 44) s)) (index + 1) (ts[index := (ts ! index)\<lparr>th_cpu := atoi (takeWhile (\<lambda>b. b \<noteq> 44) s)\<rparr>])
      else None)"
  by auto

termination
proof (relation "measure (\<lambda>(s, index, ts). length s)")
  fix s :: bytes and index :: nat and ts :: "thr list"
  assume "\<not> 44 \<notin> set s"
  then have "dropWhile (\<lambda>b. b \<noteq> 44) s \<noteq> []" by (auto simp: dropWhile_eq_Nil_conv)
  then have "length (tl (dropWhile (\<lambda>b. b \<noteq> 44) s)) < length s" using length_dropWhile_le [of "\<lambda>b. b \<noteq> 44" s]
    by (cases "dropWhile (\<lambda>b. b \<noteq> 44) s") auto
  then show "((tl (dropWhile (\<lambda>b. b \<noteq> 44) s), index + 1, ts[index := (ts ! index)\<lparr>th_cpu := atoi (takeWhile (\<lambda>b. b \<noteq> 44) s)\<rparr>]), s, index, ts)
      \<in> measure (\<lambda>(s, index, ts). length s)" by simp
qed simp

declare cpu_loop.simps [simp del]

definition ParseCPUAffinity :: "bytes \<Rightarrow> wk \<Rightarrow> wk option" where
  "ParseCPUAffinity str w =
     (let strings = tokens 59 str;
          size' = length strings;
          w1 = (if 0 < size' then w\<lparr>wk_pinned := Some (atoi (strings ! 0))\<rparr> else w)
      in do { w2 \<leftarrow> (if 1 < size' then map_option (\<lambda>ts. w1\<lparr>wk_compute := ts\<rparr>) (cpu_loop (strings ! 1) 0 (wk_compute w1)) else Some w1);
              w3 \<leftarrow> (if 2 < size' then map_option (\<lambda>t. w2\<lparr>wk_up := Some (t\<lparr>th_cpu := atoi (strings ! 2)\<rparr>)\<rparr>) (wk_up w2) else Some w2);
              if 3 < size' then map_option (\<lambda>t. w3\<lparr>wk_down := Some (t\<lparr>th_cpu := atoi (strings ! 3)\<rparr>)\<rparr>) (wk_down w3) else Some w3 })"

definition set_ids :: "wk \<Rightarrow> wk option" where
  "set_ids w =
     do { up \<leftarrow> wk_up w;
          if nat (wk_num w) \<le> length (wk_compute w)
          then Some (w\<lparr>wk_up := Some (up\<lparr>th_tid := wk_num w, th_wid := wk_id w\<rparr>),
                       wk_compute := map (\<lambda>i. if i < nat (wk_num w) then (wk_compute w ! i)\<lparr>th_tid := int i, th_wid := wk_id w\<rparr> else wk_compute w ! i) [0..<length (wk_compute w)],
                       wk_down := map_option (\<lambda>t. t\<lparr>th_tid := wk_num w + 1, th_wid := wk_id w\<rparr>) (wk_down w)\<rparr>)
          else None }"

definition start_up :: "'d ini \<Rightarrow> 'd config \<Rightarrow> wk \<Rightarrow> wk option" where
  "start_up ini c w =
     do { w1 \<leftarrow> set_ids w;
          cpu_affinity \<leftarrow> getstring ini c (ascii ''sys.cpu_affinity'') None;
          case cpu_affinity of None \<Rightarrow> Some w1 | Some s \<Rightarrow> ParseCPUAffinity s w1 }"

text \<open>\<open>thread_routine\<close> asserts that both numbers of its thread are set.\<close>

definition routine_ok :: "thr \<Rightarrow> bool" where
  "routine_ok t \<longleftrightarrow> th_wid t \<noteq> -1 \<and> th_tid t \<noteq> -1"

section \<open>Which thread gets which processor\<close>

lemma tokens_token:
  assumes "t \<noteq> []" "d \<notin> set t"
  shows "tokens d (t @ d # r) = t # tokens d r" "tokens d t = [t]"
proof -
  have "hd t \<noteq> d" using assms by (metis hd_in_set)
  then have dw: "dropWhile (\<lambda>b. b = d) (t @ x) = t @ x" for x using assms(1) by (cases t) simp_all
  have tw: "takeWhile (\<lambda>b. b \<noteq> d) (t @ d # r) = t" "dropWhile (\<lambda>b. b \<noteq> d) (t @ d # r) = d # r"
    using assms(2) by (auto simp: takeWhile_append dropWhile_append)
  have "tokens d (d # r) = tokens d r" by (simp add: tokens.simps [of d "d # r"] tokens.simps [of d r])
  then show "tokens d (t @ d # r) = t # tokens d r" using assms(1) by (subst tokens.simps) (simp add: dw tw)
  have e: "takeWhile (\<lambda>b. b \<noteq> d) t = t" "dropWhile (\<lambda>b. b \<noteq> d) t = []" using assms(2) by (auto simp: takeWhile_eq_all_conv dropWhile_eq_Nil_conv)
  have "tokens d (dropWhile (\<lambda>b. b \<noteq> d) t) = []" unfolding e(2) by (simp add: tokens.simps)
  then show "tokens d t = [t]" using assms(1) dw [of "[]"] e(1) by (subst tokens.simps) simp
qed

lemma cpu_loop_comma:
  assumes "44 \<notin> set t"
  shows "cpu_loop (t @ 44 # r) index ts =
    (if index < length ts then cpu_loop r (index + 1) (ts[index := (ts ! index)\<lparr>th_cpu := atoi t\<rparr>]) else None)" "cpu_loop t index ts = Some ts"
proof -
  have "takeWhile (\<lambda>b. b \<noteq> 44) (t @ 44 # r) = t" "dropWhile (\<lambda>b. b \<noteq> 44) (t @ 44 # r) = 44 # r"
    using assms by (auto simp: takeWhile_append dropWhile_append)
  then show "cpu_loop (t @ 44 # r) index ts =
      (if index < length ts then cpu_loop r (index + 1) (ts[index := (ts ! index)\<lparr>th_cpu := atoi t\<rparr>]) else None)"
    by (subst cpu_loop.simps) simp
  show "cpu_loop t index ts = Some ts" using assms by (subst cpu_loop.simps) simp
qed

fun cpu_list :: "nat list \<Rightarrow> bytes" where
  "cpu_list [] = []"
| "cpu_list [c] = decimal c"
| "cpu_list (c # cs) = decimal c @ 44 # cpu_list cs"

lemma decimal_no_punct: "44 \<notin> set (decimal n)" "59 \<notin> set (decimal n)" "decimal n \<noteq> []"
  using decimal_digits [of n] by (auto simp: list_all_iff is_digit_byte_def word_le_def)

lemma cpu_list_text: "59 \<notin> set (cpu_list cs)" "cs \<noteq> [] \<Longrightarrow> cpu_list cs \<noteq> []"
  by (induction cs rule: cpu_list.induct) (auto simp: decimal_no_punct)

lemma cpu_loop_list:
  assumes "cs \<noteq> []" "\<forall>c\<in>set cs. c < 2 ^ 31" "index + length cs \<le> length ts + 1"
  shows "\<exists>ts'. cpu_loop (cpu_list cs) index ts = Some ts' \<and> length ts' = length ts \<and>
    (\<forall>i<length ts. ts' ! i = (if index \<le> i \<and> i - index < length cs - 1 then (ts ! i)\<lparr>th_cpu := int (cs ! (i - index))\<rparr> else ts ! i))"
  using assms
proof (induction cs arbitrary: index ts rule: cpu_list.induct)
  case (2 c)
  then show ?case by (simp add: cpu_loop_comma(2) decimal_no_punct)
next
  case (3 c c' cs)
  let ?ts = "ts[index := (ts ! index)\<lparr>th_cpu := int c\<rparr>]"
  have idx: "index < length ts" using 3(4) by simp
  have "\<exists>ts'. cpu_loop (cpu_list (c' # cs)) (index + 1) ?ts = Some ts' \<and> length ts' = length ?ts \<and>
    (\<forall>i<length ?ts. ts' ! i = (if index + 1 \<le> i \<and> i - (index + 1) < length (c' # cs) - 1 then (?ts ! i)\<lparr>th_cpu := int ((c' # cs) ! (i - (index + 1)))\<rparr> else ?ts ! i))"
    using 3(3,4) by (intro 3(1)) auto
  then obtain ts' where ts': "cpu_loop (cpu_list (c' # cs)) (index + 1) ?ts = Some ts'" "length ts' = length ts"
    "\<And>i. i < length ts \<Longrightarrow> ts' ! i = (if index + 1 \<le> i \<and> i - (index + 1) < length cs then (?ts ! i)\<lparr>th_cpu := int ((c' # cs) ! (i - (index + 1)))\<rparr> else ?ts ! i)"
    by auto
  have "c < 2 ^ 31" using 3(3) by simp
  then have "cpu_loop (cpu_list (c # c' # cs)) index ts = Some ts'" using idx ts'(1) by (simp add: cpu_loop_comma(1) decimal_no_punct atoi_decimal(2))
  moreover have "ts' ! i = (if index \<le> i \<and> i - index < length (c # c' # cs) - 1 then (ts ! i)\<lparr>th_cpu := int ((c # c' # cs) ! (i - index))\<rparr> else ts ! i)"
    if i: "i < length ts" for i
  proof (cases "i \<le> index")
    case True
    then show ?thesis using ts'(3) [OF i] idx by (cases "i = index") simp_all
  next
    case False
    then have "i - index = Suc (i - (index + 1))" by simp
    then show ?thesis using False ts'(3) [OF i] by simp
  qed
  ultimately show ?case using ts'(2) by blast
qed simp

definition affinity_text :: "nat \<Rightarrow> nat list \<Rightarrow> nat \<Rightarrow> nat \<Rightarrow> bytes" where
  "affinity_text m cs u d = decimal m @ 59 # cpu_list cs @ 59 # decimal u @ 59 # decimal d"

lemma tokens_affinity: "cs \<noteq> [] \<Longrightarrow> tokens 59 (affinity_text m cs u d) = [decimal m, cpu_list cs, decimal u, decimal d]"
  by (simp add: affinity_text_def tokens_token decimal_no_punct cpu_list_text)

section \<open>Numbers\<close>

definition threads :: "wk \<Rightarrow> thr list" where
  "threads w = (case wk_up w of None \<Rightarrow> [] | Some t \<Rightarrow> [t]) @ wk_compute w @ (case wk_down w of None \<Rightarrow> [] | Some t \<Rightarrow> [t])"

definition built :: "wk \<Rightarrow> bool" where
  "built w \<longleftrightarrow> 0 \<le> wk_id w \<and> wk_up w \<noteq> None \<and> length (wk_compute w) = nat (wk_num w)"

abbreviation ids :: "thr \<Rightarrow> int \<times> int" where "ids t \<equiv> (th_wid t, th_tid t)"

lemma AddComputeThread_pow: "(AddComputeThread t ^^ n) w = w\<lparr>wk_compute := wk_compute w @ replicate n t\<rparr>"
  by (induction n) (simp_all add: AddComputeThread_def replicate_append_same)

lemma main_built:
  "cm_main ini mem argv = Some (Run (w, addrs, recovery)) \<Longrightarrow> built w"
  "merge_main ini mem argv = Some (Run (w, addrs, recovery)) \<Longrightarrow> built w"
  unfolding cm_main_def merge_main_def
  by (auto simp: built_def AddComputeThread_pow AddUpThread_def AddDownThread_def mk_Worker_def Let_def bind_eq_Some_conv split: if_splits)

lemma cpu_loop_ids: "cpu_loop s index ts = Some ts' \<Longrightarrow> map ids ts' = map ids ts"
proof (induction s index ts rule: cpu_loop.induct)
  case (1 s index ts)
  show ?case
  proof (cases "44 \<in> set s")
    case True
    then have i: "index < length ts" using 1(2) by (subst (asm) cpu_loop.simps) (simp split: if_splits)
    let ?ts = "ts[index := (ts ! index)\<lparr>th_cpu := atoi (takeWhile (\<lambda>b. b \<noteq> 44) s)\<rparr>]"
    have "map ids ?ts = map ids ts" using i by (intro nth_equalityI) (auto simp: nth_list_update)
    moreover have "cpu_loop (tl (dropWhile (\<lambda>b. b \<noteq> 44) s)) (index + 1) ?ts = Some ts'" using 1(2) True i
      by (subst (asm) cpu_loop.simps) simp
    ultimately show ?thesis using 1(1) [OF _ i] True by simp
  next
    case False
    then show ?thesis using 1(2) by (subst (asm) cpu_loop.simps) simp
  qed
qed

lemma ParseCPUAffinity_ids: "ParseCPUAffinity s w = Some w' \<Longrightarrow> map ids (threads w') = map ids (threads w) \<and> wk_id w' = wk_id w"
  unfolding ParseCPUAffinity_def
  by (auto simp: Let_def bind_eq_Some_conv threads_def dest!: cpu_loop_ids split: if_splits option.splits)

lemma set_ids_built:
  assumes "built w" "0 < wk_num w"
  shows "\<exists>w'. set_ids w = Some w' \<and> wk_id w' = wk_id w \<and>
    map ids (threads w') = map (Pair (wk_id w)) (wk_num w # map int [0..<nat (wk_num w)] @ (if wk_down w = None then [] else [wk_num w + 1]))"
proof -
  obtain up where "wk_up w = Some up" using assms(1) by (auto simp: built_def)
  then show ?thesis using assms by (cases "wk_down w") (simp_all add: built_def set_ids_def threads_def)
qed

section \<open>Properties\<close>

text \<open>C37. A parameter \<open>key\<close> of the section \<open>name\<close> is looked up as \<open>name:key\<close> only if the byte behind the name was zero when the object was allocated: whatever text
  \<open>g\<close> the memory of the name held there stays behind the colon, because the zero that should end the name is written behind that text.\<close>

theorem config_lookup:
  assumes "length mem = MAX_LINE_SIZE" "0 \<notin> set name" "length name + 2 \<le> MAX_LINE_SIZE" "ini_load ini f = Some d"
    and "g = cstr (drop (length name + 1) mem)" "length name + length g + 2 < MAX_LINE_SIZE"
    and "length name + 1 + length g + length key \<le> MAX_LINE_SIZE"
  shows "\<exists>c. getInstance ini mem (Some f) name None = Some c \<and>
    getstring ini c key def = Some (ini_getstring ini (Some d) (name @ 58 # g @ key) def)"
  using lookup_key_section [OF assms(1-6)] assms(7) unfolding getstring_def getInstance_def by fastforce

definition demo_ini :: "(bytes \<times> bytes) list ini" where
  "demo_ini =
     \<lparr>ini_load = (\<lambda>f. Some [(ascii ''W:num_compute_threads'', ascii ''2''), (ascii ''W:worker_id'', ascii ''7''), (ascii ''W:Xrow'', ascii ''4'')]),
      ini_getstring = (\<lambda>d k df. case d of None \<Rightarrow> df | Some l \<Rightarrow> (case map_of l k of None \<Rightarrow> df | v \<Rightarrow> v)),
      ini_getint = (\<lambda>d k df. case d of None \<Rightarrow> df | Some l \<Rightarrow> (case map_of l k of None \<Rightarrow> df | Some v \<Rightarrow> atoi v)),
      ini_getdouble = (\<lambda>d k df. df), ini_getboolean = (\<lambda>d k df. df)\<rparr>"

theorem config_lookup_witness:
  "\<exists>c. getInstance demo_ini (0 # 0 # ascii ''X'' @ replicate 1021 0) (Some []) (ascii ''W'') None = Some c \<and>
    getstring demo_ini c (ascii ''row'') None = Some (Some (ascii ''4''))"
proof -
  let ?mem = "0 # 0 # ascii ''X'' @ replicate 1021 0"
  have g: "ascii ''X'' = cstr (drop (length (ascii ''W'') + 1) ?mem)" by (simp add: ascii_def cstr_def)
  have d: "ini_load demo_ini [] = Some (the (ini_load demo_ini []))" by (simp add: demo_ini_def)
  have "0 \<notin> set (ascii ''W'')" by (simp add: ascii_def)
  from config_lookup [OF _ this _ d g, of "ascii ''row''" None] d
  have "\<exists>c. getInstance demo_ini ?mem (Some []) (ascii ''W'') None = Some c \<and>
    getstring demo_ini c (ascii ''row'') None = Some (ini_getstring demo_ini (ini_load demo_ini []) (ascii ''W'' @ 58 # ascii ''X'' @ ascii ''row'') None)"
    by (simp add: MAX_LINE_SIZE_def)
  moreover have "ini_getstring demo_ini (ini_load demo_ini []) (ascii ''W'' @ 58 # ascii ''X'' @ ascii ''row'') None = Some (ascii ''4'')"
    by (simp add: demo_ini_def ascii_def)
  ultimately show ?thesis by simp
qed

text \<open>C38. Processors are assigned as the affinity text \<open>main;c\<^sub>0,c\<^sub>1,\<dots>,c\<^sub>k;up;down\<close> says, except that the compute thread for the last number \<open>c\<^sub>k\<close>, which no comma follows,
  gets none: with one compute thread the text never has an effect on it.\<close>

theorem cpu_affinity:
  assumes "cs \<noteq> []" "\<forall>c\<in>set (m # u # d # cs). c < 2 ^ 31" "length cs \<le> length (wk_compute w) + 1" "wk_up w \<noteq> None" "wk_down w \<noteq> None"
  shows "\<exists>w'. ParseCPUAffinity (affinity_text m cs u d) w = Some w' \<and> wk_pinned w' = Some (int m) \<and>
    map_option th_cpu (wk_up w') = Some (int u) \<and> map_option th_cpu (wk_down w') = Some (int d) \<and> length (wk_compute w') = length (wk_compute w) \<and>
    (\<forall>i<length (wk_compute w). th_cpu (wk_compute w' ! i) = (if i < length cs - 1 then int (cs ! i) else th_cpu (wk_compute w ! i)))"
proof -
  obtain up dn where t: "wk_up w = Some up" "wk_down w = Some dn" using assms(4,5) by auto
  have b: "\<forall>c\<in>set cs. c < 2 ^ 31" "m < 2 ^ 31" "u < 2 ^ 31" "d < 2 ^ 31" using assms(2) by simp_all
  from cpu_loop_list [OF assms(1) b(1), of 0 "wk_compute w"] assms(3) obtain ts where
    ts: "cpu_loop (cpu_list cs) 0 (wk_compute w) = Some ts" "length ts = length (wk_compute w)"
      "\<forall>i<length (wk_compute w). ts ! i = (if i < length cs - 1 then (wk_compute w ! i)\<lparr>th_cpu := int (cs ! i)\<rparr> else wk_compute w ! i)"
    by auto
  note a = tokens_affinity [OF assms(1), of m u d] atoi_decimal(2) [OF b(2)] atoi_decimal(2) [OF b(3)] atoi_decimal(2) [OF b(4)]
  show ?thesis using t ts by (simp add: ParseCPUAffinity_def a Let_def)
qed

theorem cpu_affinity_witness:
  "\<exists>w'. ParseCPUAffinity (affinity_text 0 [1, 2] 3 4) ((mk_Worker 7 2)\<lparr>wk_compute := [new_thr, new_thr], wk_up := Some new_thr, wk_down := Some new_thr\<rparr>) = Some w' \<and>
    th_cpu (wk_compute w' ! 0) = 1 \<and> th_cpu (wk_compute w' ! 1) = -1"
proof -
  let ?w = "(mk_Worker 7 2)\<lparr>wk_compute := [new_thr, new_thr], wk_up := Some new_thr, wk_down := Some new_thr\<rparr>"
  have "\<exists>w'. ParseCPUAffinity (affinity_text 0 [1, 2] 3 4) ?w = Some w' \<and>
    (\<forall>i<length (wk_compute ?w). th_cpu (wk_compute w' ! i) = (if i < length [1, 2 :: nat] - 1 then int ([1, 2] ! i) else th_cpu (wk_compute ?w ! i)))"
    using cpu_affinity [of "[1, 2]" 0 3 4 ?w] by auto
  then obtain w' where w': "ParseCPUAffinity (affinity_text 0 [1, 2] 3 4) ?w = Some w'"
    "\<forall>i<length (wk_compute ?w). th_cpu (wk_compute w' ! i) = (if i < length [1, 2 :: nat] - 1 then int ([1, 2] ! i) else th_cpu (wk_compute ?w ! i))" by blast
  have "th_cpu (wk_compute w' ! 0) = 1" "th_cpu (wk_compute w' ! 1) = -1"
    using w'(2) [rule_format, of 0] w'(2) [rule_format, of 1] by (simp_all add: new_thr_def)
  with w'(1) show ?thesis by blast
qed


lemma demo_lookup:
  "\<exists>c. getInstance demo_ini (replicate 1024 0) (Some []) (ascii ''W'') None = Some c \<and>
    (\<forall>(get :: (bytes \<times> bytes) list option \<Rightarrow> bytes \<Rightarrow> 'v \<Rightarrow> 'v) key nf. length key < 100 \<longrightarrow>
      lookup_key get c key nf = Some (get (ini_load demo_ini []) (ascii ''W'' @ 58 # key) nf))"
proof -
  have d: "ini_load demo_ini [] = Some (the (ini_load demo_ini []))" by (simp add: demo_ini_def)
  have "0 \<notin> set (ascii ''W'')" by (simp add: ascii_def)
  moreover have "[] = cstr (drop (length (ascii ''W'') + 1) (replicate 1024 0))" by (simp add: cstr_def)
  ultimately show ?thesis using lookup_key_section [of "replicate 1024 0" "ascii ''W''" demo_ini "[]" "the (ini_load demo_ini [])" "[]"] d
    unfolding getInstance_def by (force simp: MAX_LINE_SIZE_def)
qed


end
