(* ===== verification/Coordination.thy ===== *)
theory Coordination
  imports Start_Up Adapters
begin

text \<open>
  The meeting of the workers at a ZooKeeper server: the client in each worker (\<open>src/controller/zk_worker_client.hpp\<close>, used by \<open>Worker::Start\<close>)
  and the controller (\<open>zk_controller_client.hpp\<close>, \<open>main.cpp\<close>). The server and its client library are not part of the program: what each call
  returns is the next element of a list of replies, and the calls made are recorded. The result \<open>None\<close> is a call that has no reply yet, so a
  client that waits in a loop is one that is \<open>None\<close> for the replies so far; or a write outside an array, or a file that cannot be opened.

  Proved: a worker joins when the number of workers that the controller announced is registered and not before; but the controller always
  announces zero; a worker leaves when its node is gone, and the controller deletes the node of every worker that reports its end.
\<close>

section \<open>Calls and replies\<close>

definition NODE_NAME_ALIVE :: bytes where "NODE_NAME_ALIVE = ascii ''/Alive''"

definition NODE_NAME_BARRIER :: bytes where "NODE_NAME_BARRIER = ascii ''/barrier''"

definition ZOK :: int where "ZOK = 0"

definition ZNONODE :: int where "ZNONODE = -101"

datatype zk_call =
    Z_init bytes
  | Z_exists bytes
  | Z_get bytes
  | Z_create bytes bytes bool
  | Z_get_children bytes
  | Z_wget_children bytes
  | Z_wget bytes
  | Z_set bytes bytes
  | Z_delete bytes
  | Z_close

text \<open>\<open>z_null\<close>: \<open>zookeeper_init\<close> gives no handle, with \<open>errno\<close> in \<open>z_rc\<close>. \<open>z_data\<close> is what is in the buffer of the caller after a read: the data of the
  node, without a terminating zero, and what was in the buffer before.\<close>

record zk_reply =
  z_rc :: int
  z_null :: bool
  z_data :: bytes
  z_children :: "bytes list"

record zk =
  zk_replies :: "zk_reply list"
  zk_calls :: "zk_call list"

definition zk_ask :: "zk_call \<Rightarrow> zk \<Rightarrow> (zk_reply \<times> zk) option" where
  "zk_ask q z =
     (case zk_replies z of [] \<Rightarrow> None | r # rs \<Rightarrow> Some (r, \<lparr>zk_replies = rs, zk_calls = zk_calls z @ [q]\<rparr>))"

lemma zk_ask_shorter: "zk_ask q z = Some (r, z') \<Longrightarrow> length (zk_replies z') < length (zk_replies z)"
  by (auto simp: zk_ask_def split: list.splits)

datatype zk_state = S_connected | S_auth_failed | S_expired | S_other

datatype zk_event = E_session zk_state | E_changed | E_child | E_other

section \<open>The client of a worker\<close>

record zk_worker =
  zw_server :: bytes
  zw_name :: bytes
  zw_num :: int
  zw_myid :: u64

definition ZkWorkerClient :: "bytes \<Rightarrow> bytes \<Rightarrow> zk_worker" where
  "ZkWorkerClient name addr = \<lparr>zw_server = addr, zw_name = name, zw_num = 0, zw_myid = 0\<rparr>"

definition alive_node_name :: "zk_worker \<Rightarrow> bytes" where
  "alive_node_name w = NODE_NAME_ALIVE @ ascii ''/'' @ zw_name w"

text \<open>\<open>rc\<close> gets the value of the comparison, not of the call.\<close>

function wait_server :: "zk \<Rightarrow> (int \<times> zk) option" where
  "wait_server z =
     (case zk_ask (Z_exists NODE_NAME_ALIVE) z of
        None \<Rightarrow> None
      | Some (r, z') \<Rightarrow> let rc = (if z_rc r = ZNONODE then 1 else 0) in if rc \<noteq> 0 then wait_server z' else Some (rc, z'))"
  by auto

termination by (relation "measure (length \<circ> zk_replies)") (auto simp: zk_ask_shorter)

text \<open>\<open>while (current < n)\<close>; a failed call leaves \<open>current\<close> as it is.\<close>

function wait_children :: "int \<Rightarrow> int \<Rightarrow> zk \<Rightarrow> zk option" where
  "wait_children n current z =
     (if current < n
      then (case zk_ask (Z_get_children NODE_NAME_ALIVE) z of
              None \<Rightarrow> None
            | Some (r, z') \<Rightarrow> wait_children n (if z_rc r \<noteq> 0 then current else int (length (z_children r))) z')
      else Some z)"
  by auto

termination by (relation "measure (\<lambda>(n, current, z). length (zk_replies z))") (auto simp: zk_ask_shorter)

function wait_deleted :: "bytes \<Rightarrow> zk \<Rightarrow> zk option" where
  "wait_deleted node z =
     (case zk_ask (Z_exists node) z of None \<Rightarrow> None | Some (r, z') \<Rightarrow> if z_rc r = ZOK then wait_deleted node z' else Some z')"
  by auto

termination by (relation "measure (\<lambda>(node, z). length (zk_replies z))") (auto simp: zk_ask_shorter)

declare wait_server.simps [simp del] wait_children.simps [simp del] wait_deleted.simps [simp del]

definition create_my_alive_node :: "zk_worker \<Rightarrow> zk \<Rightarrow> (zk_worker \<times> zk) option" where
  "create_my_alive_node w z =
     do { (rc, z1) \<leftarrow> wait_server z;
          if rc \<noteq> 0 then Some (w, z1)
          else do { (r, z2) \<leftarrow> zk_ask (Z_get NODE_NAME_ALIVE) z1;
                    let w1 = w\<lparr>zw_num := atoi (z_data r)\<rparr>;
                    (r', z3) \<leftarrow> zk_ask (Z_create (alive_node_name w) (ascii ''Alive'' @ [10]) True) z2;
                    z4 \<leftarrow> wait_children (zw_num w1) 0 z3;
                    Some (w1, z4) } }"

definition delete_my_alive_node :: "zk_worker \<Rightarrow> zk \<Rightarrow> zk option" where
  "delete_my_alive_node w z =
     do { (r, z1) \<leftarrow> zk_ask (Z_set (alive_node_name w) (ascii ''Dead'' @ [10])) z;
          wait_deleted (alive_node_name w) z1 }"

text \<open>The watcher of the worker closes the session but keeps its handle. \<open>client_id\<close> is what \<open>zoo_client_id\<close> returns.\<close>

definition zw_global_watcher :: "u64 \<Rightarrow> zk_event \<Rightarrow> zk_worker \<Rightarrow> zk \<Rightarrow> (zk_worker \<times> zk) option" where
  "zw_global_watcher client_id ty w z =
     (case ty of
        E_session s \<Rightarrow>
          (case s of
             S_connected \<Rightarrow> Some (if zw_myid w = 0 \<or> zw_myid w \<noteq> client_id then w\<lparr>zw_myid := client_id\<rparr> else w, z)
           | S_auth_failed \<Rightarrow> do { (r, z1) \<leftarrow> zk_ask Z_close z; Some (w, z1) }
           | S_expired \<Rightarrow> do { (r, z1) \<leftarrow> zk_ask Z_close z; Some (w, z1) }
           | S_other \<Rightarrow> Some (w, z))
      | _ \<Rightarrow> Some (w, z))"

definition zw_initialize :: "zk_worker \<Rightarrow> zk \<Rightarrow> (int \<times> zk_worker \<times> zk) option" where
  "zw_initialize w z =
     do { (h, z1) \<leftarrow> zk_ask (Z_init (zw_server w)) z;
          if z_null h then Some (z_rc h, w, z1)
          else do { (w', z2) \<leftarrow> create_my_alive_node w z1; Some (0, w', z2) } }"

definition zw_finish :: "zk_worker \<Rightarrow> zk \<Rightarrow> zk option" where
  "zw_finish w z = do { z1 \<leftarrow> delete_my_alive_node w z; (r, z2) \<leftarrow> zk_ask Z_close z1; Some z2 }"

text \<open>How \<open>Worker::Start\<close> uses the client: at its beginning, without looking at the result, and at its end.\<close>

definition start_zk :: "'d ini \<Rightarrow> 'd config \<Rightarrow> bytes \<Rightarrow> zk \<Rightarrow> (zk_worker option \<times> zk) option" where
  "start_zk ini cfg worker_name z =
     do { zk_addr \<leftarrow> getstring ini cfg (ascii ''sys.zookeeper_server'') None;
          case zk_addr of
            None \<Rightarrow> Some (None, z)
          | Some addr \<Rightarrow> do { (rc, w, z1) \<leftarrow> zw_initialize (ZkWorkerClient worker_name addr) z; Some (Some w, z1) } }"

definition finish_zk :: "zk_worker option \<Rightarrow> zk \<Rightarrow> zk option" where
  "finish_zk zk_client z = (case zk_client of None \<Rightarrow> Some z | Some w \<Rightarrow> zw_finish w z)"

section \<open>The controller\<close>

text \<open>\<open>co_open\<close>: \<open>zh\<close> is not null. \<open>num_of_workers\<close> is a count of children or its initial value, so never negative.\<close>

record coord =
  co_server :: bytes
  co_open :: bool
  co_myid :: u64
  co_num_of_workers :: nat

definition CoordinatorClient :: coord where
  "CoordinatorClient = \<lparr>co_server = [], co_open = False, co_myid = 0, co_num_of_workers = 0\<rparr>"

definition set_server_name :: "bytes \<Rightarrow> coord \<Rightarrow> coord" where
  "set_server_name addr c = c\<lparr>co_server := addr\<rparr>"

fun watch_workers :: "bytes list \<Rightarrow> zk \<Rightarrow> zk option" where
  "watch_workers [] z = Some z"
| "watch_workers (s # ss) z =
     do { (r, z1) \<leftarrow> zk_ask (Z_wget (NODE_NAME_ALIVE @ ascii ''/'' @ s)) z; watch_workers ss z1 }"

definition global_watcher :: "u64 \<Rightarrow> zk_event \<Rightarrow> bytes \<Rightarrow> coord \<Rightarrow> zk \<Rightarrow> (coord \<times> zk) option" where
  "global_watcher client_id ty path c z =
     (case ty of
        E_session s \<Rightarrow>
          (case s of
             S_connected \<Rightarrow> Some (if co_myid c = 0 \<or> co_myid c \<noteq> client_id then c\<lparr>co_myid := client_id\<rparr> else c, z)
           | S_auth_failed \<Rightarrow> do { (r, z1) \<leftarrow> zk_ask Z_close z; Some (c\<lparr>co_open := False\<rparr>, z1) }
           | S_expired \<Rightarrow> do { (r, z1) \<leftarrow> zk_ask Z_close z; Some (c\<lparr>co_open := False\<rparr>, z1) }
           | S_other \<Rightarrow> Some (c, z))
      | E_changed \<Rightarrow> do { (r, z1) \<leftarrow> zk_ask (Z_get path) z; (r', z2) \<leftarrow> zk_ask (Z_delete path) z1; Some (c, z2) }
      | E_child \<Rightarrow>
          if path = NODE_NAME_ALIVE
          then do { (r, z1) \<leftarrow> zk_ask (Z_wget_children NODE_NAME_ALIVE) z;
                    if z_rc r \<noteq> 0 then Some (c, z1)
                    else do { z2 \<leftarrow> watch_workers (z_children r) z1; Some (c\<lparr>co_num_of_workers := length (z_children r)\<rparr>, z2) } }
          else Some (c, z)
      | E_other \<Rightarrow> Some (c, z))"

definition create_barrier_node :: "zk \<Rightarrow> zk option" where
  "create_barrier_node z = map_option snd (zk_ask (Z_create NODE_NAME_BARRIER [] False) z)"

definition delete_barrier_node :: "zk \<Rightarrow> zk option" where
  "delete_barrier_node z = map_option snd (zk_ask (Z_delete NODE_NAME_BARRIER) z)"

text \<open>The nodes for configuration, state and statistics; \<open>initialize\<close> and \<open>finish\<close> do not use them. Names are formatted into 100 bytes.\<close>

fun delete_children :: "bytes \<Rightarrow> bytes list \<Rightarrow> zk \<Rightarrow> zk option" where
  "delete_children node [] z = Some z"
| "delete_children node (s # ss) z =
     (if length node + 1 + length s < 100
      then do { (r, z1) \<leftarrow> zk_ask (Z_delete (node @ ascii ''/'' @ s)) z; delete_children node ss z1 }
      else None)"

definition delete_tree :: "bytes \<Rightarrow> zk \<Rightarrow> zk option" where
  "delete_tree node z =
     do { (r, z1) \<leftarrow> zk_ask (Z_get_children node) z;
          z2 \<leftarrow> (if z_rc r \<noteq> 0 then Some z1 else delete_children node (z_children r) z1);
          map_option snd (zk_ask (Z_delete node) z2) }"

definition create_state_node :: "zk \<Rightarrow> zk option" where
  "create_state_node z = map_option snd (zk_ask (Z_create (ascii ''/state'') [] False) z)"

definition delete_state_node :: "zk \<Rightarrow> zk option" where
  "delete_state_node = delete_tree (ascii ''/state'')"

definition create_stat_node :: "zk \<Rightarrow> zk option" where
  "create_stat_node z = map_option snd (zk_ask (Z_create (ascii ''/stat'') [] False) z)"

definition delete_stat_node :: "zk \<Rightarrow> zk option" where
  "delete_stat_node = delete_tree (ascii ''/stat'')"

definition delete_config_node :: "zk \<Rightarrow> zk option" where
  "delete_config_node = delete_tree (ascii ''/Config'')"

function config_text :: "bytes \<Rightarrow> bytes" where
  "config_text f = (case fgets 100 f of None \<Rightarrow> [] | Some (l, f') \<Rightarrow> cstr l @ config_text f')"
  by auto

termination by (relation "measure length") (auto dest: fgets_shorter(2))

declare config_text.simps [simp del]

lemma config_text_whole: "0 \<notin> set f \<Longrightarrow> config_text f = f"
proof (induction f rule: config_text.induct)
  case (1 f)
  show ?case
  proof (cases "fgets 100 f")
    case None
    then show ?thesis by (simp add: config_text.simps fgets_def Let_def split: if_splits)
  next
    case (Some y)
    obtain l f' where y: "y = (l, f')" by (cases y)
    have f: "f = l @ f'" using fgets_shorter(1) [of 100 f l f'] Some y by simp
    then have "cstr l = l" using 1(2) by (auto simp: cstr_def takeWhile_eq_all_conv)
    then have "config_text f = l @ config_text f'" using Some y by (simp add: config_text.simps [of f])
    then show ?thesis using 1(1) [OF Some y [symmetric]] 1(2) f by simp
  qed
qed

definition create_config :: "bytes option \<Rightarrow> zk \<Rightarrow> zk option" where
  "create_config config_file z =
     do { (r, z1) \<leftarrow> zk_ask (Z_create (ascii ''/Config'') [] False) z;
          f \<leftarrow> config_file;
          map_option snd (zk_ask (Z_create (ascii ''/Config/Parameter'') (config_text f) False) z1) }"

definition create_alive_node :: "coord \<Rightarrow> zk \<Rightarrow> zk option" where
  "create_alive_node c z =
     do { (r, z1) \<leftarrow> zk_ask (Z_create NODE_NAME_ALIVE (decimal (co_num_of_workers c) @ [10]) False) z;
          z2 \<leftarrow> (if 0 < co_num_of_workers c then wait_children (int (co_num_of_workers c)) 0 z1 else Some z1);
          (r', z3) \<leftarrow> zk_ask (Z_wget_children NODE_NAME_ALIVE) z2;
          Some z3 }"

function wait_no_children :: "nat \<Rightarrow> zk \<Rightarrow> zk option" where
  "wait_no_children current z =
     (if 0 < current
      then (case zk_ask (Z_get_children NODE_NAME_ALIVE) z of
              None \<Rightarrow> None
            | Some (r, z') \<Rightarrow> wait_no_children (if z_rc r \<noteq> 0 then current else length (z_children r)) z')
      else Some z)"
  by auto

termination by (relation "measure (\<lambda>(current, z). length (zk_replies z))") (auto simp: zk_ask_shorter)

declare wait_no_children.simps [simp del]

definition delete_alive_node :: "coord \<Rightarrow> zk \<Rightarrow> zk option" where
  "delete_alive_node c z =
     do { z1 \<leftarrow> wait_no_children (co_num_of_workers c) z; map_option snd (zk_ask (Z_delete NODE_NAME_ALIVE) z1) }"

definition co_initialize :: "coord \<Rightarrow> zk \<Rightarrow> (int \<times> coord \<times> zk) option" where
  "co_initialize c z =
     do { (h, z1) \<leftarrow> zk_ask (Z_init (co_server c)) z;
          if z_null h then Some (z_rc h, c\<lparr>co_open := False\<rparr>, z1)
          else do { z2 \<leftarrow> create_barrier_node z1; z3 \<leftarrow> create_alive_node c z2; Some (0, c\<lparr>co_open := True\<rparr>, z3) } }"

definition co_finish :: "coord \<Rightarrow> zk \<Rightarrow> zk option" where
  "co_finish c z =
     do { z1 \<leftarrow> delete_alive_node c z; z2 \<leftarrow> delete_barrier_node z1; (r, z3) \<leftarrow> zk_ask Z_close z2; Some z3 }"

text \<open>The program of the controller: what it reads from standard input, interleaved with the callbacks of the library. The end of the input is the end of the list.\<close>

datatype co_input = Line bytes | Event u64 zk_event bytes

fun co_loop :: "co_input list \<Rightarrow> coord \<Rightarrow> zk \<Rightarrow> (coord \<times> zk) option" where
  "co_loop [] c z = Some (c, z)"
| "co_loop (Event client_id ty path # is) c z = do { (c1, z1) \<leftarrow> global_watcher client_id ty path c z; co_loop is c1 z1 }"
| "co_loop (Line str # is) c z =
     (let cmd = takeWhile (\<lambda>b. b \<noteq> 32 \<and> b \<noteq> 10) (dropWhile (\<lambda>b. b = 32 \<or> b = 10) str) in
      if cmd = ascii ''quit'' then do { z1 \<leftarrow> co_finish c z; Some (c, z1) } else co_loop is c z)"

definition co_main :: "bytes list \<Rightarrow> co_input list \<Rightarrow> zk \<Rightarrow> (int \<times> zk) option" where
  "co_main argv is z =
     (if length argv \<noteq> 2 then Some (1, z)
      else do { (rc, c, z1) \<leftarrow> co_initialize (set_server_name (argv ! 1) CoordinatorClient) z;
                if rc = 0 then do { (c', z2) \<leftarrow> co_loop is c z1; Some (0, z2) } else Some (0, z1) })"

section \<open>Waiting\<close>

lemma zk_ask_simps [simp]:
  "zk_ask q \<lparr>zk_replies = [], zk_calls = qs\<rparr> = None"
  "zk_ask q \<lparr>zk_replies = r # rs, zk_calls = qs\<rparr> = Some (r, \<lparr>zk_replies = rs, zk_calls = qs @ [q]\<rparr>)"
  by (simp_all add: zk_ask_def)

lemma wait_server_absent:
  assumes "\<forall>r\<in>set nones. z_rc r = ZNONODE"
  shows "wait_server \<lparr>zk_replies = nones, zk_calls = qs\<rparr> = None"
    and "z_rc e \<noteq> ZNONODE \<Longrightarrow> wait_server \<lparr>zk_replies = nones @ e # rest, zk_calls = qs\<rparr> =
      Some (0, \<lparr>zk_replies = rest, zk_calls = qs @ replicate (length nones + 1) (Z_exists NODE_NAME_ALIVE)\<rparr>)"
  using assms by (induction nones arbitrary: qs) (auto simp: wait_server.simps)

definition pending :: "nat \<Rightarrow> zk_reply \<Rightarrow> bool" where
  "pending n r \<longleftrightarrow> z_rc r \<noteq> 0 \<or> length (z_children r) < n"

lemma wait_children_pending:
  assumes "\<forall>r\<in>set waits. pending n r" "current < int n"
  shows "wait_children (int n) current \<lparr>zk_replies = waits, zk_calls = qs\<rparr> = None"
    and "\<not> pending n l \<Longrightarrow> wait_children (int n) current \<lparr>zk_replies = waits @ l # rest, zk_calls = qs\<rparr> =
      Some \<lparr>zk_replies = rest, zk_calls = qs @ replicate (length waits + 1) (Z_get_children NODE_NAME_ALIVE)\<rparr>"
  using assms
proof (induction waits arbitrary: qs current)
  case Nil
  {
    case 1
    then show ?case by (simp add: wait_children.simps)
  next
    case 2
    then show ?case by (simp add: wait_children.simps pending_def)
  }
next
  case (Cons a waits)
  {
    case 1
    then show ?case by (subst wait_children.simps) (simp add: Cons(1) pending_def)
  next
    case 2
    then show ?case by (subst wait_children.simps) (simp add: Cons(2) pending_def)
  }
qed

lemma wait_deleted_present:
  assumes "\<forall>r\<in>set oks. z_rc r = ZOK"
  shows "wait_deleted node \<lparr>zk_replies = oks, zk_calls = qs\<rparr> = None"
    and "z_rc e \<noteq> ZOK \<Longrightarrow> wait_deleted node \<lparr>zk_replies = oks @ e # rest, zk_calls = qs\<rparr> =
      Some \<lparr>zk_replies = rest, zk_calls = qs @ replicate (length oks + 1) (Z_exists node)\<rparr>"
  using assms by (induction oks arbitrary: qs) (auto simp: wait_deleted.simps)

lemma wait_no_children_listed:
  assumes "\<forall>r\<in>set waits. z_rc r \<noteq> 0 \<or> z_children r \<noteq> []" "0 < current"
  shows "wait_no_children current \<lparr>zk_replies = waits, zk_calls = qs\<rparr> = None"
    and "z_rc l = 0 \<Longrightarrow> z_children l = [] \<Longrightarrow> wait_no_children current \<lparr>zk_replies = waits @ l # rest, zk_calls = qs\<rparr> =
      Some \<lparr>zk_replies = rest, zk_calls = qs @ replicate (length waits + 1) (Z_get_children NODE_NAME_ALIVE)\<rparr>"
  using assms
proof (induction waits arbitrary: qs current)
  case Nil
  {
    case 1
    then show ?case by (simp add: wait_no_children.simps)
  next
    case 2
    then show ?case by (simp add: wait_no_children.simps)
  }
next
  case (Cons a waits)
  {
    case 1
    then show ?case by (subst wait_no_children.simps) (auto simp: Cons(1))
  next
    case 2
    then show ?case by (subst wait_no_children.simps) (auto simp: Cons(2))
  }
qed

section \<open>Properties\<close>

text \<open>C35. A worker joins the cluster when the workers that the controller announced are there: it asks until the controller's node exists, reads the number \<open>n\<close> in it, registers itself and
  asks for the registered workers until an answer lists at least \<open>n\<close>; then it returns. As long as every answer is an error or lists fewer, it waits.\<close>

theorem worker_joins_cluster:
  assumes "\<not> z_null h" "\<forall>r\<in>set nones. z_rc r = ZNONODE" "z_rc e \<noteq> ZNONODE" "z_data g = decimal n @ 10 # junk" "0 < n" "n < 2 ^ 31"
    and "\<forall>r\<in>set waits. pending n r" "\<not> pending n l"
  shows "zw_initialize w \<lparr>zk_replies = h # nones @ [e, g, cr] @ waits, zk_calls = []\<rparr> = None \<and>
    zw_initialize w \<lparr>zk_replies = h # nones @ [e, g, cr] @ waits @ [l] @ rest, zk_calls = []\<rparr> =
      Some (0, w\<lparr>zw_num := int n\<rparr>, \<lparr>zk_replies = rest, zk_calls = Z_init (zw_server w) # replicate (length nones + 1) (Z_exists NODE_NAME_ALIVE) @
        [Z_get NODE_NAME_ALIVE, Z_create (alive_node_name w) (ascii ''Alive'' @ [10]) True] @ replicate (length waits + 1) (Z_get_children NODE_NAME_ALIVE)\<rparr>)"
proof -
  have a: "atoi (z_data g) = int n" using assms(4,6) by (simp add: atoi_decimal)
  show ?thesis using assms(1,5) wait_server_absent(2) [OF assms(2,3)] wait_children_pending [OF assms(7)] assms(8)
    by (simp add: zw_initialize_def create_my_alive_node_def a)
qed

definition demo_reply :: "int \<Rightarrow> bytes \<Rightarrow> bytes list \<Rightarrow> zk_reply" where
  "demo_reply rc d cs = \<lparr>z_rc = rc, z_null = False, z_data = d, z_children = cs\<rparr>"

theorem worker_joins_cluster_witness:
  "zw_initialize (ZkWorkerClient [65] []) \<lparr>zk_replies = [demo_reply 0 [] [], demo_reply 0 [] [], demo_reply 0 [50, 10, 88] [], demo_reply 0 [] [], demo_reply 0 [] [[65]]], zk_calls = []\<rparr> = None \<and>
   (\<exists>z. zw_initialize (ZkWorkerClient [65] []) \<lparr>zk_replies = [demo_reply 0 [] [], demo_reply 0 [] [], demo_reply 0 [50, 10, 88] [], demo_reply 0 [] [], demo_reply 0 [] [[65]],
      demo_reply 0 [] [[65], [66]]], zk_calls = []\<rparr> = Some (0, (ZkWorkerClient [65] [])\<lparr>zw_num := 2\<rparr>, z) \<and> zk_replies z = [])"
  using worker_joins_cluster [of "demo_reply 0 [] []" "[]" "demo_reply 0 [] []" "demo_reply 0 [50, 10, 88] []" 2 "[88]" "[demo_reply 0 [] [[65]]]" "demo_reply 0 [] [[65], [66]]"
      "ZkWorkerClient [65] []" "demo_reply 0 [] []" "[]"]
  by (simp add: demo_reply_def ZNONODE_def decimal.simps pending_def)

text \<open>C36. But nothing ever tells the controller how many workers to expect: the number it announces is zero, and it waits for none. Every worker that reads this announcement returns right after it has
  registered itself, without asking for the others.\<close>

theorem controller_announces_zero:
  assumes "\<not> z_null h" "\<not> z_null h'" "\<forall>r\<in>set nones. z_rc r = ZNONODE" "z_rc e \<noteq> ZNONODE"
    and "co_initialize (set_server_name addr CoordinatorClient) \<lparr>zk_replies = h # rs, zk_calls = []\<rparr> = Some (rc, c, z)"
    and "Z_create NODE_NAME_ALIVE d False \<in> set (zk_calls z)" "z_data g = d @ junk"
  shows "rc = 0 \<and> zk_calls z = [Z_init addr, Z_create NODE_NAME_BARRIER [] False, Z_create NODE_NAME_ALIVE d False, Z_wget_children NODE_NAME_ALIVE] \<and>
    zw_initialize w \<lparr>zk_replies = h' # nones @ [e, g, cr] @ rest, zk_calls = []\<rparr> =
      Some (0, w\<lparr>zw_num := 0\<rparr>, \<lparr>zk_replies = rest, zk_calls = Z_init (zw_server w) # replicate (length nones + 1) (Z_exists NODE_NAME_ALIVE) @
        [Z_get NODE_NAME_ALIVE, Z_create (alive_node_name w) (ascii ''Alive'' @ [10]) True]\<rparr>)"
proof -
  have q: "rc = 0" "zk_calls z = [Z_init addr, Z_create NODE_NAME_BARRIER [] False, Z_create NODE_NAME_ALIVE (decimal 0 @ [10]) False, Z_wget_children NODE_NAME_ALIVE]"
    using assms(1,5) by (auto simp: co_initialize_def create_barrier_node_def create_alive_node_def set_server_name_def CoordinatorClient_def zk_ask_def
      bind_eq_Some_conv split: list.splits)
  have "NODE_NAME_ALIVE \<noteq> NODE_NAME_BARRIER" by (simp add: NODE_NAME_ALIVE_def NODE_NAME_BARRIER_def ascii_def)
  then have d: "d = decimal 0 @ [10]" using assms(6) q(2) by auto
  then have a: "atoi (z_data g) = 0" using assms(7) atoi_decimal(1) [of 0 junk] by simp
  have "wait_children 0 0 x = Some x" for x by (simp add: wait_children.simps)
  then show ?thesis using q d assms(2) wait_server_absent(2) [OF assms(3,4)] by (simp add: zw_initialize_def create_my_alive_node_def a)
qed

theorem controller_announces_zero_witness:
  "\<exists>c z. co_initialize (set_server_name [] CoordinatorClient) \<lparr>zk_replies = replicate 4 (demo_reply 0 [] []), zk_calls = []\<rparr> = Some (0, c, z) \<and>
    zw_initialize (ZkWorkerClient [65] []) \<lparr>zk_replies = [demo_reply 0 [] [], demo_reply 0 [] [], demo_reply 0 [48, 10] [], demo_reply 0 [] []], zk_calls = []\<rparr> =
      Some (0, ZkWorkerClient [65] [], \<lparr>zk_replies = [], zk_calls = [Z_init [], Z_exists NODE_NAME_ALIVE, Z_get NODE_NAME_ALIVE,
        Z_create (alive_node_name (ZkWorkerClient [65] [])) (ascii ''Alive'' @ [10]) True]\<rparr>)"
proof -
  let ?r = "demo_reply 0 [] []"
  obtain c z where i: "co_initialize (set_server_name [] CoordinatorClient) \<lparr>zk_replies = ?r # [?r, ?r, ?r], zk_calls = []\<rparr> = Some (0, c, z)"
    "Z_create NODE_NAME_ALIVE [48, 10] False \<in> set (zk_calls z)"
    by (simp add: co_initialize_def create_barrier_node_def create_alive_node_def demo_reply_def set_server_name_def CoordinatorClient_def decimal.simps)
  have "\<not> z_null ?r" "z_rc ?r \<noteq> ZNONODE" by (simp_all add: demo_reply_def ZNONODE_def)
  with controller_announces_zero [OF this(1) this(1) _ this(2) i, of "[]" "demo_reply 0 [48, 10] []" "[]" "ZkWorkerClient [65] []" ?r "[]"] i(1)
  show ?thesis by (simp add: demo_reply_def ZkWorkerClient_def numeral_eq_Suc)
qed

text \<open>A worker leaves the cluster when the controller has seen its end: it marks its node, asks until the node is gone, and closes the session; as long as the node exists it waits. The controller,
  told that the node has changed, asks the server to delete exactly this node; and its own end waits until no worker is registered, if it has seen any.\<close>

theorem worker_leaves_cluster:
  assumes "\<forall>r\<in>set oks. z_rc r = ZOK" "z_rc e \<noteq> ZOK"
    and "0 < co_num_of_workers c" "\<forall>r\<in>set waits. z_rc r \<noteq> 0 \<or> z_children r \<noteq> []" "z_rc l = 0" "z_children l = []"
  shows "zw_finish w \<lparr>zk_replies = s # oks, zk_calls = []\<rparr> = None \<and>
    zw_finish w \<lparr>zk_replies = s # oks @ [e, cl] @ rest, zk_calls = []\<rparr> =
      Some \<lparr>zk_replies = rest, zk_calls = Z_set (alive_node_name w) (ascii ''Dead'' @ [10]) # replicate (length oks + 1) (Z_exists (alive_node_name w)) @ [Z_close]\<rparr> \<and>
    global_watcher client_id E_changed (alive_node_name w) c \<lparr>zk_replies = r1 # r2 # rest, zk_calls = []\<rparr> =
      Some (c, \<lparr>zk_replies = rest, zk_calls = [Z_get (alive_node_name w), Z_delete (alive_node_name w)]\<rparr>) \<and>
    co_finish c \<lparr>zk_replies = waits, zk_calls = []\<rparr> = None \<and>
    co_finish c \<lparr>zk_replies = waits @ [l, r1, r2, cl] @ rest, zk_calls = []\<rparr> =
      Some \<lparr>zk_replies = rest, zk_calls = replicate (length waits + 1) (Z_get_children NODE_NAME_ALIVE) @ [Z_delete NODE_NAME_ALIVE, Z_delete NODE_NAME_BARRIER, Z_close]\<rparr>"
  using wait_deleted_present [OF assms(1)] assms(2) wait_no_children_listed [OF assms(4,3)] assms(5,6)
  by (simp add: zw_finish_def delete_my_alive_node_def global_watcher_def co_finish_def delete_alive_node_def delete_barrier_node_def)

theorem worker_leaves_cluster_witness:
  "zw_finish (ZkWorkerClient [65] []) \<lparr>zk_replies = [demo_reply 0 [] [], demo_reply 0 [] []], zk_calls = []\<rparr> = None \<and>
   zw_finish (ZkWorkerClient [65] []) \<lparr>zk_replies = [demo_reply 0 [] [], demo_reply 0 [] [], demo_reply (-101) [] [], demo_reply 0 [] []], zk_calls = []\<rparr> \<noteq> None \<and>
   co_finish (CoordinatorClient\<lparr>co_num_of_workers := 1\<rparr>) \<lparr>zk_replies = [demo_reply 0 [] [[65]]], zk_calls = []\<rparr> = None"
  using worker_leaves_cluster [of "[demo_reply 0 [] []]" "demo_reply (-101) [] []" "CoordinatorClient\<lparr>co_num_of_workers := 1\<rparr>" "[demo_reply 0 [] [[65]]]" "demo_reply 0 [] []"
      "ZkWorkerClient [65] []" "demo_reply 0 [] []" "demo_reply 0 [] []" "[]"]
  by (simp add: demo_reply_def ZOK_def)

end
