(* ===== verification/Spec2Isabelle.thy ===== *)
theory Spec2Isabelle
  imports Recovery Cm_Input Engine Msg Mailbox Worker Callbacks Io_Threads Coordination
begin

text \<open>
  AF-Stream: a verification library of its runtime.

  AF-Stream is a distributed stream-processing runtime in C++. A \<^emph>\<open>worker\<close> process runs compute threads
  that exchange records through lock-free queues (\<open>src/queues\<close>); records leave and enter a worker over
  TCP through a derivative of libzmq (\<open>src/net\<close>); the state of an operator is backed up approximately,
  only when it has diverged from its last backup by more than a threshold (\<open>src/operator\<close>,
  \<open>src/fault_tolerance\<close>), and restored from the backup server after a crash. \<open>apps/count_min\<close> is the
  heavy-hitter application built on all of this.

  How the parts interact. A worker (\<open>worker.hpp\<close>) starts its threads, which report to it through mailboxes. An up
  thread receives records and hands them to compute threads through an in-callback; a compute thread calls the
  application and writes to the mesh of queues; a down thread reads the mesh through one out-callback per
  connection and sends. Both network threads run an event loop (\<open>epoll.cpp\<close>) whose clients are the connecter,
  the listener and the engines. End marks travel the same way and end the threads. After each iteration
  a compute thread backs up those of its operators that have diverged; the worker forwards the items to the
  backup server and asks it for them at start.

  Theories, in the order of their dependencies:

  \<^item> \<open>Prelude\<close>: the types of machine integers and byte strings, copying into buffers, little-endian
    images, 64-bit signed arithmetic, shared lemmas and collections. \<open>C_Text\<close>: the C library on strings and numbers in text.
  \<^item> \<open>Wire\<close>: \<open>wire.hpp\<close>.
  \<^item> \<open>Framing\<close>: \<open>encoder.hpp\<close>, \<open>v2_encoder.cpp\<close>, \<open>decoder.hpp\<close>, \<open>v2_decoder.cpp\<close> and the decode loop
    of \<open>stream_engine.cpp\<close>. The step functions the code keeps as member pointers are a datatype.
  \<^item> \<open>Ring_Buffer\<close>: \<open>zerocopy_ringbuffer.hpp\<close>, one producer and one consumer, every operation an atomic
    step of an interleaving. Interface: locale \<open>spsc_channel\<close>, interpreted as \<open>ring\<close>.
  \<^item> \<open>Mesh\<close>: the queues of the mesh, its writers and readers.
  \<^item> \<open>Ft_Operators\<close>: \<open>array_max.hpp\<close>, \<open>array_l1.hpp\<close>, \<open>array_l2.hpp\<close>.
  \<^item> \<open>Backup\<close>: \<open>backup_server.cpp\<close>, \<open>backup_client.cpp\<close>, \<open>backup_item.hpp\<close>.
  \<^item> \<open>Recovery\<close>: \<open>operator_tracker.cpp\<close> and the backup pass of \<open>compute_thread.hpp\<close>.
  \<^item> \<open>Compute_Thread\<close>: \<open>wrap_item.hpp\<close> and the rest of \<open>compute_thread.hpp\<close>; the application is a record of callbacks.
  \<^item> \<open>Callbacks\<close>: \<open>in_callback_simple.hpp\<close> and \<open>out_callback_simple.hpp\<close>, on rings and mesh.
  \<^item> \<open>Count_Min\<close>, \<open>Cm_App\<close>: \<open>hash.cpp\<close>, \<open>cm_sketch.hpp\<close>, \<open>cm_item.hpp\<close>, \<open>cm_thread.hpp\<close>, \<open>merge_thread.hpp\<close>.
  \<^item> \<open>Adapters\<close>, \<open>Trace\<close>, \<open>Cm_Input\<close>: \<open>adapter_ram.hpp\<close>, \<open>adapter_disk.hpp\<close>, \<open>adapter_recovery.hpp\<close>, \<open>router_rr.hpp\<close>,
    \<open>up_thread_trace.hpp\<close>, \<open>raw_item.hpp\<close> and the parsing of \<open>cm_thread.hpp\<close>. Interfaces: locales \<open>record_source\<close> (an adapter, interpreted as
    \<open>ram_source\<close>, \<open>disk_source\<close>, \<open>rec_source\<close>), \<open>record_type\<close> and \<open>trace_thread\<close> (interpreted as \<open>ram_trace\<close> and \<open>cm_trace\<close>).
  \<^item> \<open>Tcp_Address\<close>, \<open>Options\<close>: \<open>tcp_address.cpp\<close>, \<open>options.cpp\<close>.
  \<^item> \<open>Msg\<close>: \<open>msg.cpp\<close>, message variables over a heap of reference-counted contents.
  \<^item> \<open>Mechanism\<close>, \<open>Engine\<close>: \<open>mechanism.cpp\<close>, \<open>null_mechanism.cpp\<close>, \<open>stream_engine.cpp\<close>. The socket is a list of what
    reads and writes give, the application a list of records to send and one of records received.
  \<^item> \<open>Poller\<close>: \<open>clock.cpp\<close>, \<open>poller_base.cpp\<close>, \<open>epoll.cpp\<close>. Contract of its clients: locale \<open>poll_clients\<close>.
  \<^item> \<open>Io_World\<close>, \<open>Tcp_Connecter\<close>, \<open>Tcp_Listener\<close>, \<open>Io_Threads\<close>: the clients of the poller in one I/O thread and their
    invariant, \<open>tcp_connecter.cpp\<close>, \<open>tcp_listener.cpp\<close>, \<open>down_thread_net.hpp\<close>, \<open>up_thread_net.hpp\<close>; the interpretation
    \<open>io\<close> of \<open>poll_clients\<close>.
  \<^item> \<open>Yqueue\<close>, \<open>Ypipe\<close>, \<open>Mailbox\<close>: \<open>yqueue.hpp\<close> over an explicit heap of chunks, \<open>ypipe.hpp\<close>, \<open>signaler.cpp\<close>, \<open>mailbox.cpp\<close>.
    Interface between pipe and mailbox: locale \<open>spsc_pipe\<close>, interpreted as \<open>cpipe\<close>.
  \<^item> \<open>Worker\<close>: \<open>thread.cpp\<close> and \<open>worker.hpp\<close>, the messages between the main thread of a worker and the others as a
    step relation.
  \<^item> \<open>Start_Up\<close>: \<open>config.cpp\<close>, the programs \<open>cm_worker.cpp\<close> and \<open>merge_worker.cpp\<close>, and how \<open>worker.hpp\<close> numbers its threads and places
    them on processors. The parser of ini files is a parameter.
  \<^item> \<open>Coordination\<close>: \<open>zk_worker_client.hpp\<close>, \<open>zk_controller_client.hpp\<close> and \<open>main.cpp\<close> of \<open>src/controller\<close>, over the replies of the ZooKeeper library.

  What is shown.

  \<^item> Transport: frames survive any fragmentation, the encoder emits exactly the bytes of its messages, the
    greeting works for any arrival of its bytes, and two engines back to back deliver the records of the sender.
  \<^item> Memory: messages are freed once and have the values of independent variables; slots of the mesh have one owner;
    poll entries and chunks are freed once and not used afterwards.
  \<^item> Concurrency: rings, pipe and mailbox are queues in every interleaving of their calls; no wake-up is lost; the worker
    protocol cannot deadlock and can always finish.
  \<^item> Input: the lines of a trace file reach the compute threads in order and once, and are parsed as what they say.
  \<^item> Processing: a compute thread equals its reference semantics, the end of the streams reaches it and it ends.
  \<^item> Fault tolerance: what a recovery restores, how far it is from the lost state, what the backup server returns.
  \<^item> Estimation: the bounds of the Count-Min sketch with the real hash functions, merging of sketches.
  \<^item> Start: numbers and processors of the threads, what the configuration looks up, when workers join and leave the cluster.
  \<^item> Control: timers, connecting, reconnecting and listening, socket options, address texts and filters.

  Loops. Loops that consume a list are structurally recursive; the encoder and the greeting have termination proofs by
  measures (bytes left; bytes to come); \<open>timers_loop\<close> is a partial function, shown to return when the clients add only later
  timers. Loops that wait for other threads are runs over a script or a step relation: what arrives, or
  which thread moves, is universally quantified. No fuel is used in a definition; where a theorem names a number of
  iterations it is shown to be enough.

  Interleavings are of whole calls with sequentially consistent memory, in the mailbox of the steps between its
  synchronisation points. Allocation either is an argument or succeeds.

  Not modelled. The experimental trace threads (\<open>up_thread_trace_afs.hpp\<close> and others): most of them include headers that the
  repository does not have. \<open>stream_engine_orig.cpp\<close>, \<open>fake_tcp_connector.cpp\<close> and \<open>apps/count_min/cm_sketch.cpp\<close> are not
  part of the build; the operators \<open>hashmap_max.hpp\<close>, \<open>hashmap_l1.hpp\<close>, \<open>hashmap_l2.hpp\<close>, \<open>hashmap_cnt.hpp\<close> and \<open>set_cnt.hpp\<close> are included
  by no program and do not compile when instantiated; \<open>src/controller/cli.c\<close> is the command line of ZooKeeper. The calls that take back the writers' slots after
  the main loop are modelled with the mesh only. Tuning of sockets, the system calls behind processor affinity, and log output.
\<close>

section \<open>Two engines back to back\<close>

lemma rec_bytes_frames: "rec_bytes rs = concat (map frame_bytes (map (rec_frame \<circ> fst) rs))"
  by (induction rs) auto

lemma rec_frame_parts: "map fdata (map (rec_frame \<circ> fst) rs) = map fst rs"
  by (simp add: rec_frame_def comp_def)



end
